(* ===== verification/Ngx_Prelude.thy ===== *)
theory Ngx_Prelude
  imports Main "HOL-Library.Word"
begin

unbundle bit_operations_syntax

section \<open>Prelude\<close>

text \<open>
  What every component theory shares: the types that stand for nginx's C types, the
  return codes of \<open>src/core/ngx_core.h\<close>, reading a NUL-terminated string, the
  two's-complement wrap of \<open>ngx_int_t\<close>, and the lemmas on lists, bytes and words that
  carry the component proofs.

  A \<open>u_char\<close> is a \<open>8 word\<close>. A pair \<open>(u_char *p, size_t n)\<close>, an \<open>ngx_str_t\<close> and the bytes
  \<open>[b->pos, b->last)\<close> of a buffer are the list of the bytes they delimit; a pointer into
  such a region is an offset or the list of the bytes still ahead of it. \<open>size_t\<close> and
  \<open>ngx_uint_t\<close> values that count bytes in memory are \<open>nat\<close>; an \<open>ngx_int_t\<close> on which the code
  does arithmetic is an \<open>int\<close> wrapped by \<open>s64\<close> at every operation that could leave the
  64-bit range.

  The \<open>dprintf(trace_file_fd, ...)\<close> statements the repository adds to nginx write a trace
  and change no state of the program; they have no counterpart here.
\<close>

type_synonym byte = "8 word"
type_synonym bytes = "byte list"

text \<open>An address in a store of linked objects.\<close>

type_synonym addr = nat

abbreviation ch :: "char \<Rightarrow> byte" where
  "ch c \<equiv> of_char c"

abbreviation str :: "string \<Rightarrow> bytes" where
  "str s \<equiv> map of_char s"

named_theorems byte_defs \<open>character classes, unfolded to comparisons of bytes\<close>
named_theorems wrap_simps \<open>values inside the 64-bit range are not changed by wrapping\<close>

subsection \<open>Return codes\<close>

text \<open>\<open>NGX_OK\<close>, \<open>NGX_ERROR\<close>, ... of \<open>ngx_core.h\<close> and the parse results of
  \<open>ngx_http_request.h\<close>, which the parsers return through the same \<open>ngx_int_t\<close>.\<close>

datatype ngx_rc = NGX_OK | NGX_ERROR | NGX_AGAIN | NGX_BUSY | NGX_DONE | NGX_DECLINED | NGX_ABORT
  | NGX_HTTP_PARSE_HEADER_DONE | NGX_HTTP_PARSE_INVALID_METHOD | NGX_HTTP_PARSE_INVALID_REQUEST
  | NGX_HTTP_PARSE_INVALID_VERSION | NGX_HTTP_PARSE_INVALID_09_METHOD
  | NGX_HTTP_PARSE_INVALID_HEADER

subsection \<open>64-bit signed arithmetic\<close>

definition s64 :: "int \<Rightarrow> int" where
  "s64 x = signed_take_bit 63 x"

definition NGX_MAX_INT_T_VALUE :: int where
  "NGX_MAX_INT_T_VALUE = 9223372036854775807"

lemma s64_id [wrap_simps]: "- (2 ^ 63) \<le> x \<Longrightarrow> x < 2 ^ 63 \<Longrightarrow> s64 x = x"
  by (simp add: s64_def signed_take_bit_int_eq_self)

lemma s64_nonneg_id [wrap_simps]: "0 \<le> x \<Longrightarrow> x \<le> NGX_MAX_INT_T_VALUE \<Longrightarrow> s64 x = x"
  by (rule s64_id) (auto simp: NGX_MAX_INT_T_VALUE_def)

subsection \<open>Character classes\<close>

definition is_dec :: "byte \<Rightarrow> bool" where
  "is_dec c \<longleftrightarrow> ch CHR ''0'' \<le> c \<and> c \<le> ch CHR ''9''"

definition is_upper :: "byte \<Rightarrow> bool" where
  "is_upper c \<longleftrightarrow> ch CHR ''A'' \<le> c \<and> c \<le> ch CHR ''Z''"

definition is_lower :: "byte \<Rightarrow> bool" where
  "is_lower c \<longleftrightarrow> ch CHR ''a'' \<le> c \<and> c \<le> ch CHR ''z''"

lemma is_dec_unat: "is_dec c \<longleftrightarrow> 48 \<le> unat c \<and> unat c \<le> 57"
  by (simp add: is_dec_def word_le_nat_alt)

lemma is_upper_unat: "is_upper c \<longleftrightarrow> 65 \<le> unat c \<and> unat c \<le> 90"
  by (simp add: is_upper_def word_le_nat_alt)

lemma is_lower_unat: "is_lower c \<longleftrightarrow> 97 \<le> unat c \<and> unat c \<le> 122"
  by (simp add: is_lower_def word_le_nat_alt)

lemma is_dec_uint: "is_dec c \<longleftrightarrow> 48 \<le> uint c \<and> uint c \<le> 57"
  by (simp add: is_dec_def word_le_def)

lemma not_is_dec: "\<not> is_dec c \<longleftrightarrow> c < 48 \<or> 57 < c"
  by (auto simp: is_dec_def not_le)

lemmas byte_class_unat = is_dec_unat is_upper_unat is_lower_unat

declare is_dec_def [byte_defs] is_upper_def [byte_defs] is_lower_def [byte_defs]

subsection \<open>Finite checks over all bytes\<close>

text \<open>
  A statement about one byte is a conjunction of 256 closed instances. The lemma turns it
  into a list check that the kernel evaluates.
\<close>

lemma unat_byte_less [simp]: "unat (c :: byte) < 256"
  by (rule order.strict_trans2 [OF unsigned_less]) simp

lemma uint_eq_iff [simp]: "uint (a :: byte) = uint b \<longleftrightarrow> a = b"
  by (simp add: word_uint_eq_iff)

lemma byte_all_upt:
  "(\<And>i. i \<in> set [0..<256] \<Longrightarrow> P (word_of_nat i :: byte)) \<Longrightarrow> P c"
proof -
  assume *: "\<And>i. i \<in> set [0..<256] \<Longrightarrow> P (word_of_nat i :: byte)"
  have "unat c < 256"
    by (rule unat_byte_less)
  then have "P (word_of_nat (unat c))"
    by (intro *) simp
  then show "P c" by simp
qed

definition all_bytes :: "byte list" where
  "all_bytes = map word_of_nat [0..<256]"

lemma byte_all_list: "list_all P all_bytes \<Longrightarrow> P c"
  by (rule byte_all_upt) (simp add: all_bytes_def list_all_iff)

subsection \<open>Masks and shifts as arithmetic\<close>

lemma unat_and_mask: "unat (w AND mask n) = unat (w :: 'a :: len word) mod 2 ^ n"
  by (simp flip: take_bit_eq_mask take_bit_eq_mod add: unsigned_take_bit_eq)

lemma unat_and_masks:
  "unat ((w :: 'a :: len word) AND 3) = unat w mod 4"
  "unat (w AND 7) = unat w mod 8"
  "unat (w AND 15) = unat w mod 16"
  "unat (w AND 31) = unat w mod 32"
  "unat (w AND 63) = unat w mod 64"
  using unat_and_mask [of w 2] unat_and_mask [of w 3] unat_and_mask [of w 4]
    unat_and_mask [of w 5] unat_and_mask [of w 6]
  by (simp_all add: mask_numeral)

lemma unat_drop_bit: "unat (drop_bit n w) = unat (w :: 'a :: len word) div 2 ^ n"
  unfolding unat_drop_bit_eq by (rule drop_bit_eq_div)

subsection \<open>Bits of a byte\<close>

lemma unat_lt_pow2I:
  fixes w :: "'a :: len word"
  assumes "\<And>k. n \<le> k \<Longrightarrow> k < LENGTH('a) \<Longrightarrow> \<not> bit w k"
  shows "unat w < 2 ^ n"
proof -
  have "take_bit n w = w"
    using assms by (intro bit_word_eqI) (auto simp: bit_simps not_less[symmetric])
  then have "unat w = take_bit n (unat w)"
    by (metis unsigned_take_bit_eq)
  then show ?thesis by (metis take_bit_nat_less_exp)
qed

lemma byte_bitI: "(\<And>n. n \<in> {0, 1, 2, 3, 4, 5, 6, 7} \<Longrightarrow> bit v n = bit w n) \<Longrightarrow> v = (w :: byte)"
proof (rule bit_word_eqI)
  fix n assume h: "\<And>n. n \<in> {0, 1, 2, 3, 4, 5, 6, 7} \<Longrightarrow> bit v n = bit w n" and n: "n < LENGTH(8)"
  from n have "n < 8" by simp
  then have "n = 0 \<or> n = 1 \<or> n = 2 \<or> n = 3 \<or> n = 4 \<or> n = 5 \<or> n = 6 \<or> n = 7"
    by linarith
  then show "bit v n = bit w n" by (intro h) simp
qed

lemma byte_bit_high: "8 \<le> n \<Longrightarrow> \<not> bit (w :: byte) n"
  by (simp add: impossible_bit)

subsection \<open>NUL-terminated strings\<close>

text \<open>
  A C string is the list of the bytes before the end of its region, the terminating NUL
  left out: reading at the end of the list gives the NUL.
\<close>

definition rd :: "bytes \<Rightarrow> byte" where
  "rd s = (case s of [] \<Rightarrow> 0 | c # _ \<Rightarrow> c)"

lemma rd_simps [simp]: "rd [] = 0" "rd (c # s) = c"
  by (simp_all add: rd_def)

end
