(* ===== verification/Ngx_Number.thy ===== *)
theory Ngx_Number
  imports Ngx_Prelude
begin

unbundle bit_operations_syntax

section \<open>Numbers in text: \<open>ngx_atoi\<close> and its kin\<close>

text \<open>
  The number readers of \<open>src/core/ngx_string.c\<close>: \<open>ngx_atoi\<close>, \<open>ngx_atosz\<close>, \<open>ngx_atoof\<close>,
  \<open>ngx_atotm\<close> (one loop, four limits), the fixed-point \<open>ngx_atofp\<close>, \<open>ngx_hextoi\<close> and
  \<open>ngx_hex_dump\<close>. \<open>None\<close> is \<open>NGX_ERROR\<close>. The accumulator is a signed 64-bit value: each update
  goes through \<open>s64\<close>, so that no overflow is a theorem and not an assumption.
\<close>

subsection \<open>Definitions\<close>

definition dig :: "byte \<Rightarrow> int" where
  "dig c = uint c - 48"

fun ngx_ato_loop :: "int \<Rightarrow> int \<Rightarrow> bytes \<Rightarrow> int option" where
  "ngx_ato_loop mx value [] = Some value"
| "ngx_ato_loop mx value (c # line) =
     (let cutoff = mx div 10; cutlim = mx mod 10 in
      if c < ch CHR ''0'' \<or> c > ch CHR ''9'' then None
      else if value \<ge> cutoff \<and> (value > cutoff \<or> dig c > cutlim) then None
      else ngx_ato_loop mx (s64 (s64 (value * 10) + dig c)) line)"

definition NGX_MAX_SIZE_T_VALUE :: int where
  "NGX_MAX_SIZE_T_VALUE = 9223372036854775807"

definition NGX_MAX_OFF_T_VALUE :: int where
  "NGX_MAX_OFF_T_VALUE = 9223372036854775807"

definition NGX_MAX_TIME_T_VALUE :: int where
  "NGX_MAX_TIME_T_VALUE = 9223372036854775807"

definition ngx_atoi :: "bytes \<Rightarrow> int option" where
  "ngx_atoi line = (if line = [] then None else ngx_ato_loop NGX_MAX_INT_T_VALUE 0 line)"

definition ngx_atosz :: "bytes \<Rightarrow> int option" where
  "ngx_atosz line = (if line = [] then None else ngx_ato_loop NGX_MAX_SIZE_T_VALUE 0 line)"

definition ngx_atoof :: "bytes \<Rightarrow> int option" where
  "ngx_atoof line = (if line = [] then None else ngx_ato_loop NGX_MAX_OFF_T_VALUE 0 line)"

definition ngx_atotm :: "bytes \<Rightarrow> int option" where
  "ngx_atotm line = (if line = [] then None else ngx_ato_loop NGX_MAX_TIME_T_VALUE 0 line)"

text \<open>
  \<open>ngx_atofp\<close>: the first loop reads digits and at most one dot and counts \<open>point\<close> down for
  each digit after the dot; the second scales by the digits that are missing.
\<close>

fun ngx_atofp_scale :: "int \<Rightarrow> nat \<Rightarrow> int option" where
  "ngx_atofp_scale value 0 = Some value"
| "ngx_atofp_scale value (Suc point) =
     (if value > NGX_MAX_INT_T_VALUE div 10 then None
      else ngx_atofp_scale (s64 (value * 10)) point)"

fun ngx_atofp_loop :: "int \<Rightarrow> bool \<Rightarrow> nat \<Rightarrow> bytes \<Rightarrow> (int \<times> nat) option" where
  "ngx_atofp_loop value dot point [] = Some (value, point)"
| "ngx_atofp_loop value dot point (c # line) =
     (let cutoff = NGX_MAX_INT_T_VALUE div 10; cutlim = NGX_MAX_INT_T_VALUE mod 10 in
      if point = 0 then None
      else if c = ch CHR ''.'' then
        (if dot then None else ngx_atofp_loop value True point line)
      else if c < ch CHR ''0'' \<or> c > ch CHR ''9'' then None
      else if value \<ge> cutoff \<and> (value > cutoff \<or> dig c > cutlim) then None
      else ngx_atofp_loop (s64 (s64 (value * 10) + dig c)) dot (point - of_bool dot) line)"

definition ngx_atofp :: "bytes \<Rightarrow> nat \<Rightarrow> int option" where
  "ngx_atofp line point =
     (if line = [] then None
      else case ngx_atofp_loop 0 False point line of
        None \<Rightarrow> None
      | Some (value, point) \<Rightarrow> ngx_atofp_scale value point)"

text \<open>The hexadecimal digit test shared by \<open>ngx_hextoi\<close> and the URI decoders: \<open>ch | 0x20\<close>
  folds the letter to lower case first.\<close>

definition hex_digit :: "byte \<Rightarrow> int option" where
  "hex_digit c =
     (if c \<ge> ch CHR ''0'' \<and> c \<le> ch CHR ''9'' then Some (uint c - 48)
      else (let c' = c OR 0x20 in
        if c' \<ge> ch CHR ''a'' \<and> c' \<le> ch CHR ''f'' then Some (uint c' - 97 + 10)
        else None))"

fun ngx_hextoi_loop :: "int \<Rightarrow> bytes \<Rightarrow> int option" where
  "ngx_hextoi_loop value [] = Some value"
| "ngx_hextoi_loop value (c # line) =
     (if value > NGX_MAX_INT_T_VALUE div 16 then None
      else case hex_digit c of
        None \<Rightarrow> None
      | Some d \<Rightarrow> ngx_hextoi_loop (s64 (s64 (value * 16) + d)) line)"

definition ngx_hextoi :: "bytes \<Rightarrow> int option" where
  "ngx_hextoi line = (if line = [] then None else ngx_hextoi_loop 0 line)"

definition hex_lower :: bytes where
  "hex_lower = str ''0123456789abcdef''"

definition hex_upper :: bytes where
  "hex_upper = str ''0123456789ABCDEF''"

fun ngx_hex_dump :: "bytes \<Rightarrow> bytes" where
  "ngx_hex_dump [] = []"
| "ngx_hex_dump (c # src) =
     hex_lower ! unat (drop_bit 4 c) # hex_lower ! unat (c AND 0xf) # ngx_hex_dump src"

subsection \<open>The value a numeral denotes\<close>

definition dec_val :: "bytes \<Rightarrow> int" where
  "dec_val s = foldl (\<lambda>v c. v * 10 + dig c) 0 s"

definition dec_from :: "int \<Rightarrow> bytes \<Rightarrow> int" where
  "dec_from v s = foldl (\<lambda>v c. v * 10 + dig c) v s"

lemma dec_val_from: "dec_val s = dec_from 0 s"
  by (simp add: dec_val_def dec_from_def)

lemma dec_from_simps [simp]:
  "dec_from v [] = v"
  "dec_from v (c # s) = dec_from (v * 10 + dig c) s"
  by (simp_all add: dec_from_def)

lemma dec_from_append: "dec_from v (a @ b) = dec_from (dec_from v a) b"
  by (simp add: dec_from_def)

lemma dig_range: "is_dec c \<Longrightarrow> 0 \<le> dig c \<and> dig c \<le> 9"
  by (auto simp: dig_def is_dec_uint)

lemma dec_from_ge: "0 \<le> v \<Longrightarrow> list_all is_dec s \<Longrightarrow> v \<le> dec_from v s"
proof (induction s arbitrary: v)
  case (Cons c s)
  then have "v * 10 + dig c \<le> dec_from (v * 10 + dig c) s"
    using dig_range [of c] by auto
  then show ?case using Cons.prems dig_range [of c] by auto
qed simp

text \<open>The guard of the loop is exactly "the next value exceeds the limit".\<close>

lemma cutoff_iff:
  assumes "0 \<le> d" "d \<le> 9" "0 \<le> (mx :: int)"
  shows "(v \<ge> mx div 10 \<and> (v > mx div 10 \<or> d > mx mod 10)) \<longleftrightarrow> v * 10 + d > mx"
proof -
  have "mx = 10 * (mx div 10) + mx mod 10" and "0 \<le> mx mod 10" and "mx mod 10 < 10"
    by simp_all
  with assms show ?thesis by linarith
qed

lemma ngx_ato_loop_eq:
  assumes "0 \<le> v" "v \<le> mx" "mx \<le> NGX_MAX_INT_T_VALUE"
  shows "ngx_ato_loop mx v s =
    (if list_all is_dec s \<and> dec_from v s \<le> mx then Some (dec_from v s) else None)"
  using assms
proof (induction s arbitrary: v)
  case Nil
  then show ?case by simp
next
  case (Cons c s)
  show ?case
  proof (cases "is_dec c")
    case False
    then show ?thesis by (auto simp: Let_def not_is_dec)
  next
    case True
    note d = dig_range [OF True]
    note cut = cutoff_iff [of "dig c" mx v]
    show ?thesis
    proof (cases "v * 10 + dig c > mx")
      case over: True
      have "list_all is_dec s \<Longrightarrow> v * 10 + dig c \<le> dec_from (v * 10 + dig c) s"
        using Cons.prems d by (intro dec_from_ge) auto
      then show ?thesis
        using over d cut True Cons.prems by (auto simp: Let_def)
    next
      case False
      have "s64 (s64 (v * 10) + dig c) = v * 10 + dig c"
        using False d Cons.prems by (simp add: wrap_simps)
      then show ?thesis
        using False d cut True Cons.prems Cons.IH [of "v * 10 + dig c"]
        by (auto simp: Let_def is_dec_def)
    qed
  qed
qed

subsection \<open>Fixed point\<close>

lemma ngx_atofp_scale_eq:
  assumes "0 \<le> v" "v \<le> NGX_MAX_INT_T_VALUE"
  shows "ngx_atofp_scale v p =
    (if v * 10 ^ p \<le> NGX_MAX_INT_T_VALUE then Some (v * 10 ^ p) else None)"
  using assms
proof (induction p arbitrary: v)
  case 0
  then show ?case by simp
next
  case (Suc p)
  have scale: "v * 10 ^ Suc p = (v * 10) * 10 ^ p" by simp
  show ?case
  proof (cases "v > NGX_MAX_INT_T_VALUE div 10")
    case True
    then have "v * 10 > NGX_MAX_INT_T_VALUE"
      by (simp add: NGX_MAX_INT_T_VALUE_def)
    moreover have "(1::int) \<le> 10 ^ p" by simp
    then have "v * 10 * 1 \<le> (v * 10) * 10 ^ p"
      using Suc.prems by (intro mult_left_mono) auto
    ultimately show ?thesis using True scale by simp
  next
    case False
    then have le: "v * 10 \<le> NGX_MAX_INT_T_VALUE"
      by (simp add: NGX_MAX_INT_T_VALUE_def)
    then have "s64 (v * 10) = v * 10"
      using Suc.prems by (simp add: wrap_simps)
    then show ?thesis
      using False le Suc.prems Suc.IH [of "v * 10"] scale by simp
  qed
qed

lemma dec_ne_dot: "is_dec c \<Longrightarrow> c \<noteq> 46"
  by (auto simp: is_dec_def)

text \<open>Digits after the dot: each one uses up a decimal place.\<close>

lemma ngx_atofp_loop_frac:
  assumes "0 \<le> v" "v \<le> NGX_MAX_INT_T_VALUE"
  shows "ngx_atofp_loop v True p b =
    (if list_all is_dec b \<and> length b \<le> p \<and> dec_from v b \<le> NGX_MAX_INT_T_VALUE
     then Some (dec_from v b, p - length b) else None)"
  using assms
proof (induction b arbitrary: v p)
  case Nil
  then show ?case by simp
next
  case (Cons c b)
  have mx: "0 \<le> NGX_MAX_INT_T_VALUE" by (simp add: NGX_MAX_INT_T_VALUE_def)
  show ?case
  proof (cases "is_dec c")
    case False
    then show ?thesis by (auto simp: Let_def not_is_dec)
  next
    case c: True
    note d = dig_range [OF c]
    note cut = cutoff_iff [of "dig c" NGX_MAX_INT_T_VALUE v]
    show ?thesis
    proof (cases "v * 10 + dig c > NGX_MAX_INT_T_VALUE")
      case True
      have "list_all is_dec b \<Longrightarrow> v * 10 + dig c \<le> dec_from (v * 10 + dig c) b"
        using Cons.prems d by (intro dec_from_ge) auto
      then show ?thesis
        using True d cut c mx dec_ne_dot [OF c] by (auto simp: Let_def)
    next
      case False
      have "s64 (s64 (v * 10) + dig c) = v * 10 + dig c"
        using False d Cons.prems by (simp add: wrap_simps)
      then show ?thesis
        using False d cut c mx Cons.prems Cons.IH [of "v * 10 + dig c" "p - 1"] dec_ne_dot [OF c]
        by (auto simp: Let_def is_dec_def)
    qed
  qed
qed

text \<open>Digits before the dot (or with no dot) leave \<open>point\<close> alone.\<close>

lemma ngx_atofp_loop_int:
  assumes "list_all is_dec a" "0 \<le> v" "v \<le> NGX_MAX_INT_T_VALUE" "0 < p"
  shows "ngx_atofp_loop v False p (a @ rest) =
    (if dec_from v a \<le> NGX_MAX_INT_T_VALUE
     then ngx_atofp_loop (dec_from v a) False p rest else None)"
  using assms
proof (induction a arbitrary: v)
  case Nil
  then show ?case by simp
next
  case (Cons c a)
  then have c: "is_dec c" and a: "list_all is_dec a" by auto
  note d = dig_range [OF c]
  note cut = cutoff_iff [of "dig c" NGX_MAX_INT_T_VALUE v]
  have mx: "0 \<le> NGX_MAX_INT_T_VALUE" by (simp add: NGX_MAX_INT_T_VALUE_def)
  show ?case
  proof (cases "v * 10 + dig c > NGX_MAX_INT_T_VALUE")
    case True
    have "v * 10 + dig c \<le> dec_from (v * 10 + dig c) a"
      using Cons.prems d a by (intro dec_from_ge) auto
    then show ?thesis
      using True d cut c mx Cons.prems dec_ne_dot [OF c] by (auto simp: Let_def)
  next
    case False
    have "s64 (s64 (v * 10) + dig c) = v * 10 + dig c"
      using False d Cons.prems by (simp add: wrap_simps)
    then show ?thesis
      using False d cut c a mx Cons.prems Cons.IH [of "v * 10 + dig c"] dec_ne_dot [OF c]
      by (auto simp: Let_def is_dec_def)
  qed
qed

lemma ngx_atofp_split:
  assumes "0 < p" "list_all is_dec a" "rest = [] \<or> \<not> is_dec (hd rest)"
  shows "ngx_atofp_loop 0 False p (a @ rest) =
    (if dec_val a \<le> NGX_MAX_INT_T_VALUE then
       (case rest of [] \<Rightarrow> Some (dec_val a, p)
        | c # b \<Rightarrow> if c = ch CHR ''.'' then ngx_atofp_loop (dec_val a) True p b else None)
     else None)"
proof -
  have "ngx_atofp_loop 0 False p (a @ rest) =
    (if dec_val a \<le> NGX_MAX_INT_T_VALUE then ngx_atofp_loop (dec_val a) False p rest else None)"
    using ngx_atofp_loop_int [of a 0 p rest] assms
    by (simp add: dec_val_from NGX_MAX_INT_T_VALUE_def)
  then show ?thesis
    using assms by (auto simp: not_is_dec Let_def split: list.split)
qed

definition atofp_shape :: "bytes \<Rightarrow> bytes \<Rightarrow> bytes \<Rightarrow> bool" where
  "atofp_shape s a b \<longleftrightarrow> list_all is_dec a \<and> list_all is_dec b \<and>
     (s = a @ ch CHR ''.'' # b \<or> s = a \<and> a \<noteq> [] \<and> b = [])"

lemma dec_val_append_le:
  "list_all is_dec a \<Longrightarrow> list_all is_dec b \<Longrightarrow> dec_val (a @ b) \<le> m \<Longrightarrow> dec_val a \<le> m"
proof -
  assume a: "list_all is_dec a" and b: "list_all is_dec b" and le: "dec_val (a @ b) \<le> m"
  have "0 \<le> dec_from 0 a" using dec_from_ge [of 0 a] a by simp
  then have "dec_from 0 a \<le> dec_from (dec_from 0 a) b" using b by (rule dec_from_ge)
  then show ?thesis using le by (simp add: dec_val_from dec_from_append)
qed

lemma ngx_atofp_point_0: "ngx_atofp s 0 = None"
  by (cases s) (simp_all add: ngx_atofp_def)

lemma ngx_atofp_shape_eq:
  assumes sh: "atofp_shape s a b" and p: "0 < p"
  shows "ngx_atofp s p =
    (if length b \<le> p \<and> dec_val (a @ b) * 10 ^ (p - length b) \<le> NGX_MAX_INT_T_VALUE
     then Some (dec_val (a @ b) * 10 ^ (p - length b)) else None)"
proof -
  have a: "list_all is_dec a" and b: "list_all is_dec b"
    using sh by (auto simp: atofp_shape_def)
  have nonneg: "0 \<le> dec_val a" "0 \<le> dec_val (a @ b)"
    using dec_from_ge [of 0 a] dec_from_ge [of 0 "a @ b"] a b by (auto simp: dec_val_from)
  have ab: "dec_from (dec_val a) b = dec_val (a @ b)"
    by (simp add: dec_val_from dec_from_append)
  have one: "1 \<le> (10 :: int) ^ k" for k by simp
  have le_scaled: "dec_val (a @ b) \<le> dec_val (a @ b) * 10 ^ k" for k
    using mult_left_mono [OF one [of k] nonneg(2)] by simp
  have loop: "ngx_atofp_loop 0 False p s =
      (if length b \<le> p \<and> dec_val (a @ b) \<le> NGX_MAX_INT_T_VALUE
       then Some (dec_val (a @ b), p - length b) else None)"
  proof (cases "s = a \<and> a \<noteq> [] \<and> b = []")
    case True
    then show ?thesis using ngx_atofp_split [of p a "[]"] p a by simp
  next
    case False
    then have "s = a @ ch CHR ''.'' # b" using sh by (auto simp: atofp_shape_def)
    then show ?thesis
      using ngx_atofp_split [of p a "ch CHR ''.'' # b"] p a b nonneg ab
        ngx_atofp_loop_frac [of "dec_val a" p b] dec_val_append_le [OF a b]
      by (auto simp: is_dec_def)
  qed
  have "s \<noteq> []" using sh by (auto simp: atofp_shape_def)
  then show ?thesis
    using loop nonneg le_scaled [of "p - length b"]
    by (auto simp: ngx_atofp_def ngx_atofp_scale_eq)
qed

lemma ngx_atofp_Some_shape:
  assumes "ngx_atofp s p = Some v"
  shows "0 < p \<and> (\<exists>a b. atofp_shape s a b)"
proof -
  have p: "0 < p" using assms ngx_atofp_point_0 [of s] by (cases p) auto
  define a where "a = takeWhile is_dec s"
  define rest where "rest = dropWhile is_dec s"
  have s: "s = a @ rest" by (simp add: a_def rest_def)
  have a: "list_all is_dec a" by (auto simp: a_def list_all_iff dest: set_takeWhileD)
  have r: "rest = [] \<or> \<not> is_dec (hd rest)"
    using hd_dropWhile [of is_dec s] by (auto simp: rest_def)
  have ne: "s \<noteq> []" and loop: "ngx_atofp_loop 0 False p (a @ rest) \<noteq> None"
    using assms s by (auto simp: ngx_atofp_def split: if_splits option.splits)
  have "0 \<le> dec_val a" using dec_from_ge [of 0 a] a by (auto simp: dec_val_from)
  then have "atofp_shape s a (tl rest)"
    using loop ne ngx_atofp_split [OF p a r] ngx_atofp_loop_frac [of "dec_val a" p "tl rest"] s a
    by (auto simp: atofp_shape_def split: if_splits list.splits)
  with p show ?thesis by blast
qed

subsection \<open>Hexadecimal\<close>

definition hex_from :: "int \<Rightarrow> bytes \<Rightarrow> int" where
  "hex_from v s = foldl (\<lambda>v c. v * 16 + the (hex_digit c)) v s"

lemma hex_from_simps [simp]:
  "hex_from v [] = v"
  "hex_from v (c # s) = hex_from (v * 16 + the (hex_digit c)) s"
  by (simp_all add: hex_from_def)

lemma hex_digit_range: "hex_digit c = Some d \<Longrightarrow> 0 \<le> d \<and> d < 16"
  by (auto simp: hex_digit_def Let_def word_le_def split: if_splits)

lemma hex_from_ge:
  "0 \<le> v \<Longrightarrow> list_all (\<lambda>c. hex_digit c \<noteq> None) s \<Longrightarrow> v \<le> hex_from v s"
proof (induction s arbitrary: v)
  case (Cons c s)
  then obtain d where d: "hex_digit c = Some d" by auto
  then have "v * 16 + d \<le> hex_from (v * 16 + d) s"
    using Cons hex_digit_range [OF d] by auto
  then show ?case using Cons.prems hex_digit_range [OF d] d by auto
qed simp

lemma ngx_hextoi_loop_eq:
  assumes "0 \<le> v" "v \<le> NGX_MAX_INT_T_VALUE"
  shows "ngx_hextoi_loop v s =
    (if list_all (\<lambda>c. hex_digit c \<noteq> None) s \<and> hex_from v s \<le> NGX_MAX_INT_T_VALUE
     then Some (hex_from v s) else None)"
  using assms
proof (induction s arbitrary: v)
  case Nil
  then show ?case by simp
next
  case (Cons c s)
  show ?case
  proof (cases "hex_digit c")
    case None
    then show ?thesis by simp
  next
    case (Some d)
    note d = hex_digit_range [OF Some]
    show ?thesis
    proof (cases "v > NGX_MAX_INT_T_VALUE div 16")
      case True
      then have "v * 16 + d > NGX_MAX_INT_T_VALUE"
        using d by (simp add: NGX_MAX_INT_T_VALUE_def)
      moreover have "list_all (\<lambda>c. hex_digit c \<noteq> None) s \<Longrightarrow> v * 16 + d \<le> hex_from (v * 16 + d) s"
        using Cons.prems d by (intro hex_from_ge) auto
      ultimately show ?thesis using True Some by auto
    next
      case False
      then have le: "v * 16 + d \<le> NGX_MAX_INT_T_VALUE"
        using d by (simp add: NGX_MAX_INT_T_VALUE_def)
      then have "s64 (s64 (v * 16) + d) = v * 16 + d"
        using d Cons.prems by (simp add: wrap_simps)
      then show ?thesis
        using False le d Cons.prems Cons.IH [of "v * 16 + d"] Some by simp
    qed
  qed
qed

lemma nibble_bounds: "unat (drop_bit 4 (c :: byte)) < 16" "unat ((c :: byte) AND 15) < 16"
  using unat_byte_less [of c] by (simp_all add: unat_drop_bit unat_and_masks del: unat_byte_less)

lemma nibble_split: "uint (c :: byte) = 16 * uint (drop_bit 4 c) + uint (c AND 15)"
proof -
  have "unat c = 16 * unat (drop_bit 4 c) + unat (c AND 15)"
    by (simp add: unat_drop_bit unat_and_masks)
  then have "int (unat c) = int (16 * unat (drop_bit 4 c) + unat (c AND 15))"
    by (rule arg_cong)
  then show ?thesis by simp
qed

lemma hex_digit_lower: "i < 16 \<Longrightarrow> hex_digit (hex_lower ! i) = Some (int i)"
proof -
  assume "i < 16"
  then have "i \<in> set [0..<16]" by simp
  then show ?thesis
    by (auto simp: hex_lower_def hex_digit_def upt_rec)
qed

lemma hex_digit_upper: "i < 16 \<Longrightarrow> hex_digit (hex_upper ! i) = Some (int i)"
proof -
  assume "i < 16"
  then have "i \<in> set [0..<16]" by simp
  then show ?thesis
    by (auto simp: hex_upper_def hex_digit_def upt_rec)
qed

lemma hex_from_dump: "hex_from v (ngx_hex_dump s) = foldl (\<lambda>v c. v * 256 + uint c) v s"
proof (induction s arbitrary: v)
  case Nil
  then show ?case by simp
next
  case (Cons c s)
  have "hex_digit (hex_lower ! unat (drop_bit 4 c)) = Some (uint (drop_bit 4 c))"
    and "hex_digit (hex_lower ! unat (c AND 15)) = Some (uint (c AND 15))"
    by (simp_all add: hex_digit_lower nibble_bounds)
  then show ?case
    using Cons nibble_split [of c] by (simp add: algebra_simps)
qed

lemma hex_dump_digits: "list_all (\<lambda>c. hex_digit c \<noteq> None) (ngx_hex_dump s)"
  by (induction s) (auto simp: hex_digit_lower nibble_bounds)

subsection \<open>Properties\<close>

text \<open>C40. \<open>ngx_atoi\<close>, \<open>ngx_atosz\<close>, \<open>ngx_atoof\<close> and \<open>ngx_atotm\<close> return the value of the decimal
  numeral for every non-empty string of digits whose value fits the type, and \<open>NGX_ERROR\<close> for
  every other input: the cutoff test rejects exactly the numerals that overflow, and the 64-bit
  accumulator never wraps.\<close>

theorem ngx_ato_correct:
  "ngx_atoi s = (if s \<noteq> [] \<and> list_all is_dec s \<and> dec_val s \<le> NGX_MAX_INT_T_VALUE
     then Some (dec_val s) else None) \<and>
   ngx_atosz s = (if s \<noteq> [] \<and> list_all is_dec s \<and> dec_val s \<le> NGX_MAX_SIZE_T_VALUE
     then Some (dec_val s) else None) \<and>
   ngx_atoof s = (if s \<noteq> [] \<and> list_all is_dec s \<and> dec_val s \<le> NGX_MAX_OFF_T_VALUE
     then Some (dec_val s) else None) \<and>
   ngx_atotm s = (if s \<noteq> [] \<and> list_all is_dec s \<and> dec_val s \<le> NGX_MAX_TIME_T_VALUE
     then Some (dec_val s) else None)"
  using ngx_ato_loop_eq [of 0 NGX_MAX_INT_T_VALUE s]
  by (simp add: ngx_atoi_def ngx_atosz_def ngx_atoof_def ngx_atotm_def dec_val_from
      NGX_MAX_INT_T_VALUE_def NGX_MAX_SIZE_T_VALUE_def NGX_MAX_OFF_T_VALUE_def
      NGX_MAX_TIME_T_VALUE_def)

text \<open>C36. \<open>ngx_atofp line n point\<close> succeeds exactly on digits with at most one dot and at most
  \<open>point\<close> digits after it, and then returns the number scaled by \<open>10 ^ point\<close>
  (\<open>ngx_atofp("10.5", 4, 2)\<close> is 1050); a result that does not fit \<open>ngx_int_t\<close> is an error.\<close>

theorem ngx_atofp_correct:
  "ngx_atofp s p = Some v \<longleftrightarrow>
     0 < p \<and> (\<exists>a b. atofp_shape s a b \<and> length b \<le> p \<and>
       v = dec_val (a @ b) * 10 ^ (p - length b) \<and> v \<le> NGX_MAX_INT_T_VALUE)"
proof
  assume r: "ngx_atofp s p = Some v"
  then obtain a b where p: "0 < p" and sh: "atofp_shape s a b"
    using ngx_atofp_Some_shape by blast
  then show "0 < p \<and> (\<exists>a b. atofp_shape s a b \<and> length b \<le> p \<and>
       v = dec_val (a @ b) * 10 ^ (p - length b) \<and> v \<le> NGX_MAX_INT_T_VALUE)"
    using r ngx_atofp_shape_eq [OF sh p] by (auto split: if_splits)
next
  assume "0 < p \<and> (\<exists>a b. atofp_shape s a b \<and> length b \<le> p \<and>
       v = dec_val (a @ b) * 10 ^ (p - length b) \<and> v \<le> NGX_MAX_INT_T_VALUE)"
  then show "ngx_atofp s p = Some v"
    by (auto simp: ngx_atofp_shape_eq)
qed

text \<open>\<open>ngx_hextoi\<close> reads back what \<open>ngx_hex_dump\<close> writes: the dump of a non-empty byte
  string is the big-endian number the bytes denote, an error if that number does not fit.\<close>

theorem ngx_hextoi_hex_dump:
  "ngx_hextoi (ngx_hex_dump s) =
     (let n = foldl (\<lambda>v c. v * 256 + uint c) 0 s in
      if s \<noteq> [] \<and> n \<le> NGX_MAX_INT_T_VALUE then Some n else None)"
  using hex_dump_digits [of s] ngx_hextoi_loop_eq [of 0 "ngx_hex_dump s"]
  by (cases s) (simp_all add: ngx_hextoi_def hex_from_dump [symmetric] NGX_MAX_INT_T_VALUE_def)

end
