(* ===== verification/Ngx_Base64.thy ===== *)
theory Ngx_Base64
  imports Ngx_Prelude
begin

unbundle bit_operations_syntax

section \<open>Base64\<close>

text \<open>
  \<open>ngx_encode_base64\<close>, \<open>ngx_encode_base64url\<close>, \<open>ngx_decode_base64\<close> and \<open>ngx_decode_base64url\<close>
  of \<open>src/core/ngx_string.c\<close>, with the alphabets and the inverse tables as the source has them.
  The value 77 of an inverse table marks a byte outside the alphabet. The locale
  \<open>base64_alphabet\<close> states what an alphabet and its table promise each other; the round trip
  is proved once in it and interpreted on both alphabets.
\<close>

subsection \<open>Tables\<close>

definition basis64 :: bytes where
  "basis64 = str ''ABCDEFGHIJKLMNOPQRSTUVWXYZabcdefghijklmnopqrstuvwxyz0123456789+/''"

definition basis64url :: bytes where
  "basis64url = str ''ABCDEFGHIJKLMNOPQRSTUVWXYZabcdefghijklmnopqrstuvwxyz0123456789-_''"

definition unbasis64 :: bytes where
  "unbasis64 =
     [77, 77, 77, 77, 77, 77, 77, 77, 77, 77, 77, 77, 77, 77, 77, 77,
      77, 77, 77, 77, 77, 77, 77, 77, 77, 77, 77, 77, 77, 77, 77, 77,
      77, 77, 77, 77, 77, 77, 77, 77, 77, 77, 77, 62, 77, 77, 77, 63,
      52, 53, 54, 55, 56, 57, 58, 59, 60, 61, 77, 77, 77, 77, 77, 77,
      77, 0, 1, 2, 3, 4, 5, 6, 7, 8, 9, 10, 11, 12, 13, 14,
      15, 16, 17, 18, 19, 20, 21, 22, 23, 24, 25, 77, 77, 77, 77, 77,
      77, 26, 27, 28, 29, 30, 31, 32, 33, 34, 35, 36, 37, 38, 39, 40,
      41, 42, 43, 44, 45, 46, 47, 48, 49, 50, 51, 77, 77, 77, 77, 77,
      77, 77, 77, 77, 77, 77, 77, 77, 77, 77, 77, 77, 77, 77, 77, 77,
      77, 77, 77, 77, 77, 77, 77, 77, 77, 77, 77, 77, 77, 77, 77, 77,
      77, 77, 77, 77, 77, 77, 77, 77, 77, 77, 77, 77, 77, 77, 77, 77,
      77, 77, 77, 77, 77, 77, 77, 77, 77, 77, 77, 77, 77, 77, 77, 77,
      77, 77, 77, 77, 77, 77, 77, 77, 77, 77, 77, 77, 77, 77, 77, 77,
      77, 77, 77, 77, 77, 77, 77, 77, 77, 77, 77, 77, 77, 77, 77, 77,
      77, 77, 77, 77, 77, 77, 77, 77, 77, 77, 77, 77, 77, 77, 77, 77,
      77, 77, 77, 77, 77, 77, 77, 77, 77, 77, 77, 77, 77, 77, 77, 77]"

definition unbasis64url :: bytes where
  "unbasis64url =
     [77, 77, 77, 77, 77, 77, 77, 77, 77, 77, 77, 77, 77, 77, 77, 77,
      77, 77, 77, 77, 77, 77, 77, 77, 77, 77, 77, 77, 77, 77, 77, 77,
      77, 77, 77, 77, 77, 77, 77, 77, 77, 77, 77, 77, 77, 62, 77, 77,
      52, 53, 54, 55, 56, 57, 58, 59, 60, 61, 77, 77, 77, 77, 77, 77,
      77, 0, 1, 2, 3, 4, 5, 6, 7, 8, 9, 10, 11, 12, 13, 14,
      15, 16, 17, 18, 19, 20, 21, 22, 23, 24, 25, 77, 77, 77, 77, 63,
      77, 26, 27, 28, 29, 30, 31, 32, 33, 34, 35, 36, 37, 38, 39, 40,
      41, 42, 43, 44, 45, 46, 47, 48, 49, 50, 51, 77, 77, 77, 77, 77,
      77, 77, 77, 77, 77, 77, 77, 77, 77, 77, 77, 77, 77, 77, 77, 77,
      77, 77, 77, 77, 77, 77, 77, 77, 77, 77, 77, 77, 77, 77, 77, 77,
      77, 77, 77, 77, 77, 77, 77, 77, 77, 77, 77, 77, 77, 77, 77, 77,
      77, 77, 77, 77, 77, 77, 77, 77, 77, 77, 77, 77, 77, 77, 77, 77,
      77, 77, 77, 77, 77, 77, 77, 77, 77, 77, 77, 77, 77, 77, 77, 77,
      77, 77, 77, 77, 77, 77, 77, 77, 77, 77, 77, 77, 77, 77, 77, 77,
      77, 77, 77, 77, 77, 77, 77, 77, 77, 77, 77, 77, 77, 77, 77, 77,
      77, 77, 77, 77, 77, 77, 77, 77, 77, 77, 77, 77, 77, 77, 77, 77]"

subsection \<open>Encoding\<close>

fun ngx_encode_base64_internal :: "bytes \<Rightarrow> bool \<Rightarrow> bytes \<Rightarrow> bytes" where
  "ngx_encode_base64_internal basis padding (s0 # s1 # s2 # s) =
     basis ! unat (drop_bit 2 s0 AND 0x3f)
     # basis ! unat (push_bit 4 (s0 AND 3) OR drop_bit 4 s1)
     # basis ! unat (push_bit 2 (s1 AND 0x0f) OR drop_bit 6 s2)
     # basis ! unat (s2 AND 0x3f)
     # ngx_encode_base64_internal basis padding s"
| "ngx_encode_base64_internal basis padding [] = []"
| "ngx_encode_base64_internal basis padding [s0] =
     basis ! unat (drop_bit 2 s0 AND 0x3f)
     # basis ! unat (push_bit 4 (s0 AND 3))
     # (if padding then [ch CHR ''='', ch CHR ''=''] else [])"
| "ngx_encode_base64_internal basis padding [s0, s1] =
     basis ! unat (drop_bit 2 s0 AND 0x3f)
     # basis ! unat (push_bit 4 (s0 AND 3) OR drop_bit 4 s1)
     # basis ! unat (push_bit 2 (s1 AND 0x0f))
     # (if padding then [ch CHR ''=''] else [])"

definition ngx_encode_base64 :: "bytes \<Rightarrow> bytes" where
  "ngx_encode_base64 src = ngx_encode_base64_internal basis64 True src"

definition ngx_encode_base64url :: "bytes \<Rightarrow> bytes" where
  "ngx_encode_base64url src = ngx_encode_base64_internal basis64url False src"

definition ngx_base64_encoded_length :: "nat \<Rightarrow> nat" where
  "ngx_base64_encoded_length len = ((len + 2) div 3) * 4"

definition ngx_base64_decoded_length :: "nat \<Rightarrow> nat" where
  "ngx_base64_decoded_length len = ((len + 3) div 4) * 3"

subsection \<open>Decoding\<close>

text \<open>The scan of \<open>ngx_decode_base64_internal\<close>: the number of bytes before the first \<open>=\<close>, an
  error at the first byte outside the alphabet.\<close>

fun base64_scan :: "bytes \<Rightarrow> nat \<Rightarrow> bytes \<Rightarrow> nat option" where
  "base64_scan basis len [] = Some len"
| "base64_scan basis len (c # src) =
     (if c = ch CHR ''='' then Some len
      else if basis ! unat c = 77 then None
      else base64_scan basis (Suc len) src)"

text \<open>The decoding loop and the one or two bytes of the last, incomplete group. The list is
  what the scan delimited.\<close>

fun base64_groups :: "bytes \<Rightarrow> bytes \<Rightarrow> bytes" where
  "base64_groups basis (s0 # s1 # s2 # s3 # s) =
     (push_bit 2 (basis ! unat s0) OR drop_bit 4 (basis ! unat s1))
     # (push_bit 4 (basis ! unat s1) OR drop_bit 2 (basis ! unat s2))
     # (push_bit 6 (basis ! unat s2) OR basis ! unat s3)
     # base64_groups basis s"
| "base64_groups basis [s0, s1, s2] =
     [push_bit 2 (basis ! unat s0) OR drop_bit 4 (basis ! unat s1),
      push_bit 4 (basis ! unat s1) OR drop_bit 2 (basis ! unat s2)]"
| "base64_groups basis [s0, s1] =
     [push_bit 2 (basis ! unat s0) OR drop_bit 4 (basis ! unat s1)]"
| "base64_groups basis [s0] = []"
| "base64_groups basis [] = []"

definition ngx_decode_base64_internal :: "bytes \<Rightarrow> bytes \<Rightarrow> bytes option" where
  "ngx_decode_base64_internal basis src =
     (case base64_scan basis 0 src of
        None \<Rightarrow> None
      | Some len \<Rightarrow>
          if len mod 4 = 1 then None
          else Some (base64_groups basis (take len src)))"

definition ngx_decode_base64 :: "bytes \<Rightarrow> bytes option" where
  "ngx_decode_base64 src = ngx_decode_base64_internal unbasis64 src"

definition ngx_decode_base64url :: "bytes \<Rightarrow> bytes option" where
  "ngx_decode_base64url src = ngx_decode_base64_internal unbasis64url src"

subsection \<open>The scan\<close>

abbreviation b64_clean :: "bytes \<Rightarrow> bytes \<Rightarrow> bool" where
  "b64_clean basis s \<equiv> list_all (\<lambda>c. c \<noteq> ch CHR ''='' \<and> basis ! unat c \<noteq> 77) s"

lemma base64_scan_clean:
  "b64_clean basis s \<Longrightarrow> base64_scan basis n (s @ t) = base64_scan basis (n + length s) t"
  by (induction s arbitrary: n) auto

lemma base64_scan_eq:
  "base64_scan basis n src =
     (if list_all (\<lambda>c. basis ! unat c \<noteq> 77) (takeWhile (\<lambda>c. c \<noteq> ch CHR ''='') src)
      then Some (n + length (takeWhile (\<lambda>c. c \<noteq> ch CHR ''='') src)) else None)"
  by (induction src arbitrary: n) auto

lemma base64_groups_length:
  "length (base64_groups basis s) = (length s div 4) * 3 + (length s mod 4 - 1)"
proof (induction basis s rule: base64_groups.induct)
  case (1 basis s0 s1 s2 s3 s)
  have "(4 + length s) div 4 = Suc (length s div 4)" by simp
  with 1 show ?case by simp
qed simp_all

lemma groups_of_three: "(5 + n) div 3 = Suc ((2 + n) div 3)" for n :: nat
  by simp

lemma encode_length_padded:
  "length (ngx_encode_base64_internal basis True s) = ngx_base64_encoded_length (length s)"
  by (induction basis True s rule: ngx_encode_base64_internal.induct)
    (simp_all add: ngx_base64_encoded_length_def groups_of_three)

lemma encode_length_le:
  "length (ngx_encode_base64_internal basis False s) \<le> ngx_base64_encoded_length (length s)"
  by (induction basis False s rule: ngx_encode_base64_internal.induct)
    (simp_all add: ngx_base64_encoded_length_def groups_of_three)

subsection \<open>Six-bit groups\<close>

lemma byte_lt64I: "\<not> bit w 6 \<Longrightarrow> \<not> bit w 7 \<Longrightarrow> unat (w :: byte) < 64"
proof -
  assume b: "\<not> bit w 6" "\<not> bit w 7"
  have "unat w < 2 ^ 6"
  proof (rule unat_lt_pow2I)
    fix k assume "6 \<le> k" "k < LENGTH(8)"
    then have "k = 6 \<or> k = 7" by auto
    with b show "\<not> bit w k" by auto
  qed
  then show ?thesis by simp
qed

lemma six_bits_lt:
  "unat (drop_bit 2 (a :: byte) AND 63) < 64"
  "unat (push_bit 4 ((a :: byte) AND 3) OR drop_bit 4 (b :: byte)) < 64"
  "unat (push_bit 2 ((b :: byte) AND 15) OR drop_bit 6 (c :: byte)) < 64"
  "unat ((c :: byte) AND 63) < 64"
  "unat (push_bit 4 ((a :: byte) AND 3)) < 64"
  "unat (push_bit 2 ((b :: byte) AND 15)) < 64"
  by (rule byte_lt64I; simp add: bit_simps byte_bit_high)+

lemma group_bits:
  fixes a b c :: byte
  shows "push_bit 2 (drop_bit 2 a AND 63) OR drop_bit 4 (push_bit 4 (a AND 3) OR drop_bit 4 b) = a"
    and "push_bit 4 (push_bit 4 (a AND 3) OR drop_bit 4 b)
           OR drop_bit 2 (push_bit 2 (b AND 15) OR drop_bit 6 c) = b"
    and "push_bit 6 (push_bit 2 (b AND 15) OR drop_bit 6 c) OR (c AND 63) = c"
    and "push_bit 2 (drop_bit 2 a AND 63) OR drop_bit 4 (push_bit 4 (a AND 3)) = a"
    and "push_bit 4 (push_bit 4 (a AND 3) OR drop_bit 4 b) OR drop_bit 2 (push_bit 2 (b AND 15)) = b"
  by (rule byte_bitI; auto simp: bit_simps byte_bit_high simp flip: numeral_2_eq_2 numeral_3_eq_3)+

lemma groups_of_three_induct [case_names three nil one two]:
  assumes "\<And>a b c s. P s \<Longrightarrow> P (a # b # c # s)" "P []" "\<And>a. P [a]" "\<And>a b. P [a, b]"
  shows "P (s :: bytes)"
  using assms by (rule ngx_encode_base64_internal.induct [where P = "\<lambda>_ _. P"])

subsection \<open>The contract of an alphabet and its table\<close>

locale base64_alphabet =
  fixes enc :: bytes and dec :: bytes
  assumes table: "i < 64 \<Longrightarrow> dec ! unat (enc ! i) = word_of_nat i"
    and no_pad: "i < 64 \<Longrightarrow> enc ! i \<noteq> ch CHR ''=''"
begin

lemma digit: "unat (w :: byte) < 64 \<Longrightarrow> dec ! unat (enc ! unat w) = w"
  by (simp add: table)

lemma digit_clean: "unat (w :: byte) < 64 \<Longrightarrow> enc ! unat w \<noteq> 61 \<and> dec ! unat (enc ! unat w) \<noteq> 77"
proof -
  assume w: "unat w < 64"
  then have "w \<noteq> 77" by auto
  with w show ?thesis using no_pad [OF w] by (simp add: digit)
qed

lemma encode_shape:
  "\<exists>e p. ngx_encode_base64_internal enc padding s = e @ p \<and> b64_clean dec e \<and>
     length e mod 4 \<noteq> 1 \<and> (p = [] \<or> hd p = ch CHR ''='') \<and> base64_groups dec e = s"
proof (induction s rule: groups_of_three_induct)
  case (three s0 s1 s2 s)
  then obtain e p where ep: "ngx_encode_base64_internal enc padding s = e @ p"
    "b64_clean dec e" "length e mod 4 \<noteq> 1" "p = [] \<or> hd p = ch CHR ''=''"
    "base64_groups dec e = s"
    by blast
  let ?e = "enc ! unat (drop_bit 2 s0 AND 63)
     # enc ! unat (push_bit 4 (s0 AND 3) OR drop_bit 4 s1)
     # enc ! unat (push_bit 2 (s1 AND 15) OR drop_bit 6 s2)
     # enc ! unat (s2 AND 63) # e"
  have "b64_clean dec ?e" using ep(2) by (simp add: digit_clean six_bits_lt del: push_bit_and)
  moreover have "base64_groups dec ?e = s0 # s1 # s2 # s"
    using ep(5) by (simp only: base64_groups.simps digit six_bits_lt group_bits)
  ultimately show ?case
    using ep by (intro exI [of _ ?e] exI [of _ p]) simp
next
  case nil
  show ?case by (intro exI [of _ "[]"]) simp
next
  case (one s0)
  let ?e = "[enc ! unat (drop_bit 2 s0 AND 63), enc ! unat (push_bit 4 (s0 AND 3))]"
  let ?p = "if padding then [ch CHR ''='', ch CHR ''=''] else []"
  have "b64_clean dec ?e" by (simp add: digit_clean six_bits_lt del: push_bit_and)
  moreover have "base64_groups dec ?e = [s0]"
    by (simp only: base64_groups.simps digit six_bits_lt group_bits)
  ultimately have "ngx_encode_base64_internal enc padding [s0] = ?e @ ?p \<and> b64_clean dec ?e \<and>
     length ?e mod 4 \<noteq> 1 \<and> (?p = [] \<or> hd ?p = ch CHR ''='') \<and> base64_groups dec ?e = [s0]"
    by simp
  then show ?case by blast
next
  case (two s0 s1)
  let ?e = "[enc ! unat (drop_bit 2 s0 AND 63),
    enc ! unat (push_bit 4 (s0 AND 3) OR drop_bit 4 s1), enc ! unat (push_bit 2 (s1 AND 15))]"
  let ?p = "if padding then [ch CHR ''=''] else []"
  have "b64_clean dec ?e" by (simp add: digit_clean six_bits_lt del: push_bit_and)
  moreover have "base64_groups dec ?e = [s0, s1]"
    by (simp only: base64_groups.simps digit six_bits_lt group_bits)
  ultimately have "ngx_encode_base64_internal enc padding [s0, s1] = ?e @ ?p \<and> b64_clean dec ?e \<and>
     length ?e mod 4 \<noteq> 1 \<and> (?p = [] \<or> hd ?p = ch CHR ''='') \<and> base64_groups dec ?e = [s0, s1]"
    by simp
  then show ?case by blast
qed

lemma decode_encode:
  "ngx_decode_base64_internal dec (ngx_encode_base64_internal enc padding s) = Some s"
proof -
  obtain e p where ep: "ngx_encode_base64_internal enc padding s = e @ p"
    "b64_clean dec e" "length e mod 4 \<noteq> 1" "p = [] \<or> hd p = ch CHR ''=''"
    "base64_groups dec e = s"
    using encode_shape by blast
  have "base64_scan dec 0 (e @ p) = Some (length e)"
    using base64_scan_clean [OF ep(2), of 0 p] ep(4) by (cases p) auto
  then show ?thesis using ep by (simp add: ngx_decode_base64_internal_def)
qed

end

lemma basis64_table:
  "list_all (\<lambda>i. unbasis64 ! unat (basis64 ! i) = word_of_nat i \<and> basis64 ! i \<noteq> ch CHR ''='') [0..<64]"
  by (simp add: basis64_def unbasis64_def upt_rec)

lemma basis64url_table:
  "list_all (\<lambda>i. unbasis64url ! unat (basis64url ! i) = word_of_nat i
     \<and> basis64url ! i \<noteq> ch CHR ''='') [0..<64]"
  by (simp add: basis64url_def unbasis64url_def upt_rec)

interpretation std: base64_alphabet basis64 unbasis64
  using basis64_table by unfold_locales (auto simp: list_all_iff)

interpretation url: base64_alphabet basis64url unbasis64url
  using basis64url_table by unfold_locales (auto simp: list_all_iff)

subsection \<open>Properties\<close>

text \<open>C39. Decoding what the encoder writes gives back the bytes, for the padded standard
  alphabet and for the unpadded URL alphabet, at every length.\<close>

theorem base64_roundtrip:
  "ngx_decode_base64 (ngx_encode_base64 s) = Some s \<and>
   ngx_decode_base64url (ngx_encode_base64url s) = Some s"
  by (simp add: ngx_decode_base64_def ngx_encode_base64_def ngx_decode_base64url_def
      ngx_encode_base64url_def std.decode_encode url.decode_encode)

text \<open>The length macros the callers size their buffers with are enough: the padded encoder
  writes exactly \<open>ngx_base64_encoded_length\<close> bytes, the unpadded one at most as many, and a
  decoder writes at most \<open>ngx_base64_decoded_length\<close> bytes; it fails exactly on a byte outside
  the alphabet before the first \<open>=\<close> and on a length of 1 modulo 4.\<close>

theorem base64_lengths:
  "length (ngx_encode_base64 s) = ngx_base64_encoded_length (length s) \<and>
   length (ngx_encode_base64url s) \<le> ngx_base64_encoded_length (length s) \<and>
   (let body = takeWhile (\<lambda>c. c \<noteq> ch CHR ''='') s in
    case ngx_decode_base64 s of
      None \<Rightarrow> list_ex (\<lambda>c. unbasis64 ! unat c = 77) body \<or> length body mod 4 = 1
    | Some d \<Rightarrow> list_all (\<lambda>c. unbasis64 ! unat c \<noteq> 77) body \<and> length body mod 4 \<noteq> 1 \<and>
        length d \<le> ngx_base64_decoded_length (length s))"
proof -
  let ?body = "takeWhile (\<lambda>c. c \<noteq> ch CHR ''='') s"
  have le: "length ?body \<le> length s" by (rule length_takeWhile_le)
  have "take (length ?body) s = ?body" by (metis takeWhile_eq_take)
  moreover have "(n div 4) * 3 + (n mod 4 - 1) \<le> (m + 3) div 4 * 3" if "n \<le> m" for n m :: nat
  proof -
    have "(n div 4) * 3 + (n mod 4 - 1) \<le> (n + 3) div 4 * 3" by arith
    also have "\<dots> \<le> (m + 3) div 4 * 3" using that by (intro mult_le_mono1 div_le_mono) simp
    finally show ?thesis .
  qed
  then have "(length ?body div 4) * 3 + (length ?body mod 4 - 1)
      \<le> ngx_base64_decoded_length (length s)"
    using le by (simp add: ngx_base64_decoded_length_def)
  ultimately show ?thesis
    using encode_length_padded [of basis64 s] encode_length_le [of basis64url s]
    by (auto simp: Let_def ngx_encode_base64_def ngx_encode_base64url_def ngx_decode_base64_def
        ngx_decode_base64_internal_def base64_scan_eq base64_groups_length list_all_iff list_ex_iff)
qed

end
