(* ===== verification/Ngx_Escape.thy ===== *)
theory Ngx_Escape
  imports Ngx_Number
begin

unbundle bit_operations_syntax

section \<open>Escaping: URIs, HTML, JSON\<close>

text \<open>
  \<open>ngx_escape_uri\<close>, \<open>ngx_unescape_uri\<close>, \<open>ngx_escape_html\<close> and \<open>ngx_escape_json\<close> of
  \<open>src/core/ngx_string.c\<close>. Each escaping function has two modes: with \<open>dst == NULL\<close> it counts,
  otherwise it writes; here these are two functions, \<open>..._count\<close> and the writer, and the
  locale \<open>two_pass_escape\<close> is the contract between them that callers rely on to size buffers.
  \<open>escape_codec\<close> adds a decoder that undoes one escaped byte at a time.
\<close>

subsection \<open>URI escaping\<close>

datatype escape_type = NGX_ESCAPE_URI | NGX_ESCAPE_ARGS | NGX_ESCAPE_URI_COMPONENT
  | NGX_ESCAPE_HTML | NGX_ESCAPE_REFRESH | NGX_ESCAPE_MEMCACHED | NGX_ESCAPE_MAIL_AUTH

type_synonym bitmap = "32 word list"

definition escape_uri_map :: bitmap where
  "escape_uri_map = [0xffffffff, 0xd000002d, 0x50000000, 0xb8000001,
     0xffffffff, 0xffffffff, 0xffffffff, 0xffffffff]"

definition escape_args_map :: bitmap where
  "escape_args_map = [0xffffffff, 0xd800086d, 0x50000000, 0xb8000001,
     0xffffffff, 0xffffffff, 0xffffffff, 0xffffffff]"

definition escape_uri_component_map :: bitmap where
  "escape_uri_component_map = [0xffffffff, 0xfc009fff, 0x78000001, 0xb8000001,
     0xffffffff, 0xffffffff, 0xffffffff, 0xffffffff]"

definition escape_html_map :: bitmap where
  "escape_html_map = [0xffffffff, 0x500000ad, 0x50000000, 0xb8000001,
     0xffffffff, 0xffffffff, 0xffffffff, 0xffffffff]"

definition escape_refresh_map :: bitmap where
  "escape_refresh_map = [0xffffffff, 0x50000085, 0x50000000, 0xd8000001,
     0xffffffff, 0xffffffff, 0xffffffff, 0xffffffff]"

definition escape_memcached_map :: bitmap where
  "escape_memcached_map = [0xffffffff, 0x00000021, 0x00000000, 0x00000000,
     0x00000000, 0x00000000, 0x00000000, 0x00000000]"

fun escape_map :: "escape_type \<Rightarrow> bitmap" where
  "escape_map NGX_ESCAPE_URI = escape_uri_map"
| "escape_map NGX_ESCAPE_ARGS = escape_args_map"
| "escape_map NGX_ESCAPE_URI_COMPONENT = escape_uri_component_map"
| "escape_map NGX_ESCAPE_HTML = escape_html_map"
| "escape_map NGX_ESCAPE_REFRESH = escape_refresh_map"
| "escape_map NGX_ESCAPE_MEMCACHED = escape_memcached_map"
| "escape_map NGX_ESCAPE_MAIL_AUTH = escape_memcached_map"

text \<open>\<open>escape[*src >> 5] & (1U << (*src & 0x1f))\<close>\<close>

definition bitmap_test :: "bitmap \<Rightarrow> byte \<Rightarrow> bool" where
  "bitmap_test m c \<longleftrightarrow> m ! unat (drop_bit 5 c) AND push_bit (unat (c AND 0x1f)) 1 \<noteq> 0"

fun ngx_escape_uri_count :: "escape_type \<Rightarrow> bytes \<Rightarrow> nat" where
  "ngx_escape_uri_count typ [] = 0"
| "ngx_escape_uri_count typ (c # src) =
     (if bitmap_test (escape_map typ) c then 1 else 0) + ngx_escape_uri_count typ src"

fun ngx_escape_uri :: "escape_type \<Rightarrow> bytes \<Rightarrow> bytes" where
  "ngx_escape_uri typ [] = []"
| "ngx_escape_uri typ (c # src) =
     (if bitmap_test (escape_map typ) c
      then ch CHR ''%'' # hex_upper ! unat (drop_bit 4 c) # hex_upper ! unat (c AND 0xf)
           # ngx_escape_uri typ src
      else c # ngx_escape_uri typ src)"

subsection \<open>URI unescaping\<close>

datatype unescape_state = sw_usual | sw_quoted | sw_quoted_second

definition NGX_UNESCAPE_URI :: "64 word" where "NGX_UNESCAPE_URI = 1"
definition NGX_UNESCAPE_REDIRECT :: "64 word" where "NGX_UNESCAPE_REDIRECT = 2"

text \<open>What one turn of the loop writes, and whether it goes on: \<open>Some\<close> of the next state and
  the digit decoded so far, or \<open>None\<close> for \<open>goto done\<close>. \<open>prev\<close> is \<open>*(s - 2)\<close>, the byte read in the
  turn before.\<close>

definition unescape_usual :: "64 word \<Rightarrow> byte \<Rightarrow> byte \<Rightarrow> bytes \<times> (unescape_state \<times> byte) option" where
  "unescape_usual typ decoded c =
     (if c = ch CHR ''?'' \<and> typ AND (NGX_UNESCAPE_URI OR NGX_UNESCAPE_REDIRECT) \<noteq> 0
      then ([c], None)
      else if c = ch CHR ''%'' then ([], Some (sw_quoted, decoded))
      else ([c], Some (sw_usual, decoded)))"

definition unescape_quoted :: "byte \<Rightarrow> byte \<Rightarrow> bytes \<times> (unescape_state \<times> byte) option" where
  "unescape_quoted decoded c =
     (if c \<ge> ch CHR ''0'' \<and> c \<le> ch CHR ''9'' then ([], Some (sw_quoted_second, c - ch CHR ''0''))
      else let c' = c OR 0x20 in
        if c' \<ge> ch CHR ''a'' \<and> c' \<le> ch CHR ''f''
        then ([], Some (sw_quoted_second, c' - ch CHR ''a'' + 10))
        else ([c], Some (sw_usual, decoded)))"

definition unescape_quoted_second ::
  "64 word \<Rightarrow> byte \<Rightarrow> byte \<Rightarrow> byte \<Rightarrow> bytes \<times> (unescape_state \<times> byte) option" where
  "unescape_quoted_second typ decoded prev c =
     (if c \<ge> ch CHR ''0'' \<and> c \<le> ch CHR ''9'' then
        (let d = push_bit 4 decoded + (c - ch CHR ''0'') in
         if typ AND NGX_UNESCAPE_REDIRECT \<noteq> 0 then
           (if d > ch CHR ''%'' \<and> d < 0x7f then ([d], Some (sw_usual, decoded))
            else ([ch CHR ''%'', prev, c], Some (sw_usual, decoded)))
         else ([d], Some (sw_usual, decoded)))
      else let c' = c OR 0x20 in
        if c' \<ge> ch CHR ''a'' \<and> c' \<le> ch CHR ''f'' then
          (let d = push_bit 4 decoded + (c' - ch CHR ''a'') + 10 in
           if typ AND NGX_UNESCAPE_URI \<noteq> 0 then
             (if d = ch CHR ''?'' then ([d], None) else ([d], Some (sw_usual, decoded)))
           else if typ AND NGX_UNESCAPE_REDIRECT \<noteq> 0 then
             (if d = ch CHR ''?'' then ([d], None)
              else if d > ch CHR ''%'' \<and> d < 0x7f then ([d], Some (sw_usual, decoded))
              else ([ch CHR ''%'', prev, c], Some (sw_usual, decoded)))
           else ([d], Some (sw_usual, decoded)))
        else ([], Some (sw_usual, decoded)))"

fun unescape_step :: "64 word \<Rightarrow> unescape_state \<Rightarrow> byte \<Rightarrow> byte \<Rightarrow> byte
    \<Rightarrow> bytes \<times> (unescape_state \<times> byte) option" where
  "unescape_step typ sw_usual decoded prev c = unescape_usual typ decoded c"
| "unescape_step typ sw_quoted decoded prev c = unescape_quoted decoded c"
| "unescape_step typ sw_quoted_second decoded prev c = unescape_quoted_second typ decoded prev c"

text \<open>The loop: the bytes written to \<open>dst\<close> and the part of \<open>src\<close> left unread.\<close>

fun unescape_loop :: "64 word \<Rightarrow> unescape_state \<Rightarrow> byte \<Rightarrow> byte \<Rightarrow> bytes \<Rightarrow> bytes \<times> bytes" where
  "unescape_loop typ state decoded prev [] = ([], [])"
| "unescape_loop typ state decoded prev (c # s) =
     (case unescape_step typ state decoded prev c of
        (out, None) \<Rightarrow> (out, s)
      | (out, Some (state', decoded')) \<Rightarrow>
          (case unescape_loop typ state' decoded' c s of (d, rest) \<Rightarrow> (out @ d, rest)))"

definition ngx_unescape_uri :: "64 word \<Rightarrow> bytes \<Rightarrow> bytes \<times> bytes" where
  "ngx_unescape_uri typ src = unescape_loop typ sw_usual 0 0 src"

subsection \<open>HTML\<close>

fun ngx_escape_html_count :: "bytes \<Rightarrow> nat" where
  "ngx_escape_html_count [] = 0"
| "ngx_escape_html_count (c # src) =
     (if c = ch CHR ''<'' then 5 - 2
      else if c = ch CHR ''>'' then 5 - 2
      else if c = ch CHR ''&'' then 6 - 2
      else if c = 0x22 then 7 - 2
      else 0) + ngx_escape_html_count src"

fun ngx_escape_html :: "bytes \<Rightarrow> bytes" where
  "ngx_escape_html [] = []"
| "ngx_escape_html (c # src) =
     (if c = ch CHR ''<'' then str ''&lt;''
      else if c = ch CHR ''>'' then str ''&gt;''
      else if c = ch CHR ''&'' then str ''&amp;''
      else if c = 0x22 then str ''&quot;''
      else [c]) @ ngx_escape_html src"

subsection \<open>JSON\<close>

text \<open>The control characters with a short escape: \<open>\n \r \t \b \f\<close>.\<close>

definition json_short :: "byte \<Rightarrow> bool" where
  "json_short c \<longleftrightarrow> c = 10 \<or> c = 13 \<or> c = 9 \<or> c = 8 \<or> c = 12"

fun ngx_escape_json_count :: "bytes \<Rightarrow> nat" where
  "ngx_escape_json_count [] = 0"
| "ngx_escape_json_count (c # src) =
     (if c = 0x5c \<or> c = 0x22 then 1
      else if c \<le> 0x1f then (if json_short c then 1 else 7 - 2)
      else 0) + ngx_escape_json_count src"

definition json_byte :: "byte \<Rightarrow> bytes" where
  "json_byte c =
     (if c > 0x1f then (if c = 0x5c \<or> c = 0x22 then [0x5c, c] else [c])
      else 0x5c #
       (if c = 10 then [ch CHR ''n'']
        else if c = 13 then [ch CHR ''r'']
        else if c = 9 then [ch CHR ''t'']
        else if c = 8 then [ch CHR ''b'']
        else if c = 12 then [ch CHR ''f'']
        else [ch CHR ''u'', ch CHR ''0'', ch CHR ''0'', ch CHR ''0'' + drop_bit 4 c,
              (let c' = c AND 0xf in
               if c' < 10 then ch CHR ''0'' + c' else ch CHR ''A'' + c' - 10)]))"

fun ngx_escape_json :: "bytes \<Rightarrow> bytes" where
  "ngx_escape_json [] = []"
| "ngx_escape_json (c # src) = json_byte c @ ngx_escape_json src"

subsection \<open>The contract of a two-pass escaper\<close>

locale two_pass_escape =
  fixes esc :: "bytes \<Rightarrow> bytes" and extra :: "bytes \<Rightarrow> nat"
  assumes write_nil: "esc [] = []"
    and extra_nil: "extra [] = 0"
    and write_cons: "esc (c # s) = esc [c] @ esc s"
    and extra_cons: "extra (c # s) = extra [c] + extra s"
    and write_one: "length (esc [c]) = 1 + extra [c]"
begin

lemma write_append: "esc (s @ t) = esc s @ esc t"
proof (induction s)
  case (Cons c s)
  then show ?case using write_cons [of c "s @ t"] write_cons [of c s] by simp
qed (simp add: write_nil)

lemma write_length: "length (esc s) = length s + extra s"
proof (induction s)
  case (Cons c s)
  then show ?case
    using write_cons [of c s] extra_cons [of c s] write_one [of c] by simp
qed (simp add: write_nil extra_nil)

end

locale escape_codec = two_pass_escape +
  fixes decode :: "bytes \<Rightarrow> bytes option"
  assumes decode_nil: "decode [] = Some []"
    and decode_one: "decode (esc [c] @ t) = map_option (Cons c) (decode t)"
begin

lemma decode_write: "decode (esc s) = Some s"
proof (induction s)
  case (Cons c s)
  then show ?case using write_cons [of c s] decode_one [of c "esc s"] by simp
qed (simp add: write_nil decode_nil)

lemma write_inject: "esc s = esc t \<longleftrightarrow> s = t"
  by (metis decode_write option.inject)

end

interpretation uri: two_pass_escape "ngx_escape_uri t" "\<lambda>s. 2 * ngx_escape_uri_count t s" for t
  by unfold_locales auto

interpretation html2: two_pass_escape ngx_escape_html ngx_escape_html_count
  by unfold_locales auto

lemma json_byte_length:
  "length (json_byte c) = 1 + ngx_escape_json_count [c]"
  by (auto simp: json_byte_def json_short_def not_less[symmetric])

interpretation json2: two_pass_escape ngx_escape_json ngx_escape_json_count
  by unfold_locales (auto simp: json_byte_length)

subsection \<open>Unescaping undoes escaping\<close>

lemma unescape_irrelevant:
  "unescape_loop typ sw_usual d p s = unescape_loop typ sw_usual d' p' s \<and>
   unescape_loop typ sw_quoted d p s = unescape_loop typ sw_quoted d' p' s"
proof (induction s arbitrary: d p d' p')
  case Nil
  then show ?case by simp
next
  case (Cons c s)
  note ih = Cons.IH [of d c d' c]
  show ?case
    using ih by (auto simp: unescape_usual_def unescape_quoted_def Let_def split: prod.splits)
qed

lemma hex_upper_quoted:
  "i < 16 \<Longrightarrow> unescape_quoted d (hex_upper ! i) = ([], Some (sw_quoted_second, word_of_nat i))"
proof -
  assume "i < 16"
  then have "i \<in> set [0..<16]" by simp
  then show ?thesis
    by (auto simp: hex_upper_def unescape_quoted_def upt_rec)
qed

lemma hex_upper_quoted_second:
  "i < 16 \<Longrightarrow> unescape_quoted_second 0 d p (hex_upper ! i) =
     ([push_bit 4 d + word_of_nat i], Some (sw_usual, d))"
proof -
  assume "i < 16"
  then have "i \<in> set [0..<16]" by simp
  then show ?thesis
    by (auto simp: hex_upper_def unescape_quoted_second_def upt_rec)
qed

lemma nibbles_join: "push_bit 4 (drop_bit 4 c) + (c AND 15) = (c :: byte)"
proof -
  have "push_bit 4 (drop_bit 4 c) + (c AND 15) = push_bit 4 (drop_bit 4 c) OR (c AND 15)"
  proof (rule disjunctive_add)
    fix n show "\<not> bit (push_bit 4 (drop_bit 4 c)) n \<or> \<not> bit (c AND 15) n"
    proof (cases "n < 4")
      case True
      then show ?thesis by (simp add: bit_push_bit_iff)
    next
      case False
      have m: "(15 :: byte) = mask 4" by (simp add: mask_numeral)
      from False show ?thesis unfolding m by (simp add: bit_simps)
    qed
  qed
  also have "\<dots> = c"
    by (rule byte_bitI) (auto simp: bit_simps byte_bit_high)
  finally show ?thesis .
qed

lemma percent_escaped: "t \<noteq> NGX_ESCAPE_REFRESH \<Longrightarrow> bitmap_test (escape_map t) 37"
  by (cases t) (simp_all add: bitmap_test_def escape_uri_map_def escape_args_map_def
      escape_uri_component_map_def escape_html_map_def escape_memcached_map_def)

lemma unescape_escaped_byte:
  assumes "t \<noteq> NGX_ESCAPE_REFRESH"
  shows "unescape_loop 0 sw_usual d p (ngx_escape_uri t [c] @ s) =
    (c # fst (unescape_loop 0 sw_usual 0 0 s), snd (unescape_loop 0 sw_usual 0 0 s))"
proof (cases "bitmap_test (escape_map t) c")
  case True
  let ?h = "hex_upper ! unat (drop_bit 4 c)" and ?l = "hex_upper ! unat (c AND 15)"
  have "unescape_loop 0 sw_usual d p (37 # ?h # ?l # s) =
    (case unescape_loop 0 sw_usual (drop_bit 4 c) ?l s of
       (o', r) \<Rightarrow> (c # o', r))"
    by (simp add: unescape_usual_def hex_upper_quoted hex_upper_quoted_second nibble_bounds
        nibbles_join NGX_UNESCAPE_URI_def NGX_UNESCAPE_REDIRECT_def split: prod.split)
  then show ?thesis
    using True unescape_irrelevant [of 0 "drop_bit 4 c" ?l s 0 0] by (simp split: prod.split)
next
  case False
  then have "c \<noteq> 37" using percent_escaped [OF assms] by auto
  then show ?thesis
    using False unescape_irrelevant [of 0 d c s 0 0]
    by (simp add: unescape_usual_def split: prod.split)
qed

text \<open>With the type \<open>NGX_UNESCAPE_URI\<close> a question mark, plain or escaped, is the last byte read.\<close>

lemma hex_upper_quoted_second_uri:
  "i < 16 \<Longrightarrow> unescape_quoted_second 1 d p (hex_upper ! i) =
     ([push_bit 4 d + word_of_nat i],
      if 10 \<le> i \<and> push_bit 4 d + word_of_nat i = ch CHR ''?'' then None else Some (sw_usual, d))"
proof -
  assume "i < 16"
  then have "i \<in> set [0..<16]" by simp
  then show ?thesis
    by (auto simp: hex_upper_def unescape_quoted_second_def upt_rec NGX_UNESCAPE_URI_def NGX_UNESCAPE_REDIRECT_def)
qed

lemma unescape_escaped_byte_uri:
  assumes "t \<noteq> NGX_ESCAPE_REFRESH"
  shows "unescape_loop 1 sw_usual d p (ngx_escape_uri t [c] @ s) =
    (if c = ch CHR ''?'' then ([c], s)
     else (c # fst (unescape_loop 1 sw_usual 0 0 s), snd (unescape_loop 1 sw_usual 0 0 s)))"
proof (cases "bitmap_test (escape_map t) c")
  case True
  let ?h = "hex_upper ! unat (drop_bit 4 c)" and ?l = "hex_upper ! unat (c AND 15)"
  have l: "c = 63 \<Longrightarrow> 10 \<le> unat (c AND 15)" by simp
  have "unescape_loop 1 sw_usual d p (37 # ?h # ?l # s) =
    (if c = 63 then ([c], s) else (case unescape_loop 1 sw_usual (drop_bit 4 c) ?l s of
       (o', r) \<Rightarrow> (c # o', r)))"
    using l by (auto simp: unescape_usual_def hex_upper_quoted hex_upper_quoted_second_uri nibble_bounds
        nibbles_join NGX_UNESCAPE_URI_def NGX_UNESCAPE_REDIRECT_def split: prod.split)
  then show ?thesis
    using True unescape_irrelevant [of 1 "drop_bit 4 c" ?l s 0 0] by (simp split: prod.split)
next
  case False
  then have "c \<noteq> 37" using percent_escaped [OF assms] by auto
  then show ?thesis
    using False unescape_irrelevant [of 1 d c s 0 0]
    by (simp add: unescape_usual_def NGX_UNESCAPE_URI_def NGX_UNESCAPE_REDIRECT_def split: prod.split)
qed

lemma uri_codec:
  assumes "t \<noteq> NGX_ESCAPE_REFRESH"
  shows "escape_codec (ngx_escape_uri t) (\<lambda>s. 2 * ngx_escape_uri_count t s)
    (\<lambda>s. Some (fst (ngx_unescape_uri 0 s)))"
proof unfold_locales
  fix c s
  show "Some (fst (ngx_unescape_uri 0 (ngx_escape_uri t [c] @ s))) =
    map_option (Cons c) (Some (fst (ngx_unescape_uri 0 s)))"
    using unescape_escaped_byte [OF assms, of 0 0 c s] by (simp add: ngx_unescape_uri_def)
qed (simp add: ngx_unescape_uri_def)

interpretation uri_plain: escape_codec "ngx_escape_uri NGX_ESCAPE_URI"
  "\<lambda>s. 2 * ngx_escape_uri_count NGX_ESCAPE_URI s" "\<lambda>s. Some (fst (ngx_unescape_uri 0 s))"
  by (rule uri_codec) simp

text \<open>The decoder never writes more than it has read: in each state it holds back at most the
  bytes of the escape sequence it is in.\<close>

fun pending :: "unescape_state \<Rightarrow> nat" where
  "pending sw_usual = 0"
| "pending sw_quoted = 1"
| "pending sw_quoted_second = 2"

lemma unescape_step_pending:
  "unescape_step typ st dd p c = (out, nxt) \<Longrightarrow>
     length out + (case nxt of None \<Rightarrow> 0 | Some (st', _) \<Rightarrow> pending st') \<le> pending st + 1"
  by (cases st) (auto simp: unescape_usual_def unescape_quoted_def unescape_quoted_second_def
      Let_def split: if_splits)

lemma unescape_loop_bound:
  "length (fst (unescape_loop typ st dd p s)) + length (snd (unescape_loop typ st dd p s))
     \<le> pending st + length s"
proof (induction s arbitrary: st dd p)
  case Nil
  then show ?case by simp
next
  case (Cons c s)
  obtain out nxt where st: "unescape_step typ st dd p c = (out, nxt)" by fastforce
  note b = unescape_step_pending [OF st]
  show ?case
  proof (cases nxt)
    case None
    then show ?thesis using st b by simp
  next
    case (Some x)
    obtain st' dd' where "x = (st', dd')" by fastforce
    then show ?thesis
      using st b Some Cons.IH [of st' dd' c] by (auto split: prod.splits)
  qed
qed

subsection \<open>Reference decoders for HTML text and JSON strings\<close>

fun html_unescape :: "bytes \<Rightarrow> bytes option" where
  "html_unescape [] = Some []"
| "html_unescape (c # t) =
     (if c = ch CHR ''&'' then
        (if take 3 t = str ''lt;'' then map_option (Cons (ch CHR ''<'')) (html_unescape (drop 3 t))
         else if take 3 t = str ''gt;'' then map_option (Cons (ch CHR ''>'')) (html_unescape (drop 3 t))
         else if take 4 t = str ''amp;'' then map_option (Cons (ch CHR ''&'')) (html_unescape (drop 4 t))
         else if take 5 t = str ''quot;'' then map_option (Cons 0x22) (html_unescape (drop 5 t))
         else None)
      else if c = ch CHR ''<'' \<or> c = ch CHR ''>'' \<or> c = 0x22 then None
      else map_option (Cons c) (html_unescape t))"

text \<open>The contents of a JSON string (RFC 8259): a raw quote and a raw control character are
  malformed; \<open>\u\<close> takes four hexadecimal digits, and only code points below 256 stand for a byte.\<close>

fun json_unescape :: "bytes \<Rightarrow> bytes option" where
  "json_unescape [] = Some []"
| "json_unescape [c] = (if c = 0x5c \<or> c = 0x22 \<or> c \<le> 0x1f then None else Some [c])"
| "json_unescape (c # d # t) =
     (if c = 0x5c then
        (if d = 0x5c \<or> d = 0x22 then map_option (Cons d) (json_unescape t)
         else if d = ch CHR ''n'' then map_option (Cons 10) (json_unescape t)
         else if d = ch CHR ''r'' then map_option (Cons 13) (json_unescape t)
         else if d = ch CHR ''t'' then map_option (Cons 9) (json_unescape t)
         else if d = ch CHR ''b'' then map_option (Cons 8) (json_unescape t)
         else if d = ch CHR ''f'' then map_option (Cons 12) (json_unescape t)
         else if d = ch CHR ''u'' \<and> length (take 4 t) = 4
             \<and> list_all (\<lambda>x. hex_digit x \<noteq> None) (take 4 t) \<and> hex_from 0 (take 4 t) < 256
           then map_option (Cons (word_of_int (hex_from 0 (take 4 t)))) (json_unescape (drop 4 t))
         else None)
      else if c = 0x22 \<or> c \<le> 0x1f then None
      else map_option (Cons c) (json_unescape (d # t)))"

interpretation html: escape_codec ngx_escape_html ngx_escape_html_count html_unescape
  by unfold_locales auto

lemma json_unescape_plain:
  "c \<noteq> 0x5c \<Longrightarrow> c \<noteq> 0x22 \<Longrightarrow> \<not> c \<le> 0x1f \<Longrightarrow>
     json_unescape (c # t) = map_option (Cons c) (json_unescape t)"
  by (cases t) auto

lemma json_hex_digit:
  fixes w :: byte
  assumes "unat w < 16"
  shows "hex_digit (if w < 10 then ch CHR ''0'' + w else ch CHR ''A'' + w - 10) = Some (uint w)"
proof -
  have "unat w \<in> set [0..<16]" using assms by simp
  moreover have "w = word_of_nat (unat w)" by simp
  ultimately obtain i where "i \<in> set [0..<16]" "w = word_of_nat i" by blast
  then show ?thesis by (auto simp: upt_rec hex_digit_def)
qed

lemma json_unescape_u:
  assumes "hex_digit h = Some (uint (drop_bit 4 c))" "hex_digit l = Some (uint (c AND 15))"
  shows "json_unescape (0x5c # ch CHR ''u'' # ch CHR ''0'' # ch CHR ''0'' # h # l # t)
    = map_option (Cons c) (json_unescape t)"
proof -
  have z: "hex_digit 48 = Some 0" by (simp add: hex_digit_def)
  have "hex_from 0 [48, 48, h, l] = uint c"
    using assms nibble_split [of c] by (simp add: z)
  moreover have "uint c < 256" using uint_lt2p [of c] by simp
  ultimately show ?thesis using assms z by simp
qed

lemma json_unescape_control:
  assumes c: "c \<le> (0x1f :: byte)"
  shows "json_unescape (json_byte c @ t) = map_option (Cons c) (json_unescape t)"
proof (cases "json_short c")
  case True
  then show ?thesis
    using c by (auto simp: json_byte_def json_short_def)
next
  case False
  have "unat c \<le> 31" using c by (simp add: word_le_nat_alt)
  then have "unat (drop_bit 4 c) < 10" by (simp add: unat_drop_bit)
  then have "drop_bit 4 c < 10" by (simp add: word_less_nat_alt)
  then have "hex_digit (48 + drop_bit 4 c) = Some (uint (drop_bit 4 c))"
    using json_hex_digit [of "drop_bit 4 c"] nibble_bounds(1) [of c] by simp
  note u = json_unescape_u [OF this json_hex_digit [OF nibble_bounds(2) [of c]], of t]
  have "json_byte c = [0x5c, ch CHR ''u'', ch CHR ''0'', ch CHR ''0'', 48 + drop_bit 4 c,
      if c AND 15 < 10 then ch CHR ''0'' + (c AND 15) else ch CHR ''A'' + (c AND 15) - 10]"
    using False c by (auto simp: json_byte_def json_short_def Let_def not_less)
  then show ?thesis using u by (simp only: append.simps)
qed

interpretation json: escape_codec ngx_escape_json ngx_escape_json_count json_unescape
proof unfold_locales
  fix c t
  show "json_unescape (ngx_escape_json [c] @ t) = map_option (Cons c) (json_unescape t)"
    using json_unescape_control [of c t] json_unescape_plain [of c t]
    by (cases "c \<le> 0x1f") (auto simp: json_byte_def not_le)
qed simp

subsection \<open>The component table\<close>

definition unreserved :: "byte \<Rightarrow> bool" where
  "unreserved c \<longleftrightarrow> is_upper c \<or> is_lower c \<or> is_dec c \<or> c \<in> {ch CHR ''-'', ch CHR ''.'', ch CHR ''_'', ch CHR ''~''}"

lemma bitmap_test_bit: "bitmap_test m c \<longleftrightarrow> bit (m ! (unat c div 32)) (unat c mod 32)"
  by (simp add: bitmap_test_def unat_and_masks unat_drop_bit bit_iff_and_push_bit_not_eq_0)

lemma component_row1: "i < 32 \<Longrightarrow> bit (0xfc009fff :: 32 word) i \<longleftrightarrow> \<not> (i = 13 \<or> i = 14 \<or> 16 \<le> i \<and> i \<le> 25)"
proof -
  assume "i < 32"
  then have "i \<in> set [0..<32]" by simp
  then show ?thesis by (auto simp: upt_rec)
qed

lemma component_row2: "i < 32 \<Longrightarrow> bit (0x78000001 :: 32 word) i \<longleftrightarrow> \<not> (1 \<le> i \<and> i \<le> 26 \<or> i = 31)"
proof -
  assume "i < 32"
  then have "i \<in> set [0..<32]" by simp
  then show ?thesis by (auto simp: upt_rec)
qed

lemma component_row3: "i < 32 \<Longrightarrow> bit (0xb8000001 :: 32 word) i \<longleftrightarrow> \<not> (1 \<le> i \<and> i \<le> 26 \<or> i = 30)"
proof -
  assume "i < 32"
  then have "i \<in> set [0..<32]" by simp
  then show ?thesis by (auto simp: upt_rec)
qed

lemma row_all: "i < 32 \<Longrightarrow> bit (0xffffffff :: 32 word) i"
proof -
  have m: "(0xffffffff :: 32 word) = mask 32" by (simp add: mask_numeral)
  assume "i < 32"
  then show ?thesis unfolding m by (simp add: bit_mask_iff)
qed

lemma unreserved_unat:
  "unreserved c \<longleftrightarrow> 65 \<le> unat c \<and> unat c \<le> 90 \<or> 97 \<le> unat c \<and> unat c \<le> 122 \<or>
     48 \<le> unat c \<and> unat c \<le> 57 \<or> unat c \<in> {45, 46, 95, 126}"
  by (simp add: unreserved_def byte_class_unat word_unat_eq_iff)

lemma component_map_test:
  "bitmap_test escape_uri_component_map c \<longleftrightarrow> \<not> unreserved c"
proof -
  define q r where "q = unat c div 32" and "r = unat c mod 32"
  have c: "unat c = 32 * q + r" and r: "r < 32" by (simp_all add: q_def r_def)
  have "q < 8" using unat_byte_less [of c] by (simp add: q_def del: unat_byte_less)
  then have "q = 0 \<or> q = 1 \<or> q = 2 \<or> q = 3 \<or> q = 4 \<or> q = 5 \<or> q = 6 \<or> q = 7" by linarith
  then have "bit (escape_uri_component_map ! q) r \<longleftrightarrow> \<not> unreserved c"
    using r component_row1 [OF r] component_row2 [OF r] component_row3 [OF r] row_all [OF r]
    unfolding unreserved_unat c
    by (elim disjE) (auto simp: escape_uri_component_map_def)
  then show ?thesis by (simp add: bitmap_test_bit q_def r_def)
qed

subsection \<open>Properties\<close>

text \<open>C32. For every escape type whose table has the percent sign, that is all but the refresh
  type: \<open>ngx_unescape_uri\<close> with type 0 gives back the bytes \<open>ngx_escape_uri\<close> was given, and reads
  the escaped string to its end; with \<open>NGX_UNESCAPE_URI\<close> it gives back the bytes up to and including the
  first question mark, escaped or not, and leaves the escaped form of those behind it unread.
  (\<open>NGX_UNESCAPE_REDIRECT\<close> keeps some bytes escaped on purpose and is not the inverse.)\<close>

theorem escape_uri_roundtrip:
  assumes "t \<noteq> NGX_ESCAPE_REFRESH"
  shows "ngx_unescape_uri 0 (ngx_escape_uri t s) = (s, []) \<and>
    ngx_unescape_uri NGX_UNESCAPE_URI (ngx_escape_uri t s) =
      (let k = length (takeWhile (\<lambda>c. c \<noteq> ch CHR ''?'') s)
       in (take (Suc k) s, ngx_escape_uri t (drop (Suc k) s)))"
proof (induction s)
  case Nil
  then show ?case by (simp add: ngx_unescape_uri_def)
next
  case (Cons c s)
  then show ?case
    using unescape_escaped_byte [OF assms, of 0 0 c "ngx_escape_uri t s"]
      unescape_escaped_byte_uri [OF assms, of 0 0 c "ngx_escape_uri t s"] uri.write_cons [of t c s]
    by (simp add: ngx_unescape_uri_def NGX_UNESCAPE_URI_def Let_def)
qed

theorem escape_uri_roundtrip_witness:
  "ngx_unescape_uri 0 (ngx_escape_uri NGX_ESCAPE_ARGS (str ''a+b c?100%'')) = (str ''a+b c?100%'', []) \<and>
   ngx_unescape_uri NGX_UNESCAPE_URI (ngx_escape_uri NGX_ESCAPE_ARGS (str ''a+b c?100%'')) = (str ''a+b c?'', str ''100%25'')"
  using escape_uri_roundtrip [of NGX_ESCAPE_ARGS "str ''a+b c?100%''"]
  by (simp add: bitmap_test_def escape_args_map_def hex_upper_def Let_def)

text \<open>\<open>ngx_unescape_uri\<close> may decode in place: whatever the type and the input, the bytes
  written and the bytes left unread together are no more than the input.\<close>

theorem unescape_uri_in_place:
  "length (fst (ngx_unescape_uri typ src)) + length (snd (ngx_unescape_uri typ src)) \<le> length src"
  using unescape_loop_bound [of "typ" sw_usual 0 0 src] by (simp add: ngx_unescape_uri_def)

text \<open>The counting pass and the writing pass of the three escapers agree: the writer puts
  out exactly the source length plus what the counting pass returned (twice that for URIs, where
  it counts escaped bytes), so a buffer sized by the first pass is neither overrun nor too long.\<close>

theorem escape_two_pass:
  "length (ngx_escape_uri t s) = length s + 2 * ngx_escape_uri_count t s \<and>
   length (ngx_escape_html s) = length s + ngx_escape_html_count s \<and>
   length (ngx_escape_json s) = length s + ngx_escape_json_count s"
  using uri.write_length [of t s] html2.write_length [of s] json2.write_length [of s] by blast

text \<open>\<open>ngx_escape_html\<close> and \<open>ngx_escape_json\<close> write well-formed text from which the bytes
  can be read back: the reference decoders, which reject raw markup characters, raw quotes and raw
  control characters, accept the output and return the input.\<close>

theorem escape_html_json_decodable:
  "html_unescape (ngx_escape_html s) = Some s \<and> json_unescape (ngx_escape_json s) = Some s"
  using html.decode_write [of s] json.decode_write [of s] by blast

text \<open>The bit table for URI components escapes exactly the bytes outside the unreserved set
  of RFC 3986 (letters, digits and the four marks), as its comment says.\<close>

theorem escape_component_unreserved:
  "ngx_escape_uri_count NGX_ESCAPE_URI_COMPONENT [c] = 0 \<longleftrightarrow> unreserved c"
  by (simp add: component_map_test)

text \<open>The refresh table does not match the bit pattern written beside it: the constant
  escapes the tilde and leaves the closing brace, the pattern (and every other table) does the
  opposite.\<close>

theorem escape_refresh_tilde:
  "ngx_escape_uri NGX_ESCAPE_REFRESH (str ''~}'') = str ''%7E}'' \<and>
   ngx_escape_uri NGX_ESCAPE_HTML (str ''~}'') = str ''~%7D''"
  by (simp add: bitmap_test_def escape_refresh_map_def escape_html_map_def hex_upper_def)

end
