(* ===== verification/Ngx_Strcmp.thy ===== *)
theory Ngx_Strcmp
  imports Ngx_Prelude "HOL-Library.Sublist"
begin

unbundle bit_operations_syntax

section \<open>Comparing and searching strings\<close>

text \<open>
  The comparison and search functions of \<open>src/core/ngx_string.c\<close>. Comparators return a signed
  difference, of which callers (\<open>ngx_sort\<close>, \<open>ngx_queue_sort\<close>, the rbtree insert functions) use the
  sign. The locale \<open>three_way\<close> is what such a caller relies on: the sign is that of the
  lexicographic comparison of some keys, from which reflexivity, antisymmetry and transitivity
  follow.
\<close>

subsection \<open>Definitions\<close>

definition ngx_tolower :: "byte \<Rightarrow> byte" where
  "ngx_tolower c = (if c \<ge> ch CHR ''A'' \<and> c \<le> ch CHR ''Z'' then c OR 0x20 else c)"

definition ngx_toupper :: "byte \<Rightarrow> byte" where
  "ngx_toupper c = (if c \<ge> ch CHR ''a'' \<and> c \<le> ch CHR ''z'' then c AND NOT 0x20 else c)"

fun ngx_strlow :: "bytes \<Rightarrow> bytes" where
  "ngx_strlow [] = []"
| "ngx_strlow (c # src) = ngx_tolower c # ngx_strlow src"

text \<open>\<open>ngx_cpystrn\<close>: the bytes written to \<open>dst\<close>, the terminating NUL included, and the offset of
  the returned pointer.\<close>

fun ngx_cpystrn_loop :: "nat \<Rightarrow> bytes \<Rightarrow> bytes" where
  "ngx_cpystrn_loop 0 src = [0]"
| "ngx_cpystrn_loop (Suc n) src =
     (if rd src = 0 then [0] else rd src # ngx_cpystrn_loop n (tl src))"

definition ngx_cpystrn :: "bytes \<Rightarrow> nat \<Rightarrow> bytes \<times> nat" where
  "ngx_cpystrn src n =
     (if n = 0 then ([], 0)
      else let out = ngx_cpystrn_loop (n - 1) src in (out, length out - 1))"

function ngx_strcasecmp :: "bytes \<Rightarrow> bytes \<Rightarrow> int" where
  "ngx_strcasecmp s1 s2 =
     (let c1 = ngx_tolower (rd s1); c2 = ngx_tolower (rd s2) in
      if c1 = c2 then (if c1 \<noteq> 0 then ngx_strcasecmp (tl s1) (tl s2) else 0)
      else uint c1 - uint c2)"
  by pat_completeness auto
termination
proof (relation "measure (\<lambda>(s1, s2). length s1)")
qed (auto simp: rd_def ngx_tolower_def split: list.splits)

fun ngx_strncasecmp :: "bytes \<Rightarrow> bytes \<Rightarrow> nat \<Rightarrow> int" where
  "ngx_strncasecmp s1 s2 0 = 0"
| "ngx_strncasecmp s1 s2 (Suc n) =
     (let c1 = ngx_tolower (rd s1); c2 = ngx_tolower (rd s2) in
      if c1 = c2 then (if c1 \<noteq> 0 then ngx_strncasecmp (tl s1) (tl s2) n else 0)
      else uint c1 - uint c2)"

text \<open>\<open>ngx_strnstr\<close> over the \<open>len\<close> bytes of \<open>s1\<close>; \<open>ngx_strncmp\<close> compares the rest of \<open>s2\<close> with as
  many bytes of \<open>s1\<close>. The result is the offset of the returned pointer.\<close>

fun ngx_strnstr_loop :: "nat \<Rightarrow> byte \<Rightarrow> bytes \<Rightarrow> bytes \<Rightarrow> nat option" where
  "ngx_strnstr_loop off c2 s2 [] = None"
| "ngx_strnstr_loop off c2 s2 (c1 # s1) =
     (if c1 = 0 then None
      else if c1 \<noteq> c2 then ngx_strnstr_loop (Suc off) c2 s2 s1
      else if length s2 > length s1 then None
      else if take (length s2) s1 = s2 then Some off
      else ngx_strnstr_loop (Suc off) c2 s2 s1)"

definition ngx_strnstr :: "bytes \<Rightarrow> bytes \<Rightarrow> nat option" where
  "ngx_strnstr s1 s2 = ngx_strnstr_loop 0 (rd s2) (tl s2) s1"

text \<open>\<open>ngx_strlcasestrn\<close> over the bytes of \<open>s1\<close> up to \<open>last\<close>; the argument \<open>n\<close> is the length of
  \<open>s2\<close> less one.\<close>

fun ngx_strlcasestrn_loop :: "nat \<Rightarrow> byte \<Rightarrow> bytes \<Rightarrow> nat \<Rightarrow> bytes \<Rightarrow> nat option" where
  "ngx_strlcasestrn_loop off c2 s2 n [] = None"
| "ngx_strlcasestrn_loop off c2 s2 n (c1 # s1) =
     (if length (c1 # s1) \<le> n then None
      else if ngx_tolower c1 \<noteq> c2 then ngx_strlcasestrn_loop (Suc off) c2 s2 n s1
      else if ngx_strncasecmp s1 s2 n \<noteq> 0 then ngx_strlcasestrn_loop (Suc off) c2 s2 n s1
      else Some off)"

definition ngx_strlcasestrn :: "bytes \<Rightarrow> bytes \<Rightarrow> nat \<Rightarrow> nat option" where
  "ngx_strlcasestrn s1 s2 n = ngx_strlcasestrn_loop 0 (ngx_tolower (rd s2)) (tl s2) n s1"

fun ngx_rstrncmp_loop :: "bytes \<Rightarrow> bytes \<Rightarrow> nat \<Rightarrow> int" where
  "ngx_rstrncmp_loop s1 s2 0 =
     (if s1 ! 0 \<noteq> s2 ! 0 then uint (s1 ! 0) - uint (s2 ! 0) else 0)"
| "ngx_rstrncmp_loop s1 s2 (Suc n) =
     (if s1 ! Suc n \<noteq> s2 ! Suc n then uint (s1 ! Suc n) - uint (s2 ! Suc n)
      else ngx_rstrncmp_loop s1 s2 n)"

definition ngx_rstrncmp :: "bytes \<Rightarrow> bytes \<Rightarrow> nat \<Rightarrow> int" where
  "ngx_rstrncmp s1 s2 n = (if n = 0 then 0 else ngx_rstrncmp_loop s1 s2 (n - 1))"

text \<open>\<open>memcmp\<close> of the C library on two regions of the same length: the difference at the first
  byte that differs.\<close>

fun c_memcmp :: "bytes \<Rightarrow> bytes \<Rightarrow> int" where
  "c_memcmp (a # s) (b # t) = (if a = b then c_memcmp s t else uint a - uint b)"
| "c_memcmp _ _ = 0"

definition ngx_memn2cmp :: "bytes \<Rightarrow> bytes \<Rightarrow> int" where
  "ngx_memn2cmp s1 s2 =
     (let n1 = length s1; n2 = length s2;
          (n, z) = (if n1 \<le> n2 then (n1, - 1) else (n2, 1));
          m = c_memcmp (take n s1) (take n s2)
      in if m \<noteq> 0 \<or> n1 = n2 then m else z)"

function ngx_dns_strcmp :: "bytes \<Rightarrow> bytes \<Rightarrow> int" where
  "ngx_dns_strcmp s1 s2 =
     (let c1 = ngx_tolower (rd s1); c2 = ngx_tolower (rd s2) in
      if c1 = c2 then (if c1 \<noteq> 0 then ngx_dns_strcmp (tl s1) (tl s2) else 0)
      else let c1 = (if c1 = ch CHR ''.'' then ch CHR '' '' else c1);
               c2 = (if c2 = ch CHR ''.'' then ch CHR '' '' else c2)
        in uint c1 - uint c2)"
  by pat_completeness auto
termination
proof (relation "measure (\<lambda>(s1, s2). length s1)")
qed (auto simp: rd_def ngx_tolower_def split: list.splits)

fun ngx_filename_cmp :: "bytes \<Rightarrow> bytes \<Rightarrow> nat \<Rightarrow> int" where
  "ngx_filename_cmp s1 s2 0 = 0"
| "ngx_filename_cmp s1 s2 (Suc n) =
     (let c1 = rd s1; c2 = rd s2 in
      if c1 = c2 then (if c1 \<noteq> 0 then ngx_filename_cmp (tl s1) (tl s2) n else 0)
      else if c1 = 0 \<or> c2 = 0 then uint c1 - uint c2
      else let c1 = (if c1 = ch CHR ''/'' then 0 else c1);
               c2 = (if c2 = ch CHR ''/'' then 0 else c2)
        in uint c1 - uint c2)"

declare ngx_strcasecmp.simps [simp del] ngx_dns_strcmp.simps [simp del]

text \<open>\<open>ngx_strlchr\<close>: the offset of the first \<open>c\<close>.\<close>

fun ngx_strlchr :: "bytes \<Rightarrow> byte \<Rightarrow> nat option" where
  "ngx_strlchr [] c = None"
| "ngx_strlchr (x # p) c = (if x = c then Some 0 else map_option Suc (ngx_strlchr p c))"

subsection \<open>The contract of a comparator\<close>

fun lex3 :: "int list \<Rightarrow> int list \<Rightarrow> int" where
  "lex3 [] [] = 0"
| "lex3 [] (y # ys) = - 1"
| "lex3 (x # xs) [] = 1"
| "lex3 (x # xs) (y # ys) = (if x = y then lex3 xs ys else sgn (x - y))"

lemma lex3_antisym: "lex3 xs ys = - lex3 ys xs"
  by (induction xs ys rule: lex3.induct) (auto simp: sgn_if)

lemma lex3_eq0: "lex3 xs ys = 0 \<longleftrightarrow> xs = ys"
  by (induction xs ys rule: lex3.induct) (auto simp: sgn_if)

lemma lex3_Nil: "lex3 [] zs \<le> 0"
  by (cases zs) auto

lemma lex3_trans: "lex3 xs ys \<le> 0 \<Longrightarrow> lex3 ys zs \<le> 0 \<Longrightarrow> lex3 xs zs \<le> 0"
proof (induction xs ys arbitrary: zs rule: lex3.induct)
  case (4 x xs y ys)
  then show ?case by (cases zs) (auto simp: sgn_if split: if_splits)
qed (simp_all add: lex3_Nil)

locale three_way =
  fixes cmp :: "'a \<Rightarrow> 'a \<Rightarrow> int" and key :: "'a \<Rightarrow> int list" and valid :: "'a \<Rightarrow> bool"
  assumes cmp_key: "valid a \<Longrightarrow> valid b \<Longrightarrow> sgn (cmp a b) = lex3 (key a) (key b)"
begin

lemma cmp_zero: "valid a \<Longrightarrow> valid b \<Longrightarrow> cmp a b = 0 \<longleftrightarrow> key a = key b"
  using cmp_key [of a b] lex3_eq0 [of "key a" "key b"] by (metis sgn_0_0)

lemma cmp_antisym: "valid a \<Longrightarrow> valid b \<Longrightarrow> sgn (cmp a b) = - sgn (cmp b a)"
  using cmp_key [of a b] cmp_key [of b a] lex3_antisym [of "key a" "key b"] by simp

lemma sgn_le0: "sgn (x :: int) \<le> 0 \<longleftrightarrow> x \<le> 0"
  by (auto simp: sgn_if)

lemma cmp_trans:
  "valid a \<Longrightarrow> valid b \<Longrightarrow> valid c \<Longrightarrow> cmp a b \<le> 0 \<Longrightarrow> cmp b c \<le> 0 \<Longrightarrow> cmp a c \<le> 0"
  using cmp_key [of a b] cmp_key [of b c] cmp_key [of a c] lex3_trans [of "key a" "key b" "key c"]
  by (metis sgn_le0)

lemma cmp_total: "valid a \<Longrightarrow> valid b \<Longrightarrow> cmp a b \<le> 0 \<or> cmp b a \<le> 0"
  using cmp_antisym [of a b] by (auto simp: sgn_if split: if_splits)

end

subsection \<open>Keys of C strings\<close>

definition cstr :: "bytes \<Rightarrow> bytes" where
  "cstr s = takeWhile (\<lambda>c. c \<noteq> 0) s"

lemma cstr_rd_0: "rd s = 0 \<Longrightarrow> cstr s = []"
  by (cases s) (auto simp: cstr_def)

lemma cstr_rd: "rd s \<noteq> 0 \<Longrightarrow> cstr s = rd s # cstr (tl s)"
  by (cases s) (auto simp: cstr_def)

lemma cstr_no_nul: "c \<in> set (cstr s) \<Longrightarrow> c \<noteq> 0"
  by (auto simp: cstr_def dest: set_takeWhileD)

lemma ngx_tolower_0 [simp]: "ngx_tolower c = 0 \<longleftrightarrow> c = 0"
proof -
  have "bit (c OR 32) 5" for c :: byte by (simp add: bit_simps)
  then have "c OR 32 \<noteq> 0" for c :: byte by (metis bit_0_eq bot_apply bot_bool_def)
  then show ?thesis by (auto simp: ngx_tolower_def)
qed

lemma ngx_tolower_zero [simp]: "ngx_tolower 0 = 0"
  by simp

lemma uint_pos: "c \<noteq> (0 :: byte) \<Longrightarrow> 0 < uint c"
  by (metis order_less_le uint_0_iff unsigned_greater_eq)

abbreviation lower_key :: "bytes \<Rightarrow> int list" where
  "lower_key s \<equiv> map (\<lambda>c. uint (ngx_tolower c)) (cstr s)"

lemma ngx_strcasecmp_key: "sgn (ngx_strcasecmp s1 s2) = lex3 (lower_key s1) (lower_key s2)"
proof (induction s1 s2 rule: ngx_strcasecmp.induct)
  case (1 s1 s2)
  show ?case
  proof (cases "rd s1 = 0 \<or> rd s2 = 0")
    case True
    then show ?thesis
      using uint_pos [of "ngx_tolower (rd s1)"] uint_pos [of "ngx_tolower (rd s2)"]
      by (cases "rd s1 = 0"; cases "rd s2 = 0")
        (auto simp: ngx_strcasecmp.simps [of s1 s2] Let_def cstr_rd_0 cstr_rd sgn_if)
  next
    case False
    then show ?thesis
      using 1 by (auto simp: ngx_strcasecmp.simps [of s1 s2] Let_def cstr_rd)
  qed
qed

lemma ngx_strncasecmp_key:
  "sgn (ngx_strncasecmp s1 s2 n) = lex3 (take n (lower_key s1)) (take n (lower_key s2))"
proof (induction s1 s2 n rule: ngx_strncasecmp.induct)
  case (1 s1 s2)
  show ?case by simp
next
  case (2 s1 s2 n)
  show ?case
  proof (cases "rd s1 = 0 \<or> rd s2 = 0")
    case True
    then show ?thesis
      using uint_pos [of "ngx_tolower (rd s1)"] uint_pos [of "ngx_tolower (rd s2)"]
      by (cases "rd s1 = 0"; cases "rd s2 = 0")
        (auto simp: Let_def cstr_rd_0 cstr_rd sgn_if)
  next
    case False
    then show ?thesis using 2 by (auto simp: Let_def cstr_rd)
  qed
qed

text \<open>File names sort with the slash below every other byte.\<close>

definition file_key :: "bytes \<Rightarrow> int list" where
  "file_key s = map (\<lambda>c. if c = ch CHR ''/'' then 0 else uint c) (cstr s)"

lemma file_key_simps:
  "rd s = 0 \<Longrightarrow> file_key s = []"
  "rd s \<noteq> 0 \<Longrightarrow> file_key s = (if rd s = 47 then 0 else uint (rd s)) # file_key (tl s)"
  by (simp_all add: file_key_def cstr_rd_0 cstr_rd)

lemma ngx_filename_cmp_key:
  "sgn (ngx_filename_cmp s1 s2 n) = lex3 (take n (file_key s1)) (take n (file_key s2))"
proof (induction s1 s2 n rule: ngx_filename_cmp.induct)
  case (1 s1 s2)
  show ?case by simp
next
  case (2 s1 s2 n)
  show ?case
  proof (cases "rd s1 = 0 \<or> rd s2 = 0")
    case True
    then show ?thesis
      using uint_pos [of "rd s1"] uint_pos [of "rd s2"]
      by (cases "rd s1 = 0"; cases "rd s2 = 0") (auto simp: Let_def file_key_simps sgn_if)
  next
    case False
    then show ?thesis
      using 2 uint_pos [of "rd s1"] uint_pos [of "rd s2"] by (auto simp: Let_def file_key_simps)
  qed
qed

text \<open>DNS names: the dot becomes a space, below the hyphen. A space in a name would compare
  equal to a dot, so the key order is that of names without spaces.\<close>

definition dns_key :: "bytes \<Rightarrow> int list" where
  "dns_key s = map (\<lambda>c. if c = ch CHR ''.'' then 32 else uint (ngx_tolower c)) (cstr s)"

definition dns_name :: "bytes \<Rightarrow> bool" where
  "dns_name s \<longleftrightarrow> 32 \<notin> set s"

lemma dns_key_simps:
  "rd s = 0 \<Longrightarrow> dns_key s = []"
  "rd s \<noteq> 0 \<Longrightarrow> dns_key s = (if rd s = 46 then 32 else uint (ngx_tolower (rd s))) # dns_key (tl s)"
  by (simp_all add: dns_key_def cstr_rd_0 cstr_rd)

lemma upper_bit6: "65 \<le> c \<Longrightarrow> c \<le> 90 \<Longrightarrow> bit (c :: byte) 6"
proof -
  assume "65 \<le> c" "c \<le> 90"
  then have "unat c div 64 = 1" by (simp add: word_le_nat_alt)
  then have "odd (drop_bit 6 (unat c))" by (simp add: drop_bit_eq_div)
  then have "bit (unat c) 6" by (simp add: bit_iff_odd_drop_bit)
  then show ?thesis by (simp add: bit_unsigned_iff)
qed

lemma tolower_const: "\<not> bit k 6 \<Longrightarrow> ngx_tolower c = k \<longleftrightarrow> c = k"
proof -
  assume k: "\<not> bit k 6"
  show ?thesis
  proof (cases "65 \<le> c \<and> c \<le> 90")
    case True
    then have "bit c 6" by (simp add: upper_bit6)
    then have "bit (ngx_tolower c) 6" by (simp add: ngx_tolower_def bit_simps)
    with k \<open>bit c 6\<close> show ?thesis by blast
  next
    case False
    then show ?thesis by (auto simp: ngx_tolower_def)
  qed
qed

lemma tolower_dot_space [simp]:
  "ngx_tolower c = 46 \<longleftrightarrow> c = 46" "ngx_tolower c = 32 \<longleftrightarrow> c = 32"
  by (rule tolower_const; simp)+

lemma tolower_dot [simp]: "ngx_tolower 46 = 46"
  by simp

lemma uint_const: "uint (c :: byte) = 32 \<longleftrightarrow> c = 32" "32 = uint (c :: byte) \<longleftrightarrow> c = 32"
  by (auto simp: word_uint_eq_iff)

lemma dns_name_rd: "dns_name s \<Longrightarrow> rd s \<noteq> 32 \<and> dns_name (tl s)"
  by (cases s) (auto simp: dns_name_def)

lemma ngx_dns_strcmp_key:
  "dns_name s1 \<Longrightarrow> dns_name s2 \<Longrightarrow> sgn (ngx_dns_strcmp s1 s2) = lex3 (dns_key s1) (dns_key s2)"
proof (induction s1 s2 rule: ngx_dns_strcmp.induct)
  case (1 s1 s2)
  note dn = dns_name_rd [OF "1.prems"(1)] dns_name_rd [OF "1.prems"(2)]
  note pos = uint_pos [of "ngx_tolower (rd s1)"] uint_pos [of "ngx_tolower (rd s2)"]
  show ?case
  proof (cases "ngx_tolower (rd s1) = ngx_tolower (rd s2)")
    case True
    then show ?thesis
      using "1.IH" dn by (cases "rd s1 = 0")
        (auto simp: ngx_dns_strcmp.simps [of s1 s2] Let_def dns_key_simps)
  next
    case False
    then show ?thesis
      using dn pos by (cases "rd s1 = 0"; cases "rd s2 = 0")
        (auto simp: ngx_dns_strcmp.simps [of s1 s2] Let_def dns_key_simps uint_const sgn_if)
  qed
qed

text \<open>\<open>ngx_memn2cmp\<close> is the lexicographic order of the bytes.\<close>

lemma c_memcmp_lex3: "length s = length t \<Longrightarrow> sgn (c_memcmp s t) = lex3 (map uint s) (map uint t)"
  by (induction s t rule: c_memcmp.induct) auto

lemma lex3_take:
  "n = min (length xs) (length ys) \<Longrightarrow>
   lex3 xs ys = (let m = lex3 (take n xs) (take n ys) in
     if m \<noteq> 0 then m else if length xs = length ys then 0
     else if length xs \<le> length ys then - 1 else 1)"
  by (induction xs ys arbitrary: n rule: lex3.induct) (auto simp: Let_def sgn_if)

lemma ngx_memn2cmp_le:
  "length s1 \<le> length s2 \<Longrightarrow> ngx_memn2cmp s1 s2 =
     (let m = c_memcmp (take (length s1) s1) (take (length s1) s2) in
      if m \<noteq> 0 \<or> length s1 = length s2 then m else - 1)"
  by (simp only: ngx_memn2cmp_def Let_def if_True prod.case)

lemma ngx_memn2cmp_gt:
  "\<not> length s1 \<le> length s2 \<Longrightarrow> ngx_memn2cmp s1 s2 =
     (let m = c_memcmp (take (length s2) s1) (take (length s2) s2) in
      if m \<noteq> 0 \<or> length s1 = length s2 then m else 1)"
  by (simp only: ngx_memn2cmp_def Let_def if_False prod.case)

lemma ngx_memn2cmp_key: "sgn (ngx_memn2cmp s1 s2) = lex3 (map uint s1) (map uint s2)"
proof -
  define n where "n = min (length s1) (length s2)"
  define m where "m = c_memcmp (take n s1) (take n s2)"
  have m: "sgn m = lex3 (take n (map uint s1)) (take n (map uint s2))"
    unfolding m_def take_map by (rule c_memcmp_lex3) (simp add: n_def)
  have "lex3 (map uint s1) (map uint s2) =
      (if lex3 (take n (map uint s1)) (take n (map uint s2)) \<noteq> 0
       then lex3 (take n (map uint s1)) (take n (map uint s2))
       else if length (map uint s1) = length (map uint s2) then 0
       else if length (map uint s1) \<le> length (map uint s2) then - 1 else 1)"
    by (rule lex3_take [unfolded Let_def]) (simp add: n_def)
  then have l: "lex3 (map uint s1) (map uint s2) =
      (if sgn m \<noteq> 0 then sgn m else if length s1 = length s2 then 0
       else if length s1 \<le> length s2 then - 1 else 1)"
    unfolding m [symmetric] length_map .
  have "ngx_memn2cmp s1 s2 =
      (if m \<noteq> 0 \<or> length s1 = length s2 then m else if length s1 \<le> length s2 then - 1 else 1)"
  proof (cases "length s1 \<le> length s2")
    case True
    then have "n = length s1" by (simp add: n_def)
    with True show ?thesis by (simp only: ngx_memn2cmp_le [OF True] Let_def m_def if_True)
  next
    case False
    then have "n = length s2" by (simp add: n_def)
    with False show ?thesis by (simp only: ngx_memn2cmp_gt [OF False] Let_def m_def if_False)
  qed
  with l show ?thesis by (simp add: sgn_0_0)
qed

subsection \<open>Interpretations\<close>

interpretation casecmp: three_way ngx_strcasecmp lower_key "\<lambda>_. True"
  by unfold_locales (rule ngx_strcasecmp_key)

interpretation memn2: three_way ngx_memn2cmp "map uint" "\<lambda>_. True"
  by unfold_locales (rule ngx_memn2cmp_key)

interpretation filecmp: three_way "\<lambda>s1 s2. ngx_filename_cmp s1 s2 n"
  "\<lambda>s. take n (file_key s)" "\<lambda>_. True" for n
  by unfold_locales (rule ngx_filename_cmp_key)

interpretation dnscmp: three_way ngx_dns_strcmp dns_key dns_name
  by unfold_locales (rule ngx_dns_strcmp_key)

subsection \<open>Searching\<close>

text \<open>\<open>ngx_strnstr\<close> finds the first occurrence inside the C string.\<close>

lemma cstr_Nil [simp]: "cstr [] = []"
  by (simp add: cstr_def)

lemma cstr_Cons: "cstr (c # s) = (if c = 0 then [] else c # cstr s)"
  by (simp add: cstr_def)

lemma prefix_cstr_take:
  assumes "0 \<notin> set s2"
  shows "prefix s2 (cstr s1) \<longleftrightarrow> length s2 \<le> length s1 \<and> take (length s2) s1 = s2"
  using assms
proof (induction s2 arbitrary: s1)
  case Nil
  then show ?case by simp
next
  case (Cons a s2)
  then show ?case by (cases s1) (auto simp: cstr_Cons)
qed

fun first_at :: "bytes \<Rightarrow> bytes \<Rightarrow> nat option" where
  "first_at pat [] = None"
| "first_at pat (c # s) =
     (if prefix pat (c # s) then Some 0 else map_option Suc (first_at pat s))"

lemma first_at_short: "length s < length pat \<Longrightarrow> first_at pat s = None"
  by (induction s) (auto dest: prefix_length_le)

lemma length_cstr: "length (cstr s) \<le> length s"
  by (simp add: cstr_def length_takeWhile_le)

lemma ngx_strnstr_loop_eq:
  assumes "c2 \<noteq> 0" "0 \<notin> set s2"
  shows "ngx_strnstr_loop off c2 s2 s1 = map_option ((+) off) (first_at (c2 # s2) (cstr s1))"
proof (induction s1 arbitrary: off)
  case Nil
  then show ?case by (simp add: cstr_def)
next
  case (Cons c1 s1)
  have short: "first_at (c2 # s2) (cstr s1) = None" if "length s1 < length s2"
    using that length_cstr [of s1] by (intro first_at_short) simp
  show ?case
    using Cons.IH [of "Suc off"] prefix_cstr_take [OF assms(2), of s1] short
    by (auto simp: cstr_Cons option.map_comp comp_def)
qed

lemma first_at_Some:
  "first_at pat s = Some i \<longleftrightarrow>
     i < length s \<and> prefix pat (drop i s) \<and> (\<forall>j < i. \<not> prefix pat (drop j s))"
proof (induction s arbitrary: i)
  case Nil
  then show ?case by simp
next
  case (Cons c s)
  show ?case
  proof (cases i)
    case 0
    then show ?thesis by auto
  next
    case (Suc k)
    then show ?thesis using Cons [of k] by (auto simp: less_Suc_eq_0_disj)
  qed
qed

subsection \<open>Properties\<close>

text \<open>\<open>ngx_strcasecmp\<close> returns 0 exactly for strings that are equal up to ASCII case, and its
  sign orders strings consistently: it is antisymmetric and transitive.\<close>

theorem strcasecmp_order:
  "(ngx_strcasecmp a b = 0 \<longleftrightarrow> map ngx_tolower (cstr a) = map ngx_tolower (cstr b)) \<and>
   sgn (ngx_strcasecmp a b) = - sgn (ngx_strcasecmp b a) \<and>
   (ngx_strcasecmp a b \<le> 0 \<longrightarrow> ngx_strcasecmp b c \<le> 0 \<longrightarrow> ngx_strcasecmp a c \<le> 0)"
proof -
  have "lower_key s = map uint (map ngx_tolower (cstr s))" for s by simp
  moreover have "map uint x = map uint y \<longleftrightarrow> x = y" for x y :: bytes
    by (rule inj_map_eq_map) (simp add: inj_on_def)
  ultimately have "lower_key a = lower_key b \<longleftrightarrow> map ngx_tolower (cstr a) = map ngx_tolower (cstr b)"
    by metis
  then show ?thesis
    using casecmp.cmp_zero [of a b] casecmp.cmp_antisym [of a b] casecmp.cmp_trans [of a b c] by simp
qed

theorem strcasecmp_order_witness:
  "ngx_strcasecmp (str ''aB'') (str ''AC'') \<le> 0 \<and> ngx_strcasecmp (str ''AC'') (str ''b'') \<le> 0 \<and>
   ngx_strcasecmp (str ''aB'') (str ''b'') \<le> 0"
  using strcasecmp_order [of "str ''aB''" "str ''AC''" "str ''b''"]
  by (simp add: ngx_strcasecmp.simps ngx_tolower_def)

text \<open>The comparators used for sorting are total orders on their keys: \<open>ngx_memn2cmp\<close> is the
  lexicographic order of the bytes (a proper prefix first), \<open>ngx_filename_cmp\<close> the one in which
  the slash is the lowest byte, \<open>ngx_dns_strcmp\<close> (on names without a space) the case-insensitive
  one in which the dot is lowest.\<close>

theorem sort_comparators:
  "sgn (ngx_memn2cmp a b) = lex3 (map uint a) (map uint b) \<and>
   sgn (ngx_filename_cmp a b n) = lex3 (take n (file_key a)) (take n (file_key b)) \<and>
   (dns_name a \<longrightarrow> dns_name b \<longrightarrow> sgn (ngx_dns_strcmp a b) = lex3 (dns_key a) (dns_key b)) \<and>
   (ngx_filename_cmp a b n \<le> 0 \<longrightarrow> ngx_filename_cmp b c n \<le> 0 \<longrightarrow> ngx_filename_cmp a c n \<le> 0)"
  using memn2.cmp_key [of a b] ngx_filename_cmp_key [of a b n] dnscmp.cmp_key [of a b]
    filecmp.cmp_trans [where a = a and b = b and c = c and n = n] by blast

theorem sort_comparators_witness:
  "dns_name (str ''a.b'') \<and> dns_name (str ''a-b'') \<and>
   sgn (ngx_dns_strcmp (str ''a.b'') (str ''a-b'')) = lex3 (dns_key (str ''a.b'')) (dns_key (str ''a-b''))
   \<and> ngx_filename_cmp (str ''a/b'') (str ''a!b'') 3 \<le> 0 \<and> ngx_filename_cmp (str ''a!b'') (str ''b'') 3 \<le> 0
   \<and> ngx_filename_cmp (str ''a/b'') (str ''b'') 3 \<le> 0"
proof -
  have "dns_name (str ''a.b'')" "dns_name (str ''a-b'')" by (simp_all add: dns_name_def)
  moreover have "ngx_filename_cmp (str ''a/b'') (str ''a!b'') 3 \<le> 0"
    "ngx_filename_cmp (str ''a!b'') (str ''b'') 3 \<le> 0"
    by (simp_all add: numeral_3_eq_3)
  ultimately show ?thesis
    using sort_comparators [of "str ''a.b''" "str ''a-b''" 0 "[]"]
      sort_comparators [of "str ''a/b''" "str ''a!b''" 3 "str ''b''"] by blast
qed

text \<open>\<open>ngx_strnstr\<close> returns the first occurrence of a non-empty pattern in the part of the
  buffer before a NUL, and \<open>NULL\<close> exactly when there is none.\<close>

theorem strnstr_first:
  "c2 \<noteq> 0 \<Longrightarrow> 0 \<notin> set s2 \<Longrightarrow>
   (ngx_strnstr s1 (c2 # s2) = Some i \<longleftrightarrow> i < length (cstr s1) \<and> prefix (c2 # s2) (drop i (cstr s1)) \<and>
     (\<forall>j < i. \<not> prefix (c2 # s2) (drop j (cstr s1))))"
  using first_at_Some [of "c2 # s2" "cstr s1" i]
  by (simp add: ngx_strnstr_def ngx_strnstr_loop_eq map_option.id [unfolded id_def])

theorem strnstr_first_witness:
  "ngx_strnstr (str ''abcabd'') (str ''abd'') = Some 3 \<and>
   prefix (str ''abd'') (drop 3 (cstr (str ''abcabd'')))"
proof -
  have "ngx_strnstr (str ''abcabd'') (str ''abd'') = Some 3" by (simp add: ngx_strnstr_def)
  then show ?thesis
    using strnstr_first [of "ch CHR ''a''" "str ''bd''" "str ''abcabd''" 3] by simp
qed

end
