(* ===== verification/Ngx_Hash.thy ===== *)
theory Ngx_Hash
  imports Ngx_Strcmp
begin

section \<open>Hash keys\<close>

text \<open>
  The key functions of \<open>src/core/ngx_hash.c\<close>: \<open>ngx_hash\<close> multiplies and adds in \<open>ngx_uint_t\<close>,
  a \<open>64 word\<close> here. They are what ties the header parser, which hashes a name while it reads it,
  to the hash tables built from the configuration.
\<close>

type_synonym ngx_uint_t = "64 word"

definition ngx_hash :: "ngx_uint_t \<Rightarrow> byte \<Rightarrow> ngx_uint_t" where
  "ngx_hash key c = key * 31 + ucast c"

fun ngx_hash_key_loop :: "ngx_uint_t \<Rightarrow> bytes \<Rightarrow> ngx_uint_t" where
  "ngx_hash_key_loop key [] = key"
| "ngx_hash_key_loop key (c # data) = ngx_hash_key_loop (ngx_hash key c) data"

definition ngx_hash_key :: "bytes \<Rightarrow> ngx_uint_t" where
  "ngx_hash_key data = ngx_hash_key_loop 0 data"

fun ngx_hash_key_lc_loop :: "ngx_uint_t \<Rightarrow> bytes \<Rightarrow> ngx_uint_t" where
  "ngx_hash_key_lc_loop key [] = key"
| "ngx_hash_key_lc_loop key (c # data) = ngx_hash_key_lc_loop (ngx_hash key (ngx_tolower c)) data"

definition ngx_hash_key_lc :: "bytes \<Rightarrow> ngx_uint_t" where
  "ngx_hash_key_lc data = ngx_hash_key_lc_loop 0 data"

text \<open>\<open>ngx_hash_strlow\<close>: the bytes written to \<open>dst\<close> and the key.\<close>

fun ngx_hash_strlow_loop :: "ngx_uint_t \<Rightarrow> bytes \<Rightarrow> bytes \<times> ngx_uint_t" where
  "ngx_hash_strlow_loop key [] = ([], key)"
| "ngx_hash_strlow_loop key (c # src) =
     (let d = ngx_tolower c; (dst, k) = ngx_hash_strlow_loop (ngx_hash key d) src in (d # dst, k))"

definition ngx_hash_strlow :: "bytes \<Rightarrow> bytes \<times> ngx_uint_t" where
  "ngx_hash_strlow src = ngx_hash_strlow_loop 0 src"

lemma hash_key_loop_append:
  "ngx_hash_key_loop k (xs @ ys) = ngx_hash_key_loop (ngx_hash_key_loop k xs) ys"
  by (induction xs arbitrary: k) simp_all

lemma hash_key_snoc: "ngx_hash_key (xs @ [c]) = ngx_hash (ngx_hash_key xs) c"
  by (simp add: ngx_hash_key_def hash_key_loop_append)

lemma hash_key_lc_loop: "ngx_hash_key_lc_loop k xs = ngx_hash_key_loop k (ngx_strlow xs)"
  by (induction xs arbitrary: k) simp_all

lemma hash_key_lc: "ngx_hash_key_lc xs = ngx_hash_key (ngx_strlow xs)"
  by (simp add: ngx_hash_key_lc_def ngx_hash_key_def hash_key_lc_loop)

lemma hash_strlow: "ngx_hash_strlow xs = (ngx_strlow xs, ngx_hash_key_lc xs)"
proof -
  have "ngx_hash_strlow_loop k xs = (ngx_strlow xs, ngx_hash_key_lc_loop k xs)" for k
    by (induction xs arbitrary: k) (simp_all add: Let_def)
  then show ?thesis by (simp add: ngx_hash_strlow_def ngx_hash_key_lc_def)
qed

lemma hash_key_lc_snoc: "ngx_hash_key_lc (xs @ [c]) = ngx_hash (ngx_hash_key_lc xs) (ngx_tolower c)"
proof -
  have "ngx_strlow (xs @ [c]) = ngx_strlow xs @ [ngx_tolower c]" by (induction xs) simp_all
  then show ?thesis by (simp add: hash_key_lc hash_key_snoc)
qed

end
