(* ===== verification/Ngx_Parser.thy ===== *)
theory Ngx_Parser
  imports Ngx_Prelude
begin

unbundle bit_operations_syntax

section \<open>Byte-driven parsers\<close>

text \<open>
  The parsers of \<open>src/http/ngx_http_parse.c\<close> share one shape: a loop
  \<open>for (p = b->pos; p < b->last; p++)\<close> around a \<open>switch (state)\<close>, which falls out of the loop
  when the buffer is used up, saves its local state in the request and returns \<open>NGX_AGAIN\<close>, so
  that the next call goes on where it stopped. \<open>parse_loop\<close> is that loop; a parser is its step
  function (one equation per \<open>case\<close>) with the code before and after the loop. The locale
  \<open>resumable\<close> is the contract of a step function, that it looks at no byte beyond the current
  one; the splitting lemma proved in it is what makes a parser independent of how the network
  cuts its input into buffers.
\<close>

datatype ('s, 'x) action = Next 's | Exit 'x

fun parse_loop :: "(bytes \<Rightarrow> nat \<Rightarrow> 's \<Rightarrow> byte \<Rightarrow> ('s, 'x) action)
    \<Rightarrow> bytes \<Rightarrow> nat \<Rightarrow> bytes \<Rightarrow> 's \<Rightarrow> ('s \<times> nat) + 'x" where
  "parse_loop step buf p [] s = Inl (s, p)"
| "parse_loop step buf p (c # rest) s =
     (case step buf p s c of
        Next s' \<Rightarrow> parse_loop step buf (Suc p) rest s'
      | Exit x \<Rightarrow> Inr x)"

abbreviation CR :: byte where "CR \<equiv> 13"
abbreviation LF :: byte where "LF \<equiv> 10"

abbreviation SP :: byte where "SP \<equiv> 32"

definition slice :: "bytes \<Rightarrow> nat \<Rightarrow> nat \<Rightarrow> bytes" where
  "slice buf a b = take (b - a) (drop a buf)"

lemma slice_append [simp]: "b \<le> length xs \<Longrightarrow> slice (xs @ ys) a b = slice xs a b"
  by (cases "a \<le> b") (auto simp: slice_def)

lemma slice_self [simp]: "slice buf a a = []"
  by (simp add: slice_def)

lemma slice_Suc: "a \<le> p \<Longrightarrow> p < length buf \<Longrightarrow> slice buf a (Suc p) = slice buf a p @ [buf ! p]"
  by (simp add: slice_def Suc_diff_le take_Suc_conv_app_nth)

text \<open>The letters of a scheme or host name: \<open>c = ch | 0x20; c >= 'a' && c <= 'z'\<close>.\<close>

definition is_letter :: "byte \<Rightarrow> bool" where
  "is_letter c \<longleftrightarrow> (let c' = c OR 0x20 in c' \<ge> ch CHR ''a'' \<and> c' \<le> ch CHR ''z'')"

text \<open>The table \<open>usual\<close>: bytes that need no attention inside a URI.\<close>

definition usual_map :: "32 word list" where
  "usual_map = [0x00000000, 0x7fff37d6, 0xffffffff, 0x7fffffff,
     0xffffffff, 0xffffffff, 0xffffffff, 0xffffffff]"

definition usual :: "byte \<Rightarrow> bool" where
  "usual c \<longleftrightarrow> usual_map ! unat (drop_bit 5 c) AND push_bit (unat (c AND 0x1f)) 1 \<noteq> 0"

lemma usual_bit: "usual c \<longleftrightarrow> bit (usual_map ! (unat c div 32)) (unat c mod 32)"
  by (simp add: usual_def unat_and_masks unat_drop_bit bit_iff_and_push_bit_not_eq_0)

text \<open>No control character, space or DEL is usual.\<close>

definition uri_char :: "byte \<Rightarrow> bool" where
  "uri_char c \<longleftrightarrow> c > 0x20 \<and> c \<noteq> 0x7f"

lemma usual_uri_char: "usual c \<Longrightarrow> uri_char c"
proof -
  assume u: "usual c"
  have "\<not> usual 32" "\<not> usual 127" by (simp_all add: usual_bit usual_map_def)
  then have "c \<noteq> 32" "c \<noteq> 127" using u by auto
  moreover have "\<not> unat c < 32" using u by (auto simp: usual_bit usual_map_def)
  ultimately show ?thesis
    by (auto simp: uri_char_def word_less_nat_alt word_unat_eq_iff)
qed

lemma uri_charI: "\<not> c < 0x20 \<Longrightarrow> c \<noteq> 0x20 \<Longrightarrow> c \<noteq> 0x7f \<Longrightarrow> uri_char c"
  by (auto simp: uri_char_def not_less order_less_le)

locale resumable =
  fixes step :: "bytes \<Rightarrow> nat \<Rightarrow> 's \<Rightarrow> byte \<Rightarrow> ('s, 'x) action"
  assumes step_prefix: "p < length xs \<Longrightarrow> step (xs @ ys) p s c = step xs p s c"
begin

lemma loop_prefix:
  "p + length as \<le> length xs \<Longrightarrow> parse_loop step (xs @ ys) p as s = parse_loop step xs p as s"
  by (induction as arbitrary: p s) (simp_all add: step_prefix split: action.split)

lemma loop_split:
  "p + length as = length xs \<Longrightarrow>
   parse_loop step (xs @ ys) p (as @ ys) s =
     (case parse_loop step xs p as s of
        Inl (s', p') \<Rightarrow> parse_loop step (xs @ ys) p' ys s'
      | Inr x \<Rightarrow> Inr x)"
  by (induction as arbitrary: p s) (simp_all add: step_prefix split: action.split)

end

lemma loop_pos: "parse_loop step buf p as s = Inl (s', p') \<Longrightarrow> p' = p + length as"
proof (induction as arbitrary: p s)
  case (Cons c as)
  then show ?case by (auto split: action.splits dest: Cons.IH)
qed simp

lemma parse_loop_append:
  "parse_loop step buf p (as @ bs) s =
     (case parse_loop step buf p as s of
        Inl (s', p') \<Rightarrow> parse_loop step buf p' bs s'
      | Inr x \<Rightarrow> Inr x)"
  by (induction as arbitrary: p s) (auto split: action.split)

lemma parse_loop_stay:
  assumes "\<And>p c. c \<in> set as \<Longrightarrow> step buf p s c = Next s"
  shows "parse_loop step buf p as s = Inl (s, p + length as)"
  using assms by (induction as arbitrary: p) auto

text \<open>
  One call of a parser. Its local variables (\<open>state\<close>, for header lines also \<open>hash\<close> and \<open>i\<close>) are
  loaded from the request, and saved to it again when the input runs out and at \<open>done\<close>; an error
  return saves nothing and leaves \<open>b->pos\<close> alone. The result is the return code, the saved locals,
  the other fields of the request and \<open>b->pos\<close>.
\<close>

type_synonym ('l, 'r) call_exit = "ngx_rc \<times> 'r \<times> ('l \<times> nat) option"
type_synonym ('l, 'r) call_result = "ngx_rc \<times> 'l \<times> 'r \<times> nat"

definition parse_call :: "(bytes \<Rightarrow> nat \<Rightarrow> 'l \<times> 'r \<Rightarrow> byte \<Rightarrow> ('l \<times> 'r, ('l, 'r) call_exit) action)
    \<Rightarrow> 'l \<Rightarrow> 'r \<Rightarrow> bytes \<Rightarrow> nat \<Rightarrow> ('l, 'r) call_result" where
  "parse_call step l r buf pos =
     (case parse_loop step buf pos (drop pos buf) (l, r) of
        Inl ((l', r'), p) \<Rightarrow> (NGX_AGAIN, l', r', p)
      | Inr (rc, r', saved) \<Rightarrow>
          (case saved of None \<Rightarrow> (rc, l, r', pos) | Some (l', p) \<Rightarrow> (rc, l', r', p)))"

definition rc_live :: "ngx_rc \<Rightarrow> bool" where
  "rc_live rc \<longleftrightarrow> rc \<in> {NGX_OK, NGX_AGAIN, NGX_DONE, NGX_HTTP_PARSE_HEADER_DONE}"

text \<open>What the caller goes on with: after an error the request is finished and the saved locals
  and the buffer position are not looked at again.\<close>

fun call_view :: "('l, 'r) call_result \<Rightarrow> ngx_rc \<times> 'r \<times> ('l \<times> nat) option" where
  "call_view (rc, l, r, p) = (rc, r, if rc_live rc then Some (l, p) else None)"

text \<open>The caller's loop: append what was read to the buffer and call again while the parser asks
  for more.\<close>

fun parse_feed :: "('l \<Rightarrow> 'r \<Rightarrow> bytes \<Rightarrow> nat \<Rightarrow> ('l, 'r) call_result)
    \<Rightarrow> 'l \<Rightarrow> 'r \<Rightarrow> bytes \<Rightarrow> nat \<Rightarrow> bytes list \<Rightarrow> ('l, 'r) call_result" where
  "parse_feed parse l r buf pos [] = (NGX_AGAIN, l, r, pos)"
| "parse_feed parse l r buf pos (x # xs) =
     (case parse l r (buf @ x) pos of
        (rc, l', r', pos') \<Rightarrow>
          if rc = NGX_AGAIN then parse_feed parse l' r' (buf @ x) pos' xs
          else (rc, l', r', pos'))"

locale resumable_call = resumable step
  for step :: "bytes \<Rightarrow> nat \<Rightarrow> 'l \<times> 'r \<Rightarrow> byte \<Rightarrow> ('l \<times> 'r, ('l, 'r) call_exit) action" +
  assumes exit_not_again: "step buf p s c = Exit (rc, r, sv) \<Longrightarrow> rc \<noteq> NGX_AGAIN"
    and exit_saved: "step buf p s c = Exit (rc, r, None) \<Longrightarrow> \<not> rc_live rc"
begin

lemma loop_exit:
  "parse_loop step buf p as s = Inr (rc, r, sv) \<Longrightarrow>
   rc \<noteq> NGX_AGAIN \<and> (sv = None \<longrightarrow> \<not> rc_live rc)"
proof (induction as arbitrary: p s)
  case (Cons c as)
  show ?case
  proof (cases "step buf p s c")
    case (Next s')
    then show ?thesis using Cons.prems Cons.IH [of "Suc p" s'] by simp
  next
    case (Exit x)
    then show ?thesis
      using Cons.prems exit_not_again [of buf p s c rc r sv] exit_saved [of buf p s c rc r] by auto
  qed
qed simp

text \<open>A call on the longer buffer does what a call on the shorter one followed, if that asked for
  more, by a second call does.\<close>

lemma call_resume:
  assumes "pos \<le> length xs"
  shows "call_view (parse_call step l r (xs @ ys) pos) =
    (case parse_call step l r xs pos of
       (rc, l1, r1, pos1) \<Rightarrow>
         if rc = NGX_AGAIN then call_view (parse_call step l1 r1 (xs @ ys) pos1)
         else call_view (rc, l1, r1, pos1))"
proof -
  have split: "parse_loop step (xs @ ys) pos (drop pos (xs @ ys)) (l, r) =
      (case parse_loop step xs pos (drop pos xs) (l, r) of
         Inl (s', p') \<Rightarrow> parse_loop step (xs @ ys) p' ys s' | Inr x \<Rightarrow> Inr x)"
    using assms loop_split [of pos "drop pos xs" xs ys "(l, r)"] by simp
  show ?thesis
  proof (cases "parse_loop step xs pos (drop pos xs) (l, r)")
    case (Inl a)
    obtain l1 r1 p1 where a: "a = ((l1, r1), p1)" by (metis surj_pair)
    have p1: "p1 = length xs"
      using loop_pos [of step xs pos "drop pos xs" "(l, r)" "(l1, r1)" p1] Inl a assms by simp
    show ?thesis
      using split Inl a p1 loop_exit [of "xs @ ys" "length xs" ys "(l1, r1)"]
      by (auto simp: parse_call_def split: sum.split prod.split option.split)
  next
    case (Inr x)
    then show ?thesis
      using split loop_exit [of xs pos "drop pos xs" "(l, r)"]
      by (cases x) (auto simp: parse_call_def split: option.split)
  qed
qed

lemma call_live:
  assumes "parse_call step l r buf pos = (rc, l', r', p')" "rc_live rc" "rc \<noteq> NGX_AGAIN"
  shows "parse_loop step buf pos (drop pos buf) (l, r) = Inr (rc, r', Some (l', p'))"
  using assms loop_exit [of buf pos "drop pos buf" "(l, r)"]
  by (auto simp: parse_call_def split: sum.splits option.splits)

lemma call_again_pos:
  assumes "parse_call step l r buf pos = (NGX_AGAIN, l', r', pos')" "pos \<le> length buf"
  shows "pos' = length buf"
proof -
  have "parse_loop step buf pos (drop pos buf) (l, r) = Inl ((l', r'), pos')"
    using assms(1) loop_exit [of buf pos "drop pos buf" "(l, r)"]
    by (auto simp: parse_call_def split: sum.splits option.splits)
  from loop_pos [OF this] show ?thesis using assms(2) by simp
qed

lemma feed_call:
  "call_view (parse_feed (parse_call step) l r buf (length buf) pieces) =
   call_view (parse_call step l r (buf @ concat pieces) (length buf))"
proof (induction pieces arbitrary: l r buf)
  case Nil
  then show ?case by (simp add: parse_call_def)
next
  case (Cons x xs)
  obtain rc l' r' pos' where c: "parse_call step l r (buf @ x) (length buf) = (rc, l', r', pos')"
    by (metis surj_pair)
  then show ?case
    using Cons.IH [of l' r' "buf @ x"] call_resume [of "length buf" "buf @ x" l r "concat xs"]
      call_again_pos [of l r "buf @ x" "length buf" l' r' pos']
    by auto
qed

end

text \<open>Reading a whole run: what the loop keeps true and what holds where it leaves.\<close>

lemma parse_loop_invariant:
  assumes step: "\<And>p s c. P p s \<Longrightarrow> p < length buf \<Longrightarrow> c = buf ! p \<Longrightarrow>
      (case step buf p s c of Next s' \<Rightarrow> P (Suc p) s' | Exit x \<Rightarrow> Q x)"
    and "P p s" "rest = drop p buf" "p \<le> length buf"
  shows "case parse_loop step buf p rest s of Inl (s', p') \<Rightarrow> p' = length buf \<and> P p' s' | Inr x \<Rightarrow> Q x"
  using assms(2-)
proof (induction rest arbitrary: p s)
  case Nil
  then show ?case by simp
next
  case (Cons c rest)
  then have p: "p < length buf" by (metis drop_all list.distinct(1) not_less)
  then have c: "c = buf ! p" and r: "rest = drop (Suc p) buf"
    using Cons.prems(2) by (simp_all add: Cons_nth_drop_Suc [symmetric])
  show ?case
    using step [OF Cons.prems(1) p c] Cons.IH [of "Suc p"] r p
    by (auto split: action.split action.splits)
qed

end
