(* ===== verification/Ngx_Request_Line.thy ===== *)
theory Ngx_Request_Line
  imports Ngx_Parser
begin

section \<open>The HTTP request line\<close>

text \<open>
  \<open>ngx_http_parse_request_line\<close> of \<open>src/http/ngx_http_parse.c\<close>: one function per \<open>case\<close> of its
  switch, the code after the loop (\<open>NGX_AGAIN\<close>) and the code at \<open>done\<close>. Pointers into the buffer
  are offsets, \<open>None\<close> is \<open>NULL\<close>. The Windows branches (\<open>NGX_WIN32\<close>) are not built here.
\<close>

subsection \<open>State and request fields\<close>

datatype rl_state = rl_sw_start | rl_sw_method | rl_sw_spaces_before_uri | rl_sw_schema
  | rl_sw_schema_slash | rl_sw_schema_slash_slash | rl_sw_host_start | rl_sw_host | rl_sw_host_end
  | rl_sw_host_ip_literal | rl_sw_port | rl_sw_after_slash_in_uri | rl_sw_check_uri | rl_sw_uri
  | rl_sw_http_09 | rl_sw_http_H | rl_sw_http_HT | rl_sw_http_HTT | rl_sw_http_HTTP
  | rl_sw_first_major_digit | rl_sw_major_digit | rl_sw_first_minor_digit | rl_sw_minor_digit
  | rl_sw_spaces_after_digit | rl_sw_almost_done

datatype http_method = NGX_HTTP_UNKNOWN | NGX_HTTP_GET | NGX_HTTP_HEAD | NGX_HTTP_POST
  | NGX_HTTP_PUT | NGX_HTTP_DELETE | NGX_HTTP_MKCOL | NGX_HTTP_COPY | NGX_HTTP_MOVE
  | NGX_HTTP_OPTIONS | NGX_HTTP_PROPFIND | NGX_HTTP_PROPPATCH | NGX_HTTP_LOCK | NGX_HTTP_UNLOCK
  | NGX_HTTP_PATCH | NGX_HTTP_TRACE | NGX_HTTP_CONNECT

record rl_req =
  request_start :: "nat option"
  request_end :: "nat option"
  method_end :: "nat option"
  http_meth :: http_method
  schema_start :: "nat option"
  schema_end :: "nat option"
  host_start :: "nat option"
  host_end :: "nat option"
  port_end :: "nat option"
  uri_start :: "nat option"
  uri_end :: "nat option"
  uri_ext :: "nat option"
  args_start :: "nat option"
  http_protocol :: "nat option"
  http_major :: nat
  http_minor :: nat
  http_version :: nat
  complex_uri :: bool
  quoted_uri :: bool
  plus_in_uri :: bool
  empty_path_in_uri :: bool

definition rl_init :: rl_req where
  "rl_init = \<lparr>request_start = None, request_end = None, method_end = None,
     http_meth = NGX_HTTP_UNKNOWN, schema_start = None, schema_end = None, host_start = None,
     host_end = None, port_end = None, uri_start = None, uri_end = None, uri_ext = None,
     args_start = None, http_protocol = None, http_major = 0, http_minor = 0, http_version = 0,
     complex_uri = False, quoted_uri = False, plus_in_uri = False, empty_path_in_uri = False\<rparr>"

text \<open>\<open>r->state\<close>, the one local the parser saves, is kept beside the record. A step goes on in some
  state or leaves the function.\<close>

type_synonym rl_action = "(rl_state \<times> rl_req, (rl_state, rl_req) call_exit) action"

abbreviation rl_go :: "rl_state \<Rightarrow> rl_req \<Rightarrow> rl_action" where
  "rl_go st r \<equiv> Next (st, r)"

abbreviation rl_fail :: "ngx_rc \<Rightarrow> rl_req \<Rightarrow> rl_action" where
  "rl_fail rc r \<equiv> Exit (rc, r, None)"

definition rl_done :: "rl_req \<Rightarrow> nat \<Rightarrow> rl_action" where
  "rl_done r p =
     (let r = r\<lparr>request_end := (case request_end r of None \<Rightarrow> Some p | Some e \<Rightarrow> Some e)\<rparr>;
          v = http_major r * 1000 + http_minor r;
          r = r\<lparr>http_version := v\<rparr>
      in Exit (if v = 9 \<and> http_meth r \<noteq> NGX_HTTP_GET then NGX_HTTP_PARSE_INVALID_09_METHOD
               else NGX_OK, r, Some (rl_sw_start, Suc p)))"

subsection \<open>The cases of the switch\<close>

definition is_method_char :: "byte \<Rightarrow> bool" where
  "is_method_char c \<longleftrightarrow>
     \<not> ((c < ch CHR ''A'' \<or> c > ch CHR ''Z'') \<and> c \<noteq> ch CHR ''_'' \<and> c \<noteq> ch CHR ''-'')"

definition rl_start :: "nat \<Rightarrow> rl_req \<Rightarrow> byte \<Rightarrow> rl_action" where
  "rl_start p r c =
     (let r = r\<lparr>request_start := Some p\<rparr> in
      if c = CR \<or> c = LF then rl_go rl_sw_start r
      else if \<not> is_method_char c then rl_fail NGX_HTTP_PARSE_INVALID_METHOD r
      else rl_go rl_sw_method r)"

text \<open>The method words, by the length \<open>p - m\<close> the code switches on; \<open>None\<close> leaves \<open>r->method\<close>
  as it is.\<close>

definition method_word :: "bytes \<Rightarrow> http_method option" where
  "method_word m =
     (if length m = 3 then
        (if m = str ''GET'' then Some NGX_HTTP_GET
         else if m = str ''PUT'' then Some NGX_HTTP_PUT else None)
      else if length m = 4 then
        (if m ! 1 = ch CHR ''O'' then
           (if m = str ''POST'' then Some NGX_HTTP_POST
            else if m = str ''COPY'' then Some NGX_HTTP_COPY
            else if m = str ''MOVE'' then Some NGX_HTTP_MOVE
            else if m = str ''LOCK'' then Some NGX_HTTP_LOCK else None)
         else if m = str ''HEAD'' then Some NGX_HTTP_HEAD else None)
      else if length m = 5 then
        (if m = str ''MKCOL'' then Some NGX_HTTP_MKCOL
         else if m = str ''PATCH'' then Some NGX_HTTP_PATCH
         else if m = str ''TRACE'' then Some NGX_HTTP_TRACE else None)
      else if length m = 6 then
        (if m = str ''DELETE'' then Some NGX_HTTP_DELETE
         else if m = str ''UNLOCK'' then Some NGX_HTTP_UNLOCK else None)
      else if length m = 7 then
        (if m = str ''OPTIONS'' then Some NGX_HTTP_OPTIONS
         else if m = str ''CONNECT'' then Some NGX_HTTP_CONNECT else None)
      else if length m = 8 then
        (if m = str ''PROPFIND'' then Some NGX_HTTP_PROPFIND else None)
      else if length m = 9 then
        (if m = str ''PROPPATCH'' then Some NGX_HTTP_PROPPATCH else None)
      else None)"

definition rl_method :: "bytes \<Rightarrow> nat \<Rightarrow> rl_req \<Rightarrow> byte \<Rightarrow> rl_action" where
  "rl_method buf p r c =
     (if c = SP then
        (let m = slice buf (case request_start r of None \<Rightarrow> p | Some q \<Rightarrow> q) p;
             r = r\<lparr>method_end := Some (p - 1)\<rparr>
         in rl_go rl_sw_spaces_before_uri
              (case method_word m of None \<Rightarrow> r | Some w \<Rightarrow> r\<lparr>http_meth := w\<rparr>))
      else if \<not> is_method_char c then rl_fail NGX_HTTP_PARSE_INVALID_METHOD r
      else rl_go rl_sw_method r)"

definition rl_spaces_before_uri :: "nat \<Rightarrow> rl_req \<Rightarrow> byte \<Rightarrow> rl_action" where
  "rl_spaces_before_uri p r c =
     (if c = ch CHR ''/'' then rl_go rl_sw_after_slash_in_uri (r\<lparr>uri_start := Some p\<rparr>)
      else if is_letter c then rl_go rl_sw_schema (r\<lparr>schema_start := Some p\<rparr>)
      else if c = SP then rl_go rl_sw_spaces_before_uri r
      else rl_fail NGX_HTTP_PARSE_INVALID_REQUEST r)"

definition rl_schema :: "nat \<Rightarrow> rl_req \<Rightarrow> byte \<Rightarrow> rl_action" where
  "rl_schema p r c =
     (if is_letter c then rl_go rl_sw_schema r
      else if is_dec c \<or> c = ch CHR ''+'' \<or> c = ch CHR ''-'' \<or> c = ch CHR ''.''
        then rl_go rl_sw_schema r
      else if c = ch CHR '':'' then rl_go rl_sw_schema_slash (r\<lparr>schema_end := Some p\<rparr>)
      else rl_fail NGX_HTTP_PARSE_INVALID_REQUEST r)"

definition rl_schema_slash :: "rl_req \<Rightarrow> byte \<Rightarrow> rl_action" where
  "rl_schema_slash r c =
     (if c = ch CHR ''/'' then rl_go rl_sw_schema_slash_slash r
      else rl_fail NGX_HTTP_PARSE_INVALID_REQUEST r)"

definition rl_schema_slash_slash :: "rl_req \<Rightarrow> byte \<Rightarrow> rl_action" where
  "rl_schema_slash_slash r c =
     (if c = ch CHR ''/'' then rl_go rl_sw_host_start r
      else rl_fail NGX_HTTP_PARSE_INVALID_REQUEST r)"

definition rl_host_end :: "nat \<Rightarrow> rl_req \<Rightarrow> byte \<Rightarrow> rl_action" where
  "rl_host_end p r c =
     (let r = r\<lparr>host_end := Some p\<rparr> in
      if c = ch CHR '':'' then rl_go rl_sw_port r
      else if c = ch CHR ''/'' then rl_go rl_sw_after_slash_in_uri (r\<lparr>uri_start := Some p\<rparr>)
      else if c = ch CHR ''?'' then
        rl_go rl_sw_uri (r\<lparr>uri_start := Some p, args_start := Some (p + 1), empty_path_in_uri := True\<rparr>)
      else if c = SP then
        rl_go rl_sw_http_09 (r\<lparr>uri_start := map_option (\<lambda>e. e + 1) (schema_end r),
          uri_end := map_option (\<lambda>e. e + 2) (schema_end r)\<rparr>)
      else rl_fail NGX_HTTP_PARSE_INVALID_REQUEST r)"

definition rl_host :: "nat \<Rightarrow> rl_req \<Rightarrow> byte \<Rightarrow> rl_action" where
  "rl_host p r c =
     (if is_letter c then rl_go rl_sw_host r
      else if is_dec c \<or> c = ch CHR ''.'' \<or> c = ch CHR ''-'' then rl_go rl_sw_host r
      else rl_host_end p r c)"

definition rl_host_start :: "nat \<Rightarrow> rl_req \<Rightarrow> byte \<Rightarrow> rl_action" where
  "rl_host_start p r c =
     (let r = r\<lparr>host_start := Some p\<rparr> in
      if c = ch CHR ''['' then rl_go rl_sw_host_ip_literal r
      else rl_host p r c)"

definition rl_host_ip_literal :: "rl_req \<Rightarrow> byte \<Rightarrow> rl_action" where
  "rl_host_ip_literal r c =
     (if is_dec c then rl_go rl_sw_host_ip_literal r
      else if is_letter c then rl_go rl_sw_host_ip_literal r
      else if c = ch CHR '':'' then rl_go rl_sw_host_ip_literal r
      else if c = ch CHR '']'' then rl_go rl_sw_host_end r
      else if c \<in> set (str ''-._~'') then rl_go rl_sw_host_ip_literal r
      else if c \<in> set (39 # str ''!$&()*+,;='') then rl_go rl_sw_host_ip_literal r
      else rl_fail NGX_HTTP_PARSE_INVALID_REQUEST r)"

definition rl_port :: "nat \<Rightarrow> rl_req \<Rightarrow> byte \<Rightarrow> rl_action" where
  "rl_port p r c =
     (if is_dec c then rl_go rl_sw_port r
      else if c = ch CHR ''/'' then
        rl_go rl_sw_after_slash_in_uri (r\<lparr>port_end := Some p, uri_start := Some p\<rparr>)
      else if c = ch CHR ''?'' then
        rl_go rl_sw_uri (r\<lparr>port_end := Some p, uri_start := Some p, args_start := Some (p + 1),
          empty_path_in_uri := True\<rparr>)
      else if c = SP then
        rl_go rl_sw_http_09 (r\<lparr>port_end := Some p, uri_start := map_option (\<lambda>e. e + 1) (schema_end r),
          uri_end := map_option (\<lambda>e. e + 2) (schema_end r)\<rparr>)
      else rl_fail NGX_HTTP_PARSE_INVALID_REQUEST r)"

definition rl_after_slash_in_uri :: "nat \<Rightarrow> rl_req \<Rightarrow> byte \<Rightarrow> rl_action" where
  "rl_after_slash_in_uri p r c =
     (if usual c then rl_go rl_sw_check_uri r
      else if c = SP then rl_go rl_sw_http_09 (r\<lparr>uri_end := Some p\<rparr>)
      else if c = CR then rl_go rl_sw_almost_done (r\<lparr>uri_end := Some p, http_minor := 9\<rparr>)
      else if c = LF then rl_done (r\<lparr>uri_end := Some p, http_minor := 9\<rparr>) p
      else if c = ch CHR ''.'' then rl_go rl_sw_uri (r\<lparr>complex_uri := True\<rparr>)
      else if c = ch CHR ''%'' then rl_go rl_sw_uri (r\<lparr>quoted_uri := True\<rparr>)
      else if c = ch CHR ''/'' then rl_go rl_sw_uri (r\<lparr>complex_uri := True\<rparr>)
      else if c = ch CHR ''?'' then rl_go rl_sw_uri (r\<lparr>args_start := Some (p + 1)\<rparr>)
      else if c = ch CHR ''#'' then rl_go rl_sw_uri (r\<lparr>complex_uri := True\<rparr>)
      else if c = ch CHR ''+'' then rl_go rl_sw_after_slash_in_uri (r\<lparr>plus_in_uri := True\<rparr>)
      else if c < 0x20 \<or> c = 0x7f then rl_fail NGX_HTTP_PARSE_INVALID_REQUEST r
      else rl_go rl_sw_check_uri r)"

definition rl_check_uri :: "nat \<Rightarrow> rl_req \<Rightarrow> byte \<Rightarrow> rl_action" where
  "rl_check_uri p r c =
     (if usual c then rl_go rl_sw_check_uri r
      else if c = ch CHR ''/'' then rl_go rl_sw_after_slash_in_uri (r\<lparr>uri_ext := None\<rparr>)
      else if c = ch CHR ''.'' then rl_go rl_sw_check_uri (r\<lparr>uri_ext := Some (p + 1)\<rparr>)
      else if c = SP then rl_go rl_sw_http_09 (r\<lparr>uri_end := Some p\<rparr>)
      else if c = CR then rl_go rl_sw_almost_done (r\<lparr>uri_end := Some p, http_minor := 9\<rparr>)
      else if c = LF then rl_done (r\<lparr>uri_end := Some p, http_minor := 9\<rparr>) p
      else if c = ch CHR ''%'' then rl_go rl_sw_uri (r\<lparr>quoted_uri := True\<rparr>)
      else if c = ch CHR ''?'' then rl_go rl_sw_uri (r\<lparr>args_start := Some (p + 1)\<rparr>)
      else if c = ch CHR ''#'' then rl_go rl_sw_uri (r\<lparr>complex_uri := True\<rparr>)
      else if c = ch CHR ''+'' then rl_go rl_sw_check_uri (r\<lparr>plus_in_uri := True\<rparr>)
      else if c < 0x20 \<or> c = 0x7f then rl_fail NGX_HTTP_PARSE_INVALID_REQUEST r
      else rl_go rl_sw_check_uri r)"

definition rl_uri :: "nat \<Rightarrow> rl_req \<Rightarrow> byte \<Rightarrow> rl_action" where
  "rl_uri p r c =
     (if usual c then rl_go rl_sw_uri r
      else if c = SP then rl_go rl_sw_http_09 (r\<lparr>uri_end := Some p\<rparr>)
      else if c = CR then rl_go rl_sw_almost_done (r\<lparr>uri_end := Some p, http_minor := 9\<rparr>)
      else if c = LF then rl_done (r\<lparr>uri_end := Some p, http_minor := 9\<rparr>) p
      else if c = ch CHR ''#'' then rl_go rl_sw_uri (r\<lparr>complex_uri := True\<rparr>)
      else if c < 0x20 \<or> c = 0x7f then rl_fail NGX_HTTP_PARSE_INVALID_REQUEST r
      else rl_go rl_sw_uri r)"

definition rl_http_09 :: "nat \<Rightarrow> rl_req \<Rightarrow> byte \<Rightarrow> rl_action" where
  "rl_http_09 p r c =
     (if c = SP then rl_go rl_sw_http_09 r
      else if c = CR then rl_go rl_sw_almost_done (r\<lparr>http_minor := 9\<rparr>)
      else if c = LF then rl_done (r\<lparr>http_minor := 9\<rparr>) p
      else if c = ch CHR ''H'' then rl_go rl_sw_http_H (r\<lparr>http_protocol := Some p\<rparr>)
      else rl_fail NGX_HTTP_PARSE_INVALID_REQUEST r)"

definition rl_http_H :: "rl_req \<Rightarrow> byte \<Rightarrow> rl_action" where
  "rl_http_H r c = (if c = ch CHR ''T'' then rl_go rl_sw_http_HT r
     else rl_fail NGX_HTTP_PARSE_INVALID_REQUEST r)"

definition rl_http_HT :: "rl_req \<Rightarrow> byte \<Rightarrow> rl_action" where
  "rl_http_HT r c = (if c = ch CHR ''T'' then rl_go rl_sw_http_HTT r
     else rl_fail NGX_HTTP_PARSE_INVALID_REQUEST r)"

definition rl_http_HTT :: "rl_req \<Rightarrow> byte \<Rightarrow> rl_action" where
  "rl_http_HTT r c = (if c = ch CHR ''P'' then rl_go rl_sw_http_HTTP r
     else rl_fail NGX_HTTP_PARSE_INVALID_REQUEST r)"

definition rl_http_HTTP :: "rl_req \<Rightarrow> byte \<Rightarrow> rl_action" where
  "rl_http_HTTP r c = (if c = ch CHR ''/'' then rl_go rl_sw_first_major_digit r
     else rl_fail NGX_HTTP_PARSE_INVALID_REQUEST r)"

definition rl_first_major_digit :: "rl_req \<Rightarrow> byte \<Rightarrow> rl_action" where
  "rl_first_major_digit r c =
     (if c < ch CHR ''1'' \<or> c > ch CHR ''9'' then rl_fail NGX_HTTP_PARSE_INVALID_REQUEST r
      else let r = r\<lparr>http_major := unat c - 48\<rparr> in
        if http_major r > 1 then rl_fail NGX_HTTP_PARSE_INVALID_VERSION r
        else rl_go rl_sw_major_digit r)"

definition rl_major_digit :: "rl_req \<Rightarrow> byte \<Rightarrow> rl_action" where
  "rl_major_digit r c =
     (if c = ch CHR ''.'' then rl_go rl_sw_first_minor_digit r
      else if \<not> is_dec c then rl_fail NGX_HTTP_PARSE_INVALID_REQUEST r
      else let r = r\<lparr>http_major := (http_major r * 10 + (unat c - 48)) mod 2 ^ 16\<rparr> in
        if http_major r > 1 then rl_fail NGX_HTTP_PARSE_INVALID_VERSION r
        else rl_go rl_sw_major_digit r)"

definition rl_first_minor_digit :: "rl_req \<Rightarrow> byte \<Rightarrow> rl_action" where
  "rl_first_minor_digit r c =
     (if \<not> is_dec c then rl_fail NGX_HTTP_PARSE_INVALID_REQUEST r
      else rl_go rl_sw_minor_digit (r\<lparr>http_minor := unat c - 48\<rparr>))"

definition rl_minor_digit :: "nat \<Rightarrow> rl_req \<Rightarrow> byte \<Rightarrow> rl_action" where
  "rl_minor_digit p r c =
     (if c = CR then rl_go rl_sw_almost_done r
      else if c = LF then rl_done r p
      else if c = SP then rl_go rl_sw_spaces_after_digit r
      else if \<not> is_dec c then rl_fail NGX_HTTP_PARSE_INVALID_REQUEST r
      else if http_minor r > 99 then rl_fail NGX_HTTP_PARSE_INVALID_REQUEST r
      else rl_go rl_sw_minor_digit (r\<lparr>http_minor := (http_minor r * 10 + (unat c - 48)) mod 2 ^ 16\<rparr>))"

definition rl_spaces_after_digit :: "nat \<Rightarrow> rl_req \<Rightarrow> byte \<Rightarrow> rl_action" where
  "rl_spaces_after_digit p r c =
     (if c = SP then rl_go rl_sw_spaces_after_digit r
      else if c = CR then rl_go rl_sw_almost_done r
      else if c = LF then rl_done r p
      else rl_fail NGX_HTTP_PARSE_INVALID_REQUEST r)"

definition rl_almost_done :: "nat \<Rightarrow> rl_req \<Rightarrow> byte \<Rightarrow> rl_action" where
  "rl_almost_done p r c =
     (let r = r\<lparr>request_end := Some (p - 1)\<rparr> in
      if c = LF then rl_done r p
      else rl_fail NGX_HTTP_PARSE_INVALID_REQUEST r)"

subsection \<open>The parser\<close>

fun rl_step :: "bytes \<Rightarrow> nat \<Rightarrow> rl_state \<times> rl_req \<Rightarrow> byte \<Rightarrow> rl_action" where
  "rl_step buf p (rl_sw_start, r) c = rl_start p r c"
| "rl_step buf p (rl_sw_method, r) c = rl_method buf p r c"
| "rl_step buf p (rl_sw_spaces_before_uri, r) c = rl_spaces_before_uri p r c"
| "rl_step buf p (rl_sw_schema, r) c = rl_schema p r c"
| "rl_step buf p (rl_sw_schema_slash, r) c = rl_schema_slash r c"
| "rl_step buf p (rl_sw_schema_slash_slash, r) c = rl_schema_slash_slash r c"
| "rl_step buf p (rl_sw_host_start, r) c = rl_host_start p r c"
| "rl_step buf p (rl_sw_host, r) c = rl_host p r c"
| "rl_step buf p (rl_sw_host_end, r) c = rl_host_end p r c"
| "rl_step buf p (rl_sw_host_ip_literal, r) c = rl_host_ip_literal r c"
| "rl_step buf p (rl_sw_port, r) c = rl_port p r c"
| "rl_step buf p (rl_sw_after_slash_in_uri, r) c = rl_after_slash_in_uri p r c"
| "rl_step buf p (rl_sw_check_uri, r) c = rl_check_uri p r c"
| "rl_step buf p (rl_sw_uri, r) c = rl_uri p r c"
| "rl_step buf p (rl_sw_http_09, r) c = rl_http_09 p r c"
| "rl_step buf p (rl_sw_http_H, r) c = rl_http_H r c"
| "rl_step buf p (rl_sw_http_HT, r) c = rl_http_HT r c"
| "rl_step buf p (rl_sw_http_HTT, r) c = rl_http_HTT r c"
| "rl_step buf p (rl_sw_http_HTTP, r) c = rl_http_HTTP r c"
| "rl_step buf p (rl_sw_first_major_digit, r) c = rl_first_major_digit r c"
| "rl_step buf p (rl_sw_major_digit, r) c = rl_major_digit r c"
| "rl_step buf p (rl_sw_first_minor_digit, r) c = rl_first_minor_digit r c"
| "rl_step buf p (rl_sw_minor_digit, r) c = rl_minor_digit p r c"
| "rl_step buf p (rl_sw_spaces_after_digit, r) c = rl_spaces_after_digit p r c"
| "rl_step buf p (rl_sw_almost_done, r) c = rl_almost_done p r c"

definition ngx_http_parse_request_line ::
  "rl_state \<Rightarrow> rl_req \<Rightarrow> bytes \<Rightarrow> nat \<Rightarrow> (rl_state, rl_req) call_result" where
  "ngx_http_parse_request_line state r buf pos = parse_call rl_step state r buf pos"

lemmas rl_case_defs = rl_start_def rl_method_def rl_spaces_before_uri_def rl_schema_def
  rl_schema_slash_def rl_schema_slash_slash_def rl_host_start_def rl_host_def rl_host_end_def
  rl_host_ip_literal_def rl_port_def rl_after_slash_in_uri_def rl_check_uri_def rl_uri_def
  rl_http_09_def rl_http_H_def rl_http_HT_def rl_http_HTT_def rl_http_HTTP_def
  rl_first_major_digit_def rl_major_digit_def rl_first_minor_digit_def rl_minor_digit_def
  rl_spaces_after_digit_def rl_almost_done_def rl_done_def

lemma rl_step_prefix: "p < length xs \<Longrightarrow> rl_step (xs @ ys) p s c = rl_step xs p s c"
  by (cases s; cases "fst s") (auto simp: rl_method_def)

lemma rl_step_exit:
  "rl_step buf p s c = Exit (rc, r, sv) \<Longrightarrow> rc \<noteq> NGX_AGAIN \<and> (sv = None \<longrightarrow> \<not> rc_live rc)"
  by (cases s; cases "fst s") (auto simp: rl_case_defs rc_live_def Let_def split: if_splits)

interpretation rl: resumable_call rl_step
  by unfold_locales (blast dest: rl_step_prefix rl_step_exit)+

subsection \<open>What a state knows\<close>

definition uri_seg :: "bytes \<Rightarrow> rl_req \<Rightarrow> nat \<Rightarrow> nat \<Rightarrow> bool" where
  "uri_seg buf r u e \<longleftrightarrow> u < e \<and> (\<forall>i. u \<le> i \<longrightarrow> i < e \<longrightarrow> uri_char (buf ! i)) \<and>
     (buf ! u = ch CHR ''/'' \<or> empty_path_in_uri r \<and> buf ! u = ch CHR ''?'') \<and>
     (case args_start r of None \<Rightarrow> True | Some x \<Rightarrow> u < x \<and> x \<le> e) \<and>
     (case uri_ext r of None \<Rightarrow> True | Some x \<Rightarrow> u < x \<and> x \<le> e)"

definition rl_version_ok :: "rl_req \<Rightarrow> bool" where
  "rl_version_ok r \<longleftrightarrow> http_major r \<le> 1 \<and> http_minor r \<le> 999"

definition rl_method_ok :: "rl_req \<Rightarrow> nat \<Rightarrow> bool" where
  "rl_method_ok r p \<longleftrightarrow> (\<exists>a b. request_start r = Some a \<and> method_end r = Some b \<and> a \<le> b \<and> b < p)"

definition rl_no_uri :: "rl_req \<Rightarrow> bool" where
  "rl_no_uri r \<longleftrightarrow> args_start r = None \<and> uri_ext r = None \<and> request_end r = None"

definition rl_in_uri :: "bytes \<Rightarrow> rl_req \<Rightarrow> nat \<Rightarrow> bool" where
  "rl_in_uri buf r p \<longleftrightarrow> request_end r = None \<and>
     (\<exists>u. uri_start r = Some u \<and> rl_method_ok r u \<and> uri_seg buf r u p)"

definition rl_after_uri :: "bytes \<Rightarrow> rl_req \<Rightarrow> nat \<Rightarrow> bool" where
  "rl_after_uri buf r p \<longleftrightarrow>
     (\<exists>u e. uri_start r = Some u \<and> uri_end r = Some e \<and> rl_method_ok r u \<and> uri_seg buf r u e \<and> e < p)"

definition rl_in_host :: "bytes \<Rightarrow> rl_req \<Rightarrow> nat \<Rightarrow> bool" where
  "rl_in_host buf r p \<longleftrightarrow> rl_no_uri r \<and>
     (\<exists>e. schema_end r = Some e \<and> rl_method_ok r e \<and> e + 2 < p \<and> buf ! (e + 1) = ch CHR ''/'')"

fun rl_inv :: "bytes \<Rightarrow> nat \<Rightarrow> rl_state \<times> rl_req \<Rightarrow> bool" where
  "rl_inv buf p (st, r) \<longleftrightarrow> rl_version_ok r \<and>
     (case st of
        rl_sw_start \<Rightarrow> rl_no_uri r
      | rl_sw_method \<Rightarrow> rl_no_uri r \<and> (\<exists>a. request_start r = Some a \<and> a < p)
      | rl_sw_spaces_before_uri \<Rightarrow> rl_no_uri r \<and> rl_method_ok r p
      | rl_sw_schema \<Rightarrow> rl_no_uri r \<and> rl_method_ok r p
      | rl_sw_schema_slash \<Rightarrow> rl_no_uri r \<and>
          (\<exists>e. schema_end r = Some e \<and> rl_method_ok r e \<and> p = e + 1)
      | rl_sw_schema_slash_slash \<Rightarrow> rl_no_uri r \<and>
          (\<exists>e. schema_end r = Some e \<and> rl_method_ok r e \<and> p = e + 2 \<and> buf ! (e + 1) = ch CHR ''/'')
      | rl_sw_host_start \<Rightarrow> rl_in_host buf r p
      | rl_sw_host \<Rightarrow> rl_in_host buf r p
      | rl_sw_host_end \<Rightarrow> rl_in_host buf r p
      | rl_sw_host_ip_literal \<Rightarrow> rl_in_host buf r p
      | rl_sw_port \<Rightarrow> rl_in_host buf r p
      | rl_sw_after_slash_in_uri \<Rightarrow> rl_in_uri buf r p
      | rl_sw_check_uri \<Rightarrow> rl_in_uri buf r p
      | rl_sw_uri \<Rightarrow> rl_in_uri buf r p
      | _ \<Rightarrow> request_end r = None \<and> rl_after_uri buf r p)"

definition rl_accepted :: "bytes \<Rightarrow> rl_req \<Rightarrow> nat \<Rightarrow> bool" where
  "rl_accepted buf r pos \<longleftrightarrow>
     (\<exists>a b u e z. request_start r = Some a \<and> method_end r = Some b \<and> uri_start r = Some u \<and>
        uri_end r = Some e \<and> request_end r = Some z \<and>
        a \<le> b \<and> b < u \<and> u < e \<and> e \<le> z \<and> z < pos \<and> uri_seg buf r u e \<and>
        buf ! (pos - 1) = LF) \<and>
     rl_version_ok r \<and> http_version r = http_major r * 1000 + http_minor r \<and>
     (http_version r = 9 \<longrightarrow> http_meth r = NGX_HTTP_GET)"

lemmas rl_inv_defs = rl_version_ok_def rl_no_uri_def rl_in_uri_def rl_after_uri_def rl_in_host_def

lemma uri_seg_extend:
  "uri_seg buf r u p \<Longrightarrow> uri_char (buf ! p) \<Longrightarrow> uri_seg buf r u (Suc p)"
  by (auto simp: uri_seg_def less_Suc_eq split: option.splits)

lemma uri_seg_update:
  "uri_seg buf r u p \<Longrightarrow> uri_char (buf ! p) \<Longrightarrow> uri_seg buf (r\<lparr>args_start := Some (Suc p)\<rparr>) u (Suc p)"
  "uri_seg buf r u p \<Longrightarrow> uri_char (buf ! p) \<Longrightarrow> uri_seg buf (r\<lparr>uri_ext := Some (Suc p)\<rparr>) u (Suc p)"
  "uri_seg buf r u p \<Longrightarrow> uri_char (buf ! p) \<Longrightarrow> uri_seg buf (r\<lparr>uri_ext := None\<rparr>) u (Suc p)"
  by (auto simp: uri_seg_def less_Suc_eq split: option.splits)

lemma uri_seg_frame [simp]:
  "uri_seg buf (r\<lparr>uri_end := x\<rparr>) u e = uri_seg buf r u e"
  "uri_seg buf (r\<lparr>http_minor := m\<rparr>) u e = uri_seg buf r u e"
  "uri_seg buf (r\<lparr>http_major := m\<rparr>) u e = uri_seg buf r u e"
  "uri_seg buf (r\<lparr>http_version := m\<rparr>) u e = uri_seg buf r u e"
  "uri_seg buf (r\<lparr>http_protocol := x\<rparr>) u e = uri_seg buf r u e"
  "uri_seg buf (r\<lparr>request_end := x\<rparr>) u e = uri_seg buf r u e"
  "uri_seg buf (r\<lparr>complex_uri := b\<rparr>) u e = uri_seg buf r u e"
  "uri_seg buf (r\<lparr>quoted_uri := b\<rparr>) u e = uri_seg buf r u e"
  "uri_seg buf (r\<lparr>plus_in_uri := b\<rparr>) u e = uri_seg buf r u e"
  by (simp_all add: uri_seg_def)

lemma rl_method_ok_frame [simp]:
  "rl_method_ok (r\<lparr>uri_end := x\<rparr>) p = rl_method_ok r p"
  "rl_method_ok (r\<lparr>uri_start := x\<rparr>) p = rl_method_ok r p"
  "rl_method_ok (r\<lparr>args_start := x\<rparr>) p = rl_method_ok r p"
  "rl_method_ok (r\<lparr>uri_ext := x\<rparr>) p = rl_method_ok r p"
  "rl_method_ok (r\<lparr>http_minor := m\<rparr>) p = rl_method_ok r p"
  "rl_method_ok (r\<lparr>http_major := m\<rparr>) p = rl_method_ok r p"
  "rl_method_ok (r\<lparr>http_version := m\<rparr>) p = rl_method_ok r p"
  "rl_method_ok (r\<lparr>http_protocol := x\<rparr>) p = rl_method_ok r p"
  "rl_method_ok (r\<lparr>request_end := x\<rparr>) p = rl_method_ok r p"
  "rl_method_ok (r\<lparr>schema_start := x\<rparr>) p = rl_method_ok r p"
  "rl_method_ok (r\<lparr>schema_end := x\<rparr>) p = rl_method_ok r p"
  "rl_method_ok (r\<lparr>host_start := x\<rparr>) p = rl_method_ok r p"
  "rl_method_ok (r\<lparr>host_end := x\<rparr>) p = rl_method_ok r p"
  "rl_method_ok (r\<lparr>port_end := x\<rparr>) p = rl_method_ok r p"
  "rl_method_ok (r\<lparr>complex_uri := b\<rparr>) p = rl_method_ok r p"
  "rl_method_ok (r\<lparr>quoted_uri := b\<rparr>) p = rl_method_ok r p"
  "rl_method_ok (r\<lparr>plus_in_uri := b\<rparr>) p = rl_method_ok r p"
  "rl_method_ok (r\<lparr>empty_path_in_uri := b\<rparr>) p = rl_method_ok r p"
  by (simp_all add: rl_method_ok_def)

lemma rl_method_ok_mono: "rl_method_ok r p \<Longrightarrow> p \<le> q \<Longrightarrow> rl_method_ok r q"
  by (auto simp: rl_method_ok_def)

lemma rl_method_ok_Suc: "rl_method_ok r p \<Longrightarrow> rl_method_ok r (Suc p)"
  by (auto simp: rl_method_ok_def)

definition rl_post :: "bytes \<Rightarrow> (rl_state, rl_req) call_exit \<Rightarrow> bool" where
  "rl_post buf x \<longleftrightarrow> (case x of (rc, r, sv) \<Rightarrow> rc = NGX_OK \<longrightarrow>
     (\<exists>st pos. sv = Some (st, pos) \<and> rl_accepted buf r pos))"

lemma uri_seg_less: "uri_seg buf r u e \<Longrightarrow> u < e"
  by (simp add: uri_seg_def)

lemma rl_done_post:
  "rl_after_uri buf r (Suc p) \<Longrightarrow> rl_version_ok r \<Longrightarrow> buf ! p = LF \<Longrightarrow>
   (case request_end r of None \<Rightarrow> True | Some z \<Rightarrow> (\<exists>e. uri_end r = Some e \<and> e \<le> z) \<and> z \<le> p) \<Longrightarrow>
   (case rl_done r p of Next s \<Rightarrow> False | Exit x \<Rightarrow> rl_post buf x)"
  by (auto simp: rl_done_def rl_post_def rl_accepted_def rl_after_uri_def rl_method_ok_def
      rl_version_ok_def Let_def dest: uri_seg_less split: option.splits if_splits)

abbreviation rl_keeps :: "bytes \<Rightarrow> nat \<Rightarrow> rl_action \<Rightarrow> bool" where
  "rl_keeps buf p a \<equiv> (case a of Next s \<Rightarrow> rl_inv buf (Suc p) s | Exit x \<Rightarrow> rl_post buf x)"

lemma rl_fail_post: "rc \<noteq> NGX_OK \<Longrightarrow> rl_post buf (rc, r, sv)"
  by (simp add: rl_post_def)

lemma rl_done_keeps:
  "rl_in_uri buf r p \<Longrightarrow> rl_version_ok r \<Longrightarrow> buf ! p = LF \<Longrightarrow>
   rl_keeps buf p (rl_done (r\<lparr>uri_end := Some p, http_minor := 9\<rparr>) p)"
  using rl_done_post [of buf "r\<lparr>uri_end := Some p, http_minor := 9\<rparr>" p]
  by (auto simp: rl_in_uri_def rl_after_uri_def rl_version_ok_def split: action.split)

lemma rl_after_done_keeps:
  "rl_after_uri buf r p \<Longrightarrow> request_end r = None \<Longrightarrow> rl_version_ok r \<Longrightarrow> buf ! p = LF \<Longrightarrow>
   rl_keeps buf p (rl_done r p)"
  using rl_done_post [of buf r p]
  by (auto simp: rl_after_uri_def split: action.split)

lemma rl_uri_end_keeps:
  "rl_in_uri buf r p \<Longrightarrow> rl_after_uri buf (r\<lparr>uri_end := Some p\<rparr>) (Suc p)"
  "rl_in_uri buf r p \<Longrightarrow> rl_after_uri buf (r\<lparr>uri_end := Some p, http_minor := m\<rparr>) (Suc p)"
  by (auto simp: rl_in_uri_def rl_after_uri_def)

lemma rl_uri_char_keeps:
  assumes "rl_in_uri buf r p" "uri_char (buf ! p)"
  shows "rl_in_uri buf r (Suc p)"
    "rl_in_uri buf (r\<lparr>complex_uri := b\<rparr>) (Suc p)"
    "rl_in_uri buf (r\<lparr>quoted_uri := b\<rparr>) (Suc p)"
    "rl_in_uri buf (r\<lparr>plus_in_uri := b\<rparr>) (Suc p)"
    "rl_in_uri buf (r\<lparr>args_start := Some (Suc p)\<rparr>) (Suc p)"
    "rl_in_uri buf (r\<lparr>uri_ext := Some (Suc p)\<rparr>) (Suc p)"
    "rl_in_uri buf (r\<lparr>uri_ext := None\<rparr>) (Suc p)"
  using assms by (auto simp: rl_in_uri_def intro: uri_seg_extend uri_seg_update)

lemma uri_chars [simp]: "uri_char 46" "uri_char 37" "uri_char 47" "uri_char 63" "uri_char 35" "uri_char 43"
  by (simp_all add: uri_char_def)

lemma rl_version_ok_frame [simp]:
  "rl_version_ok (r\<lparr>uri_end := x\<rparr>) = rl_version_ok r"
  "rl_version_ok (r\<lparr>args_start := x\<rparr>) = rl_version_ok r"
  "rl_version_ok (r\<lparr>uri_ext := x\<rparr>) = rl_version_ok r"
  "rl_version_ok (r\<lparr>complex_uri := b\<rparr>) = rl_version_ok r"
  "rl_version_ok (r\<lparr>quoted_uri := b\<rparr>) = rl_version_ok r"
  "rl_version_ok (r\<lparr>plus_in_uri := b\<rparr>) = rl_version_ok r"
  by (simp_all add: rl_version_ok_def)

lemma rl_keeps_uri_states:
  assumes "rl_in_uri buf r p" "rl_version_ok r" "c = buf ! p"
  shows "rl_keeps buf p (rl_after_slash_in_uri p r c)" "rl_keeps buf p (rl_check_uri p r c)"
    "rl_keeps buf p (rl_uri p r c)"
  using assms usual_uri_char [of c] uri_charI [of c] rl_done_keeps [of buf r p]
    rl_uri_char_keeps [of buf r p] rl_uri_end_keeps [of buf r p]
  by (simp_all add: rl_after_slash_in_uri_def rl_check_uri_def rl_uri_def rl_fail_post
      rl_version_ok_def rl_in_uri_def)

lemma rl_keeps_host_states:
  assumes "rl_in_host buf r p" "rl_version_ok r" "c = buf ! p"
  shows "rl_keeps buf p (rl_host_start p r c)" "rl_keeps buf p (rl_host p r c)"
    "rl_keeps buf p (rl_host_end p r c)" "rl_keeps buf p (rl_host_ip_literal r c)"
    "rl_keeps buf p (rl_port p r c)"
  using assms
  by (auto simp: rl_host_start_def rl_host_def rl_host_end_def rl_host_ip_literal_def rl_port_def
      rl_fail_post Let_def rl_inv_defs uri_seg_def less_Suc_eq intro: rl_method_ok_mono rl_method_ok_Suc)

lemma rl_keeps_start_states:
  assumes "rl_no_uri r" "rl_version_ok r" "c = buf ! p"
  shows "rl_keeps buf p (rl_start p r c)"
    "\<exists>a. request_start r = Some a \<and> a < p \<Longrightarrow> rl_keeps buf p (rl_method buf p r c)"
    "rl_method_ok r p \<Longrightarrow> rl_keeps buf p (rl_spaces_before_uri p r c)"
    "rl_method_ok r p \<Longrightarrow> rl_keeps buf p (rl_schema p r c)"
    "\<exists>e. schema_end r = Some e \<and> rl_method_ok r e \<and> p = e + 1 \<Longrightarrow> rl_keeps buf p (rl_schema_slash r c)"
    "\<exists>e. schema_end r = Some e \<and> rl_method_ok r e \<and> p = e + 2 \<and> buf ! (e + 1) = ch CHR ''/'' \<Longrightarrow>
       rl_keeps buf p (rl_schema_slash_slash r c)"
       apply (use assms in \<open>auto simp: rl_start_def rl_fail_post Let_def rl_inv_defs\<close>) [1]
      apply (use assms in \<open>auto simp: rl_method_def rl_fail_post Let_def rl_inv_defs rl_method_ok_def
        split: option.splits\<close>) [1]
     apply (use assms in \<open>auto simp: rl_spaces_before_uri_def rl_fail_post rl_inv_defs uri_seg_def
        less_Suc_eq intro: rl_method_ok_mono\<close>) [1]
    apply (use assms in \<open>auto simp: rl_schema_def rl_fail_post rl_inv_defs intro: rl_method_ok_mono\<close>) [1]
   apply (use assms in \<open>auto simp: rl_schema_slash_def rl_fail_post rl_inv_defs\<close>) [1]
  apply (use assms in \<open>auto simp: rl_schema_slash_slash_def rl_fail_post rl_inv_defs\<close>) [1]
  done

lemma rl_after_uri_frame:
  "rl_after_uri buf r p \<Longrightarrow> rl_after_uri buf r (Suc p)"
  "rl_after_uri buf r p \<Longrightarrow> rl_after_uri buf (r\<lparr>http_minor := m\<rparr>) q = rl_after_uri buf r q"
  "rl_after_uri buf (r\<lparr>http_major := m\<rparr>) q = rl_after_uri buf r q"
  "rl_after_uri buf (r\<lparr>http_protocol := x\<rparr>) q = rl_after_uri buf r q"
  by (auto simp: rl_after_uri_def intro: less_SucI)

lemma rl_keeps_version_states:
  assumes "rl_after_uri buf r p" "request_end r = None" "rl_version_ok r" "c = buf ! p"
  shows "rl_keeps buf p (rl_http_09 p r c)" "rl_keeps buf p (rl_http_H r c)"
    "rl_keeps buf p (rl_http_HT r c)" "rl_keeps buf p (rl_http_HTT r c)"
    "rl_keeps buf p (rl_http_HTTP r c)" "rl_keeps buf p (rl_first_major_digit r c)"
    "rl_keeps buf p (rl_major_digit r c)" "rl_keeps buf p (rl_first_minor_digit r c)"
    "rl_keeps buf p (rl_minor_digit p r c)" "rl_keeps buf p (rl_spaces_after_digit p r c)"
proof -
  have dec: "is_dec c \<Longrightarrow> unat c - 48 \<le> 9" by (auto simp: is_dec_unat)
  have minor: "\<not> 99 < http_minor r \<Longrightarrow> is_dec c \<Longrightarrow>
      (http_minor r * 10 + (unat c - 48)) mod 65536 \<le> 999"
    using dec mod_less_eq_dividend [of "http_minor r * 10 + (unat c - 48)" 65536] by linarith
  note [simp] = rl_after_uri_frame rl_fail_post rl_version_ok_def Let_def
  show "rl_keeps buf p (rl_http_09 p r c)"
    using assms rl_after_done_keeps [of buf "r\<lparr>http_minor := 9\<rparr>" p]
    by (simp add: rl_http_09_def)
  show "rl_keeps buf p (rl_http_H r c)" "rl_keeps buf p (rl_http_HT r c)"
    "rl_keeps buf p (rl_http_HTT r c)" "rl_keeps buf p (rl_http_HTTP r c)"
    using assms by (simp_all add: rl_http_H_def rl_http_HT_def rl_http_HTT_def rl_http_HTTP_def)
  show "rl_keeps buf p (rl_first_major_digit r c)" "rl_keeps buf p (rl_major_digit r c)"
    using assms by (simp_all add: rl_first_major_digit_def rl_major_digit_def)
  show "rl_keeps buf p (rl_first_minor_digit r c)"
    using assms dec by (auto simp: rl_first_minor_digit_def)
  show "rl_keeps buf p (rl_minor_digit p r c)" "rl_keeps buf p (rl_spaces_after_digit p r c)"
    using assms minor rl_after_done_keeps [of buf r p]
    by (simp_all add: rl_minor_digit_def rl_spaces_after_digit_def)
qed

lemma rl_keeps_almost_done:
  assumes "rl_after_uri buf r p" "rl_version_ok r" "c = buf ! p"
  shows "rl_keeps buf p (rl_almost_done p r c)"
proof (cases "c = LF")
  case True
  have "case rl_done (r\<lparr>request_end := Some (p - 1)\<rparr>) p of Next s \<Rightarrow> False | Exit x \<Rightarrow> rl_post buf x"
    using assms True
    by (intro rl_done_post) (auto simp: rl_after_uri_def rl_version_ok_def)
  then show ?thesis
    using True by (auto simp: rl_almost_done_def split: action.splits)
qed (simp add: rl_almost_done_def rl_fail_post)

lemma rl_inv_step:
  assumes "rl_inv buf p s" "c = buf ! p"
  shows "rl_keeps buf p (rl_step buf p s c)"
proof (cases s)
  case (Pair st r)
  show ?thesis
    using assms rl_keeps_uri_states [of buf r p c] rl_keeps_host_states [of buf r p c]
      rl_keeps_start_states [of r c buf p] rl_keeps_version_states [of buf r p c]
      rl_keeps_almost_done [of buf r p c]
    unfolding Pair by (cases st) (simp_all only: rl_inv.simps rl_step.simps rl_state.case simp_thms)
qed

lemma rl_call_accepts:
  assumes "ngx_http_parse_request_line st r buf pos = (rc, st', r', pos')"
    and "rl_inv buf pos (st, r)" "pos \<le> length buf"
  shows "rc = NGX_OK \<Longrightarrow> rl_accepted buf r' pos'"
    and "rc = NGX_AGAIN \<Longrightarrow> rl_inv buf pos' (st', r') \<and> pos' = length buf"
proof -
  have inv: "case parse_loop rl_step buf pos (drop pos buf) (st, r) of
      Inl (s', p') \<Rightarrow> p' = length buf \<and> rl_inv buf p' s' | Inr x \<Rightarrow> rl_post buf x"
    using assms(2,3) by (intro parse_loop_invariant) (auto intro: rl_inv_step)
  show "rc = NGX_OK \<Longrightarrow> rl_accepted buf r' pos'"
    using assms(1) inv
    by (auto simp: ngx_http_parse_request_line_def parse_call_def rl_post_def split: sum.splits option.splits)
  show "rc = NGX_AGAIN \<Longrightarrow> rl_inv buf pos' (st', r') \<and> pos' = length buf"
    using assms(1) inv rl.loop_exit [of buf pos "drop pos buf" "(st, r)"]
    by (auto simp: ngx_http_parse_request_line_def parse_call_def split: sum.splits option.splits)
qed

subsection \<open>Properties\<close>

text \<open>C25. The request line parser does not depend on how the network cuts its input: feeding it
  the line in arbitrary pieces, each call continuing from the state, the fields and the position
  that the one before saved, ends with the same return code, fields, saved state and position as
  one call on the whole input.\<close>

theorem request_line_resume:
  "call_view (parse_feed ngx_http_parse_request_line st r buf (length buf) pieces) =
   call_view (ngx_http_parse_request_line st r (buf @ concat pieces) (length buf))"
  using rl.feed_call [of st r buf pieces]
  by (simp add: ngx_http_parse_request_line_def [abs_def])

text \<open>C4. An accepted request line is well formed, whatever bytes arrived and in whatever pieces:
  the method, URI and line offsets are set and in order, the line ends with LF, no byte of the
  URI is a control character, a space or DEL, the URI starts with a slash (or with the question
  mark of an absolute URI with an empty path), the query string and the extension lie inside it,
  the version is at most 1.999 and is what \<open>http_version\<close> says, and a request with no version is
  a GET.\<close>

theorem request_line_accepted:
  assumes "parse_feed ngx_http_parse_request_line rl_sw_start rl_init buf (length buf) pieces =
    (NGX_OK, st, r, pos)"
  shows "rl_accepted (buf @ concat pieces) r pos"
proof -
  obtain st' r' pos' where one: "ngx_http_parse_request_line rl_sw_start rl_init
      (buf @ concat pieces) (length buf) = (NGX_OK, st', r', pos')" and "r' = r" "pos' = pos"
    using rl.feed_call [of rl_sw_start rl_init buf pieces] assms
    by (cases "ngx_http_parse_request_line rl_sw_start rl_init (buf @ concat pieces) (length buf)")
      (auto simp: ngx_http_parse_request_line_def [abs_def] rc_live_def split: if_splits)
  moreover have "rl_inv (buf @ concat pieces) (length buf) (rl_sw_start, rl_init)"
    by (simp add: rl_init_def rl_version_ok_def rl_no_uri_def)
  ultimately show ?thesis
    using rl_call_accepts(1) [OF one] by simp
qed

theorem request_line_accepted_witness:
  "\<exists>st r pos. parse_feed ngx_http_parse_request_line rl_sw_start rl_init [] 0
      [str ''GET /a'', str ''? HTTP/1.1'', [CR, LF]] = (NGX_OK, st, r, pos) \<and>
    rl_accepted (concat [str ''GET /a'', str ''? HTTP/1.1'', [CR, LF]]) r pos"
  using request_line_accepted [of "[]" "[str ''GET /a'', str ''? HTTP/1.1'', [CR, LF]]"]
  by (simp add: ngx_http_parse_request_line_def parse_call_def rl_init_def rl_case_defs
      is_method_char_def is_dec_def slice_def method_word_def usual_bit usual_map_def Let_def)

subsection \<open>Well-formed request lines\<close>

lemma rl_method_run:
  "list_all is_method_char m \<Longrightarrow>
   parse_loop rl_step buf p m (rl_sw_method, r) = Inl ((rl_sw_method, r), p + length m)"
proof (rule parse_loop_stay)
  fix p c assume "c \<in> set m" "list_all is_method_char m"
  then have "is_method_char c" by (simp add: list_all_iff)
  then show "rl_step buf p (rl_sw_method, r) c = Next (rl_sw_method, r)"
    by (auto simp: rl_method_def is_method_char_def)
qed

text \<open>
  The target \<open>t\<close> is the path with its query string, from the slash at offset \<open>u\<close>. A target is hard
  when it needs the second parser, \<open>ngx_http_parse_complex_uri\<close>: a fragment, a percent sign in the path, or a
  slash followed by a slash or a dot. \<open>uri_fields\<close> says what the flags and the two optional offsets are.
\<close>

definition uri_path :: "bytes \<Rightarrow> bytes" where
  "uri_path t = takeWhile (\<lambda>c. c \<noteq> ch CHR ''?'') t"

fun slash_pair :: "bytes \<Rightarrow> bool" where
  "slash_pair (a # b # s) \<longleftrightarrow>
     a = ch CHR ''/'' \<and> (b = ch CHR ''/'' \<or> b = ch CHR ''.'') \<or> slash_pair (b # s)"
| "slash_pair _ \<longleftrightarrow> False"

definition uri_hard :: "bytes \<Rightarrow> bool" where
  "uri_hard t \<longleftrightarrow> ch CHR ''#'' \<in> set t \<or> ch CHR ''%'' \<in> set (uri_path t) \<or>
     slash_pair (uri_path t)"

definition path_ext :: "nat \<Rightarrow> bytes \<Rightarrow> nat option" where
  "path_ext u path =
     (if ch CHR ''.'' \<in> set (takeWhile (\<lambda>c. c \<noteq> ch CHR ''/'') (rev path))
      then Some (u + length path - length (takeWhile (\<lambda>c. c \<noteq> ch CHR ''.'') (rev path))) else None)"

definition uri_fields :: "nat \<Rightarrow> bytes \<Rightarrow> rl_req \<Rightarrow> bool" where
  "uri_fields u t r \<longleftrightarrow>
     (uri_hard t \<longrightarrow> complex_uri r \<or> quoted_uri r) \<and>
     (complex_uri r \<or> quoted_uri r \<longrightarrow> uri_hard t \<or> ch CHR ''+'' \<in> set (uri_path t)) \<and>
     (\<not> complex_uri r \<and> \<not> quoted_uri r \<longrightarrow>
       args_start r = (if ch CHR ''?'' \<in> set t then Some (u + length (uri_path t) + 1) else None) \<and>
       plus_in_uri r = (ch CHR ''+'' \<in> set (uri_path t)) \<and>
       uri_ext r = path_ext u (uri_path t))"

text \<open>The other fields.\<close>

definition rl_base :: "rl_req \<Rightarrow> rl_req" where
  "rl_base r = r\<lparr>complex_uri := False, quoted_uri := False, plus_in_uri := False,
     args_start := None, uri_ext := None\<rparr>"

text \<open>What holds between two bytes of the target.\<close>

fun uri_run_inv :: "nat \<Rightarrow> bytes \<Rightarrow> rl_state \<times> rl_req \<Rightarrow> bool" where
  "uri_run_inv u t (st, r) \<longleftrightarrow> uri_fields u t r \<and>
     (if st = rl_sw_uri then ch CHR ''?'' \<in> set t \<or> complex_uri r \<or> quoted_uri r
      else (st = rl_sw_after_slash_in_uri \<or> st = rl_sw_check_uri) \<and>
        ch CHR ''?'' \<notin> set t \<and> \<not> complex_uri r \<and> \<not> quoted_uri r \<and>
        (last t = ch CHR ''/'' \<longrightarrow> st = rl_sw_after_slash_in_uri) \<and>
        (st = rl_sw_after_slash_in_uri \<longrightarrow> last t = ch CHR ''/'' \<or> ch CHR ''+'' \<in> set t))"

lemma uri_path_all: "ch CHR ''?'' \<notin> set t \<Longrightarrow> uri_path t = t"
  by (auto simp: uri_path_def takeWhile_eq_all_conv)

lemma uri_path_snoc:
  "uri_path (t @ [c]) = (if ch CHR ''?'' \<in> set t \<or> c = ch CHR ''?'' then uri_path t else t @ [c])"
  by (induction t) (auto simp: uri_path_def)

lemma slash_pair_snoc:
  "slash_pair (t @ [c]) \<longleftrightarrow> slash_pair t \<or>
     t \<noteq> [] \<and> last t = ch CHR ''/'' \<and> (c = ch CHR ''/'' \<or> c = ch CHR ''.'')"
  by (induction t rule: slash_pair.induct) auto

lemma uri_hard_snoc:
  "uri_hard (t @ [c]) \<longleftrightarrow> uri_hard t \<or> c = ch CHR ''#'' \<or>
     (ch CHR ''?'' \<notin> set t \<and> (c = ch CHR ''%'' \<or>
        t \<noteq> [] \<and> last t = ch CHR ''/'' \<and> (c = ch CHR ''/'' \<or> c = ch CHR ''.'')))"
proof (cases "ch CHR ''?'' \<in> set t \<or> c = ch CHR ''?''")
  case True
  then show ?thesis by (auto simp: uri_hard_def uri_path_snoc)
next
  case False
  then show ?thesis by (auto simp: uri_hard_def uri_path_snoc uri_path_all slash_pair_snoc)
qed

lemma path_ext_snoc:
  "path_ext u (t @ [c]) = (if c = ch CHR ''.'' then Some (u + length t + 1)
     else if c = ch CHR ''/'' then None else path_ext u t)"
  by (auto simp: path_ext_def)

lemma special_not_usual [simp]:
  "\<not> usual 35" "\<not> usual 37" "\<not> usual 43" "\<not> usual 46" "\<not> usual 47" "\<not> usual 63"
  by (simp_all add: usual_bit usual_map_def)

lemma uri_char_cases: "uri_char c \<Longrightarrow> c \<noteq> SP \<and> c \<noteq> CR \<and> c \<noteq> LF \<and> \<not> c < 0x20 \<and> c \<noteq> 0x7f"
  by (auto simp: uri_char_def)

lemma rl_base_simps [simp]:
  "rl_base (r\<lparr>complex_uri := b\<rparr>) = rl_base r" "rl_base (r\<lparr>quoted_uri := b\<rparr>) = rl_base r"
  "rl_base (r\<lparr>plus_in_uri := b\<rparr>) = rl_base r" "rl_base (r\<lparr>args_start := x\<rparr>) = rl_base r"
  "rl_base (r\<lparr>uri_ext := x\<rparr>) = rl_base r"
  by (simp_all add: rl_base_def)

definition uri_goes :: "nat \<Rightarrow> bytes \<Rightarrow> rl_req \<Rightarrow> rl_action \<Rightarrow> bool" where
  "uri_goes u t r a \<longleftrightarrow> (\<exists>st r'. a = Next (st, r') \<and> uri_run_inv u t (st, r') \<and> rl_base r' = rl_base r)"

lemma uri_step_uri:
  assumes "uri_run_inv u t (rl_sw_uri, r)" "uri_char c"
  shows "uri_goes u (t @ [c]) r (rl_uri p r c)"
  using assms uri_char_cases [OF assms(2)]
  by (auto simp: uri_goes_def rl_uri_def uri_fields_def uri_hard_snoc uri_path_snoc uri_path_all)

lemma uri_step_check:
  assumes "uri_run_inv u t (rl_sw_check_uri, r)" "uri_char c" "t \<noteq> []" "p = u + length t"
  shows "uri_goes u (t @ [c]) r (rl_check_uri p r c)"
  using assms uri_char_cases [OF assms(2)]
  by (simp add: uri_goes_def rl_check_uri_def uri_fields_def uri_hard_snoc uri_path_snoc uri_path_all path_ext_snoc)
    auto

lemma uri_step_slash:
  assumes "uri_run_inv u t (rl_sw_after_slash_in_uri, r)" "uri_char c" "t \<noteq> []" "p = u + length t"
  shows "uri_goes u (t @ [c]) r (rl_after_slash_in_uri p r c)"
  using assms uri_char_cases [OF assms(2)]
  by (simp add: uri_goes_def rl_after_slash_in_uri_def uri_fields_def uri_hard_snoc uri_path_snoc uri_path_all path_ext_snoc)
    auto

lemma usual_space [simp]: "\<not> usual SP"
  using usual_uri_char [of SP] by (auto simp: uri_char_def)

lemma uri_step:
  assumes "uri_run_inv u t (st, r)" "uri_char c" "t \<noteq> []"
  shows "\<exists>st' r'. rl_step buf (u + length t) (st, r) c = Next (st', r') \<and>
    uri_run_inv u (t @ [c]) (st', r') \<and> rl_base r' = rl_base r"
proof -
  have "st = rl_sw_uri \<or> st = rl_sw_after_slash_in_uri \<or> st = rl_sw_check_uri"
    using assms(1) by (simp split: if_splits)
  then show ?thesis
    using assms uri_step_uri [of u t r c "u + length t"] uri_step_check [of u t r c "u + length t"]
      uri_step_slash [of u t r c "u + length t"]
    unfolding uri_goes_def by (elim disjE) (simp_all del: uri_run_inv.simps)
qed

lemma uri_run:
  assumes "uri_run_inv u t (st, r)" "t \<noteq> []" "list_all uri_char w" "p = u + length t"
  shows "\<exists>st' r'. parse_loop rl_step buf p (w @ rest) (st, r) = parse_loop rl_step buf (p + length w) rest (st', r') \<and>
    uri_run_inv u (t @ w) (st', r') \<and> rl_base r' = rl_base r"
  using assms
proof (induction w arbitrary: t st r p)
  case (Cons c w)
  obtain st1 r1 where 1: "rl_step buf p (st, r) c = Next (st1, r1)" "uri_run_inv u (t @ [c]) (st1, r1)"
    "rl_base r1 = rl_base r"
    using uri_step [of u t st r c buf] Cons.prems by auto
  obtain st2 r2 where "parse_loop rl_step buf (Suc p) (w @ rest) (st1, r1) =
      parse_loop rl_step buf (Suc p + length w) rest (st2, r2)"
    "uri_run_inv u ((t @ [c]) @ w) (st2, r2)" "rl_base r2 = rl_base r1"
    using Cons.IH [OF 1(2)] Cons.prems by fastforce
  then show ?case using 1 by (simp del: uri_run_inv.simps) blast
next
  case Nil
  then show ?case by (simp del: uri_run_inv.simps) blast
qed

lemma uri_run_space:
  "uri_run_inv u t (st, r) \<Longrightarrow> rl_step buf p (st, r) SP = Next (rl_sw_http_09, r\<lparr>uri_end := Some p\<rparr>)"
  using usual_uri_char [of SP]
  by (auto simp: rl_uri_def rl_check_uri_def rl_after_slash_in_uri_def uri_char_def split: if_splits)

text \<open>The version.\<close>

definition dec_digits :: "nat \<Rightarrow> bytes \<Rightarrow> nat" where
  "dec_digits n v = foldl (\<lambda>n c. n * 10 + (unat c - 48)) n v"

lemma dec_digits_simps [simp]:
  "dec_digits n [] = n" "dec_digits n (c # v) = dec_digits (n * 10 + (unat c - 48)) v"
  by (simp_all add: dec_digits_def)

lemma dec_digits_ge: "n \<le> dec_digits n v"
proof (induction v arbitrary: n)
  case (Cons c v)
  show ?case using Cons [of "n * 10 + (unat c - 48)"] by simp
qed simp

lemma rl_minor_run:
  "list_all is_dec v \<Longrightarrow> dec_digits (http_minor r) v \<le> 999 \<Longrightarrow>
   parse_loop rl_step buf p (v @ rest) (rl_sw_minor_digit, r) =
   parse_loop rl_step buf (p + length v) rest (rl_sw_minor_digit, r\<lparr>http_minor := dec_digits (http_minor r) v\<rparr>)"
proof (induction v arbitrary: p r)
  case (Cons c v)
  let ?n = "http_minor r * 10 + (unat c - 48)"
  have c: "is_dec c" using Cons.prems(1) by simp
  then have n: "c \<noteq> CR" "c \<noteq> LF" "c \<noteq> SP" by (auto simp: is_dec_def)
  have le: "?n \<le> 999" using Cons.prems(2) dec_digits_ge [of ?n v] by simp
  then have s: "rl_step buf p (rl_sw_minor_digit, r) c = Next (rl_sw_minor_digit, r\<lparr>http_minor := ?n\<rparr>)"
    using c n by (simp add: rl_minor_digit_def)
  show ?case using Cons.IH [of "r\<lparr>http_minor := ?n\<rparr>" "Suc p"] Cons.prems s by simp
qed simp

lemma rl_spaces_run:
  "parse_loop rl_step buf p (replicate i SP @ rest) (rl_sw_http_09, r) = parse_loop rl_step buf (p + i) rest (rl_sw_http_09, r)"
  "parse_loop rl_step buf p (replicate i SP @ rest) (rl_sw_spaces_before_uri, r) =
     parse_loop rl_step buf (p + i) rest (rl_sw_spaces_before_uri, r)"
  "parse_loop rl_step buf p (replicate i SP @ rest) (rl_sw_spaces_after_digit, r) =
     parse_loop rl_step buf (p + i) rest (rl_sw_spaces_after_digit, r)"
  by (induction i arbitrary: p) (simp_all add: rl_http_09_def rl_spaces_before_uri_def rl_spaces_after_digit_def is_letter_def)

definition line_end :: "bytes \<Rightarrow> bool" where
  "line_end le \<longleftrightarrow> le = [CR, LF] \<or> le = [LF]"

lemma rl_end_run:
  assumes "line_end le" "request_end r = None" "http_major r = 1"
  shows "parse_loop rl_step buf p (replicate k SP @ le @ rest) (rl_sw_minor_digit, r) =
    Inr (NGX_OK, r\<lparr>request_end := Some (p + k), http_version := 1000 + http_minor r\<rparr>,
      Some (rl_sw_start, p + k + length le))"
proof (cases k)
  case 0
  then show ?thesis using assms
    by (cases r) (auto simp: line_end_def rl_minor_digit_def rl_almost_done_def rl_done_def Let_def)
next
  case (Suc k')
  then show ?thesis using assms
    by (cases r)
      (auto simp: line_end_def rl_minor_digit_def rl_spaces_run rl_spaces_after_digit_def rl_almost_done_def rl_done_def Let_def)
qed

lemma rl_version_run:
  assumes "v \<noteq> []" "list_all is_dec v" "dec_digits 0 v \<le> 999" "line_end le" "request_end r = None"
  shows "parse_loop rl_step buf p (replicate j SP @ str ''HTTP/1.'' @ v @ replicate k SP @ le @ rest) (rl_sw_http_09, r) =
    Inr (NGX_OK, r\<lparr>http_protocol := Some (p + j), http_major := 1, http_minor := dec_digits 0 v,
      request_end := Some (p + j + 7 + length v + k), http_version := 1000 + dec_digits 0 v\<rparr>,
      Some (rl_sw_start, p + j + 7 + length v + k + length le))"
proof -
  obtain d v' where v: "v = d # v'" using assms(1) by (cases v) auto
  define r1 where "r1 = r\<lparr>http_protocol := Some (p + j), http_major := 1, http_minor := unat d - 48\<rparr>"
  have p8: "p + j + 8 = Suc (Suc (Suc (Suc (Suc (Suc (Suc (Suc (p + j))))))))" by simp
  have "parse_loop rl_step buf p (replicate j SP @ str ''HTTP/1.'' @ v @ replicate k SP @ le @ rest) (rl_sw_http_09, r) =
      parse_loop rl_step buf (p + j + 8) (v' @ replicate k SP @ le @ rest) (rl_sw_minor_digit, r1)"
    using assms(2) unfolding rl_spaces_run v r1_def p8
    by (simp add: rl_http_09_def rl_http_H_def rl_http_HT_def rl_http_HTT_def rl_http_HTTP_def
        rl_first_major_digit_def rl_major_digit_def rl_first_minor_digit_def Let_def)
  also have "\<dots> = Inr (NGX_OK, r1\<lparr>http_minor := dec_digits 0 v, request_end := Some (p + j + 7 + length v + k),
      http_version := 1000 + dec_digits 0 v\<rparr>, Some (rl_sw_start, p + j + 7 + length v + k + length le))"
    using assms v by (subst rl_minor_run) (auto simp: r1_def rl_end_run)
  finally show ?thesis by (cases r) (simp add: r1_def)
qed

text \<open>The methods by name, as \<open>ngx_http_request.h\<close> lists them.\<close>

definition http_methods :: "(bytes \<times> http_method) list" where
  "http_methods = [(str ''GET'', NGX_HTTP_GET), (str ''HEAD'', NGX_HTTP_HEAD), (str ''POST'', NGX_HTTP_POST),
     (str ''PUT'', NGX_HTTP_PUT), (str ''DELETE'', NGX_HTTP_DELETE), (str ''MKCOL'', NGX_HTTP_MKCOL),
     (str ''COPY'', NGX_HTTP_COPY), (str ''MOVE'', NGX_HTTP_MOVE), (str ''OPTIONS'', NGX_HTTP_OPTIONS),
     (str ''PROPFIND'', NGX_HTTP_PROPFIND), (str ''PROPPATCH'', NGX_HTTP_PROPPATCH), (str ''LOCK'', NGX_HTTP_LOCK),
     (str ''UNLOCK'', NGX_HTTP_UNLOCK), (str ''PATCH'', NGX_HTTP_PATCH), (str ''TRACE'', NGX_HTTP_TRACE),
     (str ''CONNECT'', NGX_HTTP_CONNECT)]"

lemma method_word_table: "method_word m = map_of http_methods m"
proof (cases "m \<in> fst ` set http_methods")
  case True
  then show ?thesis by (auto simp: http_methods_def method_word_def)
next
  case False
  moreover from this have "map_of http_methods m = None" by (simp add: map_of_eq_None_iff)
  ultimately show ?thesis by (simp add: http_methods_def method_word_def)
qed

text \<open>An absolute URI has a scheme, a host and possibly a port before its path.\<close>

type_synonym rl_authority = "bytes \<times> bytes \<times> bytes option"

definition scheme_ok :: "bytes \<Rightarrow> bool" where
  "scheme_ok s \<longleftrightarrow> s \<noteq> [] \<and> is_letter (hd s) \<and>
     list_all (\<lambda>c. is_letter c \<or> is_dec c \<or> c \<in> set (str ''+-.'')) (tl s)"

definition host_ok :: "bytes \<Rightarrow> bool" where
  "host_ok h \<longleftrightarrow> list_all (\<lambda>c. is_letter c \<or> is_dec c \<or> c \<in> set (str ''.-'')) h \<or>
     (2 \<le> length h \<and> hd h = ch CHR ''['' \<and> last h = ch CHR '']'' \<and>
      list_all (\<lambda>c. is_letter c \<or> is_dec c \<or> c = 39 \<or> c \<in> set (str '':-._~!$&()*+,;='')) (butlast (tl h)))"

fun authority_ok :: "rl_authority option \<Rightarrow> bool" where
  "authority_ok None \<longleftrightarrow> True"
| "authority_ok (Some (s, h, q)) \<longleftrightarrow> scheme_ok s \<and> host_ok h \<and> (case q of None \<Rightarrow> True | Some q \<Rightarrow> list_all is_dec q)"

fun authority_bytes :: "rl_authority option \<Rightarrow> bytes" where
  "authority_bytes None = []"
| "authority_bytes (Some (s, h, q)) = s @ str ''://'' @ h @ (case q of None \<Rightarrow> [] | Some q \<Rightarrow> ch CHR '':'' # q)"

fun set_authority :: "rl_authority option \<Rightarrow> nat \<Rightarrow> rl_req \<Rightarrow> rl_req" where
  "set_authority None x r = r"
| "set_authority (Some (s, h, q)) x r =
     (let r = r\<lparr>schema_start := Some x, schema_end := Some (x + length s),
        host_start := Some (x + length s + 3), host_end := Some (x + length s + 3 + length h)\<rparr>
      in case q of None \<Rightarrow> r | Some q \<Rightarrow> r\<lparr>port_end := Some (x + length s + 4 + length h + length q)\<rparr>)"

lemma not_letter [simp]:
  "\<not> is_letter 47" "\<not> is_letter 58" "\<not> is_letter 91" "\<not> is_letter 32" "\<not> is_letter 93"
  by (simp_all add: is_letter_def)

lemma not_dec [simp]: "\<not> is_dec 47" "\<not> is_dec 58" "\<not> is_dec 91" "\<not> is_dec 32" "\<not> is_dec 93"
  by (simp_all add: is_dec_def)

lemma rl_schema_run:
  assumes "scheme_ok s"
  shows "parse_loop rl_step buf x (s @ str ''://'' @ rest) (rl_sw_spaces_before_uri, r) =
    parse_loop rl_step buf (x + length s + 3) rest
      (rl_sw_host_start, r\<lparr>schema_start := Some x, schema_end := Some (x + length s)\<rparr>)"
proof -
  obtain c s' where s: "s = c # s'" and l: "is_letter c"
    and s': "list_all (\<lambda>c. is_letter c \<or> is_dec c \<or> c \<in> set (str ''+-.'')) s'"
    using assms by (cases s) (auto simp: scheme_ok_def)
  have c: "is_letter c" "c \<noteq> ch CHR ''/''" using l not_letter(1) by auto
  have stay: "parse_loop rl_step buf q s' (rl_sw_schema, r') = Inl ((rl_sw_schema, r'), q + length s')" for q r'
    using s' by (intro parse_loop_stay) (auto simp: rl_schema_def list_all_iff)
  have d: "\<not> is_dec 58" by (simp add: is_dec_def)
  have p: "x + length s + 3 = Suc (Suc (Suc (Suc (x + length s'))))" by (simp add: s)
  show ?thesis unfolding p
    using c d by (simp add: s parse_loop_append stay rl_spaces_before_uri_def)
      (simp add: rl_schema_def rl_schema_slash_def rl_schema_slash_slash_def)
qed

lemma host_name_run:
  assumes "list_all (\<lambda>c. is_letter c \<or> is_dec c \<or> c \<in> set (str ''.-'')) h" "d = ch CHR ''/'' \<or> d = ch CHR '':''"
  shows "parse_loop rl_step buf p (h @ d # rest) (rl_sw_host_start, r) =
    (case rl_host_end (p + length h) (r\<lparr>host_start := Some p\<rparr>) d of
       Next s \<Rightarrow> parse_loop rl_step buf (Suc (p + length h)) rest s | Exit y \<Rightarrow> Inr y)"
proof -
  have stay: "parse_loop rl_step buf q h' (rl_sw_host, r') = Inl ((rl_sw_host, r'), q + length h')"
    if "set h' \<subseteq> set h" for q h' r'
    using that assms(1) by (intro parse_loop_stay) (auto simp: rl_host_def list_all_iff)
  have d: "rl_host q r' d = rl_host_end q r' d" "d \<noteq> ch CHR ''[''" for q r'
    using assms(2) by (auto simp: rl_host_def)
  show ?thesis
  proof (cases h)
    case Nil
    show ?thesis using d unfolding Nil by (simp add: rl_host_start_def Let_def split: action.split)
  next
    case (Cons c h')
    then have "c \<noteq> ch CHR ''[''" "rl_host p (r\<lparr>host_start := Some p\<rparr>) c = Next (rl_sw_host, r\<lparr>host_start := Some p\<rparr>)"
      using assms(1) by (auto simp: rl_host_def)
    then show ?thesis using d stay [of h'] Cons unfolding Cons
      by (simp add: rl_host_start_def parse_loop_append subset_insertI split: action.split)
  qed
qed

lemma host_literal_run:
  assumes "list_all (\<lambda>c. is_letter c \<or> is_dec c \<or> c = 39 \<or> c \<in> set (str '':-._~!$&()*+,;='')) l"
  shows "parse_loop rl_step buf p (ch CHR ''['' # l @ ch CHR '']'' # rest) (rl_sw_host_start, r) =
    parse_loop rl_step buf (Suc (Suc (p + length l))) rest (rl_sw_host_end, r\<lparr>host_start := Some p\<rparr>)"
proof -
  have stay: "parse_loop rl_step buf q l (rl_sw_host_ip_literal, r') = Inl ((rl_sw_host_ip_literal, r'), q + length l)" for q r'
    using assms by (intro parse_loop_stay) (auto simp: rl_host_ip_literal_def list_all_iff)
  show ?thesis
    by (simp add: rl_host_start_def parse_loop_append stay Let_def) (simp add: rl_host_ip_literal_def)
qed

lemma rl_host_end_state: "rl_step buf p (rl_sw_host_end, r) c = rl_host_end p r c"
  by simp

lemma rl_host_end_go:
  "rl_host_end p r 47 = Next (rl_sw_after_slash_in_uri, r\<lparr>host_end := Some p, uri_start := Some p\<rparr>)"
  "rl_host_end p r 58 = Next (rl_sw_port, r\<lparr>host_end := Some p\<rparr>)"
  by (simp_all add: rl_host_end_def)

lemma rl_host_run:
  assumes "host_ok h" "d = ch CHR ''/'' \<or> d = ch CHR '':''"
  shows "parse_loop rl_step buf p (h @ d # rest) (rl_sw_host_start, r) =
    (case rl_host_end (p + length h) (r\<lparr>host_start := Some p\<rparr>) d of
       Next s \<Rightarrow> parse_loop rl_step buf (Suc (p + length h)) rest s | Exit y \<Rightarrow> Inr y)"
proof (cases "list_all (\<lambda>c. is_letter c \<or> is_dec c \<or> c \<in> set (str ''.-'')) h")
  case True
  then show ?thesis using host_name_run assms(2) by blast
next
  case False
  define l where "l = butlast (tl h)"
  have ok: "2 \<le> length h" "hd h = ch CHR ''[''" "last h = ch CHR '']''"
    "list_all (\<lambda>c. is_letter c \<or> is_dec c \<or> c = 39 \<or> c \<in> set (str '':-._~!$&()*+,;='')) l"
    using assms(1) False unfolding host_ok_def l_def by blast+
  then have h: "h = ch CHR ''['' # l @ [ch CHR '']'']"
    unfolding l_def by (cases h; cases "tl h" rule: rev_cases) auto
  show ?thesis using host_literal_run [OF ok(4), of buf p "d # rest" r] unfolding h
    by (simp add: rl_host_end_state split: action.split)
qed

lemma rl_port_run:
  assumes "list_all is_dec q"
  shows "parse_loop rl_step buf p (q @ ch CHR ''/'' # rest) (rl_sw_port, r) =
    parse_loop rl_step buf (Suc (p + length q)) rest
      (rl_sw_after_slash_in_uri, r\<lparr>port_end := Some (p + length q), uri_start := Some (p + length q)\<rparr>)"
proof -
  have "parse_loop rl_step buf p q (rl_sw_port, r) = Inl ((rl_sw_port, r), p + length q)"
    using assms by (intro parse_loop_stay) (auto simp: rl_port_def list_all_iff)
  then show ?thesis by (simp add: parse_loop_append) (simp add: rl_port_def)
qed

lemma rl_target_run:
  assumes "authority_ok a"
  shows "parse_loop rl_step buf x (authority_bytes a @ ch CHR ''/'' # rest) (rl_sw_spaces_before_uri, r) =
    parse_loop rl_step buf (Suc (x + length (authority_bytes a))) rest
      (rl_sw_after_slash_in_uri, set_authority a x r\<lparr>uri_start := Some (x + length (authority_bytes a))\<rparr>)"
proof (cases a)
  case None
  then show ?thesis by (simp add: rl_spaces_before_uri_def)
next
  case (Some b)
  obtain s h q where a: "a = Some (s, h, q)" using Some by (cases b) auto
  have ok: "scheme_ok s" "host_ok h" using assms a by auto
  show ?thesis
  proof (cases q)
    case None
    show ?thesis
      using rl_schema_run [OF ok(1), of buf x "h @ ch CHR ''/'' # rest" r]
        rl_host_run [OF ok(2), of "ch CHR ''/''" buf "x + length s + 3" rest
          "r\<lparr>schema_start := Some x, schema_end := Some (x + length s)\<rparr>"]
      by (simp add: a None rl_host_end_go Let_def eval_nat_numeral add.assoc)
  next
    case (Some n)
    then have n: "list_all is_dec n" using assms a by simp
    show ?thesis
      using rl_schema_run [OF ok(1), of buf x "h @ ch CHR '':'' # n @ ch CHR ''/'' # rest" r]
        rl_host_run [OF ok(2), of "ch CHR '':''" buf "x + length s + 3" "n @ ch CHR ''/'' # rest"
          "r\<lparr>schema_start := Some x, schema_end := Some (x + length s)\<rparr>"]
      by (simp add: a Some rl_host_end_go rl_port_run [OF n, simplified] Let_def eval_nat_numeral add.assoc)
  qed
qed

lemma rl_blank_run:
  "list_all (\<lambda>c. c = CR \<or> c = LF) z \<Longrightarrow>
   parse_loop rl_step buf p (z @ rest) (rl_sw_start, r) =
   parse_loop rl_step buf (p + length z) rest
     (rl_sw_start, r\<lparr>request_start := if z = [] then request_start r else Some (p + length z - 1)\<rparr>)"
proof (induction z arbitrary: p r)
  case (Cons c z)
  then show ?case by (auto simp: rl_start_def Let_def)
qed simp

text \<open>
  A request line: blank lines \<open>z\<close>, a method word \<open>m\<close>, scheme and host \<open>a\<close> or nothing, the target \<open>w\<close>, the
  minor version digits \<open>v\<close> and the line end \<open>le\<close>, with one or more spaces between them and \<open>k\<close> before the end.
\<close>

definition rl_line :: "bytes \<Rightarrow> bytes \<Rightarrow> nat \<Rightarrow> rl_authority option \<Rightarrow> bytes \<Rightarrow> nat \<Rightarrow> bytes \<Rightarrow> nat \<Rightarrow> bytes \<Rightarrow> bytes" where
  "rl_line z m i a w j v k le =
     z @ m @ replicate (Suc i) SP @ authority_bytes a @ w @ replicate (Suc j) SP @ str ''HTTP/1.'' @ v @
       replicate k SP @ le"

definition rl_parsed :: "bytes \<Rightarrow> bytes \<Rightarrow> nat \<Rightarrow> rl_authority option \<Rightarrow> bytes \<Rightarrow> nat \<Rightarrow> bytes \<Rightarrow> nat \<Rightarrow> rl_req" where
  "rl_parsed z m i a w j v k =
     (let t = length z + length m + Suc i; u = t + length (authority_bytes a);
          e = u + length w; h = e + Suc j
      in set_authority a t rl_init
        \<lparr>request_start := Some (length z), method_end := Some (length z + length m - 1),
         http_meth := (case map_of http_methods m of None \<Rightarrow> NGX_HTTP_UNKNOWN | Some x \<Rightarrow> x),
         uri_start := Some u, uri_end := Some e, http_protocol := Some h,
         http_major := 1, http_minor := dec_digits 0 v, http_version := 1000 + dec_digits 0 v,
         request_end := Some (h + 7 + length v + k)\<rparr>)"

lemma set_authority_frame:
  "request_start (set_authority a x r) = request_start r" "request_end (set_authority a x r) = request_end r"
  "args_start (set_authority a x r) = args_start r" "uri_ext (set_authority a x r) = uri_ext r"
  "complex_uri (set_authority a x r) = complex_uri r" "quoted_uri (set_authority a x r) = quoted_uri r"
  "plus_in_uri (set_authority a x r) = plus_in_uri r"
  by (cases a; auto simp: Let_def split: option.splits)+

lemma set_authority_commute:
  "set_authority a x (r\<lparr>request_start := b\<rparr>) = set_authority a x r\<lparr>request_start := b\<rparr>"
  "set_authority a x (r\<lparr>method_end := b\<rparr>) = set_authority a x r\<lparr>method_end := b\<rparr>"
  "set_authority a x (r\<lparr>http_meth := g\<rparr>) = set_authority a x r\<lparr>http_meth := g\<rparr>"
  by (cases a; auto simp: Let_def split: option.splits)+

lemma rl_method_space:
  assumes "request_start r = Some b"
  shows "rl_step buf p (rl_sw_method, r) SP = Next (rl_sw_spaces_before_uri,
    (case map_of http_methods (slice buf b p) of None \<Rightarrow> r | Some x \<Rightarrow> r\<lparr>http_meth := x\<rparr>)\<lparr>method_end := Some (p - 1)\<rparr>)"
  using assms by (cases r) (simp add: rl_method_def method_word_table split: option.split)

lemma rl_head_run:
  assumes "list_all (\<lambda>c. c = CR \<or> c = LF) z" "m \<noteq> []" "list_all is_method_char m" "authority_ok a"
    "take (length z + length m) buf = z @ m"
  shows "parse_loop rl_step buf 0 (z @ m @ replicate (Suc i) SP @ authority_bytes a @ ch CHR ''/'' # rest) (rl_sw_start, rl_init) =
    parse_loop rl_step buf (Suc (length z + length m + Suc i + length (authority_bytes a))) rest
      (rl_sw_after_slash_in_uri, set_authority a (length z + length m + Suc i) rl_init
        \<lparr>request_start := Some (length z), method_end := Some (length z + length m - 1),
         http_meth := (case map_of http_methods m of None \<Rightarrow> NGX_HTTP_UNKNOWN | Some x \<Rightarrow> x),
         uri_start := Some (length z + length m + Suc i + length (authority_bytes a))\<rparr>)"
proof -
  obtain c m' where m: "m = c # m'" using assms(2) by (cases m) auto
  have c: "is_method_char c" "c \<noteq> CR" "c \<noteq> LF"
    using assms(3) m by (auto simp: is_method_char_def)
  let ?T = "replicate (Suc i) SP @ authority_bytes a @ ch CHR ''/'' # rest"
  let ?r = "rl_init\<lparr>request_start := Some (length z)\<rparr>"
  let ?q = "rl_init\<lparr>request_start := Some (length z), method_end := Some (length z + length m - 1),
         http_meth := (case map_of http_methods m of None \<Rightarrow> NGX_HTTP_UNKNOWN | Some x \<Rightarrow> x)\<rparr>"
  have sl: "slice buf (length z) (length z + length m) = m"
    using arg_cong [OF assms(5), of "drop (length z)"] by (simp add: slice_def drop_take)
  have "parse_loop rl_step buf 0 (z @ m @ ?T) (rl_sw_start, rl_init) =
      parse_loop rl_step buf (length z + length m) ?T (rl_sw_method, ?r)"
  proof -
    have "list_all is_method_char m'" using assms(3) m by simp
    then have run: "parse_loop rl_step buf (Suc (length z)) (m' @ T) (rl_sw_method, ?r) =
        parse_loop rl_step buf (length z + length m) T (rl_sw_method, ?r)" for T
      using rl_method_run [of m' buf "Suc (length z)" ?r] m by (simp add: parse_loop_append)
    show ?thesis unfolding rl_blank_run [OF assms(1)]
      using c run [of ?T] by (simp add: m rl_start_def Let_def del: replicate.simps)
  qed
  also have "\<dots> = parse_loop rl_step buf (Suc (length z + length m))
      (replicate i SP @ authority_bytes a @ ch CHR ''/'' # rest) (rl_sw_spaces_before_uri, ?q)"
    using rl_method_space [of ?r "length z" buf "length z + length m"] sl
    by (simp add: rl_init_def split: option.split)
  also have "\<dots> = parse_loop rl_step buf (Suc (length z + length m + Suc i + length (authority_bytes a))) rest
      (rl_sw_after_slash_in_uri, set_authority a (length z + length m + Suc i) ?q
        \<lparr>uri_start := Some (length z + length m + Suc i + length (authority_bytes a))\<rparr>)"
    by (simp add: rl_spaces_run rl_target_run [OF assms(4), simplified])
  finally show ?thesis by (simp add: set_authority_commute)
qed


text \<open>C29. Every request line of a method word, an absolute path (with its query string, after a scheme,
  a host and a port or without) of bytes that are neither control characters nor space nor DEL, and a version
  HTTP/1.0 to HTTP/1.999 is accepted, whatever blank lines stand before it, however many spaces stand between the parts
  and before the end, and whether it ends with CR LF or LF. The parser stops behind its LF; the method is the one the table of words gives (or unknown), and the offsets of the method, scheme, host, port, URI, protocol and
  line end and the version are those of the parts. The URI is marked complex or quoted when it has a fragment,
  a percent sign in its path or a slash before a slash or dot, and otherwise only when its path has a plus sign; when it is not marked, the
  query string begins behind the first question mark, the extension behind the last dot of the last segment,
  and the plus flag says whether the path has a plus sign.\<close>

theorem request_line_functional:
  assumes "list_all (\<lambda>c. c = CR \<or> c = LF) z" "m \<noteq> []" "list_all is_method_char m" "authority_ok a"
    "list_all uri_char w" "v \<noteq> []" "list_all is_dec v" "dec_digits 0 v \<le> 999" "line_end le"
  shows "\<exists>r. ngx_http_parse_request_line rl_sw_start rl_init (rl_line z m i a (ch CHR ''/'' # w) j v k le @ rest) 0 =
      (NGX_OK, rl_sw_start, r, length (rl_line z m i a (ch CHR ''/'' # w) j v k le)) \<and>
    rl_base r = rl_parsed z m i a (ch CHR ''/'' # w) j v k \<and>
    uri_fields (the (uri_start r)) (ch CHR ''/'' # w) r"
proof -
  define line where "line = rl_line z m i a (ch CHR ''/'' # w) j v k le"
  let ?buf = "line @ rest"
  define x where "x = length z + length m + Suc i"
  define u where "u = x + length (authority_bytes a)"
  define r0 where "r0 = set_authority a x rl_init
        \<lparr>request_start := Some (length z), method_end := Some (length z + length m - 1),
         http_meth := (case map_of http_methods m of None \<Rightarrow> NGX_HTTP_UNKNOWN | Some x \<Rightarrow> x), uri_start := Some u\<rparr>"
  let ?V = "str ''HTTP/1.'' @ v @ replicate k SP @ le @ rest"
  have f0: "\<not> complex_uri r0" "\<not> quoted_uri r0" "\<not> plus_in_uri r0" "args_start r0 = None" "uri_ext r0 = None"
    "request_end r0 = None" "uri_start r0 = Some u"
    by (simp_all add: r0_def set_authority_frame rl_init_def)
  have "uri_run_inv u [ch CHR ''/''] (rl_sw_after_slash_in_uri, r0)"
    using f0 by (simp add: uri_fields_def uri_hard_def uri_path_def path_ext_def)
  then obtain st r1 where r1: "parse_loop rl_step ?buf (Suc u) (w @ SP # replicate j SP @ ?V) (rl_sw_after_slash_in_uri, r0) =
      parse_loop rl_step ?buf (Suc u + length w) (SP # replicate j SP @ ?V) (st, r1)"
    "uri_run_inv u (ch CHR ''/'' # w) (st, r1)" "rl_base r1 = rl_base r0"
    using uri_run [of u "[ch CHR ''/'']" rl_sw_after_slash_in_uri r0 w "Suc u" ?buf "SP # replicate j SP @ ?V"] assms(5)
    by (auto simp del: uri_run_inv.simps)
  let ?h = "Suc (Suc u + length w) + j"
  define r2 where "r2 = r1\<lparr>uri_end := Some (Suc u + length w), http_protocol := Some ?h, http_major := 1,
      http_minor := dec_digits 0 v, request_end := Some (?h + 7 + length v + k), http_version := 1000 + dec_digits 0 v\<rparr>"
  have "request_end r1 = request_end r0" "uri_start r1 = uri_start r0"
    using arg_cong [OF r1(3), of request_end] arg_cong [OF r1(3), of uri_start] by (simp_all add: rl_base_def)
  note e1 = this
  have "parse_loop rl_step ?buf 0 ?buf (rl_sw_start, rl_init) =
      parse_loop rl_step ?buf (Suc u) (w @ SP # replicate j SP @ ?V) (rl_sw_after_slash_in_uri, r0)"
    using rl_head_run [OF assms(1-4), of ?buf i "w @ SP # replicate j SP @ ?V"]
    by (simp add: line_def rl_line_def r0_def u_def x_def)
  also have "\<dots> = parse_loop rl_step ?buf (Suc (Suc u + length w)) (replicate j SP @ ?V)
      (rl_sw_http_09, r1\<lparr>uri_end := Some (Suc u + length w)\<rparr>)"
    unfolding r1(1) parse_loop.simps uri_run_space [OF r1(2)] by simp
  also have "\<dots> = Inr (NGX_OK, r2, Some (rl_sw_start, ?h + 7 + length v + k + length le))"
    using assms(6-9) e1 f0 by (subst rl_version_run) (simp_all add: r2_def)
  also have "?h + 7 + length v + k + length le = length line"
    by (simp add: line_def rl_line_def u_def x_def)
  finally have "ngx_http_parse_request_line rl_sw_start rl_init ?buf 0 = (NGX_OK, rl_sw_start, r2, length line)"
    by (simp add: ngx_http_parse_request_line_def parse_call_def)
  moreover have b: "rl_base r2 = rl_base r0\<lparr>uri_end := Some (Suc u + length w), http_protocol := Some ?h, http_major := 1,
      http_minor := dec_digits 0 v, request_end := Some (?h + 7 + length v + k), http_version := 1000 + dec_digits 0 v\<rparr>"
    unfolding r1(3) [symmetric] by (cases r1) (simp add: r2_def rl_base_def)
  moreover have "rl_base r2 = rl_parsed z m i a (ch CHR ''/'' # w) j v k"
  proof -
    define s where "s = set_authority a x rl_init"
    have s: "\<not> complex_uri s" "\<not> quoted_uri s" "\<not> plus_in_uri s" "args_start s = None" "uri_ext s = None"
      by (simp_all add: s_def set_authority_frame rl_init_def)
    have "rl_parsed z m i a (ch CHR ''/'' # w) j v k = s\<lparr>request_start := Some (length z), method_end := Some (length z + length m - 1),
         http_meth := (case map_of http_methods m of None \<Rightarrow> NGX_HTTP_UNKNOWN | Some x \<Rightarrow> x),
         uri_start := Some u, uri_end := Some (Suc u + length w), http_protocol := Some ?h,
         http_major := 1, http_minor := dec_digits 0 v, http_version := 1000 + dec_digits 0 v,
         request_end := Some (?h + 7 + length v + k)\<rparr>"
      by (simp add: rl_parsed_def Let_def s_def x_def u_def)
    then show ?thesis unfolding b r0_def s_def [symmetric] using s by (cases s) (simp add: rl_base_def)
  qed
  moreover have "uri_fields (the (uri_start r2)) (ch CHR ''/'' # w) r2"
    using r1(2) e1 f0 by (auto simp: r2_def uri_fields_def)
  ultimately show ?thesis unfolding line_def by blast
qed


theorem request_line_functional_witness:
  "\<exists>r. ngx_http_parse_request_line rl_sw_start rl_init
     (rl_line [LF] (str ''PUT'') 0 (Some (str ''http'', str ''a.b'', Some (str ''80''))) (str ''/ab/c.d?x'') 0 (str ''1'') 1 [CR, LF] @ str ''Host'') 0 =
     (NGX_OK, rl_sw_start, r, length
       (rl_line [LF] (str ''PUT'') 0 (Some (str ''http'', str ''a.b'', Some (str ''80''))) (str ''/ab/c.d?x'') 0 (str ''1'') 1 [CR, LF])) \<and>
   rl_base r = rl_parsed [LF] (str ''PUT'') 0 (Some (str ''http'', str ''a.b'', Some (str ''80''))) (str ''/ab/c.d?x'') 0 (str ''1'') 1 \<and>
   uri_fields (the (uri_start r)) (str ''/ab/c.d?x'') r"
  using request_line_functional [of "[LF]" "str ''PUT''" "Some (str ''http'', str ''a.b'', Some (str ''80''))" "str ''ab/c.d?x''"
      "str ''1''" "[CR, LF]" 0 0 1 "str ''Host''"]
  by (simp add: is_method_char_def is_dec_def uri_char_def is_letter_def scheme_ok_def host_ok_def line_end_def
      rl_line_def Let_def)

end
