(* ===== verification/Ngx_Header_Line.thy ===== *)
theory Ngx_Header_Line
  imports Ngx_Parser Ngx_Hash
begin

section \<open>HTTP header lines\<close>

text \<open>
  \<open>ngx_http_parse_header_line\<close> of \<open>src/http/ngx_http_parse.c\<close>: one definition per \<open>case\<close>. The
  locals \<open>state\<close>, \<open>hash\<close> and \<open>i\<close> are loaded from the request and saved to it; the fields the
  code writes through \<open>r\<close> are the record \<open>hl_req\<close>. \<open>hl_upstream\<close> is whether \<open>r->upstream\<close> is
  set.
\<close>

datatype hl_state = hl_sw_start | hl_sw_name | hl_sw_space_before_value | hl_sw_value
  | hl_sw_space_after_value | hl_sw_ignore_line | hl_sw_almost_done | hl_sw_header_almost_done

record hl_req =
  header_name_start :: nat
  header_name_end :: nat
  header_start :: nat
  header_end :: nat
  invalid_header :: bool
  lowcase_header :: bytes
  hl_upstream :: bool

type_synonym hl_locals = "hl_state \<times> ngx_uint_t \<times> nat"
type_synonym hl_action = "(hl_locals \<times> hl_req, (hl_locals, hl_req) call_exit) action"

definition NGX_HTTP_LC_HEADER_LEN :: nat where
  "NGX_HTTP_LC_HEADER_LEN = 32"

definition lowcase :: bytes where
  "lowcase = replicate 32 0 @ replicate 13 0 @ [45] @ replicate 2 0 @ str ''0123456789'' @ replicate 6 0
     @ [0] @ str ''abcdefghijklmnopqrstuvwxyz'' @ replicate 5 0
     @ [0] @ str ''abcdefghijklmnopqrstuvwxyz'' @ replicate 5 0
     @ replicate 32 0 @ replicate 32 0 @ replicate 32 0 @ replicate 32 0"

definition hl_done :: "ngx_uint_t \<Rightarrow> nat \<Rightarrow> hl_req \<Rightarrow> nat \<Rightarrow> hl_action" where
  "hl_done h i r p = Exit (NGX_OK, r, Some ((hl_sw_start, h, i), Suc p))"

definition hl_header_done :: "ngx_uint_t \<Rightarrow> nat \<Rightarrow> hl_req \<Rightarrow> nat \<Rightarrow> hl_action" where
  "hl_header_done h i r p = Exit (NGX_HTTP_PARSE_HEADER_DONE, r, Some ((hl_sw_start, h, i), Suc p))"

abbreviation hl_fail :: "hl_req \<Rightarrow> hl_action" where
  "hl_fail r \<equiv> Exit (NGX_HTTP_PARSE_INVALID_HEADER, r, None)"

definition hl_start :: "bool \<Rightarrow> nat \<Rightarrow> ngx_uint_t \<Rightarrow> nat \<Rightarrow> hl_req \<Rightarrow> byte \<Rightarrow> hl_action" where
  "hl_start allow_underscores p h i r c =
     (let r = r\<lparr>header_name_start := p, invalid_header := False\<rparr> in
      if c = CR then Next ((hl_sw_header_almost_done, h, i), r\<lparr>header_end := p\<rparr>)
      else if c = LF then hl_header_done h i (r\<lparr>header_end := p\<rparr>) p
      else let l = lowcase ! unat c in
        if l \<noteq> 0 then
          Next ((hl_sw_name, ngx_hash 0 l, 1), r\<lparr>lowcase_header := (lowcase_header r)[0 := l]\<rparr>)
        else if c = ch CHR ''_'' then
          (if allow_underscores then
             Next ((hl_sw_name, ngx_hash 0 c, 1), r\<lparr>lowcase_header := (lowcase_header r)[0 := c]\<rparr>)
           else Next ((hl_sw_name, 0, 0), r\<lparr>invalid_header := True\<rparr>))
        else if c \<le> 0x20 \<or> c = 0x7f \<or> c = ch CHR '':'' then hl_fail (r\<lparr>header_end := p\<rparr>)
        else Next ((hl_sw_name, 0, 0), r\<lparr>invalid_header := True\<rparr>))"

text \<open>\<open>hash = ngx_hash(hash, c); r->lowcase_header[i++] = c; i &= (NGX_HTTP_LC_HEADER_LEN - 1);\<close>\<close>

definition hl_name_char :: "ngx_uint_t \<Rightarrow> nat \<Rightarrow> hl_req \<Rightarrow> byte \<Rightarrow> hl_action" where
  "hl_name_char h i r c =
     Next ((hl_sw_name, ngx_hash h c, (i + 1) mod NGX_HTTP_LC_HEADER_LEN),
       r\<lparr>lowcase_header := (lowcase_header r)[i := c]\<rparr>)"

definition hl_name :: "bool \<Rightarrow> bytes \<Rightarrow> nat \<Rightarrow> ngx_uint_t \<Rightarrow> nat \<Rightarrow> hl_req \<Rightarrow> byte \<Rightarrow> hl_action" where
  "hl_name allow_underscores buf p h i r c =
     (let l = lowcase ! unat c in
      if l \<noteq> 0 then hl_name_char h i r l
      else if c = ch CHR ''_'' then
        (if allow_underscores then hl_name_char h i r c
         else Next ((hl_sw_name, h, i), r\<lparr>invalid_header := True\<rparr>))
      else if c = ch CHR '':'' then
        Next ((hl_sw_space_before_value, h, i), r\<lparr>header_name_end := p\<rparr>)
      else if c = CR then
        Next ((hl_sw_almost_done, h, i), r\<lparr>header_name_end := p, header_start := p, header_end := p\<rparr>)
      else if c = LF then
        hl_done h i (r\<lparr>header_name_end := p, header_start := p, header_end := p\<rparr>) p
      else if c = ch CHR ''/'' \<and> hl_upstream r \<and> p - header_name_start r = 4
        \<and> slice buf (header_name_start r) p = str ''HTTP'' then
        Next ((hl_sw_ignore_line, h, i), r)
      else if c \<le> 0x20 \<or> c = 0x7f then hl_fail (r\<lparr>header_end := p\<rparr>)
      else Next ((hl_sw_name, h, i), r\<lparr>invalid_header := True\<rparr>))"

definition hl_space_before_value :: "nat \<Rightarrow> ngx_uint_t \<Rightarrow> nat \<Rightarrow> hl_req \<Rightarrow> byte \<Rightarrow> hl_action" where
  "hl_space_before_value p h i r c =
     (if c = SP then Next ((hl_sw_space_before_value, h, i), r)
      else if c = CR then Next ((hl_sw_almost_done, h, i), r\<lparr>header_start := p, header_end := p\<rparr>)
      else if c = LF then hl_done h i (r\<lparr>header_start := p, header_end := p\<rparr>) p
      else if c = 0 then hl_fail (r\<lparr>header_end := p\<rparr>)
      else Next ((hl_sw_value, h, i), r\<lparr>header_start := p\<rparr>))"

definition hl_value :: "nat \<Rightarrow> ngx_uint_t \<Rightarrow> nat \<Rightarrow> hl_req \<Rightarrow> byte \<Rightarrow> hl_action" where
  "hl_value p h i r c =
     (if c = SP then Next ((hl_sw_space_after_value, h, i), r\<lparr>header_end := p\<rparr>)
      else if c = CR then Next ((hl_sw_almost_done, h, i), r\<lparr>header_end := p\<rparr>)
      else if c = LF then hl_done h i (r\<lparr>header_end := p\<rparr>) p
      else if c = 0 then hl_fail (r\<lparr>header_end := p\<rparr>)
      else Next ((hl_sw_value, h, i), r))"

definition hl_space_after_value :: "nat \<Rightarrow> ngx_uint_t \<Rightarrow> nat \<Rightarrow> hl_req \<Rightarrow> byte \<Rightarrow> hl_action" where
  "hl_space_after_value p h i r c =
     (if c = SP then Next ((hl_sw_space_after_value, h, i), r)
      else if c = CR then Next ((hl_sw_almost_done, h, i), r)
      else if c = LF then hl_done h i r p
      else if c = 0 then hl_fail (r\<lparr>header_end := p\<rparr>)
      else Next ((hl_sw_value, h, i), r))"

definition hl_ignore_line :: "ngx_uint_t \<Rightarrow> nat \<Rightarrow> hl_req \<Rightarrow> byte \<Rightarrow> hl_action" where
  "hl_ignore_line h i r c =
     (if c = LF then Next ((hl_sw_start, h, i), r) else Next ((hl_sw_ignore_line, h, i), r))"

definition hl_almost_done :: "nat \<Rightarrow> ngx_uint_t \<Rightarrow> nat \<Rightarrow> hl_req \<Rightarrow> byte \<Rightarrow> hl_action" where
  "hl_almost_done p h i r c =
     (if c = LF then hl_done h i r p
      else if c = CR then Next ((hl_sw_almost_done, h, i), r)
      else hl_fail r)"

definition hl_header_almost_done :: "nat \<Rightarrow> ngx_uint_t \<Rightarrow> nat \<Rightarrow> hl_req \<Rightarrow> byte \<Rightarrow> hl_action" where
  "hl_header_almost_done p h i r c = (if c = LF then hl_header_done h i r p else hl_fail r)"

fun hl_step :: "bool \<Rightarrow> bytes \<Rightarrow> nat \<Rightarrow> hl_locals \<times> hl_req \<Rightarrow> byte \<Rightarrow> hl_action" where
  "hl_step au buf p ((hl_sw_start, h, i), r) c = hl_start au p h i r c"
| "hl_step au buf p ((hl_sw_name, h, i), r) c = hl_name au buf p h i r c"
| "hl_step au buf p ((hl_sw_space_before_value, h, i), r) c = hl_space_before_value p h i r c"
| "hl_step au buf p ((hl_sw_value, h, i), r) c = hl_value p h i r c"
| "hl_step au buf p ((hl_sw_space_after_value, h, i), r) c = hl_space_after_value p h i r c"
| "hl_step au buf p ((hl_sw_ignore_line, h, i), r) c = hl_ignore_line h i r c"
| "hl_step au buf p ((hl_sw_almost_done, h, i), r) c = hl_almost_done p h i r c"
| "hl_step au buf p ((hl_sw_header_almost_done, h, i), r) c = hl_header_almost_done p h i r c"

text \<open>At \<open>header_done\<close> only \<open>r->state\<close> is saved: \<open>r->header_hash\<close> and \<open>r->lowcase_index\<close> stay what
  they were when the function was called.\<close>

definition ngx_http_parse_header_line ::
  "bool \<Rightarrow> hl_locals \<Rightarrow> hl_req \<Rightarrow> bytes \<Rightarrow> nat \<Rightarrow> (hl_locals, hl_req) call_result" where
  "ngx_http_parse_header_line allow_underscores l r buf pos =
     (case parse_call (hl_step allow_underscores) l r buf pos of
        (rc, (st, h, i), r', p) \<Rightarrow>
          if rc = NGX_HTTP_PARSE_HEADER_DONE then (rc, (st, snd l), r', p)
          else (rc, (st, h, i), r', p))"

lemmas hl_case_defs = hl_start_def hl_name_def hl_name_char_def hl_space_before_value_def hl_value_def
  hl_space_after_value_def hl_ignore_line_def hl_almost_done_def hl_header_almost_done_def
  hl_done_def hl_header_done_def

lemma hl_step_cases:
  obtains st h i r where "s = ((st :: hl_state, h :: ngx_uint_t, i :: nat), r :: hl_req)"
  by (metis surj_pair)

lemma hl_step_prefix: "p < length xs \<Longrightarrow> hl_step au (xs @ ys) p s c = hl_step au xs p s c"
proof -
  assume p: "p < length xs"
  obtain st h i r where s: "s = ((st, h, i), r)" by (rule hl_step_cases)
  show ?thesis using p unfolding s by (cases st) (auto simp: hl_name_def)
qed

lemma hl_step_exit:
  assumes "hl_step au buf p s c = Exit (rc, r, sv)"
  shows "rc \<noteq> NGX_AGAIN \<and> (sv = None \<longrightarrow> \<not> rc_live rc)"
proof -
  obtain st h i r where s: "s = ((st, h, i), r)" by (rule hl_step_cases)
  show ?thesis
    using assms unfolding s
    by (cases st) (auto simp: hl_case_defs rc_live_def Let_def split: if_splits)
qed

interpretation hl: resumable_call "hl_step au" for au
  by unfold_locales (blast dest: hl_step_prefix hl_step_exit)+

subsection \<open>What a state knows\<close>

definition hl_name_ok :: "bool \<Rightarrow> byte \<Rightarrow> bool" where
  "hl_name_ok au c \<longleftrightarrow> is_dec c \<or> is_upper c \<or> is_lower c \<or> c = ch CHR ''-'' \<or> au \<and> c = ch CHR ''_''"

lemma lowcase_blocks:
  obtains D L where "lowcase = replicate 45 0 @ (45 # 0 # 0 # D) @ replicate 7 0 @ L @ replicate 6 0 @ L @ replicate 133 0"
    and "length D = 10" "length L = 26"
    and "\<And>k. k < 10 \<Longrightarrow> D ! k = word_of_nat (k + 48)"
    and "\<And>k. k < 26 \<Longrightarrow> L ! k = word_of_nat (k + 97)"
proof
  let ?L = "map (\<lambda>k. word_of_nat (k + 97) :: byte) [0..<26]"
  let ?D = "map (\<lambda>k. word_of_nat (k + 48) :: byte) [0..<10]"
  have L: "str ''abcdefghijklmnopqrstuvwxyz'' = ?L" and D: "str ''0123456789'' = ?D"
    by (simp_all add: upt_conv_Cons)
  have z: "replicate 45 (0::byte) = replicate (32 + 13) 0" "replicate 7 (0::byte) = replicate (6 + 1) 0"
    "replicate 6 (0::byte) = replicate (5 + 1) 0" "replicate 133 (0::byte) = replicate (5 + (32 + (32 + (32 + 32)))) 0"
    by simp_all
  have o: "replicate 1 (0::byte) = [0]" "replicate 2 (0::byte) = [0, 0]" by (simp_all add: numeral_2_eq_2)
  show "lowcase = replicate 45 0 @ (45 # 0 # 0 # ?D) @ replicate 7 0 @ ?L @ replicate 6 0 @ ?L @ replicate 133 0"
    unfolding lowcase_def L D z replicate_add o by (simp only: append_assoc append_Cons append_Nil)
qed simp_all

lemma lowcase_nth:
  assumes "n < 256"
  shows "lowcase ! n = (if n = 45 \<or> 48 \<le> n \<and> n < 58 \<or> 97 \<le> n \<and> n < 123 then word_of_nat n
    else if 65 \<le> n \<and> n < 91 then word_of_nat (n + 32) else 0)"
proof -
  obtain D L where *: "lowcase = replicate 45 0 @ (45 # 0 # 0 # D) @ replicate 7 0 @ L @ replicate 6 0 @ L @ replicate 133 0"
    "length D = 10" "length L = 26" "\<And>k. k < 10 \<Longrightarrow> D ! k = word_of_nat (k + 48)"
    "\<And>k. k < 26 \<Longrightarrow> L ! k = word_of_nat (k + 97)"
    by (rule lowcase_blocks) blast
  have seg: "k < 45 \<Longrightarrow> lowcase ! k = 0" "lowcase ! 45 = 45" "lowcase ! 46 = 0" "lowcase ! 47 = 0"
    "k < 10 \<Longrightarrow> lowcase ! (k + 48) = word_of_nat (k + 48)" "k < 7 \<Longrightarrow> lowcase ! (k + 58) = 0"
    "k < 26 \<Longrightarrow> lowcase ! (k + 65) = word_of_nat (k + 97)" "k < 6 \<Longrightarrow> lowcase ! (k + 91) = 0"
    "k < 26 \<Longrightarrow> lowcase ! (k + 97) = word_of_nat (k + 97)" "k < 133 \<Longrightarrow> lowcase ! (k + 123) = 0" for k
    unfolding *(1) by (simp_all add: *(2-) nth_append)
  consider "n < 45" | "n = 45" | "n = 46" | "n = 47" | "48 \<le> n" "n < 58" | "58 \<le> n" "n < 65" | "65 \<le> n" "n < 91"
    | "91 \<le> n" "n < 97" | "97 \<le> n" "n < 123" | "123 \<le> n"
    by (cases "n < 48") (force, use leI in blast)
  then show ?thesis
  proof cases
    case 5 then show ?thesis using seg(5) [of "n - 48"] by simp
  next
    case 6 then show ?thesis using seg(6) [of "n - 58"] by simp
  next
    case 7 then show ?thesis using seg(7) [of "n - 65"] by simp
  next
    case 8 then show ?thesis using seg(8) [of "n - 91"] by simp
  next
    case 9 then show ?thesis using seg(9) [of "n - 97"] by simp
  next
    case 10 then show ?thesis using seg(10) [of "n - 123"] assms by simp
  qed (simp_all add: seg)
qed

lemma tolower_upper: "is_upper c \<Longrightarrow> ngx_tolower c = word_of_nat (unat c + 32)"
proof -
  assume "is_upper c"
  then have "unat c \<in> set [65..<91]" by (simp only: is_upper_unat set_upt atLeastLessThan_iff) simp
  moreover have "c = word_of_nat (unat c)" by simp
  ultimately obtain n where "n \<in> set [65..<91]" "c = word_of_nat n" by blast
  then show ?thesis
    by (auto simp: upt_conv_Cons ngx_tolower_def)
qed

lemma tolower_other: "\<not> is_upper c \<Longrightarrow> ngx_tolower c = c"
  by (auto simp: ngx_tolower_def is_upper_def)

lemma lowcase_char: "lowcase ! unat c = (if hl_name_ok False c then ngx_tolower c else 0)"
proof -
  have 45: "unat c = 45 \<longleftrightarrow> c = 45" by (simp add: word_unat_eq_iff)
  show ?thesis
    by (cases "is_upper c")
      (auto simp: lowcase_nth 45 hl_name_ok_def byte_class_unat tolower_upper tolower_other)
qed

lemma hl_name_ok_au: "hl_name_ok au c \<longleftrightarrow> hl_name_ok False c \<or> au \<and> c = ch CHR ''_''"
  by (auto simp: hl_name_ok_def)

lemma hl_name_ok_nonzero: "hl_name_ok False c \<Longrightarrow> ngx_tolower c \<noteq> 0"
  by (auto simp: hl_name_ok_def byte_defs)

text \<open>What holds of the name read so far, from \<open>a\<close> up to \<open>p\<close>.\<close>

definition hl_name_byte :: "byte \<Rightarrow> bool" where
  "hl_name_byte c \<longleftrightarrow> c > 0x20 \<and> c \<noteq> 0x7f \<and> c \<noteq> ch CHR '':''"

definition hl_name_read :: "bool \<Rightarrow> bytes \<Rightarrow> ngx_uint_t \<Rightarrow> nat \<Rightarrow> bytes \<Rightarrow> nat \<Rightarrow> nat \<Rightarrow> bool" where
  "hl_name_read au buf h i lc a p \<longleftrightarrow>
     (\<forall>k. a \<le> k \<longrightarrow> k < p \<longrightarrow> hl_name_ok au (buf ! k)) \<and>
     h = ngx_hash_key_lc (slice buf a p) \<and> i = (p - a) mod NGX_HTTP_LC_HEADER_LEN \<and>
     (\<forall>k. a \<le> k \<longrightarrow> k < p \<longrightarrow> p \<le> k + NGX_HTTP_LC_HEADER_LEN \<longrightarrow>
        lc ! ((k - a) mod NGX_HTTP_LC_HEADER_LEN) = ngx_tolower (buf ! k))"

definition hl_named :: "bool \<Rightarrow> bytes \<Rightarrow> ngx_uint_t \<Rightarrow> nat \<Rightarrow> hl_req \<Rightarrow> nat \<Rightarrow> bool" where
  "hl_named au buf h i r p \<longleftrightarrow> header_name_start r < p \<and>
     (\<forall>k. header_name_start r \<le> k \<longrightarrow> k < p \<longrightarrow> hl_name_byte (buf ! k)) \<and>
     (\<not> invalid_header r \<longrightarrow> hl_name_read au buf h i (lowcase_header r) (header_name_start r) p)"

definition hl_value_byte :: "byte \<Rightarrow> bool" where
  "hl_value_byte c \<longleftrightarrow> c \<noteq> 0 \<and> c \<noteq> CR \<and> c \<noteq> LF"

definition hl_valued :: "bytes \<Rightarrow> hl_req \<Rightarrow> nat \<Rightarrow> bool" where
  "hl_valued buf r e \<longleftrightarrow> header_name_end r \<le> header_start r \<and> header_start r \<le> e \<and>
     (\<forall>k. header_start r \<le> k \<longrightarrow> k < e \<longrightarrow> hl_value_byte (buf ! k)) \<and>
     (header_start r < e \<longrightarrow> buf ! header_start r \<noteq> SP)"

definition hl_trimmed :: "bytes \<Rightarrow> hl_req \<Rightarrow> nat \<Rightarrow> bool" where
  "hl_trimmed buf r e \<longleftrightarrow> (header_start r < e \<longrightarrow> buf ! (e - 1) \<noteq> SP)"

fun hl_inv :: "bool \<Rightarrow> bytes \<Rightarrow> nat \<Rightarrow> hl_locals \<times> hl_req \<Rightarrow> bool" where
  "hl_inv au buf p ((st, h, i), r) \<longleftrightarrow>
     length (lowcase_header r) = NGX_HTTP_LC_HEADER_LEN \<and> i < NGX_HTTP_LC_HEADER_LEN \<and>
     (case st of
        hl_sw_start \<Rightarrow> True
      | hl_sw_name \<Rightarrow> hl_named au buf h i r p
      | hl_sw_space_before_value \<Rightarrow> hl_named au buf h i r (header_name_end r) \<and> header_name_end r < p
      | hl_sw_value \<Rightarrow> hl_named au buf h i r (header_name_end r) \<and> hl_valued buf r p
          \<and> header_start r < p \<and> hl_trimmed buf r p
      | hl_sw_space_after_value \<Rightarrow> hl_named au buf h i r (header_name_end r) \<and> hl_valued buf r p
          \<and> header_start r < header_end r \<and> header_end r < p \<and> hl_trimmed buf r (header_end r)
      | hl_sw_ignore_line \<Rightarrow> True
      | hl_sw_almost_done \<Rightarrow> hl_named au buf h i r (header_name_end r) \<and> hl_valued buf r (header_end r)
          \<and> header_end r < p \<and> hl_trimmed buf r (header_end r)
      | hl_sw_header_almost_done \<Rightarrow> 0 < p \<and> header_end r = p - 1)"

definition hl_accepted :: "bool \<Rightarrow> bytes \<Rightarrow> ngx_uint_t \<Rightarrow> nat \<Rightarrow> hl_req \<Rightarrow> nat \<Rightarrow> bool" where
  "hl_accepted au buf h i r pos \<longleftrightarrow>
     hl_named au buf h i r (header_name_end r) \<and> hl_valued buf r (header_end r) \<and>
     hl_trimmed buf r (header_end r) \<and> header_end r < pos \<and> buf ! (pos - 1) = LF"

lemma mod_diff_neq: "k < p \<Longrightarrow> p < k + n \<Longrightarrow> a \<le> k \<Longrightarrow> (k - a) mod n \<noteq> (p - a) mod (n :: nat)"
proof
  assume k: "k < p" "p < k + n" "a \<le> k" and e: "(k - a) mod n = (p - a) mod n"
  have "n dvd (p - a) - (k - a)" using mod_eq_dvd_iff_nat [of "k - a" "p - a" n] e k by auto
  moreover have "(p - a) - (k - a) = p - k" using k by simp
  ultimately have "n dvd p - k" by simp
  then show False using k by (metis dvd_imp_le less_diff_conv2 not_less zero_less_diff less_imp_le_nat add.commute)
qed

lemma hl_name_read_Suc:
  assumes "hl_name_read au buf h i lc a p" "a \<le> p" "p < length buf" "hl_name_ok au (buf ! p)"
    "length lc = NGX_HTTP_LC_HEADER_LEN"
  shows "hl_name_read au buf (ngx_hash h (ngx_tolower (buf ! p))) ((i + 1) mod NGX_HTTP_LC_HEADER_LEN)
    (lc[i := ngx_tolower (buf ! p)]) a (Suc p)"
proof -
  let ?n = NGX_HTTP_LC_HEADER_LEN
  have i: "i = (p - a) mod ?n" using assms(1) by (simp add: hl_name_read_def)
  have "0 < ?n" by (simp add: NGX_HTTP_LC_HEADER_LEN_def)
  then have il: "i < length lc" using i assms(5) by simp
  have "lc[i := ngx_tolower (buf ! p)] ! ((k - a) mod ?n) = ngx_tolower (buf ! k)"
    if "a \<le> k" "k < Suc p" "Suc p \<le> k + ?n" for k
  proof (cases "k = p")
    case True
    then show ?thesis using i il by simp
  next
    case False
    then have "(k - a) mod ?n \<noteq> i" using that mod_diff_neq [of k p ?n a] i by simp
    then show ?thesis using assms(1) that False by (simp add: hl_name_read_def)
  qed
  moreover have "(i + 1) mod ?n = (Suc p - a) mod ?n"
    using i assms(2) by (simp add: Suc_diff_le mod_Suc_eq)
  moreover have "\<forall>k. a \<le> k \<longrightarrow> k < Suc p \<longrightarrow> hl_name_ok au (buf ! k)"
    using assms(1,4) by (auto simp: hl_name_read_def less_Suc_eq)
  ultimately show ?thesis
    using assms(1) slice_Suc [OF assms(2,3)] by (simp add: hl_name_read_def hash_key_lc_snoc)
qed

definition hl_post :: "bool \<Rightarrow> bytes \<Rightarrow> (hl_locals, hl_req) call_exit \<Rightarrow> bool" where
  "hl_post au buf x \<longleftrightarrow> (case x of (rc, r, sv) \<Rightarrow>
     (rc = NGX_OK \<longrightarrow> (\<exists>h i pos. sv = Some ((hl_sw_start, h, i), pos) \<and> hl_accepted au buf h i r pos)) \<and>
     (rc = NGX_HTTP_PARSE_HEADER_DONE \<longrightarrow> (\<exists>l pos. sv = Some (l, pos) \<and> header_end r < pos \<and>
        pos - header_end r \<le> 2 \<and> buf ! (pos - 1) = LF)))"

abbreviation hl_keeps :: "bool \<Rightarrow> bytes \<Rightarrow> nat \<Rightarrow> hl_action \<Rightarrow> bool" where
  "hl_keeps au buf p a \<equiv> (case a of Next s \<Rightarrow> hl_inv au buf (Suc p) s | Exit x \<Rightarrow> hl_post au buf x)"

lemma hl_name_ok_byte: "hl_name_ok au c \<Longrightarrow> hl_name_byte c"
  by (auto simp: hl_name_ok_def hl_name_byte_def byte_class_unat word_less_nat_alt word_unat_eq_iff)

lemma hl_named_start:
  assumes "p < length buf" "hl_name_ok au (buf ! p)" "length lc = NGX_HTTP_LC_HEADER_LEN"
    "header_name_start r = p" "lowcase_header r = lc[0 := ngx_tolower (buf ! p)]"
  shows "hl_named au buf (ngx_hash 0 (ngx_tolower (buf ! p))) 1 r (Suc p)"
proof -
  have "hl_name_read au buf 0 0 lc p p" by (simp add: hl_name_read_def ngx_hash_key_lc_def)
  from hl_name_read_Suc [OF this _ assms(1-3)] show ?thesis
    using assms(4,5) hl_name_ok_byte [OF assms(2)]
    by (auto simp: hl_named_def NGX_HTTP_LC_HEADER_LEN_def less_Suc_eq)
qed

lemma hl_named_char:
  assumes "hl_named au buf h i r p" "p < length buf" "hl_name_ok au (buf ! p)"
    "length (lowcase_header r) = NGX_HTTP_LC_HEADER_LEN"
  shows "hl_named au buf (ngx_hash h (ngx_tolower (buf ! p))) ((i + 1) mod NGX_HTTP_LC_HEADER_LEN)
    (r\<lparr>lowcase_header := (lowcase_header r)[i := ngx_tolower (buf ! p)]\<rparr>) (Suc p)"
  using assms hl_name_read_Suc [of au buf h i "lowcase_header r" "header_name_start r" p] hl_name_ok_byte [of au "buf ! p"]
  by (auto simp: hl_named_def less_Suc_eq)

lemma hl_named_invalid:
  "hl_named au buf h i r p \<Longrightarrow> hl_name_byte (buf ! p) \<Longrightarrow>
   hl_named au buf h' i' (r\<lparr>invalid_header := True\<rparr>) (Suc p)"
  by (auto simp: hl_named_def less_Suc_eq)

lemma hl_named_frame [simp]:
  "hl_named au buf h i (r\<lparr>header_name_end := x\<rparr>) p = hl_named au buf h i r p"
  "hl_named au buf h i (r\<lparr>header_start := x\<rparr>) p = hl_named au buf h i r p"
  "hl_named au buf h i (r\<lparr>header_end := x\<rparr>) p = hl_named au buf h i r p"
  by (simp_all add: hl_named_def)

lemma hl_valued_frame [simp]:
  "hl_valued buf (r\<lparr>header_end := x\<rparr>) e = hl_valued buf r e"
  "hl_trimmed buf (r\<lparr>header_end := x\<rparr>) e = hl_trimmed buf r e"
  by (simp_all add: hl_valued_def hl_trimmed_def)

lemma hl_tolower_underscore [simp]: "ngx_tolower 95 = 95"
  by (simp add: ngx_tolower_def)

lemma lowcase_underscore [simp]: "lowcase ! 95 = 0"
  by (simp add: lowcase_nth)

lemma LC_LEN_simps [simp]: "0 < NGX_HTTP_LC_HEADER_LEN" "Suc 0 < NGX_HTTP_LC_HEADER_LEN"
  by (simp_all add: NGX_HTTP_LC_HEADER_LEN_def)

lemma hl_keeps_start:
  assumes "length (lowcase_header r) = NGX_HTTP_LC_HEADER_LEN" "i < NGX_HTTP_LC_HEADER_LEN"
    "p < length buf" "c = buf ! p"
  shows "hl_keeps au buf p (hl_start au p h i r c)"
proof -
  let ?r = "\<lambda>l. r\<lparr>header_name_start := p, invalid_header := False,
    lowcase_header := (lowcase_header r)[0 := l]\<rparr>"
  have ok_step: "hl_name_ok au c \<Longrightarrow> hl_named au buf (ngx_hash 0 (ngx_tolower c)) 1 (?r (ngx_tolower c)) (Suc p)"
    using hl_named_start [of p buf au "lowcase_header r" "?r (ngx_tolower c)"] assms by simp
  have bad_step: "hl_name_byte c \<Longrightarrow>
      hl_named au buf 0 0 (r\<lparr>header_name_start := p, invalid_header := True\<rparr>) (Suc p)"
    using assms by (auto simp: hl_named_def less_Suc_eq)
  consider (ok) "hl_name_ok False c" | (under) "c = 95" "\<not> hl_name_ok False c"
    | (other) "c \<noteq> 95" "\<not> hl_name_ok False c" by blast
  then show ?thesis
  proof cases
    case ok
    then have "c \<noteq> CR" "c \<noteq> LF" by (auto simp: hl_name_ok_def byte_defs)
    then show ?thesis
      using ok assms ok_step hl_name_ok_au [of au c]
      by (simp add: hl_start_def lowcase_char Let_def hl_post_def)
  next
    case under
    then show ?thesis
      using assms ok_step bad_step hl_name_ok_au [of au c]
      by (auto simp: hl_start_def lowcase_char Let_def hl_name_byte_def)
  next
    case other
    then show ?thesis
      using assms bad_step
      by (auto simp: hl_start_def lowcase_char Let_def hl_name_byte_def not_le hl_header_done_def hl_post_def)
  qed
qed

lemma hl_keeps_name:
  assumes "length (lowcase_header r) = NGX_HTTP_LC_HEADER_LEN" "i < NGX_HTTP_LC_HEADER_LEN"
    "hl_named au buf h i r p" "p < length buf" "c = buf ! p"
  shows "hl_keeps au buf p (hl_name au buf p h i r c)"
proof -
  have ok_step: "hl_name_ok au c \<Longrightarrow> hl_keeps au buf p (hl_name_char h i r (ngx_tolower c))"
    using hl_named_char [OF assms(3,4)] assms by (simp add: hl_name_char_def)
  have bad_step: "hl_name_byte c \<Longrightarrow> hl_named au buf h i (r\<lparr>invalid_header := True\<rparr>) (Suc p)"
    using hl_named_invalid [OF assms(3)] assms by simp
  consider (ok) "hl_name_ok False c" | (under) "c = 95" "\<not> hl_name_ok False c"
    | (other) "c \<noteq> 95" "\<not> hl_name_ok False c" by blast
  then show ?thesis
  proof cases
    case ok
    then show ?thesis
      using assms ok_step hl_name_ok_au [of au c]
      by (simp add: hl_name_def lowcase_char Let_def hl_post_def)
  next
    case under
    then show ?thesis
      using assms ok_step bad_step hl_name_ok_au [of au c]
      by (cases au) (simp_all add: hl_name_def Let_def hl_name_byte_def)
  next
    case other
    have "hl_valued buf (r\<lparr>header_name_end := p, header_start := p\<rparr>) p"
      "hl_trimmed buf (r\<lparr>header_name_end := p, header_start := p\<rparr>) p"
      by (simp_all add: hl_valued_def hl_trimmed_def)
    then show ?thesis
      using other assms bad_step
      by (simp add: hl_name_def lowcase_char Let_def hl_name_byte_def not_le hl_done_def hl_post_def
          hl_accepted_def)
  qed
qed

lemma hl_valued_Suc:
  "hl_valued buf r p \<Longrightarrow> header_start r < p \<Longrightarrow> hl_value_byte (buf ! p) \<Longrightarrow> hl_valued buf r (Suc p)"
  by (auto simp: hl_valued_def less_Suc_eq)

lemma hl_keeps_value:
  assumes "length (lowcase_header r) = NGX_HTTP_LC_HEADER_LEN" "i < NGX_HTTP_LC_HEADER_LEN"
    "hl_named au buf h i r (header_name_end r)" "c = buf ! p"
  shows "header_name_end r < p \<Longrightarrow> hl_keeps au buf p (hl_space_before_value p h i r c)"
    and "hl_valued buf r p \<Longrightarrow> header_start r < p \<Longrightarrow> hl_trimmed buf r p \<Longrightarrow>
      hl_keeps au buf p (hl_value p h i r c)"
    and "hl_valued buf r p \<Longrightarrow> header_start r < header_end r \<Longrightarrow> header_end r < p \<Longrightarrow>
      hl_trimmed buf r (header_end r) \<Longrightarrow> hl_keeps au buf p (hl_space_after_value p h i r c)"
    and "hl_valued buf r (header_end r) \<Longrightarrow> header_end r < p \<Longrightarrow> hl_trimmed buf r (header_end r) \<Longrightarrow>
      hl_keeps au buf p (hl_almost_done p h i r c)"
proof -
  have cut: "hl_valued buf r p \<Longrightarrow> header_start r \<le> e \<Longrightarrow> e \<le> p \<Longrightarrow> hl_valued buf r e" for e
    by (auto simp: hl_valued_def)
  have suc: "hl_valued buf r p \<Longrightarrow> header_start r < p \<Longrightarrow> hl_value_byte c \<Longrightarrow> hl_valued buf r (Suc p)"
    using hl_valued_Suc [of buf r p] assms(4) by simp
  note [simp] = hl_done_def hl_post_def hl_accepted_def
  show "hl_keeps au buf p (hl_space_before_value p h i r c)" if "header_name_end r < p"
    using assms that
    by (auto simp: hl_space_before_value_def hl_valued_def hl_trimmed_def hl_value_byte_def less_Suc_eq)
  show "hl_keeps au buf p (hl_value p h i r c)"
    if "hl_valued buf r p" "header_start r < p" "hl_trimmed buf r p"
    using assms that suc by (auto simp: hl_value_def hl_value_byte_def hl_trimmed_def)
  show "hl_keeps au buf p (hl_space_after_value p h i r c)"
    if "hl_valued buf r p" "header_start r < header_end r" "header_end r < p" "hl_trimmed buf r (header_end r)"
    using assms that suc cut [of "header_end r"]
    by (auto simp: hl_space_after_value_def hl_value_byte_def hl_trimmed_def)
  show "hl_keeps au buf p (hl_almost_done p h i r c)"
    if "hl_valued buf r (header_end r)" "header_end r < p" "hl_trimmed buf r (header_end r)"
    using assms that by (auto simp: hl_almost_done_def)
qed

lemma hl_inv_step:
  assumes "hl_inv au buf p s" "p < length buf" "c = buf ! p"
  shows "hl_keeps au buf p (hl_step au buf p s c)"
proof -
  obtain st h i r where s: "s = ((st, h, i), r)" by (rule hl_step_cases)
  show ?thesis
    using assms hl_keeps_start [of r i p buf c au h] hl_keeps_name [of r i au buf h p c]
      hl_keeps_value [of r i au buf h c p]
    unfolding s
    by (cases st) (simp_all add: hl_ignore_line_def hl_header_almost_done_def hl_header_done_def hl_post_def
      less_Suc_eq_le)
qed

lemma hl_loop_inv:
  assumes "length (lowcase_header r) = NGX_HTTP_LC_HEADER_LEN" "i < NGX_HTTP_LC_HEADER_LEN" "pos \<le> length buf"
  shows "case parse_loop (hl_step au) buf pos (drop pos buf) ((hl_sw_start, h, i), r) of
      Inl (s', p') \<Rightarrow> p' = length buf \<and> hl_inv au buf p' s' | Inr x \<Rightarrow> hl_post au buf x"
proof (rule parse_loop_invariant)
  show "case hl_step au buf p s c of Next s' \<Rightarrow> hl_inv au buf (Suc p) s' | Exit x \<Rightarrow> hl_post au buf x"
    if "hl_inv au buf p s" "p < length buf" "c = buf ! p" for p s c
    using that by (rule hl_inv_step)
qed (use assms in simp_all)

subsection \<open>Properties\<close>

text \<open>What the caller of the header parser reads: after \<open>NGX_HTTP_PARSE_HEADER_DONE\<close> the hash and the
  lower-case index are not looked at.\<close>

fun hl_view :: "(hl_locals, hl_req) call_result \<Rightarrow> ngx_rc \<times> hl_req \<times> (hl_locals \<times> nat) option" where
  "hl_view (rc, (st, h, i), r, p) =
     call_view (rc, if rc = NGX_HTTP_PARSE_HEADER_DONE then (st, 0, 0) else (st, h, i), r, p)"

lemma hl_view_call: "hl_view (ngx_http_parse_header_line au l r buf pos) = hl_view (parse_call (hl_step au) l r buf pos)"
  by (cases l; cases "parse_call (hl_step au) l r buf pos") (auto simp: ngx_http_parse_header_line_def)

lemma hl_view_feed:
  "hl_view (parse_feed (ngx_http_parse_header_line au) l r buf pos pieces) =
   hl_view (parse_feed (parse_call (hl_step au)) l r buf pos pieces)"
proof (induction pieces arbitrary: l r buf pos)
  case (Cons x xs)
  obtain rc st h i r' p' where c: "parse_call (hl_step au) l r (buf @ x) pos = (rc, (st, h, i), r', p')"
    by (metis surj_pair)
  then show ?case
    using Cons.IH [of "(st, h, i)" r' "buf @ x" p'] by (cases l) (simp add: ngx_http_parse_header_line_def)
qed simp

lemma hl_view_cong: "call_view x = call_view y \<Longrightarrow> hl_view x = hl_view y"
  by (cases x; cases y) (auto split: if_splits)

lemma hl_feed_call:
  "hl_view (parse_feed (ngx_http_parse_header_line au) l r buf (length buf) pieces) =
   hl_view (parse_call (hl_step au) l r (buf @ concat pieces) (length buf))"
  unfolding hl_view_feed by (rule hl_view_cong) (rule hl.feed_call)

text \<open>C26. The header line parser does not depend on how its input is cut into pieces.\<close>

theorem header_line_resume:
  "hl_view (parse_feed (ngx_http_parse_header_line au) l r buf (length buf) pieces) =
   hl_view (ngx_http_parse_header_line au l r (buf @ concat pieces) (length buf))"
  by (simp add: hl_feed_call hl_view_call)

text \<open>The ring and the index into it, whatever the outcome of a call.\<close>

definition hl_ring :: "nat \<Rightarrow> hl_req \<Rightarrow> bool" where
  "hl_ring i r \<longleftrightarrow> length (lowcase_header r) = NGX_HTTP_LC_HEADER_LEN \<and> i < NGX_HTTP_LC_HEADER_LEN"

lemma hl_ring_step:
  assumes "hl_ring i r"
  shows "case hl_step au buf p ((st, h, i), r) c of
      Next ((st', h', i'), r') \<Rightarrow> hl_ring i' r'
    | Exit (rc, r', sv) \<Rightarrow> length (lowcase_header r') = NGX_HTTP_LC_HEADER_LEN \<and>
        (\<forall>st' h' i' pos. sv = Some ((st', h', i'), pos) \<longrightarrow> hl_ring i' r')"
  using assms by (cases st) (auto simp: hl_case_defs hl_ring_def Let_def)

lemma hl_ring_call:
  assumes "hl_ring i r" "pos \<le> length buf"
  shows "case ngx_http_parse_header_line au (st, h, i) r buf pos of (rc, (st', h', i'), r', pos') \<Rightarrow> hl_ring i' r'"
proof -
  have "case parse_loop (hl_step au) buf pos (drop pos buf) ((st, h, i), r) of
      Inl (s', p') \<Rightarrow> p' = length buf \<and> (\<lambda>p ((st, h, i), r). hl_ring i r) p' s'
    | Inr x \<Rightarrow> (\<lambda>(rc, r', sv). length (lowcase_header r') = NGX_HTTP_LC_HEADER_LEN \<and>
        (\<forall>st' h' i' pos. sv = Some ((st', h', i'), pos) \<longrightarrow> hl_ring i' r')) x"
  proof (rule parse_loop_invariant)
    fix p :: nat and s :: "hl_locals \<times> hl_req" and c
    assume "(\<lambda>p ((st, h, i), r). hl_ring i r) p s"
    then show "case hl_step au buf p s c of Next s' \<Rightarrow> (\<lambda>p ((st, h, i), r). hl_ring i r) (Suc p) s'
      | Exit x \<Rightarrow> (\<lambda>(rc, r', sv). length (lowcase_header r') = NGX_HTTP_LC_HEADER_LEN \<and>
        (\<forall>st' h' i' pos. sv = Some ((st', h', i'), pos) \<longrightarrow> hl_ring i' r')) x"
      using hl_ring_step by (cases s rule: hl_step_cases) (fastforce split: action.splits)
  qed (use assms in simp_all)
  then show ?thesis
    using assms(1) by (auto simp: ngx_http_parse_header_line_def parse_call_def hl_ring_def split: sum.splits option.splits)
qed

lemma hl_ring_feed:
  "hl_ring i r \<Longrightarrow> pos \<le> length buf \<Longrightarrow>
   parse_feed (ngx_http_parse_header_line au) (st, h, i) r buf pos pieces = (rc, (st', h', i'), r', pos') \<Longrightarrow> hl_ring i' r'"
proof (induction pieces arbitrary: st h i r buf pos)
  case (Cons x xs)
  obtain rc1 st1 h1 i1 r1 pos1 where c: "ngx_http_parse_header_line au (st, h, i) r (buf @ x) pos = (rc1, (st1, h1, i1), r1, pos1)"
    by (metis surj_pair)
  have ring: "hl_ring i1 r1" using hl_ring_call [OF Cons.prems(1), of pos "buf @ x" au st h] c Cons.prems(2) by simp
  have "rc1 = NGX_AGAIN \<Longrightarrow> pos1 \<le> length (buf @ x)"
    using c hl.call_again_pos [of au "(st, h, i)" r "buf @ x" pos] Cons.prems(2)
    by (cases "parse_call (hl_step au) (st, h, i) r (buf @ x) pos") (auto simp: ngx_http_parse_header_line_def split: if_splits)
  show ?case
  proof (cases "rc1 = NGX_AGAIN")
    case True
    then show ?thesis
      using Cons.IH [OF ring \<open>rc1 = NGX_AGAIN \<Longrightarrow> pos1 \<le> length (buf @ x)\<close> [OF True]] Cons.prems(3) c by simp
  next
    case False
    then show ?thesis using Cons.prems(3) c ring by simp
  qed
qed simp

text \<open>C5. A header line may be fed in arbitrary pieces. Whatever the outcome, the ring \<open>lowcase_header\<close> keeps its 32 bytes
  and the index into it stays below 32; as this holds of every cut, no write of any name, valid or not, is out of bounds.
  An accepted line is well formed: the name is not empty and
  holds no control character, space, DEL or colon; the value follows it, holds no NUL, CR or LF
  and neither begins nor ends with a space; the line ends with LF. Unless the header is marked
  invalid, every character of the name is a letter, a digit, a hyphen or an allowed underscore,
  the hash computed on the way is \<open>ngx_hash_key_lc\<close> of the name, which is the key of the
  configured header tables, and the ring holds the last bytes of the name in lower case.\<close>

theorem header_line_accepted:
  assumes "parse_feed (ngx_http_parse_header_line au) (hl_sw_start, h0, i0) r0 buf (length buf) pieces =
      (rc, (st, h, i), r, pos)"
    and "length (lowcase_header r0) = NGX_HTTP_LC_HEADER_LEN" "i0 < NGX_HTTP_LC_HEADER_LEN"
  shows "length (lowcase_header r) = NGX_HTTP_LC_HEADER_LEN \<and> i < NGX_HTTP_LC_HEADER_LEN \<and>
    (rc = NGX_OK \<longrightarrow> hl_accepted au (buf @ concat pieces) h i r pos)"
proof -
  let ?b = "buf @ concat pieces"
  have ring: "hl_ring i r" using hl_ring_feed [OF _ _ assms(1)] assms(2,3) by (simp add: hl_ring_def)
  have "hl_accepted au ?b h i r pos" if ok: "rc = NGX_OK"
  proof -
    have "hl_view (parse_call (hl_step au) (hl_sw_start, h0, i0) r0 ?b (length buf)) =
        hl_view (NGX_OK, (st, h, i), r, pos)"
      using hl_feed_call [of au "(hl_sw_start, h0, i0)" r0 buf pieces] assms(1) ok by simp
    then have one: "parse_call (hl_step au) (hl_sw_start, h0, i0) r0 ?b (length buf) = (NGX_OK, (st, h, i), r, pos)"
      by (cases "parse_call (hl_step au) (hl_sw_start, h0, i0) r0 ?b (length buf)")
        (auto simp: rc_live_def split: if_splits)
    show ?thesis
      using hl.call_live [OF one] hl_loop_inv [OF assms(2,3), of "length buf" ?b au h0]
      by (simp add: hl_post_def rc_live_def)
  qed
  then show ?thesis using ring by (simp add: hl_ring_def)
qed

theorem header_line_accepted_witness:
  "\<exists>st h i r pos. parse_feed (ngx_http_parse_header_line False) (hl_sw_start, 0, 0)
      \<lparr>header_name_start = 0, header_name_end = 0, header_start = 0, header_end = 0, invalid_header = False,
        lowcase_header = replicate 32 0, hl_upstream = False\<rparr> [] 0
      [str ''Ab'', str '': x'', [CR, LF]] = (NGX_OK, (st, h, i), r, pos) \<and>
    hl_accepted False (concat [str ''Ab'', str '': x'', [CR, LF]]) h i r pos"
  using header_line_accepted [of False 0 0
      "\<lparr>header_name_start = 0, header_name_end = 0, header_start = 0, header_end = 0, invalid_header = False,
        lowcase_header = replicate 32 0, hl_upstream = False\<rparr>" "[]" "[str ''Ab'', str '': x'', [CR, LF]]"]
  by (simp add: ngx_http_parse_header_line_def parse_call_def hl_case_defs lowcase_nth
      NGX_HTTP_LC_HEADER_LEN_def Let_def)

subsection \<open>Well-formed header lines\<close>

definition hl_plain :: "byte \<Rightarrow> bool" where
  "hl_plain c \<longleftrightarrow> hl_value_byte c \<and> c \<noteq> SP"

lemma hl_value_run:
  "list_all hl_plain v \<Longrightarrow>
   parse_loop (hl_step au) buf p v ((hl_sw_value, h, i), r) = Inl (((hl_sw_value, h, i), r), p + length v)"
  by (rule parse_loop_stay) (auto simp: hl_value_def hl_plain_def hl_value_byte_def list_all_iff)

lemma hl_spaces_run:
  "parse_loop (hl_step au) buf p (replicate n SP) ((hl_sw_space_before_value, h, i), r) =
     Inl (((hl_sw_space_before_value, h, i), r), p + n)"
  using parse_loop_stay [of "replicate n SP" "hl_step au" buf "((hl_sw_space_before_value, h, i), r)" p]
  by (auto simp: hl_space_before_value_def)

lemma hl_name_ok_step:
  assumes "hl_name_ok au c"
  shows "hl_step au buf p ((hl_sw_name, h, i), r) c = hl_name_char h i r (ngx_tolower c)"
proof (cases "hl_name_ok False c")
  case True
  then show ?thesis using hl_name_ok_nonzero [of c] by (simp add: hl_name_def lowcase_char)
next
  case False
  then have "au" "c = 95" using assms hl_name_ok_au [of au c] by auto
  then show ?thesis by (simp add: hl_name_def)
qed

lemma hl_name_run:
  "list_all (hl_name_ok au) m \<Longrightarrow>
   \<exists>h' i' lc. parse_loop (hl_step au) buf p m ((hl_sw_name, h, i), r) =
     Inl (((hl_sw_name, h', i'), r\<lparr>lowcase_header := lc\<rparr>), p + length m)"
proof (induction m arbitrary: p h i r)
  case Nil
  show ?case
    by (rule exI [of _ h], rule exI [of _ i], rule exI [of _ "lowcase_header r"]) simp
next
  case (Cons c m)
  then have s: "hl_step au buf p ((hl_sw_name, h, i), r) c = hl_name_char h i r (ngx_tolower c)"
    by (intro hl_name_ok_step) simp
  show ?case
    using Cons.IH [of "Suc p" "ngx_hash h (ngx_tolower c)" "(i + 1) mod NGX_HTTP_LC_HEADER_LEN"
        "r\<lparr>lowcase_header := (lowcase_header r)[i := ngx_tolower c]\<rparr>"] Cons.prems s
    by (simp add: hl_name_char_def)
qed

lemma hl_start_run:
  assumes "m \<noteq> []" "list_all (hl_name_ok au) m"
  shows "\<exists>h i lc. parse_loop (hl_step au) buf p m ((hl_sw_start, h0, i0), r) =
     Inl (((hl_sw_name, h, i), r\<lparr>header_name_start := p, invalid_header := False, lowcase_header := lc\<rparr>),
       p + length m)"
proof -
  obtain c m' where m: "m = c # m'" using assms(1) by (cases m) auto
  then have c: "hl_name_ok au c" using assms(2) by simp
  then have "c \<noteq> CR" "c \<noteq> LF" by (auto simp: hl_name_ok_def byte_defs)
  then have "hl_step au buf p ((hl_sw_start, h0, i0), r) c = Next ((hl_sw_name, ngx_hash 0 (ngx_tolower c), 1),
      r\<lparr>header_name_start := p, invalid_header := False,
        lowcase_header := (lowcase_header r)[0 := ngx_tolower c]\<rparr>)"
    using c hl_name_ok_nonzero [of c] by (auto simp: hl_start_def lowcase_char hl_name_ok_au [of au c] Let_def)
  then show ?thesis
    using hl_name_run [of au m' buf "Suc p" "ngx_hash 0 (ngx_tolower c)" 1
        "r\<lparr>header_name_start := p, invalid_header := False, lowcase_header := (lowcase_header r)[0 := ngx_tolower c]\<rparr>"]
      assms(2) m by simp
qed

lemma hl_value_line_run:
  assumes "list_all hl_plain v" "v \<noteq> []"
  shows "parse_loop (hl_step au) buf p (ch CHR '':'' # replicate n SP @ v @ CR # LF # rest) ((hl_sw_name, h, i), r) =
    Inr (NGX_OK, r\<lparr>header_name_end := p, header_start := p + 1 + n, header_end := p + 1 + n + length v\<rparr>,
      Some ((hl_sw_start, h, i), p + n + length v + 3))"
proof -
  obtain c v' where v: "v = c # v'" using assms(2) by (cases v) auto
  then have c: "c \<noteq> SP" "c \<noteq> CR" "c \<noteq> LF" "c \<noteq> 0" using assms(1) by (auto simp: hl_plain_def hl_value_byte_def)
  have l: "lowcase ! 58 = 0" by (simp add: lowcase_nth)
  show ?thesis
    using c assms(1) l
    by (simp add: parse_loop_append hl_name_def hl_spaces_run v hl_space_before_value_def hl_value_run Let_def
        hl_value_def hl_almost_done_def hl_done_def)
qed

text \<open>A header line of a valid name, a colon, spaces and a value without spaces is accepted with the
  offsets of its name and value, the header is not marked invalid, its hash is \<open>ngx_hash_key_lc\<close> of
  the name, and the parser stops behind the LF.\<close>

theorem header_line_functional:
  assumes "m \<noteq> []" "list_all (hl_name_ok au) m" "v \<noteq> []" "list_all hl_plain v"
    and "length (lowcase_header r0) = NGX_HTTP_LC_HEADER_LEN" "i0 < NGX_HTTP_LC_HEADER_LEN"
  shows "\<exists>i r. ngx_http_parse_header_line au (hl_sw_start, h0, i0) r0
      (m @ ch CHR '':'' # replicate n SP @ v @ CR # LF # rest) 0 =
        (NGX_OK, (hl_sw_start, ngx_hash_key_lc m, i), r, length m + n + length v + 3) \<and>
    header_name_start r = 0 \<and> header_name_end r = length m \<and> header_start r = length m + 1 + n \<and>
    header_end r = length m + 1 + n + length v \<and> \<not> invalid_header r"
proof -
  let ?b = "m @ ch CHR '':'' # replicate n SP @ v @ CR # LF # rest"
  obtain h i lc where n: "parse_loop (hl_step au) ?b 0 m ((hl_sw_start, h0, i0), r0) =
      Inl (((hl_sw_name, h, i), r0\<lparr>header_name_start := 0, invalid_header := False, lowcase_header := lc\<rparr>), length m)"
    using hl_start_run [OF assms(1,2), of ?b 0 h0 i0 r0] by auto
  let ?r = "r0\<lparr>header_name_start := 0, invalid_header := False, lowcase_header := lc, header_name_end := length m,
    header_start := length m + 1 + n, header_end := length m + 1 + n + length v\<rparr>"
  have loop: "parse_loop (hl_step au) ?b 0 ?b ((hl_sw_start, h0, i0), r0) =
      Inr (NGX_OK, ?r, Some ((hl_sw_start, h, i), length m + n + length v + 3))"
    using n hl_value_line_run [OF assms(4,3)] by (simp add: parse_loop_append)
  have "hl_named au ?b h i ?r (length m)"
    using hl_loop_inv [OF assms(5,6), of 0 ?b au h0] loop by (simp add: hl_post_def hl_accepted_def)
  then have "h = ngx_hash_key_lc m" by (simp add: hl_named_def hl_name_read_def slice_def)
  then show ?thesis using loop by (simp add: ngx_http_parse_header_line_def parse_call_def)
qed

theorem header_line_functional_witness:
  "\<exists>i r. ngx_http_parse_header_line False (hl_sw_start, 0, 0)
      \<lparr>header_name_start = 0, header_name_end = 0, header_start = 0, header_end = 0, invalid_header = False,
        lowcase_header = replicate 32 0, hl_upstream = False\<rparr>
      (str ''Ab'' @ ch CHR '':'' # replicate 1 SP @ str ''x'' @ CR # LF # []) 0 =
        (NGX_OK, (hl_sw_start, ngx_hash_key_lc (str ''Ab''), i), r, 7) \<and> header_end r = 5"
  using header_line_functional [of "str ''Ab''" False "str ''x''"
      "\<lparr>header_name_start = 0, header_name_end = 0, header_start = 0, header_end = 0, invalid_header = False,
        lowcase_header = replicate 32 0, hl_upstream = False\<rparr>" 0 0 1 "[]"]
  by (simp add: hl_name_ok_def byte_defs hl_plain_def hl_value_byte_def NGX_HTTP_LC_HEADER_LEN_def) (elim exE conjE, intro exI conjI, assumption, simp)

end
