(* ===== verification/Ngx_Status_Line.thy ===== *)
theory Ngx_Status_Line
  imports Ngx_Parser
begin

section \<open>The status line of an upstream response\<close>

text \<open>
  \<open>ngx_http_parse_status_line\<close> of \<open>src/http/ngx_http_parse.c\<close>, one definition per \<open>case\<close>. The
  record holds the fields of \<open>r\<close> and of \<open>ngx_http_status_t\<close> that the function writes;
  \<open>http_major\<close> and \<open>http_minor\<close> are 16-bit fields, \<open>status->code\<close> an \<open>ngx_uint_t\<close>.
\<close>

datatype sl_state = sl_sw_start | sl_sw_H | sl_sw_HT | sl_sw_HTT | sl_sw_HTTP | sl_sw_first_major_digit
  | sl_sw_major_digit | sl_sw_first_minor_digit | sl_sw_minor_digit | sl_sw_status
  | sl_sw_space_after_status | sl_sw_status_text | sl_sw_almost_done

record sl_req =
  sl_http_major :: nat
  sl_http_minor :: nat
  sl_http_version :: nat
  sl_code :: nat
  sl_count :: nat
  sl_start_ptr :: "nat option"
  sl_end_ptr :: "nat option"

type_synonym sl_action = "(sl_state \<times> sl_req, (sl_state, sl_req) call_exit) action"

abbreviation sl_fail :: "sl_req \<Rightarrow> sl_action" where
  "sl_fail r \<equiv> Exit (NGX_ERROR, r, None)"

definition sl_done :: "sl_req \<Rightarrow> nat \<Rightarrow> sl_action" where
  "sl_done r p =
     Exit (NGX_OK, r\<lparr>sl_end_ptr := (case sl_end_ptr r of None \<Rightarrow> Some p | Some e \<Rightarrow> Some e),
       sl_http_version := sl_http_major r * 1000 + sl_http_minor r\<rparr>, Some (sl_sw_start, Suc p))"

text \<open>The five states that expect one letter of \<open>HTTP/\<close>.\<close>

definition sl_letter :: "char \<Rightarrow> sl_state \<Rightarrow> sl_req \<Rightarrow> byte \<Rightarrow> sl_action" where
  "sl_letter x st r c = (if c = ch x then Next (st, r) else sl_fail r)"

definition sl_first_major_digit :: "sl_req \<Rightarrow> byte \<Rightarrow> sl_action" where
  "sl_first_major_digit r c =
     (if c < ch CHR ''1'' \<or> c > ch CHR ''9'' then sl_fail r
      else Next (sl_sw_major_digit, r\<lparr>sl_http_major := unat c - 48\<rparr>))"

definition sl_major_digit :: "sl_req \<Rightarrow> byte \<Rightarrow> sl_action" where
  "sl_major_digit r c =
     (if c = ch CHR ''.'' then Next (sl_sw_first_minor_digit, r)
      else if \<not> is_dec c then sl_fail r
      else if sl_http_major r > 99 then sl_fail r
      else Next (sl_sw_major_digit, r\<lparr>sl_http_major := (sl_http_major r * 10 + (unat c - 48)) mod 2 ^ 16\<rparr>))"

definition sl_first_minor_digit :: "sl_req \<Rightarrow> byte \<Rightarrow> sl_action" where
  "sl_first_minor_digit r c =
     (if \<not> is_dec c then sl_fail r else Next (sl_sw_minor_digit, r\<lparr>sl_http_minor := unat c - 48\<rparr>))"

definition sl_minor_digit :: "sl_req \<Rightarrow> byte \<Rightarrow> sl_action" where
  "sl_minor_digit r c =
     (if c = SP then Next (sl_sw_status, r)
      else if \<not> is_dec c then sl_fail r
      else if sl_http_minor r > 99 then sl_fail r
      else Next (sl_sw_minor_digit, r\<lparr>sl_http_minor := (sl_http_minor r * 10 + (unat c - 48)) mod 2 ^ 16\<rparr>))"

definition sl_status :: "nat \<Rightarrow> sl_req \<Rightarrow> byte \<Rightarrow> sl_action" where
  "sl_status p r c =
     (if c = SP then Next (sl_sw_status, r)
      else if \<not> is_dec c then sl_fail r
      else let r = r\<lparr>sl_code := (sl_code r * 10 + (unat c - 48)) mod 2 ^ 64, sl_count := (sl_count r + 1) mod 2 ^ 64\<rparr> in
        if sl_count r = 3 then Next (sl_sw_space_after_status, r\<lparr>sl_start_ptr := Some (p - 2)\<rparr>)
        else Next (sl_sw_status, r))"

definition sl_space_after_status :: "nat \<Rightarrow> sl_req \<Rightarrow> byte \<Rightarrow> sl_action" where
  "sl_space_after_status p r c =
     (if c = SP then Next (sl_sw_status_text, r)
      else if c = ch CHR ''.'' then Next (sl_sw_status_text, r)
      else if c = CR then Next (sl_sw_almost_done, r)
      else if c = LF then sl_done r p
      else sl_fail r)"

definition sl_status_text :: "nat \<Rightarrow> sl_req \<Rightarrow> byte \<Rightarrow> sl_action" where
  "sl_status_text p r c =
     (if c = CR then Next (sl_sw_almost_done, r)
      else if c = LF then sl_done r p
      else Next (sl_sw_status_text, r))"

definition sl_almost_done :: "nat \<Rightarrow> sl_req \<Rightarrow> byte \<Rightarrow> sl_action" where
  "sl_almost_done p r c =
     (let r = r\<lparr>sl_end_ptr := Some (p - 1)\<rparr> in if c = LF then sl_done r p else sl_fail r)"

fun sl_step :: "bytes \<Rightarrow> nat \<Rightarrow> sl_state \<times> sl_req \<Rightarrow> byte \<Rightarrow> sl_action" where
  "sl_step buf p (sl_sw_start, r) c = sl_letter CHR ''H'' sl_sw_H r c"
| "sl_step buf p (sl_sw_H, r) c = sl_letter CHR ''T'' sl_sw_HT r c"
| "sl_step buf p (sl_sw_HT, r) c = sl_letter CHR ''T'' sl_sw_HTT r c"
| "sl_step buf p (sl_sw_HTT, r) c = sl_letter CHR ''P'' sl_sw_HTTP r c"
| "sl_step buf p (sl_sw_HTTP, r) c = sl_letter CHR ''/'' sl_sw_first_major_digit r c"
| "sl_step buf p (sl_sw_first_major_digit, r) c = sl_first_major_digit r c"
| "sl_step buf p (sl_sw_major_digit, r) c = sl_major_digit r c"
| "sl_step buf p (sl_sw_first_minor_digit, r) c = sl_first_minor_digit r c"
| "sl_step buf p (sl_sw_minor_digit, r) c = sl_minor_digit r c"
| "sl_step buf p (sl_sw_status, r) c = sl_status p r c"
| "sl_step buf p (sl_sw_space_after_status, r) c = sl_space_after_status p r c"
| "sl_step buf p (sl_sw_status_text, r) c = sl_status_text p r c"
| "sl_step buf p (sl_sw_almost_done, r) c = sl_almost_done p r c"

definition ngx_http_parse_status_line ::
  "sl_state \<Rightarrow> sl_req \<Rightarrow> bytes \<Rightarrow> nat \<Rightarrow> (sl_state, sl_req) call_result" where
  "ngx_http_parse_status_line state r buf pos = parse_call sl_step state r buf pos"

definition sl_init :: sl_req where
  "sl_init = \<lparr>sl_http_major = 0, sl_http_minor = 0, sl_http_version = 0, sl_code = 0, sl_count = 0,
     sl_start_ptr = None, sl_end_ptr = None\<rparr>"

lemmas sl_case_defs = sl_letter_def sl_first_major_digit_def sl_major_digit_def sl_first_minor_digit_def
  sl_minor_digit_def sl_status_def sl_space_after_status_def sl_status_text_def sl_almost_done_def sl_done_def

lemma sl_step_exit:
  "sl_step buf p s c = Exit (rc, r, sv) \<Longrightarrow> rc \<noteq> NGX_AGAIN \<and> (sv = None \<longrightarrow> \<not> rc_live rc)"
  by (cases s; cases "fst s") (auto simp: sl_case_defs rc_live_def Let_def split: if_splits)

lemma sl_step_prefix: "sl_step (xs @ ys) p s c = sl_step xs p s c"
  by (cases s; cases "fst s") auto

interpretation sl: resumable_call sl_step
  by unfold_locales (use sl_step_prefix sl_step_exit in blast)+

subsection \<open>What a state knows\<close>

definition sl_version_ok :: "sl_req \<Rightarrow> bool" where
  "sl_version_ok r \<longleftrightarrow> sl_http_major r \<le> 999 \<and> sl_http_minor r \<le> 999"

definition sl_coded :: "sl_req \<Rightarrow> nat \<Rightarrow> bool" where
  "sl_coded r p \<longleftrightarrow> sl_code r \<le> 999 \<and> sl_count r = 3 \<and> (\<exists>s. sl_start_ptr r = Some s \<and> s + 3 \<le> p)"

fun sl_inv :: "bytes \<Rightarrow> nat \<Rightarrow> sl_state \<times> sl_req \<Rightarrow> bool" where
  "sl_inv buf p (st, r) \<longleftrightarrow> sl_version_ok r \<and>
     (case st of
        sl_sw_status \<Rightarrow> 5 \<le> p \<and> sl_count r < 3 \<and> sl_code r < 10 ^ sl_count r \<and> sl_end_ptr r = None
      | sl_sw_space_after_status \<Rightarrow> sl_coded r p \<and> sl_end_ptr r = None
      | sl_sw_status_text \<Rightarrow> sl_coded r p \<and> sl_end_ptr r = None
      | sl_sw_almost_done \<Rightarrow> sl_coded r (p - 1)
      | sl_sw_start \<Rightarrow> sl_count r = 0 \<and> sl_code r = 0 \<and> sl_end_ptr r = None
      | sl_sw_H \<Rightarrow> 1 \<le> p \<and> sl_count r = 0 \<and> sl_code r = 0 \<and> sl_end_ptr r = None
      | sl_sw_HT \<Rightarrow> 2 \<le> p \<and> sl_count r = 0 \<and> sl_code r = 0 \<and> sl_end_ptr r = None
      | sl_sw_HTT \<Rightarrow> 3 \<le> p \<and> sl_count r = 0 \<and> sl_code r = 0 \<and> sl_end_ptr r = None
      | sl_sw_HTTP \<Rightarrow> 4 \<le> p \<and> sl_count r = 0 \<and> sl_code r = 0 \<and> sl_end_ptr r = None
      | _ \<Rightarrow> 5 \<le> p \<and> sl_count r = 0 \<and> sl_code r = 0 \<and> sl_end_ptr r = None)"

definition sl_accepted :: "bytes \<Rightarrow> sl_req \<Rightarrow> nat \<Rightarrow> bool" where
  "sl_accepted buf r pos \<longleftrightarrow> sl_version_ok r \<and> sl_code r \<le> 999 \<and> sl_count r = 3 \<and>
     sl_http_version r = sl_http_major r * 1000 + sl_http_minor r \<and>
     (\<exists>s e. sl_start_ptr r = Some s \<and> sl_end_ptr r = Some e \<and> s + 3 \<le> e \<and> e < pos) \<and> buf ! (pos - 1) = LF"

definition sl_post :: "bytes \<Rightarrow> (sl_state, sl_req) call_exit \<Rightarrow> bool" where
  "sl_post buf x \<longleftrightarrow> (case x of (rc, r, sv) \<Rightarrow> rc = NGX_OK \<longrightarrow>
     (\<exists>st pos. sv = Some (st, pos) \<and> sl_accepted buf r pos))"

lemma sl_digit: "is_dec c \<Longrightarrow> unat c - 48 \<le> 9"
  by (auto simp: is_dec_unat)

lemma sl_mod16: "\<not> 99 < n \<Longrightarrow> d \<le> 9 \<Longrightarrow> (n * 10 + d) mod 65536 \<le> (999 :: nat)"
  using mod_less_eq_dividend [of "n * 10 + d" 65536] by linarith

abbreviation sl_keeps :: "bytes \<Rightarrow> nat \<Rightarrow> sl_action \<Rightarrow> bool" where
  "sl_keeps buf p a \<equiv> (case a of Next s \<Rightarrow> sl_inv buf (Suc p) s | Exit x \<Rightarrow> sl_post buf x)"

lemma sl_keeps_status:
  assumes "5 \<le> p" "sl_count r < 3" "sl_code r < 10 ^ sl_count r" "sl_end_ptr r = None" "sl_version_ok r"
  shows "sl_keeps buf p (sl_status p r c)"
proof (cases "is_dec c \<and> c \<noteq> SP")
  case True
  let ?d = "unat c - 48"
  have d: "?d \<le> 9" using True sl_digit by simp
  have code: "sl_code r * 10 + ?d < 10 ^ Suc (sl_count r)" using assms(3) d by simp
  have cnt: "sl_count r = 0 \<or> sl_count r = 1 \<or> sl_count r = 2" using assms(2) by linarith
  have small: "(sl_code r * 10 + ?d) mod 2 ^ 64 = sl_code r * 10 + ?d"
    using code cnt by (intro mod_less) auto
  show ?thesis
    using True assms code cnt small
    by (elim disjE) (simp_all add: sl_status_def Let_def sl_coded_def sl_version_ok_def)
next
  case False
  then show ?thesis using assms by (auto simp: sl_status_def sl_post_def)
qed

lemma sl_keeps_end:
  assumes "sl_version_ok r" "c = buf ! p"
  shows "sl_coded r p \<Longrightarrow> sl_end_ptr r = None \<Longrightarrow> sl_keeps buf p (sl_space_after_status p r c)"
    "sl_coded r p \<Longrightarrow> sl_end_ptr r = None \<Longrightarrow> sl_keeps buf p (sl_status_text p r c)"
    "sl_coded r (p - 1) \<Longrightarrow> sl_keeps buf p (sl_almost_done p r c)"
  using assms
  by (auto simp: sl_space_after_status_def sl_status_text_def sl_almost_done_def sl_done_def sl_post_def
      sl_accepted_def sl_coded_def sl_version_ok_def Let_def)

lemma sl_inv_step:
  assumes "sl_inv buf p s" "c = buf ! p"
  shows "sl_keeps buf p (sl_step buf p s c)"
proof (cases s)
  case (Pair st r)
  have w: "sl_version_ok r" using assms(1) Pair by simp
  note d = sl_digit [of c] sl_mod16 [of "sl_http_major r" "unat c - 48"] sl_mod16 [of "sl_http_minor r" "unat c - 48"]
  have nine: "\<not> (c < 49 \<or> c > 57) \<Longrightarrow> unat c - 48 \<le> 999" using unat_byte_less [of c] by linarith
  show ?thesis
    using assms w d nine sl_keeps_status [of p r buf c] sl_keeps_end [of r c buf p]
    unfolding Pair
    by (cases st) (auto simp: sl_letter_def sl_first_major_digit_def sl_major_digit_def sl_first_minor_digit_def
        sl_minor_digit_def sl_post_def sl_version_ok_def)
qed

subsection \<open>Properties\<close>

text \<open>C30. A status line that arrives in arbitrary pieces is read, from any state, exactly as if it came at once: the return code,
  the fields and, unless the code is an error, the saved state and position are the same, so that it is accepted, refused
  or waited for alike. When it is accepted the code is a number of exactly three digits, the version parts are at most 999, the
  version is what they say, the status text begins and ends inside the line with at least three
  bytes, and the line ends with LF.\<close>

theorem status_line_accepted:
  "call_view (parse_feed ngx_http_parse_status_line st0 r0 buf (length buf) pieces) =
      call_view (ngx_http_parse_status_line st0 r0 (buf @ concat pieces) (length buf)) \<and>
    (parse_feed ngx_http_parse_status_line sl_sw_start sl_init buf (length buf) pieces = (NGX_OK, st, r, pos) \<longrightarrow>
      sl_accepted (buf @ concat pieces) r pos)"
proof -
  let ?b = "buf @ concat pieces"
  have view: "call_view (parse_feed ngx_http_parse_status_line st0 r0 buf (length buf) pieces) =
      call_view (ngx_http_parse_status_line st0 r0 ?b (length buf))" for st0 r0
    using sl.feed_call [of st0 r0 buf pieces] by (simp add: ngx_http_parse_status_line_def [abs_def])
  have "sl_accepted ?b r pos" if ok: "parse_feed ngx_http_parse_status_line sl_sw_start sl_init buf (length buf) pieces = (NGX_OK, st, r, pos)"
  proof -
    have "call_view (parse_call sl_step sl_sw_start sl_init ?b (length buf)) = call_view (NGX_OK, st, r, pos)"
      using view [of sl_sw_start sl_init] ok by (simp add: ngx_http_parse_status_line_def)
    then have c: "parse_call sl_step sl_sw_start sl_init ?b (length buf) = (NGX_OK, st, r, pos)"
      by (cases "parse_call sl_step sl_sw_start sl_init ?b (length buf)") (auto simp: rc_live_def split: if_splits)
    have "case parse_loop sl_step ?b (length buf) (drop (length buf) ?b) (sl_sw_start, sl_init) of
        Inl (s', p') \<Rightarrow> p' = length ?b \<and> sl_inv ?b p' s' | Inr x \<Rightarrow> sl_post ?b x"
      by (rule parse_loop_invariant)
        (simp_all add: sl_inv_step sl_init_def sl_version_ok_def del: sl_inv.simps, simp add: sl_version_ok_def)
    then show ?thesis using sl.call_live [OF c] by (simp add: sl_post_def rc_live_def)
  qed
  then show ?thesis using view by blast
qed

theorem status_line_accepted_witness:
  "\<exists>st r pos. parse_feed ngx_http_parse_status_line sl_sw_start sl_init [] 0
      [str ''HTTP/1'', str ''.0 20'', str ''0 O'', [CR, LF]] = (NGX_OK, st, r, pos) \<and>
    sl_accepted (concat [str ''HTTP/1'', str ''.0 20'', str ''0 O'', [CR, LF]]) r pos"
  using status_line_accepted [where buf = "[]" and pieces = "[str ''HTTP/1'', str ''.0 20'', str ''0 O'', [CR, LF]]"]
  by (simp add: ngx_http_parse_status_line_def parse_call_def sl_init_def sl_case_defs is_dec_def Let_def)

text \<open>A status line \<open>HTTP/1.x NNN text\<close> is accepted with its code, its version and the offsets of
  the status text.\<close>

theorem status_line_functional:
  assumes "is_dec d" "is_dec a" "is_dec b" "is_dec c" "CR \<notin> set t" "LF \<notin> set t"
  shows "ngx_http_parse_status_line sl_sw_start sl_init
      (str ''HTTP/1.'' @ [d, SP, a, b, c, SP] @ t @ [CR, LF] @ rest) 0 =
    (NGX_OK, sl_sw_start,
     \<lparr>sl_http_major = 1, sl_http_minor = unat d - 48, sl_http_version = 1000 + (unat d - 48),
       sl_code = 100 * (unat a - 48) + 10 * (unat b - 48) + (unat c - 48), sl_count = 3,
       sl_start_ptr = Some 9, sl_end_ptr = Some (13 + length t)\<rparr>, 15 + length t)"
proof -
  let ?b = "str ''HTTP/1.'' @ [d, SP, a, b, c, SP] @ t @ [CR, LF] @ rest"
  have n: "x \<noteq> SP" if "is_dec x" for x using that by (auto simp: is_dec_def)
  have lt: "unat x - 48 \<le> 9" if "is_dec x" for x using that by (rule sl_digit)
  let ?r = "\<lparr>sl_http_major = 1, sl_http_minor = unat d - 48, sl_http_version = 0,
       sl_code = 100 * (unat a - 48) + 10 * (unat b - 48) + (unat c - 48), sl_count = 3,
       sl_start_ptr = Some 9, sl_end_ptr = None\<rparr>"
  have m: "((unat a - 48) * 10 + (unat b - 48)) mod 2 ^ 64 = (unat a - 48) * 10 + (unat b - 48)"
    "(((unat a - 48) * 10 + (unat b - 48)) * 10 + (unat c - 48)) mod 2 ^ 64 =
      ((unat a - 48) * 10 + (unat b - 48)) * 10 + (unat c - 48)"
    "(unat a - 48) mod 2 ^ 64 = unat a - 48"
    using lt [OF assms(2)] lt [OF assms(3)] lt [OF assms(4)] by (intro mod_less; simp)+
  have "parse_loop sl_step ?b 0 (str ''HTTP/1.'' @ [d, SP, a, b, c, SP]) (sl_sw_start, sl_init) =
      Inl ((sl_sw_status_text, ?r), 13)"
    using assms n m by (simp add: sl_init_def sl_case_defs Let_def is_dec_def)
  moreover have "parse_loop sl_step ?b 13 t (sl_sw_status_text, ?r) = Inl ((sl_sw_status_text, ?r), 13 + length t)"
    by (rule parse_loop_stay) (use assms(5,6) in \<open>auto simp: sl_status_text_def\<close>)
  ultimately have "parse_loop sl_step ?b 0 ((str ''HTTP/1.'' @ [d, SP, a, b, c, SP]) @ t @ [CR, LF] @ rest)
      (sl_sw_start, sl_init) = parse_loop sl_step ?b (13 + length t) ([CR, LF] @ rest) (sl_sw_status_text, ?r)"
    by (simp only: parse_loop_append [where as = "str ''HTTP/1.'' @ [d, SP, a, b, c, SP]"]
        parse_loop_append [where as = t] sum.case prod.case)
  then show ?thesis
    by (simp add: ngx_http_parse_status_line_def parse_call_def sl_status_text_def sl_almost_done_def sl_done_def)
qed

theorem status_line_functional_witness:
  "ngx_http_parse_status_line sl_sw_start sl_init (str ''HTTP/1.1 404 No'' @ [CR, LF]) 0 =
    (NGX_OK, sl_sw_start, \<lparr>sl_http_major = 1, sl_http_minor = 1, sl_http_version = 1001, sl_code = 404, sl_count = 3,
       sl_start_ptr = Some 9, sl_end_ptr = Some 15\<rparr>, 17)"
  using status_line_functional [of "ch CHR ''1''" "ch CHR ''4''" "ch CHR ''0''" "ch CHR ''4''" "str ''No''" "[]"]
  by (simp add: is_dec_def)

text \<open>Spaces are skipped between the digits of the code too, and then \<open>status->start\<close>, set to \<open>p - 2\<close> at
  the third digit, is not where the code begins.\<close>

theorem status_line_split_code:
  "\<exists>r. ngx_http_parse_status_line sl_sw_start sl_init (str ''HTTP/1.1 2 00 OK'' @ [LF]) 0 = (NGX_OK, sl_sw_start, r, 17) \<and>
    sl_code r = 200 \<and> sl_start_ptr r = Some 10"
  by (simp add: ngx_http_parse_status_line_def parse_call_def sl_init_def sl_case_defs is_dec_def Let_def)

end
