(* ===== verification/Ngx_Chunked.thy ===== *)
theory Ngx_Chunked
  imports Ngx_Parser
begin

unbundle bit_operations_syntax

section \<open>Chunked bodies\<close>

text \<open>
  \<open>ngx_http_parse_chunked\<close> of \<open>src/http/ngx_http_parse.c\<close> and the filter that drives it,
  \<open>ngx_http_request_body_chunked_filter\<close> of \<open>src/http/ngx_http_request_body.c\<close>. The parser's
  context \<open>ngx_http_chunked_t\<close> is a record with its two \<open>off_t\<close> fields as integers wrapped to 64
  bits.
\<close>

subsection \<open>The parser\<close>

datatype ck_state = sw_chunk_start | sw_chunk_size | sw_chunk_extension | sw_chunk_extension_almost_done
  | sw_chunk_data | sw_after_data | sw_after_data_almost_done | sw_last_chunk_extension
  | sw_last_chunk_extension_almost_done | sw_trailer | sw_trailer_almost_done | sw_trailer_header
  | sw_trailer_header_almost_done

record chunked_ctx =
  ck_state :: ck_state
  ck_size :: int
  ck_length :: int

definition NGX_MAX_OFF_T_VALUE :: int where
  "NGX_MAX_OFF_T_VALUE = 9223372036854775807"

text \<open>How the loop is left: at \<open>data\<close> with the current byte not consumed, at \<open>done\<close> behind it, or
  at \<open>invalid\<close>. The size has been written through \<open>ctx\<close> in every case.\<close>

datatype ck_exit = Ck_data ck_state int nat | Ck_done int nat | Ck_invalid int

type_synonym ck_action = "(ck_state \<times> int, ck_exit) action"

text \<open>The value of a hexadecimal digit as the code reads it.\<close>

definition ck_hex :: "byte \<Rightarrow> int option" where
  "ck_hex c =
     (if is_dec c then Some (uint c - 48)
      else let c' = c OR 0x20 in
        if c' \<ge> ch CHR ''a'' \<and> c' \<le> ch CHR ''f'' then Some (uint c' - 97 + 10) else None)"

definition ck_chunk_start :: "int \<Rightarrow> byte \<Rightarrow> ck_action" where
  "ck_chunk_start sz c =
     (case ck_hex c of Some d \<Rightarrow> Next (sw_chunk_size, d) | None \<Rightarrow> Exit (Ck_invalid sz))"

definition ck_chunk_size :: "int \<Rightarrow> byte \<Rightarrow> ck_action" where
  "ck_chunk_size sz c =
     (if sz > NGX_MAX_OFF_T_VALUE div 16 then Exit (Ck_invalid sz)
      else case ck_hex c of
        Some d \<Rightarrow> Next (sw_chunk_size, s64 (s64 (sz * 16) + d))
      | None \<Rightarrow>
          if sz = 0 then
            (if c = CR then Next (sw_last_chunk_extension_almost_done, sz)
             else if c = LF then Next (sw_trailer, sz)
             else if c = ch CHR '';'' \<or> c = SP \<or> c = 9 then Next (sw_last_chunk_extension, sz)
             else Exit (Ck_invalid sz))
          else
            (if c = CR then Next (sw_chunk_extension_almost_done, sz)
             else if c = LF then Next (sw_chunk_data, sz)
             else if c = ch CHR '';'' \<or> c = SP \<or> c = 9 then Next (sw_chunk_extension, sz)
             else Exit (Ck_invalid sz)))"

text \<open>The states that wait for the end of a line: CR, LF and what another byte does.\<close>

definition ck_line :: "ck_action \<Rightarrow> ck_action \<Rightarrow> ck_action \<Rightarrow> byte \<Rightarrow> ck_action" where
  "ck_line on_cr on_lf other c = (if c = CR then on_cr else if c = LF then on_lf else other)"

definition ck_lf :: "ck_action \<Rightarrow> int \<Rightarrow> byte \<Rightarrow> ck_action" where
  "ck_lf on_lf sz c = (if c = LF then on_lf else Exit (Ck_invalid sz))"

fun ck_step :: "bytes \<Rightarrow> nat \<Rightarrow> ck_state \<times> int \<Rightarrow> byte \<Rightarrow> ck_action" where
  "ck_step buf p (sw_chunk_start, sz) c = ck_chunk_start sz c"
| "ck_step buf p (sw_chunk_size, sz) c = ck_chunk_size sz c"
| "ck_step buf p (sw_chunk_extension, sz) c =
     ck_line (Next (sw_chunk_extension_almost_done, sz)) (Next (sw_chunk_data, sz))
       (Next (sw_chunk_extension, sz)) c"
| "ck_step buf p (sw_chunk_extension_almost_done, sz) c = ck_lf (Next (sw_chunk_data, sz)) sz c"
| "ck_step buf p (sw_chunk_data, sz) c = Exit (Ck_data sw_chunk_data sz p)"
| "ck_step buf p (sw_after_data, sz) c =
     ck_line (Next (sw_after_data_almost_done, sz)) (Next (sw_chunk_start, sz)) (Exit (Ck_invalid sz)) c"
| "ck_step buf p (sw_after_data_almost_done, sz) c = ck_lf (Next (sw_chunk_start, sz)) sz c"
| "ck_step buf p (sw_last_chunk_extension, sz) c =
     ck_line (Next (sw_last_chunk_extension_almost_done, sz)) (Next (sw_trailer, sz))
       (Next (sw_last_chunk_extension, sz)) c"
| "ck_step buf p (sw_last_chunk_extension_almost_done, sz) c = ck_lf (Next (sw_trailer, sz)) sz c"
| "ck_step buf p (sw_trailer, sz) c =
     ck_line (Next (sw_trailer_almost_done, sz)) (Exit (Ck_done sz (Suc p))) (Next (sw_trailer_header, sz)) c"
| "ck_step buf p (sw_trailer_almost_done, sz) c = ck_lf (Exit (Ck_done sz (Suc p))) sz c"
| "ck_step buf p (sw_trailer_header, sz) c =
     ck_line (Next (sw_trailer_header_almost_done, sz)) (Next (sw_trailer, sz)) (Next (sw_trailer_header, sz)) c"
| "ck_step buf p (sw_trailer_header_almost_done, sz) c = ck_lf (Next (sw_trailer, sz)) sz c"

text \<open>\<open>ctx->length\<close>: the least number of bytes the rest of the body can have.\<close>

fun ck_need :: "ck_state \<Rightarrow> int \<Rightarrow> int" where
  "ck_need sw_chunk_start sz = 3"
| "ck_need sw_chunk_size sz = s64 (1 + (if sz \<noteq> 0 then s64 (sz + 4) else 1))"
| "ck_need sw_chunk_extension sz = s64 (s64 (1 + sz) + 4)"
| "ck_need sw_chunk_extension_almost_done sz = s64 (s64 (1 + sz) + 4)"
| "ck_need sw_chunk_data sz = s64 (sz + 4)"
| "ck_need sw_after_data sz = 4"
| "ck_need sw_after_data_almost_done sz = 4"
| "ck_need sw_last_chunk_extension sz = 2"
| "ck_need sw_last_chunk_extension_almost_done sz = 2"
| "ck_need sw_trailer sz = 1"
| "ck_need sw_trailer_almost_done sz = 1"
| "ck_need sw_trailer_header sz = 2"
| "ck_need sw_trailer_header_almost_done sz = 2"

text \<open>The code at \<open>data\<close>: the return code, the context and \<open>b->pos\<close>.\<close>

definition ck_data :: "ngx_rc \<Rightarrow> chunked_ctx \<Rightarrow> ck_state \<Rightarrow> int \<Rightarrow> nat \<Rightarrow> ngx_rc \<times> chunked_ctx \<times> nat" where
  "ck_data rc ctx state sz pos =
     (let ctx = ctx\<lparr>ck_state := state, ck_size := sz\<rparr> in
      if sz > NGX_MAX_OFF_T_VALUE - 5 then (NGX_ERROR, ctx, pos)
      else (rc, ctx\<lparr>ck_length := ck_need state sz\<rparr>, pos))"

definition ck_enter :: "chunked_ctx \<Rightarrow> ck_state" where
  "ck_enter ctx = (if ck_state ctx = sw_chunk_data \<and> ck_size ctx = 0 then sw_after_data else ck_state ctx)"

definition ngx_http_parse_chunked :: "chunked_ctx \<Rightarrow> bytes \<Rightarrow> nat \<Rightarrow> ngx_rc \<times> chunked_ctx \<times> nat" where
  "ngx_http_parse_chunked ctx buf pos =
     (case parse_loop ck_step buf pos (drop pos buf) (ck_enter ctx, ck_size ctx) of
        Inl ((state, sz), p) \<Rightarrow> ck_data NGX_AGAIN ctx state sz p
      | Inr (Ck_data state sz p) \<Rightarrow> ck_data NGX_OK ctx state sz p
      | Inr (Ck_done sz p) \<Rightarrow> (NGX_DONE, ctx\<lparr>ck_state := sw_chunk_start, ck_size := sz\<rparr>, p)
      | Inr (Ck_invalid sz) \<Rightarrow> (NGX_ERROR, ctx\<lparr>ck_size := sz\<rparr>, pos))"

interpretation ck: resumable ck_step
proof
  show "ck_step (xs @ ys) p s c = ck_step xs p s c" if "p < length xs" for p xs ys s c
    by (cases s; cases "fst s") simp_all
qed

subsection \<open>The request body filter\<close>

text \<open>
  \<open>ngx_http_request_body_chunked_filter\<close>. The chain \<open>out\<close> it builds is a list of the buffers' contents,
  the newest first; a small chunk that is moved behind the data of the current output buffer \<open>b\<close> is
  appended to it. \<open>bd_avail\<close> is the number of allocations from the pool that still succeed.
\<close>

datatype body_out = Body_data bytes | Body_last

record body =
  bd_rest :: int
  bd_chunked :: chunked_ctx
  bd_content_length_n :: int
  bd_lingering_close :: bool
  bd_avail :: nat
  bd_out :: "body_out list"

record body_conf =
  client_max_body_size :: int
  large_client_header_buffers_size :: int

datatype http_status = NGX_HTTP_BAD_REQUEST | NGX_HTTP_REQUEST_ENTITY_TOO_LARGE | NGX_HTTP_INTERNAL_SERVER_ERROR

definition ck_too_large :: "body_conf \<Rightarrow> body \<Rightarrow> bool" where
  "ck_too_large conf bd \<longleftrightarrow> client_max_body_size conf \<noteq> 0 \<and>
     client_max_body_size conf - bd_content_length_n bd < ck_size (bd_chunked bd)"

fun out_append :: "bytes \<Rightarrow> body_out list \<Rightarrow> body_out list" where
  "out_append x (Body_data d # out) = Body_data (d @ x) # out"
| "out_append x out = out"

text \<open>A chunk moved into the current output buffer, and a buffer of \<open>n\<close> bytes taken from the input.\<close>

definition ck_move :: "body \<Rightarrow> bytes \<Rightarrow> body" where
  "ck_move bd x = bd\<lparr>bd_content_length_n := bd_content_length_n bd + ck_size (bd_chunked bd),
     bd_chunked := (bd_chunked bd)\<lparr>ck_size := 0\<rparr>, bd_out := out_append x (bd_out bd)\<rparr>"

definition ck_take :: "body \<Rightarrow> bytes \<Rightarrow> body" where
  "ck_take bd x = bd\<lparr>bd_content_length_n := bd_content_length_n bd + int (length x),
     bd_chunked := (bd_chunked bd)\<lparr>ck_size := ck_size (bd_chunked bd) - int (length x)\<rparr>,
     bd_avail := bd_avail bd - 1, bd_out := Body_data x # bd_out bd\<rparr>"

partial_function (option) ck_buf_loop ::
  "body_conf \<Rightarrow> body \<Rightarrow> bytes \<Rightarrow> nat \<Rightarrow> bool \<Rightarrow> ((http_status \<times> body) + (body \<times> nat)) option" where
  "ck_buf_loop conf bd0 buf pos b =
     (case ngx_http_parse_chunked (bd_chunked bd0) buf pos of (rc, ctx, p) \<Rightarrow>
        let bd = bd0\<lparr>bd_chunked := ctx\<rparr>; n = length buf - p in
        if rc = NGX_OK then
          if ck_too_large conf bd then
            Some (Inl (NGX_HTTP_REQUEST_ENTITY_TOO_LARGE, bd\<lparr>bd_lingering_close := True\<rparr>))
          else if b \<and> ck_size ctx \<le> 128 \<and> int n \<ge> ck_size ctx then
            ck_buf_loop conf (ck_move bd (slice buf p (p + nat (ck_size ctx)))) buf (p + nat (ck_size ctx)) True
          else if bd_avail bd = 0 then Some (Inl (NGX_HTTP_INTERNAL_SERVER_ERROR, bd))
          else if int n > ck_size ctx then
            ck_buf_loop conf (ck_take bd (slice buf p (p + nat (ck_size ctx)))) buf (p + nat (ck_size ctx)) True
          else ck_buf_loop conf (ck_take bd (drop p buf)) buf (length buf) True
        else if rc = NGX_DONE then
          if bd_avail bd = 0 then Some (Inl (NGX_HTTP_INTERNAL_SERVER_ERROR, bd\<lparr>bd_rest := 0\<rparr>))
          else Some (Inr (bd\<lparr>bd_rest := 0, bd_avail := bd_avail bd - 1, bd_out := Body_last # bd_out bd\<rparr>, p))
        else if rc = NGX_AGAIN then
          Some (Inr (bd\<lparr>bd_rest := max (ck_length ctx) (large_client_header_buffers_size conf)\<rparr>, p))
        else Some (Inl (NGX_HTTP_BAD_REQUEST, bd)))"

fun ck_chain_loop :: "body_conf \<Rightarrow> body \<Rightarrow> bytes list \<Rightarrow> ((http_status \<times> body) + body) option" where
  "ck_chain_loop conf bd [] = Some (Inr bd)"
| "ck_chain_loop conf bd (buf # rest) =
     (case ck_buf_loop conf bd buf 0 False of
        None \<Rightarrow> None
      | Some (Inl e) \<Rightarrow> Some (Inl e)
      | Some (Inr (bd', p)) \<Rightarrow> ck_chain_loop conf bd' rest)"

text \<open>The filter up to the call of the next one, which gets the chain \<open>bd_out\<close>.\<close>

definition ngx_http_request_body_chunked_filter ::
  "body_conf \<Rightarrow> body \<Rightarrow> bytes list \<Rightarrow> ((http_status \<times> body) + body) option" where
  "ngx_http_request_body_chunked_filter conf bd chain =
     (if bd_rest bd = -1 then
        if bd_avail bd = 0 then Some (Inl (NGX_HTTP_INTERNAL_SERVER_ERROR, bd))
        else ck_chain_loop conf (bd\<lparr>bd_chunked := \<lparr>ck_state = sw_chunk_start, ck_size = 0, ck_length = 0\<rparr>,
          bd_avail := bd_avail bd - 1, bd_content_length_n := 0,
          bd_rest := large_client_header_buffers_size conf, bd_out := []\<rparr>) chain
      else ck_chain_loop conf (bd\<lparr>bd_out := []\<rparr>) chain)"

subsection \<open>The byte machine\<close>

text \<open>What the parser and the filter compute, one byte at a time: the specification the filter refines.\<close>

datatype ck_end = Ck_more ck_state int | Ck_end bytes | Ck_bad

definition ck_entered :: "ck_state \<Rightarrow> int \<Rightarrow> ck_state" where
  "ck_entered st sz = (if st = sw_chunk_data \<and> sz = 0 then sw_after_data else st)"

fun dechunk :: "ck_state \<Rightarrow> int \<Rightarrow> bytes \<Rightarrow> bytes \<times> ck_end" where
  "dechunk st sz [] = ([], Ck_more (ck_entered st sz) sz)"
| "dechunk st sz (c # cs) =
     (if ck_entered st sz = sw_chunk_data then
        (case dechunk sw_chunk_data (sz - 1) cs of (d, e) \<Rightarrow> (c # d, e))
      else case ck_step [] 0 (ck_entered st sz, sz) c of
        Next (st', sz') \<Rightarrow> dechunk st' sz' cs
      | Exit (Ck_done sz' p) \<Rightarrow> ([], Ck_end cs)
      | Exit x \<Rightarrow> ([], Ck_bad))"

definition ck_wf :: "ck_state \<Rightarrow> int \<Rightarrow> bool" where
  "ck_wf st sz \<longleftrightarrow> 0 \<le> sz \<and> sz \<le> NGX_MAX_OFF_T_VALUE \<and>
     (st \<noteq> sw_chunk_size \<longrightarrow> sz \<le> NGX_MAX_OFF_T_VALUE div 16) \<and>
     (st \<in> {sw_chunk_extension, sw_chunk_extension_almost_done} \<longrightarrow> sz \<noteq> 0)"

lemma ck_hex_range: "ck_hex c = Some d \<Longrightarrow> 0 \<le> d \<and> d \<le> 15"
  by (auto simp: ck_hex_def is_dec_uint word_le_def Let_def split: if_splits)

lemma max_off_t: "NGX_MAX_OFF_T_VALUE = NGX_MAX_INT_T_VALUE"
  by (simp add: NGX_MAX_OFF_T_VALUE_def NGX_MAX_INT_T_VALUE_def)

lemma ck_size_no_wrap:
  assumes "0 \<le> sz" "sz \<le> NGX_MAX_OFF_T_VALUE div 16" "0 \<le> d" "d \<le> 15"
  shows "s64 (s64 (sz * 16) + d) = sz * 16 + d" "0 \<le> sz * 16 + d" "sz * 16 + d \<le> NGX_MAX_OFF_T_VALUE"
proof -
  have "sz * 16 + d \<le> NGX_MAX_OFF_T_VALUE" using assms by (simp add: NGX_MAX_OFF_T_VALUE_def)
  then show "s64 (s64 (sz * 16) + d) = sz * 16 + d" "0 \<le> sz * 16 + d" "sz * 16 + d \<le> NGX_MAX_OFF_T_VALUE"
    using assms by (simp_all add: s64_nonneg_id flip: max_off_t)
qed

lemma max_off_t_pos [simp]: "0 \<le> NGX_MAX_OFF_T_VALUE" "0 \<le> NGX_MAX_OFF_T_VALUE div 16"
  "15 \<le> NGX_MAX_OFF_T_VALUE" "NGX_MAX_OFF_T_VALUE div 16 \<le> NGX_MAX_OFF_T_VALUE - 5"
  "NGX_MAX_OFF_T_VALUE div 16 \<le> NGX_MAX_OFF_T_VALUE"
  by (simp_all add: NGX_MAX_OFF_T_VALUE_def)

lemma ck_step_wf:
  assumes "ck_wf st sz" "ck_step buf p (st, sz) c = Next (st', sz')"
  shows "ck_wf st' sz' \<and> (st' = sw_chunk_data \<longrightarrow> sz' \<noteq> 0)"
proof (cases "st = sw_chunk_size")
  case True
  have "0 \<le> sz" using assms(1) by (simp add: ck_wf_def)
  then show ?thesis
    using assms True ck_size_no_wrap [of sz] ck_hex_range [of c]
    by (auto simp: ck_wf_def ck_chunk_size_def split: if_splits option.splits)
next
  case False
  show ?thesis
  proof (cases "st = sw_chunk_start")
    case True
    have "d \<le> 15 \<Longrightarrow> d \<le> NGX_MAX_OFF_T_VALUE" for d using max_off_t_pos(3) by linarith
    then show ?thesis using assms True ck_hex_range [of c]
      by (auto simp: ck_wf_def ck_chunk_start_def split: option.splits)
  next
    case False
    then show ?thesis
      using assms \<open>st \<noteq> sw_chunk_size\<close>
      by (cases st) (auto simp: ck_wf_def ck_line_def ck_lf_def split: if_splits)
  qed
qed

text \<open>\<open>ctx->length\<close> without the wrap.\<close>

definition ck_need_int :: "ck_state \<Rightarrow> int \<Rightarrow> int" where
  "ck_need_int st sz =
     (case st of
        sw_chunk_start \<Rightarrow> 3
      | sw_chunk_size \<Rightarrow> if sz \<noteq> 0 then sz + 5 else 2
      | sw_chunk_extension \<Rightarrow> sz + 5 | sw_chunk_extension_almost_done \<Rightarrow> sz + 5
      | sw_chunk_data \<Rightarrow> sz + 4
      | sw_after_data \<Rightarrow> 4 | sw_after_data_almost_done \<Rightarrow> 4
      | sw_trailer \<Rightarrow> 1 | sw_trailer_almost_done \<Rightarrow> 1 | _ \<Rightarrow> 2)"

lemma ck_need_no_wrap:
  assumes "0 \<le> sz" "sz \<le> NGX_MAX_OFF_T_VALUE - 5"
  shows "ck_need st sz = ck_need_int st sz"
proof -
  have "s64 (sz + 4) = sz + 4" "s64 (1 + sz) = 1 + sz" "s64 (1 + (sz + 4)) = 1 + (sz + 4)" "s64 2 = 2"
    "s64 (1 + sz + 4) = 1 + sz + 4" "s64 (5 + sz) = 5 + sz"
    using assms by (simp_all add: s64_nonneg_id max_off_t NGX_MAX_INT_T_VALUE_def)
  then show ?thesis by (cases st) (simp_all add: ck_need_int_def)
qed

lemma ck_step_base:
  assumes "st \<noteq> sw_chunk_data"
  shows "ck_step buf p (st, sz) c =
    (case ck_step [] 0 (st, sz) c of
       Next s \<Rightarrow> Next s
     | Exit (Ck_done z q) \<Rightarrow> Exit (Ck_done z (Suc p))
     | Exit x \<Rightarrow> Exit x)"
  using assms
  by (cases st) (auto simp: ck_line_def ck_lf_def ck_chunk_start_def ck_chunk_size_def split: option.split)

lemma ck_step_exits:
  assumes "st \<noteq> sw_chunk_data"
  shows "ck_step buf p (st, sz) c \<noteq> Exit (Ck_data a z q)"
    "ck_step buf p (st, sz) c = Exit (Ck_done z q) \<Longrightarrow> z = sz \<and> st \<noteq> sw_chunk_size"
  using assms
  by (cases st; auto simp: ck_line_def ck_lf_def ck_chunk_start_def ck_chunk_size_def split: if_splits option.splits)+

lemma ck_entered_id: "(st = sw_chunk_data \<longrightarrow> sz \<noteq> 0) \<Longrightarrow> ck_entered st sz = st"
  by (auto simp: ck_entered_def)

definition ck_loop_ok :: "ck_state \<Rightarrow> int \<Rightarrow> nat \<Rightarrow> bytes \<Rightarrow> ((ck_state \<times> int) \<times> nat) + ck_exit \<Rightarrow> bool" where
  "ck_loop_ok st sz p rest res =
     (case res of
        Inl ((st', sz'), p') \<Rightarrow> dechunk st sz rest = ([], Ck_more st' sz') \<and> ck_wf st' sz' \<and>
          (st' = sw_chunk_data \<longrightarrow> sz' \<noteq> 0) \<and> p' = p + length rest
      | Inr (Ck_data st' sz' p') \<Rightarrow> st' = sw_chunk_data \<and> sz' \<noteq> 0 \<and> ck_wf sw_chunk_data sz' \<and> p \<le> p' \<and>
          p' < p + length rest \<and> dechunk st sz rest = dechunk sw_chunk_data sz' (drop (p' - p) rest)
      | Inr (Ck_done sz' p') \<Rightarrow> p < p' \<and> p' \<le> p + length rest \<and> ck_wf sw_chunk_start sz' \<and>
          dechunk st sz rest = ([], Ck_end (drop (p' - p) rest))
      | Inr (Ck_invalid sz') \<Rightarrow> dechunk st sz rest = ([], Ck_bad))"

lemma ck_loop_ok_Suc:
  assumes "ck_loop_ok st' sz' (Suc p) rest res" "dechunk st sz (c # rest) = dechunk st' sz' rest"
  shows "ck_loop_ok st sz p (c # rest) res"
proof -
  have drop: "drop (q - p) (c # rest) = drop (q - Suc p) rest" if "Suc p \<le> q" for q
  proof -
    have "q - p = Suc (q - Suc p)" using that by simp
    then show ?thesis by simp
  qed
  show ?thesis
  proof (cases res)
    case (Inl a)
    obtain s1 z1 p1 where "a = ((s1, z1), p1)" by (metis surj_pair)
    with Inl show ?thesis using assms(1) unfolding ck_loop_ok_def assms(2) by simp
  next
    case (Inr x)
    show ?thesis
    proof (cases x)
      case (Ck_data a z q)
      with Inr show ?thesis using assms(1) drop [of q] unfolding ck_loop_ok_def assms(2) by auto
    next
      case (Ck_done z q)
      with Inr show ?thesis using assms(1) drop [of q] unfolding ck_loop_ok_def assms(2) by auto
    next
      case (Ck_invalid z)
      with Inr show ?thesis using assms(1) unfolding ck_loop_ok_def assms(2) by simp
    qed
  qed
qed

lemma ck_loop_okI:
  assumes "ck_wf st sz" "st = sw_chunk_data \<longrightarrow> sz \<noteq> 0"
  shows "ck_loop_ok st sz p rest (parse_loop ck_step buf p rest (st, sz))"
  using assms
proof (induction rest arbitrary: st sz p)
  case Nil
  then show ?case by (simp add: ck_loop_ok_def ck_entered_id)
next
  case (Cons c rest)
  have ent: "ck_entered st sz = st" using Cons.prems by (simp add: ck_entered_id)
  show ?case
  proof (cases "st = sw_chunk_data")
    case True
    then show ?thesis using Cons.prems by (simp add: ck_loop_ok_def)
  next
    case False
    show ?thesis
    proof (cases "ck_step [] 0 (st, sz) c")
      case (Next s)
      obtain st' sz' where s: "s = (st', sz')" by (cases s)
      have nx: "ck_step buf p (st, sz) c = Next (st', sz')" using ck_step_base [OF False, of buf p sz c] Next s by simp
      have wf: "ck_wf st' sz' \<and> (st' = sw_chunk_data \<longrightarrow> sz' \<noteq> 0)"
        using ck_step_wf [OF Cons.prems(1)] Next s by simp
      have d: "dechunk st sz (c # rest) = dechunk st' sz' rest" using ent False Next s by simp
      have IH: "ck_loop_ok st' sz' (Suc p) rest (parse_loop ck_step buf (Suc p) rest (st', sz'))"
        using Cons.IH [of st' sz' "Suc p"] wf by blast
      have loop: "parse_loop ck_step buf p (c # rest) (st, sz) = parse_loop ck_step buf (Suc p) rest (st', sz')"
        using nx by simp
      show ?thesis
        unfolding loop using IH d by (rule ck_loop_ok_Suc)
    next
      case (Exit x)
      then show ?thesis
        using ck_step_base [OF False, of buf p sz c] ck_step_exits [OF False, of "[]" 0 sz c] ent False Cons.prems
        by (cases x) (auto simp: ck_loop_ok_def ck_wf_def)
    qed
  qed
qed

lemma dechunk_data:
  assumes "n \<le> length xs" "int n \<le> sz"
  shows "dechunk sw_chunk_data sz xs =
    (case dechunk sw_chunk_data (sz - int n) (drop n xs) of (d, e) \<Rightarrow> (take n xs @ d, e))"
  using assms
proof (induction n arbitrary: xs sz)
  case (Suc n)
  then obtain c cs where xs: "xs = c # cs" by (cases xs) auto
  have e: "sz - (1 + int n) = sz - 1 - int n" by simp
  show ?case
    using Suc.IH [of cs "sz - 1"] Suc.prems xs
    by (simp add: ck_entered_def e split: prod.splits)
qed simp

lemma dechunk_entered: "dechunk (ck_entered st sz) sz xs = dechunk st sz xs"
  by (cases xs) (auto simp: ck_entered_def)

lemma ck_wf_entered: "ck_wf st sz \<Longrightarrow> ck_wf (ck_entered st sz) sz \<and> (ck_entered st sz = sw_chunk_data \<longrightarrow> sz \<noteq> 0)"
  by (auto simp: ck_wf_def ck_entered_def)

lemma ck_call_cases [consumes 2]:
  assumes "ck_wf (ck_state ctx) (ck_size ctx)" "pos \<le> length buf"
  obtains
    (ok) ctx' p where "ngx_http_parse_chunked ctx buf pos = (NGX_OK, ctx', p)" "ck_state ctx' = sw_chunk_data"
      "0 < ck_size ctx'" "ck_wf sw_chunk_data (ck_size ctx')" "pos \<le> p" "p < length buf"
      "dechunk (ck_state ctx) (ck_size ctx) (drop pos buf) = dechunk sw_chunk_data (ck_size ctx') (drop p buf)"
  | (fin) ctx' p where "ngx_http_parse_chunked ctx buf pos = (NGX_DONE, ctx', p)" "ck_state ctx' = sw_chunk_start"
      "ck_wf sw_chunk_start (ck_size ctx')" "pos < p" "p \<le> length buf"
      "dechunk (ck_state ctx) (ck_size ctx) (drop pos buf) = ([], Ck_end (drop p buf))"
  | (again) ctx' where "ngx_http_parse_chunked ctx buf pos = (NGX_AGAIN, ctx', length buf)"
      "ck_wf (ck_state ctx') (ck_size ctx')" "ck_size ctx' \<le> NGX_MAX_OFF_T_VALUE - 5"
      "ck_length ctx' = ck_need_int (ck_state ctx') (ck_size ctx')"
      "dechunk (ck_state ctx) (ck_size ctx) (drop pos buf) = ([], Ck_more (ck_state ctx') (ck_size ctx'))"
  | (huge) ctx' sz p where "ngx_http_parse_chunked ctx buf pos = (NGX_ERROR, ctx', p)" "NGX_MAX_OFF_T_VALUE - 5 < sz"
      "dechunk (ck_state ctx) (ck_size ctx) (drop pos buf) = ([], Ck_more sw_chunk_size sz)"
  | (bad) ctx' p where "ngx_http_parse_chunked ctx buf pos = (NGX_ERROR, ctx', p)"
      "dechunk (ck_state ctx) (ck_size ctx) (drop pos buf) = ([], Ck_bad)"
proof -
  let ?rest = "drop pos buf" and ?st = "ck_entered (ck_state ctx) (ck_size ctx)" and ?sz = "ck_size ctx"
  let ?loop = "parse_loop ck_step buf pos ?rest (?st, ?sz)"
  have e: "ck_enter ctx = ?st" by (simp add: ck_enter_def ck_entered_def)
  have L: "ck_loop_ok ?st ?sz pos ?rest ?loop"
    using ck_wf_entered [OF assms(1)] by (intro ck_loop_okI) blast+
  have D: "dechunk ?st ?sz ?rest = dechunk (ck_state ctx) ?sz ?rest" by (rule dechunk_entered)
  have big: "ck_wf st sz \<Longrightarrow> NGX_MAX_OFF_T_VALUE - 5 < sz \<Longrightarrow> st = sw_chunk_size" for st sz
    using max_off_t_pos(4) by (fastforce simp: ck_wf_def)
  show ?thesis
  proof (cases ?loop)
    case (Inl a)
    obtain s1 z1 p1 where a: "a = ((s1, z1), p1)" by (metis surj_pair)
    have f: "dechunk (ck_state ctx) ?sz ?rest = ([], Ck_more s1 z1)" "ck_wf s1 z1" "p1 = length buf"
      using L D assms(2) unfolding Inl a by (simp_all add: ck_loop_ok_def)
    have c: "ngx_http_parse_chunked ctx buf pos = ck_data NGX_AGAIN ctx s1 z1 (length buf)"
      unfolding ngx_http_parse_chunked_def e Inl a f(3) by simp
    show ?thesis
    proof (cases "z1 > NGX_MAX_OFF_T_VALUE - 5")
      case True
      then show ?thesis using huge c f(1) big [OF f(2) True] by (simp add: ck_data_def)
    next
      case False
      moreover have "0 \<le> z1" using f(2) by (simp add: ck_wf_def)
      ultimately show ?thesis
        using c f
        by (intro again [of "ctx\<lparr>ck_state := s1, ck_size := z1, ck_length := ck_need_int s1 z1\<rparr>"])
          (simp_all add: ck_data_def ck_need_no_wrap)
    qed
  next
    case (Inr x)
    show ?thesis
    proof (cases x)
      case (Ck_data s1 z1 p1)
      have f: "s1 = sw_chunk_data" "z1 \<noteq> 0" "ck_wf sw_chunk_data z1" "pos \<le> p1" "p1 < length buf"
        "dechunk (ck_state ctx) ?sz ?rest = dechunk sw_chunk_data z1 (drop (p1 - pos) ?rest)"
        using L D assms(2) unfolding Inr Ck_data by (simp_all add: ck_loop_ok_def)
      have z: "0 \<le> z1" "\<not> NGX_MAX_OFF_T_VALUE - 5 < z1" using f(3) big [OF f(3)] by (auto simp: ck_wf_def)
      have c: "ngx_http_parse_chunked ctx buf pos = ck_data NGX_OK ctx s1 z1 p1"
        unfolding ngx_http_parse_chunked_def e Inr Ck_data by simp
      show ?thesis
        using c f z
        by (intro ok [of "ctx\<lparr>ck_state := s1, ck_size := z1, ck_length := ck_need s1 z1\<rparr>" p1])
          (simp_all add: ck_data_def)
    next
      case (Ck_done z1 p1)
      then show ?thesis
        using L D fin assms(2) Inr unfolding ngx_http_parse_chunked_def e by (simp add: ck_loop_ok_def)
    next
      case (Ck_invalid z1)
      then show ?thesis
        using L D bad Inr unfolding ngx_http_parse_chunked_def e by (simp add: ck_loop_ok_def)
    qed
  qed
qed

fun out_data :: "body_out list \<Rightarrow> bytes" where
  "out_data [] = []"
| "out_data (Body_data d # out) = out_data out @ d"
| "out_data (Body_last # out) = out_data out"

definition ck_buf_ok :: "body_conf \<Rightarrow> body \<Rightarrow> bytes \<Rightarrow> nat \<Rightarrow> bytes \<times> ck_end
    \<Rightarrow> ((http_status \<times> body) + (body \<times> nat)) option \<Rightarrow> bool" where
  "ck_buf_ok conf bd buf pos de res =
     (case de of
        (d, Ck_bad) \<Rightarrow> (\<exists>bd'. res = Some (Inl (NGX_HTTP_BAD_REQUEST, bd')))
      | (d, Ck_more st sz) \<Rightarrow>
          if NGX_MAX_OFF_T_VALUE - 5 < sz then (\<exists>bd'. res = Some (Inl (NGX_HTTP_BAD_REQUEST, bd')))
          else (\<exists>bd'. res = Some (Inr (bd', length buf)) \<and> out_data (bd_out bd') = out_data (bd_out bd) @ d \<and>
            ck_state (bd_chunked bd') = st \<and> ck_size (bd_chunked bd') = sz \<and>
            bd_content_length_n bd' = bd_content_length_n bd + int (length d) \<and>
            bd_rest bd' = max (ck_need_int st sz) (large_client_header_buffers_size conf) \<and>
            bd_avail bd \<le> bd_avail bd' + (length buf - pos))
      | (d, Ck_end rest) \<Rightarrow> (\<exists>bd' out. res = Some (Inr (bd', length buf - length rest)) \<and>
            bd_out bd' = Body_last # out \<and> out_data out = out_data (bd_out bd) @ d \<and>
            ck_state (bd_chunked bd') = sw_chunk_start \<and> bd_rest bd' = 0 \<and>
            bd_content_length_n bd' = bd_content_length_n bd + int (length d)))"

lemma ck_buf_ok_step:
  assumes "ck_buf_ok conf bd1 buf q (dechunk sw_chunk_data (sz - int n) (drop q buf)) res"
    and "dechunk st z (drop pos buf) = dechunk sw_chunk_data sz (drop p buf)"
    and "q = p + n" "q \<le> length buf" "int n \<le> sz" "x = take n (drop p buf)" "pos < q"
    and "out_data (bd_out bd1) = out_data (bd_out bd) @ x"
    "bd_content_length_n bd1 = bd_content_length_n bd + int (length x)" "bd_avail bd \<le> Suc (bd_avail bd1)"
  shows "ck_buf_ok conf bd buf pos (dechunk st z (drop pos buf)) res"
proof -
  obtain d e where de: "dechunk sw_chunk_data (sz - int n) (drop q buf) = (d, e)" by fastforce
  have "dechunk sw_chunk_data sz (drop p buf) = (x @ d, e)"
    using dechunk_data [of n "drop p buf" sz] assms(3-6) de by (simp add: add.commute)
  moreover have "bd_avail bd1 \<le> a + (length buf - q) \<Longrightarrow> bd_avail bd \<le> a + (length buf - pos)" for a
    using assms(4,7,10) by linarith
  ultimately show ?thesis
    using assms(1,2,8,9) de unfolding ck_buf_ok_def by (cases e) auto
qed

lemma ck_take_fields [simp]:
  "bd_chunked (ck_take bd x) = (bd_chunked bd)\<lparr>ck_size := ck_size (bd_chunked bd) - int (length x)\<rparr>"
  "bd_content_length_n (ck_take bd x) = bd_content_length_n bd + int (length x)"
  "bd_avail (ck_take bd x) = bd_avail bd - 1" "bd_out (ck_take bd x) = Body_data x # bd_out bd"
  by (simp_all add: ck_take_def)

lemma ck_buf_loop_ok:
  assumes "client_max_body_size conf = 0" "ck_wf (ck_state (bd_chunked bd)) (ck_size (bd_chunked bd))"
    "pos \<le> length buf" "length buf - pos < bd_avail bd" "b \<longrightarrow> (\<exists>x out. bd_out bd = Body_data x # out)"
  shows "ck_buf_ok conf bd buf pos (dechunk (ck_state (bd_chunked bd)) (ck_size (bd_chunked bd)) (drop pos buf))
    (ck_buf_loop conf bd buf pos b)"
  using assms(2-)
proof (induction "length buf - pos" arbitrary: bd pos b rule: less_induct)
  case less
  from less.prems(1,2) show ?case
  proof (cases rule: ck_call_cases)
    case (ok ctx' p)
    let ?bd = "bd\<lparr>bd_chunked := ctx'\<rparr>" and ?sz = "ck_size ctx'"
    let ?res = "ck_buf_loop conf bd buf pos b"
    have sz: "nat ?sz > 0" "int (nat ?sz) = ?sz" using ok(3) by auto
    have small: "\<not> ck_too_large conf ?bd" using assms(1) by (simp add: ck_too_large_def)
    have av: "0 < bd_avail bd" using less.prems by simp
    consider (move) "b" "?sz \<le> 128" "?sz \<le> int (length buf - p)"
      | (part) "\<not> (b \<and> ?sz \<le> 128 \<and> ?sz \<le> int (length buf - p))" "?sz < int (length buf - p)"
      | (all) "\<not> (b \<and> ?sz \<le> 128 \<and> ?sz \<le> int (length buf - p))" "\<not> ?sz < int (length buf - p)"
      by blast
    then show ?thesis
    proof cases
      case move
      let ?q = "p + nat ?sz" and ?x = "slice buf p (p + nat ?sz)"
      let ?bd1 = "ck_move ?bd ?x"
      have r: "?res = ck_buf_loop conf ?bd1 buf ?q True"
        using ok(1) move small by (auto simp: ck_buf_loop.simps [of conf bd] Let_def)
      have q: "?q \<le> length buf" "pos < ?q" "length buf - ?q < length buf - pos" using move sz ok by auto
      obtain y out where o: "bd_out bd = Body_data y # out" using move less.prems(4) by auto
      have x: "?x = take (nat ?sz) (drop p buf)" "length ?x = nat ?sz" using q by (simp_all add: slice_def)
      have "ck_buf_ok conf ?bd1 buf ?q (dechunk sw_chunk_data (?sz - int (nat ?sz)) (drop ?q buf)) ?res"
        using less.hyps [OF q(3), of ?bd1 True] q o less.prems(3) ok(2,4) sz unfolding r
        by (simp add: ck_move_def ck_wf_def)
      then show ?thesis
        by (rule ck_buf_ok_step [OF _ ok(7), where x = ?x and n = "nat ?sz"]) (use q sz x o in \<open>simp_all add: ck_move_def\<close>)
    next
      case part
      let ?q = "p + nat ?sz" and ?x = "slice buf p (p + nat ?sz)"
      let ?bd1 = "ck_take ?bd ?x"
      have r: "?res = ck_buf_loop conf ?bd1 buf ?q True"
        using ok(1) part small av by (auto simp: ck_buf_loop.simps [of conf bd] Let_def)
      have q: "?q \<le> length buf" "pos < ?q" "length buf - ?q < length buf - pos" using part sz ok by auto
      have a: "length buf - ?q < bd_avail bd - 1" using q(3) less.prems(3) by linarith
      have x: "?x = take (nat ?sz) (drop p buf)" "length ?x = nat ?sz" using q by (simp_all add: slice_def)
      have "ck_buf_ok conf ?bd1 buf ?q (dechunk sw_chunk_data (?sz - int (nat ?sz)) (drop ?q buf)) ?res"
        using less.hyps [OF q(3), of ?bd1 True] q a ok(2,4) sz x(2) unfolding r
        by (simp add: ck_wf_def)
      then show ?thesis
        by (rule ck_buf_ok_step [OF _ ok(7), where x = ?x and n = "nat ?sz"]) (use q sz x av in simp_all)
    next
      case all
      let ?x = "drop p buf" and ?n = "length buf - p"
      let ?bd1 = "ck_take ?bd ?x"
      have r: "?res = ck_buf_loop conf ?bd1 buf (length buf) True"
        using ok(1) all small av by (auto simp: ck_buf_loop.simps [of conf bd] Let_def)
      have q: "length buf - length buf < length buf - pos" "pos < length buf" using ok by auto
      have a: "0 < bd_avail bd - 1" using q(2) less.prems(3) by linarith
      have "ck_buf_ok conf ?bd1 buf (length buf) (dechunk sw_chunk_data (?sz - int ?n) (drop (length buf) buf)) ?res"
        using less.hyps [OF q(1), of ?bd1 True] a ok(2,4) all unfolding r
        by (simp add: ck_wf_def)
      then show ?thesis
        by (rule ck_buf_ok_step [OF _ ok(7), where x = ?x and n = ?n]) (use q ok all av in simp_all)
    qed
  next
    case (fin ctx' p)
    then show ?thesis using less.prems(3)
      by (simp add: ck_buf_loop.simps [of conf bd] ck_buf_ok_def Let_def)
  next
    case (again ctx')
    then show ?thesis by (simp add: ck_buf_loop.simps [of conf bd] ck_buf_ok_def Let_def)
  next
    case (huge ctx' sz p)
    then show ?thesis by (simp add: ck_buf_loop.simps [of conf bd] ck_buf_ok_def Let_def)
  next
    case (bad ctx' p)
    then show ?thesis by (simp add: ck_buf_loop.simps [of conf bd] ck_buf_ok_def Let_def)
  qed
qed

lemma dechunk_append:
  "dechunk st sz (xs @ ys) =
     (case dechunk st sz xs of
        (d, Ck_more st' sz') \<Rightarrow> (case dechunk st' sz' ys of (d', e) \<Rightarrow> (d @ d', e))
      | (d, Ck_end r) \<Rightarrow> (d, Ck_end (r @ ys))
      | (d, Ck_bad) \<Rightarrow> (d, Ck_bad))"
proof (induction st sz xs rule: dechunk.induct)
  case (1 st sz)
  then show ?case by (simp add: dechunk_entered split: prod.split)
next
  case (2 st sz c cs)
  show ?case
  proof (cases "ck_entered st sz = sw_chunk_data")
    case True
    then show ?thesis using 2(1) by (auto split: prod.split ck_end.split)
  next
    case False
    then show ?thesis using 2(2) [OF False] by (auto split: action.split prod.split ck_exit.split)
  qed
qed

lemma dechunk_more_wf:
  "ck_wf st sz \<Longrightarrow> dechunk st sz xs = (d, Ck_more st' sz') \<Longrightarrow> ck_wf st' sz'"
proof (induction st sz xs arbitrary: d rule: dechunk.induct)
  case (1 st sz)
  then show ?case using ck_wf_entered [of st sz] by auto
next
  case (2 st sz c cs)
  have wf: "ck_wf (ck_entered st sz) sz" "ck_entered st sz = sw_chunk_data \<longrightarrow> sz \<noteq> 0"
    using ck_wf_entered [OF 2(3)] by auto
  show ?case
  proof (cases "ck_entered st sz = sw_chunk_data")
    case True
    then have "ck_wf sw_chunk_data (sz - 1)" using wf by (simp add: ck_wf_def)
    then show ?thesis using 2(1) [OF True] 2(4) True by (auto split: prod.splits)
  next
    case False
    show ?thesis
    proof (cases "ck_step [] 0 (ck_entered st sz, sz) c")
      case (Next s)
      obtain s1 z1 where s: "s = (s1, z1)" by (cases s)
      have "ck_wf s1 z1" using ck_step_wf [OF wf(1)] Next s by blast
      then show ?thesis using 2(2) [OF False Next s [symmetric]] 2(4) False Next s by simp
    next
      case (Exit x)
      then show ?thesis using 2(4) False by (simp split: ck_exit.splits)
    qed
  qed
qed

lemma dechunk_more_entered:
  "dechunk st sz xs = (d, Ck_more st' sz') \<Longrightarrow> ck_entered st' sz' = st'"
proof (induction st sz xs arbitrary: d rule: dechunk.induct)
  case (1 st sz)
  then show ?case by (auto simp: ck_entered_def split: if_splits)
next
  case (2 st sz c cs)
  show ?case
  proof (cases "ck_entered st sz = sw_chunk_data")
    case True
    then show ?thesis using 2(1) [OF True] 2(3) by (auto split: prod.splits)
  next
    case False
    then show ?thesis using 2(2) [OF False] 2(3) by (auto split: action.splits ck_exit.splits)
  qed
qed

lemma ck_huge_bad:
  assumes "ck_wf st sz" "NGX_MAX_OFF_T_VALUE - 5 < sz"
  shows "dechunk st sz (c # cs) = ([], Ck_bad)"
proof -
  have st: "st = sw_chunk_size" using assms max_off_t_pos(4) by (fastforce simp: ck_wf_def)
  have "NGX_MAX_OFF_T_VALUE div 16 < sz" using assms(2) max_off_t_pos(4) by linarith
  then show ?thesis by (simp add: st ck_entered_def ck_chunk_size_def)
qed

lemma ck_need_step:
  assumes "ck_wf st sz" "st \<noteq> sw_chunk_data" "ck_step buf p (st, sz) c = Next (st', sz')"
  shows "ck_need_int st sz \<le> 1 + ck_need_int st' sz'"
proof (cases "st = sw_chunk_size")
  case True
  have "0 \<le> sz" using assms(1) by (simp add: ck_wf_def)
  then show ?thesis
    using assms True ck_size_no_wrap [of sz] ck_hex_range [of c]
    by (auto simp: ck_need_int_def ck_chunk_size_def split: if_splits option.splits)
next
  case False
  then show ?thesis
    using assms ck_hex_range [of c]
    by (cases st) (auto simp: ck_need_int_def ck_wf_def ck_chunk_start_def ck_line_def ck_lf_def
        split: if_splits option.splits)
qed

lemma ck_need_exit:
  "ck_step buf p (st, sz) c = Exit (Ck_done z q) \<Longrightarrow> ck_need_int st sz = 1"
  by (cases st) (auto simp: ck_need_int_def ck_chunk_start_def ck_chunk_size_def ck_line_def ck_lf_def
      split: if_splits option.splits)

lemma ck_need_le:
  "ck_wf st sz \<Longrightarrow> dechunk st sz xs = (d, Ck_end r) \<Longrightarrow>
   ck_need_int (ck_entered st sz) sz + int (length r) \<le> int (length xs)"
proof (induction st sz xs arbitrary: d rule: dechunk.induct)
  case (2 st sz c cs)
  have wf: "ck_wf (ck_entered st sz) sz" "ck_entered st sz = sw_chunk_data \<longrightarrow> sz \<noteq> 0"
    using ck_wf_entered [OF 2(3)] by auto
  show ?case
  proof (cases "ck_entered st sz = sw_chunk_data")
    case True
    then have "ck_wf sw_chunk_data (sz - 1)" using wf by (simp add: ck_wf_def)
    moreover have "ck_need_int (ck_entered sw_chunk_data (sz - 1)) (sz - 1) = sz + 3"
      by (simp add: ck_entered_def ck_need_int_def)
    ultimately show ?thesis
      using 2(1) [OF True] 2(4) True by (auto simp: ck_need_int_def split: prod.splits)
  next
    case False
    show ?thesis
    proof (cases "ck_step [] 0 (ck_entered st sz, sz) c")
      case (Next s)
      obtain s1 z1 where s: "s = (s1, z1)" by (cases s)
      have w: "ck_wf s1 z1 \<and> (s1 = sw_chunk_data \<longrightarrow> z1 \<noteq> 0)" using ck_step_wf [OF wf(1)] Next s by blast
      then have "ck_entered s1 z1 = s1" by (simp add: ck_entered_id)
      then show ?thesis
        using 2(2) [OF False Next s [symmetric]] 2(4) False Next s w ck_need_step [OF wf(1) False, of "[]" 0 c s1 z1] by simp
    next
      case (Exit x)
      then show ?thesis
        using 2(4) False ck_need_exit [of "[]" 0 "ck_entered st sz" sz c] by (cases x) auto
    qed
  qed
qed simp

subsection \<open>Encoding a body\<close>

definition hex_digit_of :: "nat \<Rightarrow> byte" where
  "hex_digit_of n = (if n < 10 then word_of_nat (48 + n) else word_of_nat (87 + n))"

fun hex_digits :: "nat \<Rightarrow> bytes" where
  "hex_digits n = (if n < 16 then [hex_digit_of n] else hex_digits (n div 16) @ [hex_digit_of (n mod 16)])"

declare hex_digits.simps [simp del]

definition encode_chunk :: "bytes \<Rightarrow> bytes" where
  "encode_chunk d = hex_digits (length d) @ [CR, LF] @ d @ [CR, LF]"

definition encode_body :: "bytes list \<Rightarrow> bytes" where
  "encode_body ds = concat (map encode_chunk ds) @ [ch CHR ''0'', CR, LF, CR, LF]"

lemma ck_hex_digit:
  assumes "n < 16"
  shows "ck_hex (hex_digit_of n) = Some (int n)"
proof -
  have "n \<in> set [0..<16]" using assms by (simp only: set_upt atLeastLessThan_iff) simp
  then show ?thesis by (auto simp: upt_conv_Cons hex_digit_of_def ck_hex_def is_dec_def)
qed

lemma ck_hex_run:
  "int n \<le> NGX_MAX_OFF_T_VALUE div 16 \<Longrightarrow>
   dechunk sw_chunk_start z (hex_digits n @ rest) = dechunk sw_chunk_size (int n) rest"
proof (induction n arbitrary: rest rule: hex_digits.induct)
  case (1 n)
  show ?case
  proof (cases "n < 16")
    case True
    then show ?thesis
      by (simp add: hex_digits.simps [of n] ck_entered_def ck_chunk_start_def ck_hex_digit)
  next
    case False
    have le: "int (n div 16) \<le> NGX_MAX_OFF_T_VALUE div 16" using 1(2) by linarith
    have "int (n div 16) * 16 + int (n mod 16) = int n"
      by (simp only: zdiv_int zmod_int of_nat_numeral div_mult_mod_eq)
    moreover have "s64 (s64 (int (n div 16) * 16) + int (n mod 16)) = int (n div 16) * 16 + int (n mod 16)"
      by (rule ck_size_no_wrap(1)) (use le in auto)
    ultimately show ?thesis
      using 1(1) [OF False le, of "hex_digit_of (n mod 16) # rest"] False le
      by (simp add: hex_digits.simps [of n] ck_entered_def ck_chunk_size_def ck_hex_digit)
  qed
qed

lemma ck_hex_cr [simp]: "ck_hex CR = None" "ck_hex LF = None" "ck_hex 48 = Some 0"
  by (simp_all add: ck_hex_def is_dec_def)

lemma dechunk_chunk:
  assumes "d \<noteq> []" "int (length d) \<le> NGX_MAX_OFF_T_VALUE div 16"
  shows "dechunk sw_chunk_start z (encode_chunk d @ rest) =
    (case dechunk sw_chunk_start 0 rest of (d', e) \<Rightarrow> (d @ d', e))"
proof -
  have "dechunk sw_chunk_start z (encode_chunk d @ rest) =
      dechunk sw_chunk_data (int (length d)) (d @ [CR, LF] @ rest)"
    using assms ck_hex_run [OF assms(2), of z "[CR, LF] @ d @ [CR, LF] @ rest"]
    by (simp add: encode_chunk_def ck_entered_def ck_chunk_size_def ck_lf_def)
  also have "\<dots> = (case dechunk sw_chunk_data 0 ([CR, LF] @ rest) of (d', e) \<Rightarrow> (d @ d', e))"
    using dechunk_data [of "length d" "d @ [CR, LF] @ rest" "int (length d)"] by simp
  also have "dechunk sw_chunk_data 0 ([CR, LF] @ rest) = dechunk sw_chunk_start 0 rest"
    by (simp add: ck_entered_def ck_line_def ck_lf_def)
  finally show ?thesis .
qed

lemma dechunk_encode:
  assumes "\<forall>d\<in>set ds. d \<noteq> [] \<and> int (length d) \<le> NGX_MAX_OFF_T_VALUE div 16"
  shows "dechunk sw_chunk_start z (encode_body ds @ rest) = (concat ds, Ck_end rest)"
  using assms
proof (induction ds arbitrary: z)
  case Nil
  then show ?case
    using max_off_t_pos(2)
    by (simp add: encode_body_def ck_entered_def ck_chunk_start_def ck_chunk_size_def ck_lf_def ck_line_def not_less)
next
  case (Cons d ds)
  have e: "encode_body (d # ds) @ rest = encode_chunk d @ (encode_body ds @ rest)"
    by (simp add: encode_body_def)
  show ?case
    unfolding e using Cons dechunk_chunk [of d z "encode_body ds @ rest"] by simp
qed

lemma ck_chain_ok:
  assumes "client_max_body_size conf = 0"
    and "ck_wf (ck_state (bd_chunked bd)) (ck_size (bd_chunked bd))"
    and "length (concat pieces) < bd_avail bd" "\<forall>x\<in>set pieces. x \<noteq> []"
    and "dechunk (ck_state (bd_chunked bd)) (ck_size (bd_chunked bd)) (concat pieces) = (d, Ck_end [])"
  shows "\<exists>bd' out. ck_chain_loop conf bd pieces = Some (Inr bd') \<and> bd_out bd' = Body_last # out \<and>
    out_data out = out_data (bd_out bd) @ d \<and> bd_rest bd' = 0 \<and>
    bd_content_length_n bd' = bd_content_length_n bd + int (length d)"
  using assms(2-)
proof (induction pieces arbitrary: bd d)
  case (Cons x xs)
  let ?st = "ck_state (bd_chunked bd)" and ?sz = "ck_size (bd_chunked bd)"
  obtain dx e where de: "dechunk ?st ?sz x = (dx, e)" by fastforce
  have ok: "ck_buf_ok conf bd x 0 (dx, e) (ck_buf_loop conf bd x 0 False)"
    using ck_buf_loop_ok [OF assms(1) Cons.prems(1), of 0 x False] Cons.prems(2) de by simp
  have app: "dechunk ?st ?sz (x @ concat xs) = (d, Ck_end [])" using Cons.prems(4) by simp
  show ?case
  proof (cases e)
    case (Ck_end r)
    then have "r @ concat xs = []" "d = dx" using app de by (simp_all add: dechunk_append)
    then have "r = []" "xs = []" using Cons.prems(3) by (simp, cases xs) auto
    then show ?thesis using ok Ck_end \<open>d = dx\<close> by (auto simp: ck_buf_ok_def)
  next
    case (Ck_more st sz)
    obtain d2 where d2: "dechunk st sz (concat xs) = (d2, Ck_end [])" "d = dx @ d2"
      using app de Ck_more by (auto simp: dechunk_append split: prod.splits)
    have wf: "ck_wf st sz" using dechunk_more_wf [OF Cons.prems(1)] de Ck_more by simp
    have "concat xs \<noteq> []" using d2(1) by (metis dechunk.simps(1) ck_end.distinct(1) prod.inject)
    then have "\<not> NGX_MAX_OFF_T_VALUE - 5 < sz"
      using ck_huge_bad [OF wf] d2(1) by (cases "concat xs") fastforce+
    then obtain bd1 where b1: "ck_buf_loop conf bd x 0 False = Some (Inr (bd1, length x))"
      "out_data (bd_out bd1) = out_data (bd_out bd) @ dx" "ck_state (bd_chunked bd1) = st"
      "ck_size (bd_chunked bd1) = sz" "bd_content_length_n bd1 = bd_content_length_n bd + int (length dx)"
      "bd_avail bd \<le> bd_avail bd1 + length x"
      using ok Ck_more by (auto simp: ck_buf_ok_def)
    show ?thesis
      using Cons.IH [of bd1 d2] b1 wf d2 Cons.prems(2,3) by auto
  next
    case Ck_bad
    then show ?thesis using app de by (simp add: dechunk_append)
  qed
qed simp

subsection \<open>Properties\<close>

text \<open>C3. A chunk-encoded body comes out of the filter as it went in, whatever the chunks and however the
  network cuts the encoded bytes into buffers: when no body size limit is set and allocation
  does not fail, the filter returns, the data it passes on is the concatenation of the chunks,
  it ends with the last-buffer marker, \<open>rb->rest\<close> is zero, and \<open>content_length_n\<close> is the body's
  length.\<close>

theorem chunked_filter_roundtrip:
  assumes "concat pieces = encode_body ds" "\<forall>x\<in>set pieces. x \<noteq> []"
    and "\<forall>d\<in>set ds. d \<noteq> [] \<and> int (length d) \<le> NGX_MAX_OFF_T_VALUE div 16"
    and "client_max_body_size conf = 0" "bd_rest bd = -1" "length (encode_body ds) + 1 < bd_avail bd"
  shows "\<exists>bd' out. ngx_http_request_body_chunked_filter conf bd pieces = Some (Inr bd') \<and>
    bd_out bd' = Body_last # out \<and> out_data out = concat ds \<and> bd_rest bd' = 0 \<and>
    bd_content_length_n bd' = int (length (concat ds))"
proof -
  let ?bd = "bd\<lparr>bd_chunked := \<lparr>ck_state = sw_chunk_start, ck_size = 0, ck_length = 0\<rparr>,
    bd_avail := bd_avail bd - 1, bd_content_length_n := 0,
    bd_rest := large_client_header_buffers_size conf, bd_out := []\<rparr>"
  have "\<exists>bd' out. ck_chain_loop conf ?bd pieces = Some (Inr bd') \<and> bd_out bd' = Body_last # out \<and>
    out_data out = out_data (bd_out ?bd) @ concat ds \<and> bd_rest bd' = 0 \<and>
    bd_content_length_n bd' = bd_content_length_n ?bd + int (length (concat ds))"
    by (rule ck_chain_ok) (use assms dechunk_encode [OF assms(3), of 0 "[]"] in \<open>simp_all add: ck_wf_def\<close>)
  then show ?thesis
    using assms(5,6) by (simp add: ngx_http_request_body_chunked_filter_def)
qed

theorem chunked_filter_roundtrip_witness:
  "\<exists>bd' out. ngx_http_request_body_chunked_filter
      \<lparr>client_max_body_size = 0, large_client_header_buffers_size = 8192\<rparr>
      \<lparr>bd_rest = -1, bd_chunked = \<lparr>ck_state = sw_chunk_start, ck_size = 0, ck_length = 0\<rparr>,
        bd_content_length_n = 0, bd_lingering_close = False, bd_avail = 100, bd_out = []\<rparr>
      [str ''2'' @ [CR], [LF] @ str ''a'', str ''b'' @ [CR, LF] @ str ''0'' @ [CR, LF], [CR, LF]] = Some (Inr bd') \<and>
    bd_out bd' = Body_last # out \<and> out_data out = str ''ab'' \<and> bd_rest bd' = 0 \<and> bd_content_length_n bd' = 2"
  using chunked_filter_roundtrip [of "[str ''2'' @ [CR], [LF] @ str ''a'', str ''b'' @ [CR, LF] @ str ''0'' @ [CR, LF], [CR, LF]]"
      "[str ''ab'']" "\<lparr>client_max_body_size = 0, large_client_header_buffers_size = 8192\<rparr>"
      "\<lparr>bd_rest = -1, bd_chunked = \<lparr>ck_state = sw_chunk_start, ck_size = 0, ck_length = 0\<rparr>,
        bd_content_length_n = 0, bd_lingering_close = False, bd_avail = 100, bd_out = []\<rparr>"]
  by (simp add: encode_body_def encode_chunk_def hex_digits.simps hex_digit_of_def NGX_MAX_OFF_T_VALUE_def)

text \<open>C27. The filter on one input buffer, in any well-formed state, refines the byte machine: it always
  returns; the bytes it appends to the output are those the byte machine emits; it answers 400
  exactly when the machine rejects (or holds a size above the limit at the end of the buffer);
  at the end of the body it stops behind its last byte; otherwise it consumes the whole buffer, saves
  the machine's state and asks for \<open>ctx->length\<close> bytes more.\<close>

theorem chunked_filter_refines:
  assumes "client_max_body_size conf = 0" "ck_wf (ck_state (bd_chunked bd)) (ck_size (bd_chunked bd))"
    and "length buf < bd_avail bd"
  shows "ck_buf_ok conf bd buf 0 (dechunk (ck_state (bd_chunked bd)) (ck_size (bd_chunked bd)) buf)
    (ck_buf_loop conf bd buf 0 False)"
  using ck_buf_loop_ok [OF assms(1,2), of 0 buf False] assms(3) by simp

theorem chunked_filter_refines_witness:
  "ck_buf_ok \<lparr>client_max_body_size = 0, large_client_header_buffers_size = 8192\<rparr>
     \<lparr>bd_rest = 8192, bd_chunked = \<lparr>ck_state = sw_chunk_data, ck_size = 3, ck_length = 7\<rparr>,
        bd_content_length_n = 0, bd_lingering_close = False, bd_avail = 100, bd_out = []\<rparr> (str ''ab'') 0
     (dechunk sw_chunk_data 3 (str ''ab''))
     (ck_buf_loop \<lparr>client_max_body_size = 0, large_client_header_buffers_size = 8192\<rparr>
       \<lparr>bd_rest = 8192, bd_chunked = \<lparr>ck_state = sw_chunk_data, ck_size = 3, ck_length = 7\<rparr>,
        bd_content_length_n = 0, bd_lingering_close = False, bd_avail = 100, bd_out = []\<rparr> (str ''ab'') 0 False)"
  using chunked_filter_refines [of "\<lparr>client_max_body_size = 0, large_client_header_buffers_size = 8192\<rparr>"
      "\<lparr>bd_rest = 8192, bd_chunked = \<lparr>ck_state = sw_chunk_data, ck_size = 3, ck_length = 7\<rparr>,
        bd_content_length_n = 0, bd_lingering_close = False, bd_avail = 100, bd_out = []\<rparr>" "str ''ab''"]
  by (simp add: ck_wf_def NGX_MAX_OFF_T_VALUE_def)

text \<open>C28. The chunk size never overflows and \<open>ctx->length\<close> is computed without wrap-around, for any input:
  from a well-formed context the parser leaves one, and when it asks for more, \<open>ctx->length\<close> is
  the unwrapped value and no more than the bytes that any valid rest of the body still has, so
  that waiting for it never waits too long.\<close>

theorem chunked_size_bounds:
  assumes "ck_wf (ck_state ctx) (ck_size ctx)" "pos \<le> length buf"
    and "ngx_http_parse_chunked ctx buf pos = (rc, ctx', p)" "rc \<noteq> NGX_ERROR"
  shows "ck_wf (ck_state ctx') (ck_size ctx') \<and> pos \<le> p \<and> p \<le> length buf \<and>
    (rc = NGX_AGAIN \<longrightarrow> p = length buf \<and> ck_length ctx' = ck_need_int (ck_state ctx') (ck_size ctx') \<and>
       ck_length ctx' \<le> NGX_MAX_OFF_T_VALUE \<and>
       (\<forall>rest d. dechunk (ck_state ctx') (ck_size ctx') rest = (d, Ck_end []) \<longrightarrow> ck_length ctx' \<le> int (length rest)))"
  using assms(1,2)
proof (cases rule: ck_call_cases)
  case (again c)
  have "ck_entered (ck_state ctx') (ck_size ctx') = ck_state ctx'"
    using again(1,5) assms(3) dechunk_more_entered by auto
  moreover have "ck_need_int (ck_state c) (ck_size c) \<le> NGX_MAX_OFF_T_VALUE"
    using again(2,3) max_off_t_pos(3) by (cases "ck_state c") (auto simp: ck_need_int_def ck_wf_def)
  ultimately show ?thesis
    using again assms ck_need_le [of "ck_state ctx'" "ck_size ctx'"] by fastforce
qed (use assms(3,4) in auto)

theorem chunked_size_bounds_witness:
  "ngx_http_parse_chunked \<lparr>ck_state = sw_chunk_start, ck_size = 0, ck_length = 0\<rparr> (str ''1f'') 0 =
     (NGX_AGAIN, \<lparr>ck_state = sw_chunk_size, ck_size = 31, ck_length = 36\<rparr>, 2) \<and>
   ck_wf sw_chunk_size 31"
proof -
  have p: "ngx_http_parse_chunked \<lparr>ck_state = sw_chunk_start, ck_size = 0, ck_length = 0\<rparr> (str ''1f'') 0 =
     (NGX_AGAIN, \<lparr>ck_state = sw_chunk_size, ck_size = 31, ck_length = 36\<rparr>, 2)"
    by (simp add: ngx_http_parse_chunked_def ck_enter_def ck_chunk_start_def ck_chunk_size_def ck_hex_def
        is_dec_def ck_data_def NGX_MAX_OFF_T_VALUE_def s64_def)
  show ?thesis
    using chunked_size_bounds [OF _ _ p] p by (simp add: ck_wf_def NGX_MAX_OFF_T_VALUE_def)
qed

end
