(* ===== verification/Ngx_Complex_Uri.thy ===== *)
theory Ngx_Complex_Uri
  imports Ngx_Parser "HOL-Library.Sublist"
begin

unbundle bit_operations_syntax

section \<open>Normalising a URI\<close>

text \<open>
  \<open>ngx_http_parse_complex_uri\<close> of \<open>src/http/ngx_http_parse.c\<close>: percent decoding, merging of slashes
  and removal of dot segments in one pass. The output buffer \<open>r->uri.data .. u\<close> is the list of
  its bytes with the newest first, so that \<open>u--\<close> drops the head. The input still ahead is the
  list that begins with \<open>ch\<close>; a decoded byte replaces that head and is looked at again in the
  state the percent sign was met in. \<open>quoted_state\<close> and \<open>decoded\<close> have a meaning only inside an
  escape and are arguments of its two states. The Windows branches are not built.
\<close>

subsection \<open>The code\<close>

datatype cu_path = cu_usual | cu_slash | cu_dot | cu_dot_dot

datatype cu_state = Cu_path cu_path | Cu_quoted cu_path | Cu_quoted_second cu_path byte

record cu =
  cu_st :: cu_state
  cu_out :: bytes
  cu_uri_ext :: "nat option"
  cu_plus :: bool
  cu_quoted_uri :: bool

text \<open>What a pass of the loop does next: read on, look again at a replaced byte, or leave at
  \<open>args\<close>, at \<open>done\<close> or with an error.\<close>

datatype cu_action = Cu_read cu | Cu_again cu byte | Cu_args cu | Cu_done cu | Cu_invalid

abbreviation cu_put :: "cu_path \<Rightarrow> byte \<Rightarrow> cu \<Rightarrow> cu" where
  "cu_put st c s \<equiv> s\<lparr>cu_st := Cu_path st, cu_out := c # cu_out s\<rparr>"

text \<open>\<open>u -= 4\<close> and the search back to the slash; \<open>None\<close> is \<open>u < r->uri.data\<close>.\<close>

fun cu_rewind :: "bytes \<Rightarrow> bytes option" where
  "cu_rewind [] = None"
| "cu_rewind (c # out) = (if c = ch CHR ''/'' then Some (c # out) else cu_rewind out)"

definition cu_up :: "cu \<Rightarrow> cu option" where
  "cu_up s = map_option (\<lambda>out. s\<lparr>cu_out := out\<rparr>) (cu_rewind (drop 3 (cu_out s)))"

definition cu_step_usual :: "cu \<Rightarrow> byte \<Rightarrow> cu_action" where
  "cu_step_usual s c =
     (if usual c then Cu_read (cu_put cu_usual c s)
      else if c = ch CHR ''/'' then Cu_read (cu_put cu_slash c (s\<lparr>cu_uri_ext := None\<rparr>))
      else if c = ch CHR ''%'' then Cu_read (s\<lparr>cu_st := Cu_quoted cu_usual\<rparr>)
      else if c = ch CHR ''?'' then Cu_args s
      else if c = ch CHR ''#'' then Cu_done s
      else if c = ch CHR ''.'' then
        Cu_read (cu_put cu_usual c (s\<lparr>cu_uri_ext := Some (length (cu_out s) + 1)\<rparr>))
      else if c = ch CHR ''+'' then Cu_read (cu_put cu_usual c (s\<lparr>cu_plus := True\<rparr>))
      else Cu_read (cu_put cu_usual c s))"

definition cu_step_slash :: "bool \<Rightarrow> cu \<Rightarrow> byte \<Rightarrow> cu_action" where
  "cu_step_slash merge_slashes s c =
     (if usual c then Cu_read (cu_put cu_usual c s)
      else if c = ch CHR ''/'' then
        (if \<not> merge_slashes then Cu_read (cu_put cu_slash c s) else Cu_read s)
      else if c = ch CHR ''.'' then Cu_read (cu_put cu_dot c s)
      else if c = ch CHR ''%'' then Cu_read (s\<lparr>cu_st := Cu_quoted cu_slash\<rparr>)
      else if c = ch CHR ''?'' then Cu_args s
      else if c = ch CHR ''#'' then Cu_done s
      else if c = ch CHR ''+'' then Cu_read (cu_put cu_usual c (s\<lparr>cu_plus := True\<rparr>))
      else Cu_read (cu_put cu_usual c s))"

definition cu_step_dot :: "cu \<Rightarrow> byte \<Rightarrow> cu_action" where
  "cu_step_dot s c =
     (if usual c then Cu_read (cu_put cu_usual c s)
      else if c = ch CHR ''/'' then Cu_read (s\<lparr>cu_st := Cu_path cu_slash, cu_out := tl (cu_out s)\<rparr>)
      else if c = ch CHR ''.'' then Cu_read (cu_put cu_dot_dot c s)
      else if c = ch CHR ''%'' then Cu_read (s\<lparr>cu_st := Cu_quoted cu_dot\<rparr>)
      else if c = ch CHR ''?'' then Cu_args (s\<lparr>cu_out := tl (cu_out s)\<rparr>)
      else if c = ch CHR ''#'' then Cu_done (s\<lparr>cu_out := tl (cu_out s)\<rparr>)
      else if c = ch CHR ''+'' then Cu_read (cu_put cu_usual c (s\<lparr>cu_plus := True\<rparr>))
      else Cu_read (cu_put cu_usual c s))"

definition cu_step_dot_dot :: "cu \<Rightarrow> byte \<Rightarrow> cu_action" where
  "cu_step_dot_dot s c =
     (if usual c then Cu_read (cu_put cu_usual c s)
      else if c = ch CHR ''/'' \<or> c = ch CHR ''?'' \<or> c = ch CHR ''#'' then
        (case cu_up s of
           None \<Rightarrow> Cu_invalid
         | Some s' \<Rightarrow>
             if c = ch CHR ''?'' then Cu_args s'
             else if c = ch CHR ''#'' then Cu_done s'
             else Cu_read (s'\<lparr>cu_st := Cu_path cu_slash\<rparr>))
      else if c = ch CHR ''%'' then Cu_read (s\<lparr>cu_st := Cu_quoted cu_dot_dot\<rparr>)
      else if c = ch CHR ''+'' then Cu_read (cu_put cu_usual c (s\<lparr>cu_plus := True\<rparr>))
      else Cu_read (cu_put cu_usual c s))"

definition cu_step_quoted :: "cu_path \<Rightarrow> cu \<Rightarrow> byte \<Rightarrow> cu_action" where
  "cu_step_quoted q s c =
     (let s = s\<lparr>cu_quoted_uri := True\<rparr>; c' = c OR 0x20 in
      if is_dec c then Cu_read (s\<lparr>cu_st := Cu_quoted_second q (c - 48)\<rparr>)
      else if c' \<ge> ch CHR ''a'' \<and> c' \<le> ch CHR ''f'' then
        Cu_read (s\<lparr>cu_st := Cu_quoted_second q (c' - 97 + 10)\<rparr>)
      else Cu_invalid)"

definition cu_step_quoted_second :: "cu_path \<Rightarrow> byte \<Rightarrow> cu \<Rightarrow> byte \<Rightarrow> cu_action" where
  "cu_step_quoted_second q decoded s c =
     (let c' = c OR 0x20 in
      if is_dec c then
        (let d = push_bit 4 decoded + (c - 48) in
         if d = ch CHR ''%'' \<or> d = ch CHR ''#'' then Cu_read (cu_put cu_usual d s)
         else if d = 0 then Cu_invalid
         else Cu_again (s\<lparr>cu_st := Cu_path q\<rparr>) d)
      else if c' \<ge> ch CHR ''a'' \<and> c' \<le> ch CHR ''f'' then
        (let d = push_bit 4 decoded + (c' - 97) + 10 in
         if d = ch CHR ''?'' then Cu_read (cu_put cu_usual d s)
         else if d = ch CHR ''+'' then Cu_again (s\<lparr>cu_plus := True, cu_st := Cu_path q\<rparr>) d
         else Cu_again (s\<lparr>cu_st := Cu_path q\<rparr>) d)
      else Cu_invalid)"

definition cu_step :: "bool \<Rightarrow> cu \<Rightarrow> byte \<Rightarrow> cu_action" where
  "cu_step merge_slashes s c =
     (case cu_st s of
        Cu_path cu_usual \<Rightarrow> cu_step_usual s c
      | Cu_path cu_slash \<Rightarrow> cu_step_slash merge_slashes s c
      | Cu_path cu_dot \<Rightarrow> cu_step_dot s c
      | Cu_path cu_dot_dot \<Rightarrow> cu_step_dot_dot s c
      | Cu_quoted q \<Rightarrow> cu_step_quoted q s c
      | Cu_quoted_second q d \<Rightarrow> cu_step_quoted_second q d s c)"

text \<open>The code after the loop, up to \<open>done\<close>.\<close>

definition cu_finish :: "cu \<Rightarrow> cu option" where
  "cu_finish s =
     (case cu_st s of
        Cu_path cu_dot \<Rightarrow> Some (s\<lparr>cu_out := tl (cu_out s)\<rparr>)
      | Cu_path cu_dot_dot \<Rightarrow> cu_up s
      | Cu_path _ \<Rightarrow> Some s
      | _ \<Rightarrow> None)"

lemma cu_again_measure:
  "cu_step m s c = Cu_again s' d \<Longrightarrow>
   (case cu_st s' of Cu_quoted_second _ _ \<Rightarrow> 1 | _ \<Rightarrow> 0) < (case cu_st s of Cu_quoted_second _ _ \<Rightarrow> 1 | _ \<Rightarrow> (0::nat))"
  by (auto simp: cu_step_def cu_step_usual_def cu_step_slash_def cu_step_dot_def cu_step_dot_dot_def
      cu_step_quoted_def cu_step_quoted_second_def Let_def
      split: cu_state.splits cu_path.splits if_splits option.splits)

text \<open>The loop; the result says whether it was left at \<open>args\<close>, with the bytes behind the question
  mark.\<close>

function cu_loop :: "bool \<Rightarrow> cu \<Rightarrow> bytes \<Rightarrow> (cu \<times> bytes option) option" where
  "cu_loop m s [] = map_option (\<lambda>s. (s, None)) (cu_finish s)"
| "cu_loop m s (c # rest) =
     (case cu_step m s c of
        Cu_read s' \<Rightarrow> cu_loop m s' rest
      | Cu_again s' d \<Rightarrow> cu_loop m s' (d # rest)
      | Cu_args s' \<Rightarrow> Some (s', Some rest)
      | Cu_done s' \<Rightarrow> Some (s', None)
      | Cu_invalid \<Rightarrow> None)"
  by pat_completeness auto
termination
proof (relation "measure (\<lambda>(m, s, cs). 2 * length cs + (case cu_st s of Cu_quoted_second _ _ \<Rightarrow> 1 | _ \<Rightarrow> 0))")
  fix m s c rest s' d assume "cu_step m s c = Cu_again s' d"
  then show "((m, s', d # rest), m, s, c # rest) \<in>
      measure (\<lambda>(m, s, cs). 2 * length cs + (case cu_st s of Cu_quoted_second _ _ \<Rightarrow> 1 | _ \<Rightarrow> 0))"
    using cu_again_measure [of m s c s' d] by simp
qed (auto split: cu_state.splits)

text \<open>The fields of the request the function leaves behind: \<open>r->uri\<close>, \<open>r->exten\<close>, and either
  \<open>r->args_start\<close> (an offset into the input) or, when a fragment follows, \<open>r->args\<close>; and whether
  it set \<open>r->plus_in_uri\<close> and \<open>r->quoted_uri\<close>.\<close>

record cu_result =
  res_uri :: bytes
  res_exten :: "bytes option"
  res_args_start :: "nat option"
  res_args :: "bytes option"
  res_plus :: bool
  res_quoted :: bool

definition cu_args_end :: "nat \<Rightarrow> bytes option \<Rightarrow> nat option \<times> bytes option" where
  "cu_args_end n args =
     (case args of
        None \<Rightarrow> (None, None)
      | Some rest \<Rightarrow>
          if ch CHR ''#'' \<in> set rest then (None, Some (takeWhile (\<lambda>c. c \<noteq> ch CHR ''#'') rest))
          else (Some (n - length rest), None))"

definition ngx_http_parse_complex_uri :: "bool \<Rightarrow> bool \<Rightarrow> bytes \<Rightarrow> cu_result option" where
  "ngx_http_parse_complex_uri merge_slashes empty_path_in_uri uri =
     (case cu_loop merge_slashes
        \<lparr>cu_st = Cu_path cu_usual, cu_out = (if empty_path_in_uri then [ch CHR ''/''] else []),
          cu_uri_ext = None, cu_plus = False, cu_quoted_uri = False\<rparr> uri of
        None \<Rightarrow> None
      | Some (s, args) \<Rightarrow>
          (case cu_args_end (length uri) args of (args_start, args') \<Rightarrow>
             Some \<lparr>res_uri = rev (cu_out s),
               res_exten = map_option (\<lambda>x. drop x (rev (cu_out s))) (cu_uri_ext s),
               res_args_start = args_start, res_args = args',
               res_plus = cu_plus s, res_quoted = cu_quoted_uri s\<rparr>))"

subsection \<open>Segments\<close>

text \<open>The parts of a path between its slashes.\<close>

fun segs :: "bytes \<Rightarrow> bytes list" where
  "segs [] = [[]]"
| "segs (c # cs) =
     (if c = ch CHR ''/'' then [] # segs cs
      else (case segs cs of [] \<Rightarrow> [[c]] | x # xs \<Rightarrow> (c # x) # xs))"

definition dot_segs :: "bytes set" where
  "dot_segs = {str ''.'', str ''..''}"

definition dot_free :: "bytes \<Rightarrow> bool" where
  "dot_free path \<longleftrightarrow> (\<forall>x\<in>set (segs path). x \<notin> dot_segs)"

lemma segs_not_Nil [simp]: "segs cs \<noteq> []"
  by (induction cs) (auto split: list.split)

lemma segs_Cons: "c \<noteq> ch CHR ''/'' \<Longrightarrow> segs (c # cs) = (c # hd (segs cs)) # tl (segs cs)"
  by (cases "segs cs") auto

lemma segs_append: "segs (xs @ ys) = butlast (segs xs) @ (last (segs xs) @ hd (segs ys)) # tl (segs ys)"
proof (induction xs)
  case (Cons c xs)
  show ?case
  proof (cases "c = ch CHR ''/''")
    case False
    show ?thesis
    proof (cases "tl (segs xs)")
      case Nil
      then obtain x where "segs xs = [x]" by (cases "segs xs") auto
      then show ?thesis using Cons False by (simp add: segs_Cons del: segs.simps)
    next
      case (Cons y ys')
      then obtain x where "segs xs = x # y # ys'" by (cases "segs xs") auto
      then show ?thesis using Cons.IH False by (simp add: segs_Cons del: segs.simps)
    qed
  qed (use Cons in simp)
qed simp

lemma segs_rev: "segs (rev xs) = rev (map rev (segs xs))"
proof (induction xs)
  case (Cons c xs)
  show ?case
  proof (cases "c = ch CHR ''/''")
    case True
    have "segs (rev xs @ [c]) = (butlast (segs (rev xs)) @ [last (segs (rev xs))]) @ [[]]"
      using True by (simp add: segs_append)
    also have "\<dots> = segs (rev xs) @ [[]]" by (simp only: append_butlast_last_id segs_not_Nil not_False_eq_True)
    finally show ?thesis using True Cons by simp
  next
    case False
    have "segs [c] = [[c]]" using False by simp
    moreover have "rev (map rev (segs (c # xs))) = rev (map rev (tl (segs xs))) @ [rev (hd (segs xs)) @ [c]]"
      using False by (simp add: segs_Cons del: segs.simps)
    moreover have "rev (map rev (segs xs)) = rev (map rev (tl (segs xs))) @ [rev (hd (segs xs))]"
      by (metis list.map_sel(1) list.collapse list.simps(9) rev.simps(2) segs_not_Nil)
    ultimately show ?thesis using Cons by (simp add: segs_append)
  qed
qed simp

lemma dot_free_rev: "dot_free (rev xs) \<longleftrightarrow> dot_free xs"
proof -
  have "rev x \<in> dot_segs \<longleftrightarrow> x \<in> dot_segs" for x
    by (simp add: dot_segs_def rev_swap)
  then show ?thesis by (auto simp: dot_free_def segs_rev)
qed

lemma dot_free_suffix:
  assumes "hd (segs cs) = []" "suffix cs xs" "dot_free xs"
  shows "dot_free cs"
proof -
  obtain ys where "xs = ys @ cs" using assms(2) by (auto simp: suffix_def)
  then have "set (tl (segs cs)) \<subseteq> set (segs xs)" by (auto simp: segs_append)
  moreover have "set (segs cs) = insert [] (set (tl (segs cs)))"
    using assms(1) by (metis list.collapse list.simps(15) segs_not_Nil)
  moreover have "[] \<notin> dot_segs" by (simp add: dot_segs_def)
  ultimately show ?thesis using assms(3) by (auto simp: dot_free_def)
qed

lemma cu_rewind_Some:
  "cu_rewind out = Some out' \<Longrightarrow> suffix out' out \<and> out' \<noteq> [] \<and> hd out' = ch CHR ''/'' \<and> hd (segs out') = []"
proof (induction out)
  case (Cons c out)
  then show ?case by (auto simp: suffix_ConsI split: if_splits)
qed simp

subsection \<open>The invariant of the loop\<close>

definition slashes :: bytes where
  "slashes = str ''//''"

definition cu_base :: "bool \<Rightarrow> bytes \<Rightarrow> bool" where
  "cu_base m out \<longleftrightarrow> out \<noteq> [] \<and> last out = ch CHR ''/'' \<and> (\<forall>x\<in>set (tl (segs out)). x \<notin> dot_segs) \<and>
     (m \<longrightarrow> \<not> sublist slashes out) \<and> 0 \<notin> set out"

text \<open>What each path state says of the segment being written.\<close>

fun cu_last :: "cu_path \<Rightarrow> bytes \<Rightarrow> bool" where
  "cu_last cu_usual out \<longleftrightarrow> hd (segs out) \<noteq> [] \<and> hd (segs out) \<notin> dot_segs"
| "cu_last cu_slash out \<longleftrightarrow> hd (segs out) = []"
| "cu_last cu_dot out \<longleftrightarrow> hd (segs out) = str ''.''"
| "cu_last cu_dot_dot out \<longleftrightarrow> hd (segs out) = str ''..''"

fun cu_path_of :: "cu_state \<Rightarrow> cu_path" where
  "cu_path_of (Cu_path q) = q"
| "cu_path_of (Cu_quoted q) = q"
| "cu_path_of (Cu_quoted_second q d) = q"

definition cu_inv :: "bool \<Rightarrow> cu \<Rightarrow> bool" where
  "cu_inv m s \<longleftrightarrow> cu_base m (cu_out s) \<and> cu_last (cu_path_of (cu_st s)) (cu_out s) \<and>
     (case cu_uri_ext s of None \<Rightarrow> True | Some x \<Rightarrow> cu_path_of (cu_st s) = cu_usual \<and> x \<le> length (cu_out s))"

definition cu_ok :: "bool \<Rightarrow> cu \<Rightarrow> bool" where
  "cu_ok m s \<longleftrightarrow> cu_out s \<noteq> [] \<and> last (cu_out s) = ch CHR ''/'' \<and> dot_free (cu_out s) \<and>
     (m \<longrightarrow> \<not> sublist slashes (cu_out s)) \<and> 0 \<notin> set (cu_out s) \<and>
     (case cu_uri_ext s of None \<Rightarrow> True | Some x \<Rightarrow> x \<le> length (cu_out s))"

lemma dot_free_hd: "dot_free out \<longleftrightarrow> hd (segs out) \<notin> dot_segs \<and> (\<forall>x\<in>set (tl (segs out)). x \<notin> dot_segs)"
proof -
  have "segs out = hd (segs out) # tl (segs out)" by simp
  then have "set (segs out) = insert (hd (segs out)) (set (tl (segs out)))" by (metis list.simps(15))
  then show ?thesis by (auto simp: dot_free_def)
qed

lemma sublist_slashes_Cons:
  "sublist slashes (c # out) \<longleftrightarrow> (c = ch CHR ''/'' \<and> out \<noteq> [] \<and> hd out = ch CHR ''/'') \<or> sublist slashes out"
  by (cases out) (auto simp: sublist_Cons_right slashes_def)

lemma slashes_not_Nil [simp]: "slashes \<noteq> []"
  by (simp add: slashes_def)

lemma segs_put:
  assumes "c \<noteq> 47"
  shows "hd (segs (c # out)) = c # hd (segs out)" "tl (segs (c # out)) = tl (segs out)"
  using assms by (simp_all add: segs_Cons del: segs.simps)

lemma cu_base_Cons:
  "cu_base m out \<Longrightarrow> c \<noteq> 47 \<Longrightarrow> c \<noteq> 0 \<Longrightarrow> cu_base m (c # out)"
  by (simp add: cu_base_def segs_put sublist_slashes_Cons del: segs.simps)

lemma cu_last_put:
  "cu_last q out \<Longrightarrow> c \<noteq> 47 \<Longrightarrow> (q = cu_slash \<or> q = cu_dot \<Longrightarrow> c \<noteq> 46) \<Longrightarrow> cu_last cu_usual (c # out)"
  by (cases q) (auto simp: segs_put dot_segs_def simp del: segs.simps)

lemma cu_last_dot:
  "cu_last cu_slash out \<Longrightarrow> cu_last cu_dot (46 # out)"
  "cu_last cu_dot out \<Longrightarrow> cu_last cu_dot_dot (46 # out)"
  by (simp_all add: segs_put del: segs.simps)

lemma segs_hd_Nil: "out \<noteq> [] \<Longrightarrow> hd (segs out) = [] \<longleftrightarrow> hd out = 47"
  by (cases out) (auto simp: segs_Cons split: list.split)

lemma cu_base_slash:
  assumes "cu_base m out" "hd (segs out) \<notin> dot_segs" "m \<Longrightarrow> hd (segs out) \<noteq> []"
  shows "cu_base m (47 # out)"
proof -
  have "dot_free out" using assms(1,2) by (simp add: dot_free_hd cu_base_def)
  then show ?thesis
    using assms(1,3) segs_hd_Nil [of out] by (auto simp: cu_base_def sublist_slashes_Cons dot_free_def)
qed

lemma segs_hd_Cons:
  assumes "hd (segs out) = x # xs"
  obtains out' where "out = x # out'" "hd (segs out') = xs" "x \<noteq> 47"
proof (cases out)
  case (Cons c cs)
  then show ?thesis
    using assms that by (cases "c = 47") (auto simp: segs_put simp del: segs.simps(2), simp)
qed (use assms in simp)

lemma cu_slash_tl:
  assumes "cu_base m out" "cu_last cu_dot out"
  shows "cu_base m (tl out) \<and> cu_last cu_slash (tl out)"
proof -
  obtain cs where c: "out = 46 # cs" "hd (segs cs) = []"
    using assms(2) by (auto elim: segs_hd_Cons)
  then have "cs \<noteq> []" using assms(1) by (auto simp: cu_base_def)
  then show ?thesis
    using assms(1) c by (simp add: cu_base_def segs_put sublist_slashes_Cons del: segs.simps)
qed

lemma cu_dot_dot_out:
  assumes "cu_base m out" "cu_last cu_dot_dot out"
  obtains r where "out = 46 # 46 # 47 # r" "dot_free r" "m \<Longrightarrow> \<not> sublist slashes r" "0 \<notin> set r" "r \<noteq> [] \<Longrightarrow> last r = 47"
proof -
  obtain cs where c: "out = 46 # cs" "hd (segs cs) = [46]" using assms(2) by (auto elim: segs_hd_Cons)
  obtain ds where d: "cs = 46 # ds" "hd (segs ds) = []" using c(2) by (auto elim: segs_hd_Cons)
  have "ds \<noteq> []" using assms(1) c d by (auto simp: cu_base_def)
  then obtain r where r: "ds = 47 # r" using d(2) segs_hd_Nil [of ds] by (cases ds) auto
  have "tl (segs out) = segs r" using c d r by (simp add: segs_put del: segs.simps(2)) simp
  then show ?thesis
    using that [of r] assms(1) c d r by (auto simp: cu_base_def dot_free_def sublist_slashes_Cons split: if_splits)
qed

lemma cu_up_base:
  assumes "cu_base m (cu_out s)" "cu_last cu_dot_dot (cu_out s)" "cu_up s = Some s'"
  shows "cu_base m (cu_out s') \<and> cu_last cu_slash (cu_out s') \<and> cu_uri_ext s' = cu_uri_ext s \<and> cu_st s' = cu_st s \<and>
    length (cu_out s') \<le> length (cu_out s)"
proof -
  obtain r where r: "cu_out s = 46 # 46 # 47 # r" "dot_free r" "m \<Longrightarrow> \<not> sublist slashes r" "0 \<notin> set r"
    "r \<noteq> [] \<Longrightarrow> last r = 47"
    using assms(1,2) by (rule cu_dot_dot_out) blast
  obtain out' where o: "cu_rewind r = Some out'" "s' = s\<lparr>cu_out := out'\<rparr>"
    using assms(3) r(1) by (auto simp: cu_up_def)
  have suf: "suffix out' r" "out' \<noteq> []" "hd (segs out') = []"
    using cu_rewind_Some [OF o(1)] by auto
  then have "dot_free out'" using dot_free_suffix r(2) by blast
  moreover have "last out' = last r" "r \<noteq> []" "set out' \<subseteq> set r" "length out' \<le> length r"
    using suf(1,2) by (auto simp: suffix_def)
  moreover have "sublist slashes out' \<Longrightarrow> sublist slashes r"
    using suf(1) using sublist_order.order_trans suffix_imp_sublist by blast
  ultimately show ?thesis
    using o(2) r suf(2,3) by (auto simp: cu_base_def dot_free_hd)
qed

lemma usual_not: "usual c \<Longrightarrow> c \<noteq> 0 \<and> c \<noteq> 46 \<and> c \<noteq> 47"
proof -
  have "\<not> usual 0" "\<not> usual 46" "\<not> usual 47" by (simp_all add: usual_bit usual_map_def)
  then show "usual c \<Longrightarrow> ?thesis" by auto
qed

definition cu_keeps :: "bool \<Rightarrow> nat \<Rightarrow> cu_action \<Rightarrow> bool" where
  "cu_keeps m n a =
     (case a of
        Cu_read s \<Rightarrow> cu_inv m s \<and> length (cu_out s) \<le> Suc n
      | Cu_again s d \<Rightarrow> cu_inv m s \<and> length (cu_out s) \<le> n \<and> d \<noteq> 0
      | Cu_args s \<Rightarrow> cu_ok m s \<and> length (cu_out s) \<le> n
      | Cu_done s \<Rightarrow> cu_ok m s \<and> length (cu_out s) \<le> n
      | Cu_invalid \<Rightarrow> True)"

lemma Nil_not_dot [simp]: "[] \<notin> dot_segs"
  by (simp add: dot_segs_def)

lemma cu_ok_inv:
  assumes "cu_base m (cu_out s)" "q = cu_usual \<or> q = cu_slash" "cu_last q (cu_out s)"
    "case cu_uri_ext s of None \<Rightarrow> True | Some x \<Rightarrow> x \<le> length (cu_out s)"
  shows "cu_ok m s"
proof -
  have "hd (segs (cu_out s)) \<notin> dot_segs" using assms(2,3) by (elim disjE) simp_all
  then show ?thesis using assms(1,4) by (simp add: cu_ok_def cu_base_def dot_free_hd)
qed

lemma cu_keeps_usual:
  assumes "cu_inv m s" "cu_path_of (cu_st s) = cu_usual" "c \<noteq> 0"
  shows "cu_keeps m (length (cu_out s)) (cu_step_usual s c)"
proof -
  have b: "cu_base m (cu_out s)" "cu_last cu_usual (cu_out s)"
    "case cu_uri_ext s of None \<Rightarrow> True | Some x \<Rightarrow> x \<le> length (cu_out s)"
    using assms by (auto simp: cu_inv_def split: option.splits)
  have put: "c \<noteq> 47 \<Longrightarrow> cu_base m (c # cu_out s) \<and> cu_last cu_usual (c # cu_out s)"
    using cu_base_Cons [OF b(1)] cu_last_put [OF b(2)] assms(3) by blast
  have sl: "cu_base m (47 # cu_out s)" using cu_base_slash [OF b(1)] b(2) by simp
  have e: "case cu_uri_ext s of None \<Rightarrow> True | Some x \<Rightarrow> x \<le> Suc (length (cu_out s))"
    using b(3) by (auto split: option.splits)
  show ?thesis
    using b put sl e cu_ok_inv [OF b(1) _ b(2) b(3)] usual_not [of c] assms(2)
    by (auto simp: cu_keeps_def cu_step_usual_def cu_inv_def split: option.splits simp del: cu_last.simps(1))
qed

lemma cu_keeps_slash:
  assumes "cu_inv m s" "cu_path_of (cu_st s) = cu_slash" "c \<noteq> 0" "cu_st s = Cu_path cu_slash"
  shows "cu_keeps m (length (cu_out s)) (cu_step_slash m s c)"
proof -
  have b: "cu_base m (cu_out s)" "cu_last cu_slash (cu_out s)" "cu_uri_ext s = None"
    using assms by (auto simp: cu_inv_def split: option.splits)
  have put: "c \<noteq> 47 \<Longrightarrow> c \<noteq> 46 \<Longrightarrow> cu_base m (c # cu_out s) \<and> cu_last cu_usual (c # cu_out s)"
    using cu_base_Cons [OF b(1)] cu_last_put [OF b(2)] assms(3) by blast
  have dot: "cu_base m (46 # cu_out s) \<and> cu_last cu_dot (46 # cu_out s)"
    using cu_base_Cons [OF b(1), of 46] cu_last_dot(1) [OF b(2)] by simp
  have sl: "\<not> m \<Longrightarrow> cu_base m (47 # cu_out s)" using cu_base_slash [OF b(1)] b(2) by (simp add: dot_segs_def)
  show ?thesis
    using b put sl dot cu_ok_inv [OF b(1) _ b(2)] usual_not [of c] assms
    by (auto simp: cu_keeps_def cu_step_slash_def cu_inv_def simp del: cu_last.simps(1,3))
qed

lemma cu_keeps_dot:
  assumes "cu_inv m s" "cu_path_of (cu_st s) = cu_dot" "c \<noteq> 0"
  shows "cu_keeps m (length (cu_out s)) (cu_step_dot s c)"
proof -
  have b: "cu_base m (cu_out s)" "cu_last cu_dot (cu_out s)" "cu_uri_ext s = None"
    using assms by (auto simp: cu_inv_def split: option.splits)
  have put: "c \<noteq> 47 \<Longrightarrow> c \<noteq> 46 \<Longrightarrow> cu_base m (c # cu_out s) \<and> cu_last cu_usual (c # cu_out s)"
    using cu_base_Cons [OF b(1)] cu_last_put [OF b(2)] assms(3) by blast
  have dot: "cu_base m (46 # cu_out s) \<and> cu_last cu_dot_dot (46 # cu_out s)"
    using cu_base_Cons [OF b(1), of 46] cu_last_dot(2) [OF b(2)] by simp
  have t: "cu_base m (tl (cu_out s))" "cu_last cu_slash (tl (cu_out s))" using cu_slash_tl [OF b(1,2)] by auto
  have ok: "cu_ok m (s\<lparr>cu_out := tl (cu_out s)\<rparr>)"
    using t b(3) by (intro cu_ok_inv [where q = cu_slash]) simp_all
  show ?thesis
    using b put dot t ok usual_not [of c] assms
    by (auto simp: cu_keeps_def cu_step_dot_def cu_inv_def simp del: cu_last.simps)
qed

lemma cu_keeps_dot_dot:
  assumes "cu_inv m s" "cu_path_of (cu_st s) = cu_dot_dot" "c \<noteq> 0"
  shows "cu_keeps m (length (cu_out s)) (cu_step_dot_dot s c)"
proof -
  have b: "cu_base m (cu_out s)" "cu_last cu_dot_dot (cu_out s)" "cu_uri_ext s = None"
    using assms by (auto simp: cu_inv_def split: option.splits)
  have put: "c \<noteq> 47 \<Longrightarrow> cu_base m (c # cu_out s) \<and> cu_last cu_usual (c # cu_out s)"
    using cu_base_Cons [OF b(1)] cu_last_put [OF b(2)] assms(3) by blast
  have up: "cu_up s = Some s' \<Longrightarrow> cu_base m (cu_out s') \<and> cu_last cu_slash (cu_out s') \<and> cu_uri_ext s' = None \<and>
      length (cu_out s') \<le> length (cu_out s) \<and> cu_ok m s'" for s'
    using cu_up_base [OF b(1,2), of s'] b(3) cu_ok_inv [of m s' cu_slash] by simp
  show ?thesis
    using b put usual_not [of c] assms
    by (auto simp: cu_keeps_def cu_step_dot_dot_def cu_inv_def le_SucI split: option.splits
        dest: up simp del: cu_last.simps)
qed

lemma unat_shift_add: "unat (w * 16 + x :: byte) mod 16 = unat x mod 16"
proof -
  have "unat (w * 16 + x) = (unat w * 16 mod 256 + unat x) mod 256"
    using unat_word_ariths(1) [of "w * 16" x] unat_word_ariths(2) [of w 16] by simp
  then have "unat (w * 16 + x) mod 16 = (unat w * 16 mod 256 + unat x) mod 16"
    by (simp add: mod_mod_cancel)
  also have "\<dots> = ((unat w * 16 mod 256) mod 16 + unat x) mod 16" by (simp add: mod_add_left_eq)
  also have "(unat w * 16 mod 256) mod 16 = 0" by (simp add: mod_mod_cancel)
  finally show ?thesis by simp
qed

lemma cu_hex_nonzero:
  assumes "97 \<le> c" "c \<le> (102 :: byte)"
  shows "push_bit 4 w + (c - 97) + 10 \<noteq> 0"
proof
  assume z: "push_bit 4 w + (c - 97) + 10 = 0"
  have "unat c \<in> set [97..<103]" using assms by (simp only: word_le_nat_alt set_upt atLeastLessThan_iff) simp
  moreover have "c = word_of_nat (unat c)" by simp
  ultimately obtain n where "n \<in> set [97..<103]" "c = word_of_nat n" by blast
  then have t: "unat (c - 97 + 10) mod 16 \<noteq> 0" by (auto simp: upt_conv_Cons)
  have "unat (w * 16 + (c - 97 + 10)) mod 16 = unat (c - 97 + 10) mod 16"
    by (rule unat_shift_add)
  then show False using z t by (simp add: push_bit_eq_mult add.assoc)
qed

lemma cu_keeps_step:
  assumes "cu_inv m s" "c \<noteq> 0"
  shows "cu_keeps m (length (cu_out s)) (cu_step m s c)"
proof (cases "cu_st s")
  case (Cu_path q)
  then show ?thesis
    using assms cu_keeps_usual cu_keeps_slash cu_keeps_dot cu_keeps_dot_dot
    by (cases q) (simp_all add: cu_step_def)
next
  case (Cu_quoted q)
  then show ?thesis
    using assms(1) by (auto simp: cu_step_def cu_step_quoted_def cu_keeps_def cu_inv_def Let_def split: option.splits)
next
  case (Cu_quoted_second q d)
  have b: "cu_base m (cu_out s)" "cu_last q (cu_out s)" using assms(1) Cu_quoted_second by (auto simp: cu_inv_def)
  have put: "x \<noteq> 47 \<Longrightarrow> x \<noteq> 46 \<Longrightarrow> x \<noteq> 0 \<Longrightarrow> cu_base m (x # cu_out s) \<and> cu_last cu_usual (x # cu_out s)" for x
    using cu_base_Cons [OF b(1)] cu_last_put [OF b(2)] by blast
  have e: "case cu_uri_ext s of None \<Rightarrow> True | Some x \<Rightarrow> x \<le> Suc (length (cu_out s))"
    "case cu_uri_ext s of None \<Rightarrow> True | Some x \<Rightarrow> q = cu_usual \<and> x \<le> length (cu_out s)"
    using assms(1) Cu_quoted_second by (auto simp: cu_inv_def split: option.splits)
  have read: "cu_keeps m (length (cu_out s)) (Cu_read (cu_put cu_usual x s))" if "x = 37 \<or> x = 35 \<or> x = 63" for x
    using put [of x] e that by (auto simp: cu_keeps_def cu_inv_def split: option.splits simp del: cu_last.simps)
  have again: "cu_keeps m (length (cu_out s)) (Cu_again (s\<lparr>cu_st := Cu_path q\<rparr>) x)"
    "cu_keeps m (length (cu_out s)) (Cu_again (s\<lparr>cu_plus := True, cu_st := Cu_path q\<rparr>) x)" if "x \<noteq> 0" for x
    using b e that by (auto simp: cu_keeps_def cu_inv_def split: option.splits simp del: cu_last.simps)
  have bad: "cu_keeps m n Cu_invalid" for n by (simp add: cu_keeps_def)
  have step: "cu_step m s c = cu_step_quoted_second q d s c" using Cu_quoted_second by (simp add: cu_step_def)
  show ?thesis
    unfolding step cu_step_quoted_second_def Let_def
    using read again bad cu_hex_nonzero [of "c OR 0x20" d] by auto
qed

lemma cu_finish_ok:
  assumes "cu_inv m s" "cu_finish s = Some s'"
  shows "cu_ok m s' \<and> length (cu_out s') \<le> length (cu_out s)"
proof -
  obtain q where st: "cu_st s = Cu_path q" using assms(2) by (auto simp: cu_finish_def split: cu_state.splits)
  have b: "cu_base m (cu_out s)" "cu_last q (cu_out s)" using assms(1) st by (auto simp: cu_inv_def)
  have e: "case cu_uri_ext s of None \<Rightarrow> True | Some x \<Rightarrow> q = cu_usual \<and> x \<le> length (cu_out s)"
    using assms(1) st by (cases "cu_uri_ext s") (simp_all add: cu_inv_def)
  then have e': "case cu_uri_ext s of None \<Rightarrow> True | Some x \<Rightarrow> x \<le> length (cu_out s)" by (auto split: option.splits)
  show ?thesis
  proof (cases q)
    case cu_usual
    then have "s' = s" using assms(2) st by (simp add: cu_finish_def)
    then show ?thesis using cu_ok_inv [OF b(1) _ b(2) e'] cu_usual by blast
  next
    case cu_slash
    then have "s' = s" using assms(2) st by (simp add: cu_finish_def)
    then show ?thesis using cu_ok_inv [OF b(1) _ b(2) e'] cu_slash by blast
  next
    case cu_dot
    then have s': "s' = s\<lparr>cu_out := tl (cu_out s)\<rparr>" "cu_uri_ext s = None"
      using assms(2) st e by (auto simp: cu_finish_def split: option.splits)
    have "cu_ok m s'"
      by (rule cu_ok_inv [where q = cu_slash]) (use cu_slash_tl [OF b(1)] b(2) cu_dot s' in simp_all)
    then show ?thesis using s' by simp
  next
    case cu_dot_dot
    then have s': "cu_up s = Some s'" "cu_uri_ext s = None"
      using assms(2) st e by (auto simp: cu_finish_def split: option.splits)
    have "cu_ok m s'"
      by (rule cu_ok_inv [where q = cu_slash]) (use cu_up_base [OF b(1) _ s'(1)] b(2) cu_dot_dot s' in simp_all)
    then show ?thesis using cu_up_base [OF b(1) _ s'(1)] b(2) cu_dot_dot by blast
  qed
qed

lemma cu_loop_ok:
  "cu_inv m s \<Longrightarrow> 0 \<notin> set cs \<Longrightarrow> cu_loop m s cs = Some (s', args) \<Longrightarrow>
   cu_ok m s' \<and> length (cu_out s') \<le> length (cu_out s) + length cs"
proof (induction m s cs rule: cu_loop.induct)
  case (1 m s)
  then show ?case using cu_finish_ok by auto
next
  case (2 m s c rest)
  have k: "cu_keeps m (length (cu_out s)) (cu_step m s c)" using cu_keeps_step [OF 2(3)] 2(4) by simp
  show ?case
  proof (cases "cu_step m s c")
    case (Cu_read t)
    then show ?thesis using 2(1) [OF Cu_read] 2(4,5) k by (auto simp: cu_keeps_def)
  next
    case (Cu_again t d)
    then show ?thesis using 2(2) [OF Cu_again] 2(4,5) k by (auto simp: cu_keeps_def)
  qed (use 2(5) k in \<open>auto simp: cu_keeps_def\<close>)
qed

subsection \<open>Properties\<close>

text \<open>C6. A normalised URI is safe to map to a file name: when the parser accepts a path that starts with
  a slash (or the query of an absolute URI with an empty path), the result starts with a slash,
  no segment of it is \<open>.\<close> or \<open>..\<close>, it holds no NUL even though \<open>%00\<close> can be written, with
  \<open>merge_slashes\<close> it holds no double slash, it is no longer than the buffer of the input's length
  that the caller allocates, and the extension lies inside it.\<close>

theorem complex_uri_safe:
  assumes "ngx_http_parse_complex_uri m e uri = Some r" "0 \<notin> set uri"
    and "if e then rd uri = ch CHR ''?'' else rd uri = ch CHR ''/''"
  shows "rd (res_uri r) = ch CHR ''/'' \<and> dot_free (res_uri r) \<and> 0 \<notin> set (res_uri r) \<and>
    (m \<longrightarrow> \<not> sublist (str ''//'') (res_uri r)) \<and>
    length (res_uri r) \<le> length uri + (if e then 1 else 0) \<and>
    (case res_exten r of None \<Rightarrow> True | Some x \<Rightarrow> suffix x (res_uri r))"
proof -
  let ?s0 = "\<lparr>cu_st = Cu_path cu_usual, cu_out = if e then [ch CHR ''/''] else [], cu_uri_ext = None,
    cu_plus = False, cu_quoted_uri = False\<rparr>"
  obtain s args where l: "cu_loop m ?s0 uri = Some (s, args)" "res_uri r = rev (cu_out s)"
    "res_exten r = map_option (\<lambda>x. drop x (rev (cu_out s))) (cu_uri_ext s)"
    using assms(1) by (auto simp: ngx_http_parse_complex_uri_def split: option.splits prod.splits)
  obtain c cs where u: "uri = c # cs" using assms(3) by (cases uri) (auto split: if_splits)
  have nu: "\<not> usual 63" "\<not> usual 47" by (simp_all add: usual_bit usual_map_def)
  have ok: "cu_ok m s \<and> length (cu_out s) \<le> length uri + (if e then 1 else 0)"
  proof (cases e)
    case True
    then have "s = ?s0" using l(1) u assms(3) nu by (simp add: cu_step_def cu_step_usual_def)
    then show ?thesis using True by (simp add: cu_ok_def dot_free_def sublist_slashes_Cons)
  next
    case False
    let ?s1 = "?s0\<lparr>cu_st := Cu_path cu_slash, cu_out := [47]\<rparr>"
    have "cu_loop m ?s1 cs = Some (s, args)"
      using l(1) u assms(3) nu False by (simp add: cu_step_def cu_step_usual_def)
    moreover have "cu_inv m ?s1" by (simp add: cu_inv_def cu_base_def sublist_slashes_Cons)
    ultimately show ?thesis
      using cu_loop_ok [of m ?s1 cs s args] assms(2) u False by auto
  qed
  have "rd (rev (cu_out s)) = 47" using ok by (cases "cu_out s" rule: rev_cases) (auto simp: cu_ok_def)
  moreover have "sublist (str ''//'') (rev (cu_out s)) \<longleftrightarrow> sublist slashes (cu_out s)"
    using sublist_rev [of slashes "cu_out s"] by (simp add: slashes_def)
  ultimately show ?thesis
    using ok l(2,3) by (auto simp: cu_ok_def dot_free_rev suffix_drop split: option.splits)
qed

theorem complex_uri_safe_witness:
  "\<exists>r. ngx_http_parse_complex_uri True False (str ''/a/%2e./b.c'') = Some r \<and> res_uri r = str ''/b.c'' \<and>
    dot_free (str ''/b.c'')"
proof -
  have "ngx_http_parse_complex_uri True False (str ''/a/%2e./b.c'') = Some
      \<lparr>res_uri = str ''/b.c'', res_exten = Some (str ''c''), res_args_start = None, res_args = None, res_plus = False,
        res_quoted = True\<rparr>"
    by (simp add: ngx_http_parse_complex_uri_def cu_step_def cu_step_usual_def cu_step_slash_def cu_step_dot_def
        cu_step_dot_dot_def cu_step_quoted_def cu_step_quoted_second_def cu_up_def cu_finish_def cu_args_end_def
        usual_bit usual_map_def is_dec_def Let_def)
  then show ?thesis
    using complex_uri_safe [of True False "str ''/a/%2e./b.c''"] by simp
qed

lemma cu_plain_run:
  assumes "list_all (\<lambda>c. usual c \<or> c = 47) cs" "cu_uri_ext s = None" "\<not> m"
    "cu_st s = Cu_path cu_usual \<or> cu_st s = Cu_path cu_slash"
  shows "\<exists>s'. cu_loop m s cs = Some (s', None) \<and> cu_out s' = rev cs @ cu_out s \<and> cu_uri_ext s' = None"
  using assms
proof (induction cs arbitrary: s)
  case Nil
  then show ?case by (auto simp: cu_finish_def)
next
  case (Cons c cs)
  let ?s = "if usual c then cu_put cu_usual c s else cu_put cu_slash c s"
  have "\<not> usual 47" by (simp add: usual_bit usual_map_def)
  moreover have "cu_step m s c = Cu_read ?s"
    using Cons.prems \<open>\<not> usual 47\<close>
    by (auto simp: cu_step_def cu_step_usual_def cu_step_slash_def)
  ultimately show ?case
    using Cons.IH [of ?s] Cons.prems by auto
qed

text \<open>Normalisation changes nothing that needs none: with \<open>merge_slashes\<close> off, a path of usual characters
  and slashes comes out as it went in, with no extension and no arguments.\<close>

theorem complex_uri_plain:
  assumes "list_all (\<lambda>c. usual c \<or> c = ch CHR ''/'') path"
  shows "\<exists>r. ngx_http_parse_complex_uri False False path = Some r \<and> res_uri r = path \<and> res_exten r = None \<and>
    res_args_start r = None \<and> res_args r = None"
  using cu_plain_run [of path "\<lparr>cu_st = Cu_path cu_usual, cu_out = [], cu_uri_ext = None, cu_plus = False,
    cu_quoted_uri = False\<rparr>" False] assms
  by (auto simp: ngx_http_parse_complex_uri_def cu_args_end_def)

theorem complex_uri_plain_witness:
  "\<exists>r. ngx_http_parse_complex_uri False False (str ''/a//b'') = Some r \<and> res_uri r = str ''/a//b''"
  using complex_uri_plain [of "str ''/a//b''"] by (auto simp: usual_bit usual_map_def)

end
