(* ===== verification/Ngx_Uri.thy ===== *)
theory Ngx_Uri
  imports Ngx_Request_Line Ngx_Complex_Uri Ngx_Escape Ngx_Strcmp
begin

section \<open>URIs, arguments and header values\<close>

text \<open>
  The rest of \<open>src/http/ngx_http_parse.c\<close>: \<open>ngx_http_parse_uri\<close> (the URI of an internal redirect),
  \<open>ngx_http_parse_unsafe_uri\<close> (a URI that comes from a header or a configuration value),
  \<open>ngx_http_split_args\<close>, \<open>ngx_http_arg\<close>, \<open>ngx_http_parse_multi_header_lines\<close> and
  \<open>ngx_http_parse_set_cookie_lines\<close>.
\<close>

subsection \<open>\<open>ngx_http_parse_uri\<close>\<close>

datatype pu_state = pu_sw_start | pu_sw_after_slash_in_uri | pu_sw_check_uri | pu_sw_uri

type_synonym pu_action = "(pu_state \<times> rl_req, rl_req) action"

definition pu_bad :: "byte \<Rightarrow> bool" where
  "pu_bad c \<longleftrightarrow> c \<le> 0x20 \<or> c = 0x7f"

definition pu_after_slash_in_uri :: "nat \<Rightarrow> rl_req \<Rightarrow> byte \<Rightarrow> pu_action" where
  "pu_after_slash_in_uri p r c =
     (if usual c then Next (pu_sw_check_uri, r)
      else if c = ch CHR ''.'' then Next (pu_sw_uri, r\<lparr>complex_uri := True\<rparr>)
      else if c = ch CHR ''%'' then Next (pu_sw_uri, r\<lparr>quoted_uri := True\<rparr>)
      else if c = ch CHR ''/'' then Next (pu_sw_uri, r\<lparr>complex_uri := True\<rparr>)
      else if c = ch CHR ''?'' then Next (pu_sw_uri, r\<lparr>args_start := Some (p + 1)\<rparr>)
      else if c = ch CHR ''#'' then Next (pu_sw_uri, r\<lparr>complex_uri := True\<rparr>)
      else if c = ch CHR ''+'' then Next (pu_sw_after_slash_in_uri, r\<lparr>plus_in_uri := True\<rparr>)
      else if pu_bad c then Exit r
      else Next (pu_sw_check_uri, r))"

definition pu_check_uri :: "nat \<Rightarrow> rl_req \<Rightarrow> byte \<Rightarrow> pu_action" where
  "pu_check_uri p r c =
     (if usual c then Next (pu_sw_check_uri, r)
      else if c = ch CHR ''/'' then Next (pu_sw_after_slash_in_uri, r\<lparr>uri_ext := None\<rparr>)
      else if c = ch CHR ''.'' then Next (pu_sw_check_uri, r\<lparr>uri_ext := Some (p + 1)\<rparr>)
      else if c = ch CHR ''%'' then Next (pu_sw_uri, r\<lparr>quoted_uri := True\<rparr>)
      else if c = ch CHR ''?'' then Next (pu_sw_uri, r\<lparr>args_start := Some (p + 1)\<rparr>)
      else if c = ch CHR ''#'' then Next (pu_sw_uri, r\<lparr>complex_uri := True\<rparr>)
      else if c = ch CHR ''+'' then Next (pu_sw_check_uri, r\<lparr>plus_in_uri := True\<rparr>)
      else if pu_bad c then Exit r
      else Next (pu_sw_check_uri, r))"

definition pu_uri :: "rl_req \<Rightarrow> byte \<Rightarrow> pu_action" where
  "pu_uri r c =
     (if usual c then Next (pu_sw_uri, r)
      else if c = ch CHR ''#'' then Next (pu_sw_uri, r\<lparr>complex_uri := True\<rparr>)
      else if pu_bad c then Exit r
      else Next (pu_sw_uri, r))"

fun pu_step :: "bytes \<Rightarrow> nat \<Rightarrow> pu_state \<times> rl_req \<Rightarrow> byte \<Rightarrow> pu_action" where
  "pu_step buf p (pu_sw_start, r) c =
     (if c \<noteq> ch CHR ''/'' then Exit r else Next (pu_sw_after_slash_in_uri, r))"
| "pu_step buf p (pu_sw_after_slash_in_uri, r) c = pu_after_slash_in_uri p r c"
| "pu_step buf p (pu_sw_check_uri, r) c = pu_check_uri p r c"
| "pu_step buf p (pu_sw_uri, r) c = pu_uri r c"

text \<open>The bytes from offset \<open>u\<close> (\<open>r->uri_start\<close>) to \<open>e\<close> (\<open>r->uri_end\<close>).\<close>

definition ngx_http_parse_uri :: "rl_req \<Rightarrow> bytes \<Rightarrow> nat \<Rightarrow> nat \<Rightarrow> ngx_rc \<times> rl_req" where
  "ngx_http_parse_uri r buf u e =
     (case parse_loop pu_step buf u (slice buf u e) (pu_sw_start, r) of
        Inl ((st, r'), p) \<Rightarrow> (NGX_OK, r')
      | Inr r' \<Rightarrow> (NGX_ERROR, r'))"

subsection \<open>\<open>ngx_http_parse_unsafe_uri\<close>\<close>

text \<open>\<open>p[0] == '.' && p[1] == '.'\<close> with the end of the string or a separator behind.\<close>

fun dot_dot_at :: "bytes \<Rightarrow> bool" where
  "dot_dot_at [a, b] \<longleftrightarrow> a = ch CHR ''.'' \<and> b = ch CHR ''.''"
| "dot_dot_at (a # b # c # cs) \<longleftrightarrow> a = ch CHR ''.'' \<and> b = ch CHR ''.'' \<and> c = ch CHR ''/''"
| "dot_dot_at cs \<longleftrightarrow> False"

text \<open>The first loop: whether a percent sign was met and, at a question mark, the bytes behind it.\<close>

fun uu_scan :: "bool \<Rightarrow> bytes \<Rightarrow> (bool \<times> bytes option) option" where
  "uu_scan quoted [] = Some (quoted, None)"
| "uu_scan quoted (c # p) =
     (if c = ch CHR ''%'' then uu_scan True p
      else if usual c then uu_scan quoted p
      else if c = ch CHR ''?'' then Some (quoted, Some p)
      else if c = 0 then None
      else if c = ch CHR ''/'' \<and> dot_dot_at p then None
      else uu_scan quoted p)"

text \<open>The second loop, over the unescaped URI; true is unsafe.\<close>

fun uu_rescan :: "bytes \<Rightarrow> bool" where
  "uu_rescan [] = False"
| "uu_rescan (c # p) = (c = 0 \<or> c = ch CHR ''/'' \<and> dot_dot_at p \<or> uu_rescan p)"

text \<open>The result is \<open>uri\<close> and, if a question mark was found, \<open>args\<close>; \<open>None\<close> is \<open>NGX_ERROR\<close>, for an
  unsafe URI or because \<open>ngx_pnalloc\<close> fails.\<close>

definition ngx_http_parse_unsafe_uri :: "bool \<Rightarrow> bytes \<Rightarrow> (bytes \<times> bytes option) option" where
  "ngx_http_parse_unsafe_uri alloc_ok uri =
     (if uri = [] \<or> uri ! 0 = ch CHR ''?'' then None
      else if dot_dot_at uri then None
      else case uu_scan False uri of
        None \<Rightarrow> None
      | Some (quoted, args) \<Rightarrow>
          let uri' = (case args of None \<Rightarrow> uri | Some p \<Rightarrow> take (length uri - Suc (length p)) uri) in
          if \<not> quoted then Some (uri', args)
          else if \<not> alloc_ok then None
          else let dst = fst (ngx_unescape_uri 0 uri') in
            if dot_dot_at dst \<or> uu_rescan dst then None else Some (dst, args))"

subsection \<open>Arguments\<close>

definition ngx_http_split_args :: "bytes \<Rightarrow> bytes \<times> bytes" where
  "ngx_http_split_args uri =
     (case ngx_strlchr uri (ch CHR ''?'') of
        Some p \<Rightarrow> (take p uri, drop (p + 1) uri)
      | None \<Rightarrow> (uri, []))"

text \<open>\<open>ngx_http_arg\<close> on the bytes of \<open>r->args\<close>, for a name of at least one byte; \<open>None\<close> is
  \<open>NGX_DECLINED\<close>.\<close>

function arg_loop :: "bytes \<Rightarrow> bytes \<Rightarrow> nat \<Rightarrow> bytes option" where
  "arg_loop args name p =
     (if p < length args then
        (case ngx_strlcasestrn (drop p (butlast args)) name (length name - 1) of
           None \<Rightarrow> None
         | Some i \<Rightarrow>
             let p = p + i; len = length name in
             if (p = 0 \<or> args ! (p - 1) = ch CHR ''&'') \<and> args ! (p + len) = ch CHR ''='' then
               (let e = (case ngx_strlchr (drop p args) (ch CHR ''&'') of None \<Rightarrow> length args | Some j \<Rightarrow> p + j)
                in Some (slice args (p + len + 1) e))
             else arg_loop args name (p + 1))
      else None)"
  by pat_completeness auto
termination by (relation "measure (\<lambda>(args, name, p). length args - p)") auto

definition ngx_http_arg :: "bytes \<Rightarrow> bytes \<Rightarrow> bytes option" where
  "ngx_http_arg args name = (if length args = 0 then None else arg_loop args name 0)"

subsection \<open>Values in header lines\<close>

definition skip_spaces :: "bytes \<Rightarrow> bytes" where
  "skip_spaces s = dropWhile (\<lambda>c. c = SP) s"

fun mh_skip :: "bytes \<Rightarrow> bytes" where
  "mh_skip [] = []"
| "mh_skip (c # s) = (if c = ch CHR '';'' \<or> c = ch CHR '','' then s else mh_skip s)"

lemma mh_skip_length: "length (mh_skip s) \<le> length s - 1"
  by (induction s) auto

lemma skip_spaces_length: "length (skip_spaces s) \<le> length s"
  by (simp add: skip_spaces_def length_dropWhile_le)

text \<open>The loop over one header value, from \<open>start\<close>; with \<open>want = False\<close> (a \<open>NULL\<close> value) only the
  presence of the name is asked.\<close>

function mh_line :: "bool \<Rightarrow> bytes \<Rightarrow> bytes \<Rightarrow> bytes option" where
  "mh_line want name start =
     (if start = [] then None
      else if ngx_strncasecmp start name (length name) \<noteq> 0 then
        mh_line want name (skip_spaces (mh_skip start))
      else let s = skip_spaces (drop (length name) start) in
        if \<not> want then
          (if s = [] \<or> hd s = ch CHR '','' then Some [] else mh_line want name (skip_spaces (mh_skip s)))
        else if s = [] then None
        else if hd s \<noteq> ch CHR ''='' then mh_line want name (skip_spaces (mh_skip (tl s)))
        else Some (takeWhile (\<lambda>c. c \<noteq> ch CHR '';'') (skip_spaces (tl s))))"
  by pat_completeness auto
termination
proof (relation "measure (\<lambda>(want, name, s). length s)")
  have skip: "length (skip_spaces (mh_skip s)) < length s" if "s \<noteq> []" for s
  proof -
    have "0 < length s" using that by simp
    then show ?thesis using skip_spaces_length [of "mh_skip s"] mh_skip_length [of s] by linarith
  qed
  fix want and name start s :: bytes
  have d: "length (skip_spaces (drop (length name) start)) \<le> length start"
    using skip_spaces_length [of "drop (length name) start"] by simp
  show "((want, name, skip_spaces (mh_skip start)), want, name, start) \<in> measure (\<lambda>(want, name, s). length s)"
    if "start \<noteq> []" using skip that by simp
  show "((want, name, skip_spaces (mh_skip s)), want, name, start) \<in> measure (\<lambda>(want, name, s). length s)"
    if "s = skip_spaces (drop (length name) start)" "\<not> (s = [] \<or> hd s = ch CHR '','')"
    using skip [of s] d that by simp
  show "((want, name, skip_spaces (mh_skip (tl s))), want, name, start) \<in> measure (\<lambda>(want, name, s). length s)"
    if "s = skip_spaces (drop (length name) start)" "s \<noteq> []"
  proof -
    have "0 < length s" "length (tl s) = length s - 1" using that(2) by simp_all
    then have "length (skip_spaces (mh_skip (tl s))) < length s"
      using skip_spaces_length [of "mh_skip (tl s)"] mh_skip_length [of "tl s"] by linarith
    then show ?thesis using d that(1) by simp
  qed
qed auto

text \<open>The chain of headers is the list of their values; the result is the position of the header and
  the value found.\<close>

fun mh_headers :: "nat \<Rightarrow> bytes list \<Rightarrow> bool \<Rightarrow> bytes \<Rightarrow> (nat \<times> bytes) option" where
  "mh_headers i [] want name = None"
| "mh_headers i (v # vs) want name =
     (if length name > length v then mh_headers (Suc i) vs want name
      else case mh_line want name v of
        Some x \<Rightarrow> Some (i, x)
      | None \<Rightarrow> mh_headers (Suc i) vs want name)"

definition ngx_http_parse_multi_header_lines :: "bytes list \<Rightarrow> bool \<Rightarrow> bytes \<Rightarrow> (nat \<times> bytes) option" where
  "ngx_http_parse_multi_header_lines headers want name = mh_headers 0 headers want name"

definition sc_line :: "bytes \<Rightarrow> bytes \<Rightarrow> bytes option" where
  "sc_line name v =
     (if length name \<ge> length v then None
      else if ngx_strncasecmp v name (length name) \<noteq> 0 then None
      else let s = skip_spaces (drop (length name) v) in
        if s = [] \<or> hd s \<noteq> ch CHR ''='' then None
        else Some (takeWhile (\<lambda>c. c \<noteq> ch CHR '';'') (skip_spaces (tl s))))"

fun sc_headers :: "nat \<Rightarrow> bytes list \<Rightarrow> bytes \<Rightarrow> (nat \<times> bytes) option" where
  "sc_headers i [] name = None"
| "sc_headers i (v # vs) name =
     (case sc_line name v of Some x \<Rightarrow> Some (i, x) | None \<Rightarrow> sc_headers (Suc i) vs name)"

definition ngx_http_parse_set_cookie_lines :: "bytes list \<Rightarrow> bytes \<Rightarrow> (nat \<times> bytes) option" where
  "ngx_http_parse_set_cookie_lines headers name = sc_headers 0 headers name"

declare mh_line.simps [simp del] arg_loop.simps [simp del]

subsection \<open>\<open>ngx_http_parse_uri\<close> and the request line\<close>

text \<open>The states of the two parsers that correspond.\<close>

fun pu_rl :: "pu_state \<Rightarrow> rl_state" where
  "pu_rl pu_sw_start = rl_sw_spaces_before_uri"
| "pu_rl pu_sw_after_slash_in_uri = rl_sw_after_slash_in_uri"
| "pu_rl pu_sw_check_uri = rl_sw_check_uri"
| "pu_rl pu_sw_uri = rl_sw_uri"

lemma pu_bad_uri_char: "pu_bad c \<longleftrightarrow> \<not> uri_char c"
  by (auto simp: pu_bad_def uri_char_def not_less)

lemma pu_step_rl:
  assumes "st \<noteq> pu_sw_start" "uri_char c"
  shows "\<exists>st' r'. pu_step buf p (st, r) c = Next (st', r') \<and> st' \<noteq> pu_sw_start \<and>
    rl_step buf p (pu_rl st, r) c = Next (pu_rl st', r')"
proof -
  have c: "c \<noteq> CR" "c \<noteq> LF" "c \<noteq> SP" "\<not> c < 0x20" "c \<noteq> 0x7f"
    using assms(2) by (auto simp: uri_char_def)
  show ?thesis
    using assms c
    by (cases st) (auto simp: pu_after_slash_in_uri_def pu_check_uri_def pu_uri_def pu_bad_uri_char
        rl_after_slash_in_uri_def rl_check_uri_def rl_uri_def)
qed

lemma pu_loop_rl:
  assumes "st \<noteq> pu_sw_start" "list_all uri_char cs"
  shows "\<exists>st' r' q. parse_loop pu_step buf p cs (st, r) = Inl ((st', r'), q) \<and>
    parse_loop rl_step buf p cs (pu_rl st, r) = Inl ((pu_rl st', r'), q)"
  using assms
proof (induction cs arbitrary: st r p)
  case (Cons c cs)
  obtain st' r' where "pu_step buf p (st, r) c = Next (st', r')" "st' \<noteq> pu_sw_start"
    "rl_step buf p (pu_rl st, r) c = Next (pu_rl st', r')"
    using pu_step_rl [of st c buf p r] Cons.prems by auto
  then show ?case using Cons.IH [of st' "Suc p" r'] Cons.prems by simp
qed simp

lemma pu_loop_bad:
  assumes "\<not> list_all uri_char cs" "st \<noteq> pu_sw_start"
  shows "\<exists>r'. parse_loop pu_step buf p cs (st, r) = Inr r'"
  using assms
proof (induction cs arbitrary: st r p)
  case (Cons c cs)
  show ?case
  proof (cases "uri_char c")
    case True
    then show ?thesis using Cons pu_step_rl [of st c buf p r] by fastforce
  next
    case False
    then have "\<not> usual c" using usual_uri_char by blast
    moreover have "c \<noteq> 46" "c \<noteq> 37" "c \<noteq> 47" "c \<noteq> 63" "c \<noteq> 35" "c \<noteq> 43" using False by auto
    ultimately show ?thesis
      using False Cons.prems
      by (cases st) (simp_all add: pu_after_slash_in_uri_def pu_check_uri_def pu_uri_def pu_bad_uri_char)
  qed
qed simp

text \<open>C31. \<open>ngx_http_parse_uri\<close> agrees with the request line parser: it accepts the empty string, which changes nothing,
  and a string that starts with a slash and holds no control character, space or DEL, and refuses every other. Of a string
  that is not empty it leaves the fields of the request (flags, extension, arguments) exactly as the request line parser
  leaves them when it has read the same bytes behind the slash.\<close>

theorem parse_uri_request_line:
  assumes "u \<le> e" "e \<le> length buf"
  shows "(fst (ngx_http_parse_uri r buf u e) = NGX_OK \<longleftrightarrow>
      u = e \<or> buf ! u = ch CHR ''/'' \<and> list_all uri_char (slice buf u e)) \<and>
    (u = e \<longrightarrow> ngx_http_parse_uri r buf u e = (NGX_OK, r)) \<and>
    (u < e \<longrightarrow> fst (ngx_http_parse_uri r buf u e) = NGX_OK \<longrightarrow>
      (\<exists>st q. parse_loop rl_step buf (Suc u) (slice buf (Suc u) e) (rl_sw_after_slash_in_uri, r) =
        Inl ((st, snd (ngx_http_parse_uri r buf u e)), q)))"
proof (cases "u = e")
  case True
  then show ?thesis by (simp add: ngx_http_parse_uri_def)
next
  case False
  then have u: "u < e" using assms(1) by simp
  have sl: "slice buf u e = buf ! u # slice buf (Suc u) e"
  proof -
    have "drop u buf = buf ! u # drop (Suc u) buf" using u assms by (simp add: Cons_nth_drop_Suc)
    moreover have "e - u = Suc (e - Suc u)" using u by simp
    ultimately show ?thesis by (simp add: slice_def)
  qed
  show ?thesis
  proof (cases "buf ! u = 47 \<and> list_all uri_char (slice buf (Suc u) e)")
    case True
    then show ?thesis
      using sl u pu_loop_rl [of pu_sw_after_slash_in_uri "slice buf (Suc u) e" buf "Suc u" r]
      by (auto simp: ngx_http_parse_uri_def)
  next
    case False
    then show ?thesis
      using sl u pu_loop_bad [of "slice buf (Suc u) e" pu_sw_after_slash_in_uri buf "Suc u" r]
      by (cases "buf ! u = 47") (auto simp: ngx_http_parse_uri_def)
  qed
qed

theorem parse_uri_request_line_witness:
  "fst (ngx_http_parse_uri rl_init (str ''/a?b'') 0 4) = NGX_OK"
  using parse_uri_request_line [of 0 4 "str ''/a?b''" rl_init]
  by (simp add: slice_def uri_char_def)

subsection \<open>Unsafe URIs\<close>

fun dot_dot_later :: "bytes \<Rightarrow> bool" where
  "dot_dot_later [] = False"
| "dot_dot_later (c # p) = (c = ch CHR ''/'' \<and> dot_dot_at p \<or> dot_dot_later p)"

lemma dot_dot_at_segs: "dot_dot_at cs \<longleftrightarrow> hd (segs cs) = str ''..''"
proof (cases cs rule: dot_dot_at.cases)
  case (2 a b c ds)
  then show ?thesis by (cases "segs ds") auto
qed auto

lemma set_segs: "set (segs cs) = insert (hd (segs cs)) (set (tl (segs cs)))"
  by (metis list.collapse list.simps(15) segs_not_Nil)

lemma dot_dot_later_segs: "dot_dot_later cs \<longleftrightarrow> str ''..'' \<in> set (tl (segs cs))"
proof (induction cs)
  case (Cons c cs)
  show ?case
  proof (cases "c = 47")
    case True
    have "tl (segs (c # cs)) = segs cs" using True by simp
    moreover have "str ''..'' \<in> set (segs cs) \<longleftrightarrow> dot_dot_at cs \<or> dot_dot_later cs"
      unfolding set_segs [of cs] insert_iff dot_dot_at_segs Cons.IH by metis
    ultimately show ?thesis using True by simp
  next
    case False
    then have "tl (segs (c # cs)) = tl (segs cs)" by (rule segs_put(2))
    then show ?thesis using False Cons.IH by simp
  qed
qed simp

lemma dot_dot_segs: "str ''..'' \<in> set (segs cs) \<longleftrightarrow> dot_dot_at cs \<or> dot_dot_later cs"
  unfolding set_segs [of cs] insert_iff dot_dot_at_segs dot_dot_later_segs by metis

lemma uu_rescan_iff: "uu_rescan cs \<longleftrightarrow> 0 \<in> set cs \<or> dot_dot_later cs"
  by (induction cs) auto

lemma uu_not_usual: "\<not> usual 0" "\<not> usual 37" "\<not> usual 47" "\<not> usual 63"
  by (simp_all add: usual_bit usual_map_def)

lemma uu_scan_None_args:
  "uu_scan q cs = Some (q', None) \<Longrightarrow>
   63 \<notin> set cs \<and> 0 \<notin> set cs \<and> \<not> dot_dot_later cs \<and> (q' \<longleftrightarrow> q \<or> 37 \<in> set cs)"
proof (induction cs arbitrary: q)
  case (Cons c cs)
  show ?case
  proof (cases "c = 37")
    case True
    then show ?thesis using Cons.IH [of True] Cons.prems by simp
  next
    case False
    then show ?thesis
      using Cons.IH [of q] Cons.prems uu_not_usual by (cases "usual c") (auto split: if_splits)
  qed
qed simp

lemma dot_dot_at_query: "dot_dot_at (path @ 63 # p) \<longleftrightarrow> dot_dot_at (path @ [63])"
  by (cases path rule: dot_dot_at.cases; cases p rule: dot_dot_at.cases; simp)

lemma uu_scan_args:
  "uu_scan q cs = Some (q', Some p) \<Longrightarrow>
   \<exists>path. cs = path @ 63 # p \<and> 63 \<notin> set path \<and> 0 \<notin> set path \<and> \<not> dot_dot_later (path @ [63]) \<and>
     (q' \<longleftrightarrow> q \<or> 37 \<in> set path)"
proof (induction cs arbitrary: q)
  case (Cons c cs)
  show ?case
  proof (cases "c = 63")
    case True
    then have "cs = p" "q' = q" using Cons.prems uu_not_usual by auto
    then show ?thesis using True by (intro exI [of _ "[]"]) simp
  next
    case False
    have s: "uu_scan (q \<or> c = 37) cs = Some (q', Some p)" "c \<noteq> 0" "\<not> (c = 47 \<and> dot_dot_at cs)"
      using Cons.prems False uu_not_usual by (auto split: if_splits)
    obtain path where path: "cs = path @ 63 # p" "63 \<notin> set path" "0 \<notin> set path"
      "\<not> dot_dot_later (path @ [63])" "q' \<longleftrightarrow> (q \<or> c = 37) \<or> 37 \<in> set path"
      using Cons.IH [OF s(1)] by blast
    have "\<not> dot_dot_later ((c # path) @ [63])"
      using path(1,4) s(3) dot_dot_at_query [of path p] by auto
    then show ?thesis using path s(2) False by (intro exI [of _ "c # path"]) auto
  qed
qed simp

lemma dot_dot_butlast:
  assumes "\<not> dot_dot_later (path @ [63])" "\<not> dot_dot_at (path @ [63])"
  shows "str ''..'' \<notin> set (butlast (segs path))"
proof -
  have "str ''..'' \<notin> set (segs (path @ [63]))" using assms unfolding dot_dot_segs by blast
  then show ?thesis unfolding segs_append by simp
qed

lemma unsafe_uri_cases:
  assumes "ngx_http_parse_unsafe_uri alloc_ok uri = Some (uri', args)"
  obtains q where "\<not> dot_dot_at uri" "uu_scan False uri = Some (q, args)"
    and "q \<Longrightarrow> \<not> dot_dot_at uri' \<and> \<not> uu_rescan uri'"
    and "\<not> q \<Longrightarrow> uri' = (case args of None \<Rightarrow> uri | Some p \<Rightarrow> take (length uri - Suc (length p)) uri)"
proof -
  let ?f = "ngx_http_parse_unsafe_uri alloc_ok uri"
  have "uri = [] \<or> uri ! 0 = ch CHR ''?'' \<Longrightarrow> ?f = None"
    by (simp only: ngx_http_parse_unsafe_uri_def if_True)
  then have g1: "\<not> (uri = [] \<or> uri ! 0 = ch CHR ''?'')" using assms by force
  have "dot_dot_at uri \<Longrightarrow> ?f = None"
    by (simp only: ngx_http_parse_unsafe_uri_def if_True g1 if_False)
  then have g2: "\<not> dot_dot_at uri" using assms by force
  have "uu_scan False uri = None \<Longrightarrow> ?f = None"
    by (simp only: ngx_http_parse_unsafe_uri_def g1 g2 if_False option.case)
  then have "uu_scan False uri \<noteq> None" using assms by force
  then obtain q args' where q: "uu_scan False uri = Some (q, args')" by force
  let ?u = "case args' of None \<Rightarrow> uri | Some p \<Rightarrow> take (length uri - Suc (length p)) uri"
  have r: "(if \<not> q then Some (?u, args') else if \<not> alloc_ok then None
      else if dot_dot_at (fst (ngx_unescape_uri 0 ?u)) \<or> uu_rescan (fst (ngx_unescape_uri 0 ?u)) then None
      else Some (fst (ngx_unescape_uri 0 ?u), args')) = Some (uri', args)"
    using assms by (simp only: ngx_http_parse_unsafe_uri_def g1 g2 q if_False option.case prod.case Let_def)
  show thesis
  proof (cases q)
    case True
    then have "\<not> (dot_dot_at (fst (ngx_unescape_uri 0 ?u)) \<or> uu_rescan (fst (ngx_unescape_uri 0 ?u)))"
      "fst (ngx_unescape_uri 0 ?u) = uri'" "args' = args"
      using r by (auto split: if_splits)
    then show ?thesis using that [of q] g2 q True by blast
  next
    case False
    then show ?thesis using that [of q] g2 q r by auto
  qed
qed

text \<open>A URI that passes \<open>ngx_http_parse_unsafe_uri\<close> holds no NUL, whether it was written out or escaped,
  and no segment of it but the last can be \<open>..\<close>; when there is no query string, or the path had
  to be unescaped, no segment at all is \<open>..\<close>.\<close>

theorem unsafe_uri_safe:
  assumes "ngx_http_parse_unsafe_uri alloc_ok uri = Some (uri', args)"
  shows "0 \<notin> set uri' \<and> str ''..'' \<notin> set (butlast (segs uri')) \<and>
    (args = None \<or> ch CHR ''%'' \<in> set (takeWhile (\<lambda>c. c \<noteq> ch CHR ''?'') uri) \<longrightarrow> str ''..'' \<notin> set (segs uri'))"
proof -
  obtain q where dd: "\<not> dot_dot_at uri" and sc: "uu_scan False uri = Some (q, args)"
    and quoted: "q \<Longrightarrow> \<not> dot_dot_at uri' \<and> \<not> uu_rescan uri'"
    and plain: "\<not> q \<Longrightarrow> uri' = (case args of None \<Rightarrow> uri | Some p \<Rightarrow> take (length uri - Suc (length p)) uri)"
    using assms by (rule unsafe_uri_cases) blast
  have but: "x \<notin> set xs \<Longrightarrow> x \<notin> set (butlast xs)" for x :: bytes and xs by (meson in_set_butlastD)
  show ?thesis
  proof (cases q)
    case True
    then have "0 \<notin> set uri'" "str ''..'' \<notin> set (segs uri')"
      using quoted unfolding dot_dot_segs uu_rescan_iff by blast+
    then show ?thesis using but by blast
  next
    case False
    show ?thesis
    proof (cases args)
      case None
      have "uri' = uri" using plain None False by simp
      moreover have "0 \<notin> set uri" "str ''..'' \<notin> set (segs uri)"
        using uu_scan_None_args [OF sc [unfolded None]] dd unfolding dot_dot_segs by blast+
      ultimately show ?thesis using but by blast
    next
      case (Some p)
      obtain path where path: "uri = path @ 63 # p" "63 \<notin> set path" "0 \<notin> set path"
        "\<not> dot_dot_later (path @ [63])" "37 \<notin> set path"
        using uu_scan_args [OF sc [unfolded Some]] False by blast
      have "uri' = path" using plain Some False path(1) by simp
      moreover have "takeWhile (\<lambda>c. c \<noteq> 63) uri = path" using path(1,2) by (induction path arbitrary: uri) auto
      moreover have "\<not> dot_dot_at (path @ [63])" using dd path(1) dot_dot_at_query by blast
      ultimately show ?thesis using dot_dot_butlast [OF path(4)] path Some by auto
    qed
  qed
qed

theorem unsafe_uri_safe_witness:
  "ngx_http_parse_unsafe_uri True (str ''/a%2fb'') = Some (str ''/a/b'', None) \<and> 0 \<notin> set (str ''/a/b'')"
proof -
  have "ngx_http_parse_unsafe_uri True (str ''/a%2fb'') = Some (str ''/a/b'', None)"
    by (simp add: ngx_http_parse_unsafe_uri_def usual_bit usual_map_def ngx_unescape_uri_def unescape_usual_def
        unescape_quoted_def unescape_quoted_second_def is_dec_def Let_def)
  then show ?thesis using unsafe_uri_safe [of True "str ''/a%2fb''" "str ''/a/b''" None] by blast
qed

text \<open>The check overlooks a \<open>..\<close> that is followed by a query string: the code tests for the end of
  the whole string, not of the path, so \<open>/..?x\<close> passes and the path handed on is \<open>/..\<close>, although
  \<open>/..\<close> alone is refused.\<close>

theorem unsafe_uri_query_gap:
  "ngx_http_parse_unsafe_uri alloc_ok (str ''/..?x'') = Some (str ''/..'', Some (str ''x'')) \<and>
   ngx_http_parse_unsafe_uri alloc_ok (str ''/..'') = None"
  by (simp add: ngx_http_parse_unsafe_uri_def usual_bit usual_map_def)

subsection \<open>Arguments and header values\<close>

lemma strlchr_None: "ngx_strlchr s c = None \<longleftrightarrow> c \<notin> set s"
  by (induction s) auto

lemma strlchr_Some: "ngx_strlchr s c = Some n \<Longrightarrow> n < length s \<and> s ! n = c \<and> c \<notin> set (take n s)"
  by (induction s arbitrary: n) (auto split: if_splits)

text \<open>Names equal up to ASCII case.\<close>

definition same_name :: "bytes \<Rightarrow> bytes \<Rightarrow> bool" where
  "same_name a b \<longleftrightarrow> map ngx_tolower a = map ngx_tolower b"

lemma strncasecmp_zero:
  "0 \<notin> set name \<Longrightarrow> ngx_strncasecmp s name (length name) = 0 \<Longrightarrow>
   length name \<le> length s \<and> same_name (take (length name) s) name"
proof (induction name arbitrary: s)
  case (Cons c name)
  have "ngx_tolower c \<noteq> 0" using Cons.prems(1) by simp
  then have eq: "ngx_tolower (rd s) = ngx_tolower c" "ngx_strncasecmp (tl s) name (length name) = 0"
    using Cons.prems(2) by (auto simp: Let_def split: if_splits)
  then obtain x s' where "s = x # s'" using \<open>ngx_tolower c \<noteq> 0\<close> by (cases s) auto
  then show ?case using Cons.IH [of "tl s"] Cons.prems(1) eq by (simp add: same_name_def)
qed (simp add: same_name_def)

lemma skip_spaces_split: "\<exists>n. s = replicate n SP @ skip_spaces s"
proof -
  have "takeWhile (\<lambda>c. c = SP) s = replicate (length (takeWhile (\<lambda>c. c = SP) s)) SP"
    by (metis (full_types) replicate_length_same set_takeWhileD)
  then show ?thesis unfolding skip_spaces_def by (metis takeWhile_dropWhile_id)
qed

lemma mh_skip_split: "\<exists>pre. s = pre @ mh_skip s \<and> (mh_skip s \<noteq> [] \<longrightarrow> pre \<noteq> [] \<and> last pre \<in> {59, 44})"
proof (induction s)
  case (Cons c s)
  then obtain pre where "s = pre @ mh_skip s" "mh_skip s \<noteq> [] \<longrightarrow> pre \<noteq> [] \<and> last pre \<in> {59, 44}" by blast
  note pre = this
  show ?case
  proof (cases "c = 59 \<or> c = 44")
    case True
    then have "c # s = [c] @ mh_skip (c # s)" "last [c] \<in> {59, 44}" by auto
    then show ?thesis by blast
  next
    case False
    then have "c # s = (c # pre) @ mh_skip (c # s)" using pre(1) by auto
    moreover have "mh_skip (c # s) \<noteq> [] \<longrightarrow> c # pre \<noteq> [] \<and> last (c # pre) \<in> {59, 44}" using pre(2) False by auto
    ultimately show ?thesis by blast
  qed
qed simp

text \<open>Where a value stands in a header line: at the beginning or behind a separator and spaces comes the
  name, spaces, an equals sign and spaces; behind the value comes a semicolon or the end.\<close>

definition value_at :: "bytes \<Rightarrow> bytes \<Rightarrow> bytes \<Rightarrow> bool" where
  "value_at line name v \<longleftrightarrow>
     (\<exists>pre i nm j k post. line = pre @ replicate i SP @ nm @ replicate j SP @ ch CHR ''='' # replicate k SP @ v @ post \<and>
        same_name nm name \<and> (pre = [] \<or> last pre \<in> {ch CHR '';'', ch CHR '',''}) \<and>
        ch CHR '';'' \<notin> set v \<and> (post = [] \<or> hd post = ch CHR '';''))"

lemma value_at_here:
  assumes "0 \<notin> set name" "ngx_strncasecmp s name (length name) = 0"
    and "skip_spaces (drop (length name) s) = ch CHR ''='' # t"
  shows "value_at s name (takeWhile (\<lambda>c. c \<noteq> ch CHR '';'') (skip_spaces t))"
proof -
  let ?v = "takeWhile (\<lambda>c. c \<noteq> ch CHR '';'') (skip_spaces t)" and ?post = "dropWhile (\<lambda>c. c \<noteq> ch CHR '';'') (skip_spaces t)"
  have nm: "same_name (take (length name) s) name" using strncasecmp_zero [OF assms(1,2)] by simp
  obtain j where j: "drop (length name) s = replicate j SP @ ch CHR ''='' # t" using skip_spaces_split assms(3) by metis
  obtain k where k: "t = replicate k SP @ skip_spaces t" using skip_spaces_split by blast
  have "s = [] @ replicate 0 SP @ take (length name) s @ replicate j SP @ ch CHR ''='' # replicate k SP @ ?v @ ?post"
    using j k by (metis append_Nil append_take_drop_id replicate_0 takeWhile_dropWhile_id)
  moreover have "ch CHR '';'' \<notin> set ?v" using set_takeWhileD by fastforce
  moreover have "?post = [] \<or> hd ?post = ch CHR '';''" by (metis (mono_tags, lifting) hd_dropWhile)
  ultimately show ?thesis using nm unfolding value_at_def by blast
qed

lemma value_at_later:
  assumes "value_at (skip_spaces (mh_skip t)) name v" "s = pre0 @ t"
  shows "value_at s name v"
proof -
  obtain pre i nm j k post where w: "skip_spaces (mh_skip t) = pre @ replicate i SP @ nm @ replicate j SP @ ch CHR ''='' # replicate k SP @ v @ post"
    "same_name nm name" "pre = [] \<or> last pre \<in> {ch CHR '';'', ch CHR '',''}" "ch CHR '';'' \<notin> set v"
    "post = [] \<or> hd post = ch CHR '';''"
    using assms(1) unfolding value_at_def by blast
  obtain n where n: "mh_skip t = replicate n SP @ skip_spaces (mh_skip t)" using skip_spaces_split by blast
  obtain sep where sep: "t = sep @ mh_skip t" "mh_skip t \<noteq> [] \<longrightarrow> sep \<noteq> [] \<and> last sep \<in> {59, 44}"
    using mh_skip_split by blast
  have ne: "mh_skip t \<noteq> []" using n w(1) by (metis append_is_Nil_conv list.distinct(1))
  show ?thesis
  proof (cases "pre = []")
    case True
    have "s = (pre0 @ sep) @ replicate (n + i) SP @ nm @ replicate j SP @ ch CHR ''='' # replicate k SP @ v @ post"
      using assms(2) sep(1) n w(1) True by (metis append.assoc append_Nil replicate_add)
    moreover have "last (pre0 @ sep) \<in> {ch CHR '';'', ch CHR '',''}" using sep(2) ne by simp
    ultimately show ?thesis using w(2,4,5) unfolding value_at_def by blast
  next
    case False
    have "s = (pre0 @ sep @ replicate n SP @ pre) @ replicate i SP @ nm @ replicate j SP @ ch CHR ''='' # replicate k SP @ v @ post"
      using assms(2) sep(1) n w(1) by (metis append.assoc)
    moreover have "last (pre0 @ sep @ replicate n SP @ pre) = last pre" using False by simp
    ultimately show ?thesis using w(2-5) False unfolding value_at_def by metis
  qed
qed

lemma mh_line_sound:
  "0 \<notin> set name \<Longrightarrow> mh_line True name s = Some v \<Longrightarrow> value_at s name v"
proof (induction "length s" arbitrary: s rule: less_induct)
  case less
  note ln = mh_line.simps [of True name s]
  have ne: "s \<noteq> []" using less.prems(2) ln by auto
  have skip: "length (skip_spaces (mh_skip t)) < length t" if "t \<noteq> []" for t
  proof -
    have "0 < length t" using that by simp
    then show ?thesis using skip_spaces_length [of "mh_skip t"] mh_skip_length [of t] by linarith
  qed
  show ?case
  proof (cases "ngx_strncasecmp s name (length name) = 0")
    case False
    then have "mh_line True name (skip_spaces (mh_skip s)) = Some v" using less.prems(2) ln ne by simp
    then show ?thesis
      using less.hyps [OF skip [OF ne] less.prems(1)] value_at_later [of s name v s "[]"] by simp
  next
    case True
    let ?t = "skip_spaces (drop (length name) s)"
    have t: "?t \<noteq> []" using less.prems(2) ln ne True by (auto simp: Let_def)
    then obtain c t' where ct: "?t = c # t'" by (cases ?t) auto
    show ?thesis
    proof (cases "c = 61")
      case True
      then show ?thesis
        using less.prems ln ne \<open>ngx_strncasecmp s name (length name) = 0\<close> ct
          value_at_here [of name s t'] by (simp add: Let_def)
    next
      case False
      then have m: "mh_line True name (skip_spaces (mh_skip t')) = Some v"
        using less.prems(2) ln ne True ct by (simp add: Let_def)
      obtain n where n: "drop (length name) s = replicate n SP @ c # t'"
        using skip_spaces_split [of "drop (length name) s"] ct by auto
      have s: "s = (take (length name) s @ replicate n SP @ [c]) @ t'"
        using n append_take_drop_id [of "length name" s] by simp
      have "length t' < length s" by (subst s) simp
      then have "length (skip_spaces (mh_skip t')) < length s"
        using skip_spaces_length [of "mh_skip t'"] mh_skip_length [of t'] by linarith
      then show ?thesis
        using less.hyps [OF _ less.prems(1) m] value_at_later [OF _ s] by blast
    qed
  qed
qed

lemma mh_headers_sound:
  "0 \<notin> set name \<Longrightarrow> mh_headers i vs True name = Some (k, v) \<Longrightarrow>
   i \<le> k \<and> k - i < length vs \<and> value_at (vs ! (k - i)) name v"
proof (induction vs arbitrary: i)
  case (Cons x vs)
  show ?case
  proof (cases "length name \<le> length x \<and> mh_line True name x \<noteq> None")
    case True
    then obtain w where w: "mh_line True name x = Some w" by auto
    then have "k = i" "v = w" using True Cons.prems(2) by auto
    then show ?thesis using mh_line_sound [OF Cons.prems(1)] w by simp
  next
    case False
    then have "mh_headers (Suc i) vs True name = Some (k, v)"
      using Cons.prems(2) by (cases "length name \<le> length x") simp_all
    then have IH: "Suc i \<le> k" "k - Suc i < length vs" "value_at (vs ! (k - Suc i)) name v"
      using Cons.IH [OF Cons.prems(1)] by auto
    then have "k - i = Suc (k - Suc i)" by simp
    then show ?thesis using IH by simp
  qed
qed simp

text \<open>A cookie value found in the request's header lines is really the value of that name: it stands in
  the reported header behind the name (in any case), at the start of the line or behind a
  separator, and extends up to the next semicolon or the end.\<close>

theorem multi_header_sound:
  assumes "ngx_http_parse_multi_header_lines headers True name = Some (k, v)" "0 \<notin> set name"
  shows "k < length headers \<and> value_at (headers ! k) name v"
  using mh_headers_sound [OF assms(2), of 0 headers k v] assms(1)
  by (simp add: ngx_http_parse_multi_header_lines_def)

theorem multi_header_sound_witness:
  "ngx_http_parse_multi_header_lines [str ''a=1; B = 22;c''] True (str ''b'') = Some (0, str ''22'') \<and>
   value_at (str ''a=1; B = 22;c'') (str ''b'') (str ''22'')"
proof -
  have "ngx_http_parse_multi_header_lines [str ''a=1; B = 22;c''] True (str ''b'') = Some (0, str ''22'')"
    by (simp add: ngx_http_parse_multi_header_lines_def mh_line.simps skip_spaces_def ngx_tolower_def Let_def)
  then show ?thesis using multi_header_sound [of "[str ''a=1; B = 22;c'']" "str ''b''" 0 "str ''22''"] by simp
qed

text \<open>An attribute without a value hides the one that follows it: the byte that is not an equals sign
  is consumed, and if it is the separator, the next attribute is skipped with it.\<close>

theorem multi_header_hidden:
  "ngx_http_parse_multi_header_lines [str ''a;a=1''] True (str ''a'') = None \<and>
   ngx_http_parse_multi_header_lines [str ''b;a=1''] True (str ''a'') = Some (0, str ''1'')"
  by (simp add: ngx_http_parse_multi_header_lines_def mh_line.simps skip_spaces_def ngx_tolower_def Let_def)

text \<open>Splitting off the arguments loses nothing but the first question mark.\<close>

theorem split_args_join:
  "case ngx_http_split_args uri of (path, args) \<Rightarrow>
     ch CHR ''?'' \<notin> set path \<and> (if ch CHR ''?'' \<in> set uri then uri = path @ ch CHR ''?'' # args else path = uri \<and> args = [])"
proof (cases "ngx_strlchr uri 63")
  case None
  then show ?thesis using strlchr_None [of uri 63] by (simp add: ngx_http_split_args_def)
next
  case (Some n)
  then have n: "n < length uri" "uri ! n = 63" "63 \<notin> set (take n uri)" using strlchr_Some by blast+
  then have "uri = take n uri @ 63 # drop (Suc n) uri" using id_take_nth_drop [of n uri] by simp
  moreover have "63 \<in> set uri" using n(1,2) nth_mem by fastforce
  ultimately show ?thesis using Some n(3) by (simp add: ngx_http_split_args_def)
qed

lemma strlcasestrn_loop_sound:
  "ngx_strlcasestrn_loop off (ngx_tolower c) name (length name) s = Some i \<Longrightarrow> 0 \<notin> set name \<Longrightarrow>
   off \<le> i \<and> i - off + Suc (length name) \<le> length s \<and> same_name (take (Suc (length name)) (drop (i - off) s)) (c # name)"
proof (induction s arbitrary: off)
  case (Cons x s)
  show ?case
  proof (cases "ngx_tolower x = ngx_tolower c \<and> ngx_strncasecmp s name (length name) = 0")
    case True
    then have "i = off" using Cons.prems(1) by (auto split: if_splits)
    then show ?thesis
      using True Cons.prems strncasecmp_zero [of name s] by (auto simp: same_name_def split: if_splits)
  next
    case False
    then have "ngx_strlcasestrn_loop (Suc off) (ngx_tolower c) name (length name) s = Some i"
      using Cons.prems(1) by (auto split: if_splits)
    then have IH: "Suc off \<le> i" "i - Suc off + Suc (length name) \<le> length s"
      "same_name (take (Suc (length name)) (drop (i - Suc off) s)) (c # name)"
      using Cons.IH [of "Suc off"] Cons.prems(2) by auto
    moreover have "i - off = Suc (i - Suc off)" using IH(1) by simp
    ultimately show ?thesis by simp
  qed
qed simp

lemma strlcasestrn_sound:
  assumes "ngx_strlcasestrn s name (length name - 1) = Some i" "name \<noteq> []" "0 \<notin> set name"
  shows "i + length name \<le> length s \<and> same_name (take (length name) (drop i s)) name"
proof -
  obtain c name' where n: "name = c # name'" using assms(2) by (cases name) auto
  show ?thesis
    using strlcasestrn_loop_sound [of 0 c name' s i] assms by (simp add: ngx_strlcasestrn_def n)
qed

text \<open>Where an argument stands: at the start or behind an ampersand comes the name and an equals sign,
  behind the value an ampersand or the end.\<close>

definition arg_at :: "bytes \<Rightarrow> bytes \<Rightarrow> bytes \<Rightarrow> bool" where
  "arg_at args name v \<longleftrightarrow>
     (\<exists>pre nm post. args = pre @ nm @ ch CHR ''='' # v @ post \<and> same_name nm name \<and>
        (pre = [] \<or> last pre = ch CHR ''&'') \<and> ch CHR ''&'' \<notin> set v \<and> (post = [] \<or> hd post = ch CHR ''&''))"

lemma same_name_length: "same_name a b \<Longrightarrow> length a = length b"
  unfolding same_name_def by (rule map_eq_imp_length_eq)

lemma same_name_amp: "same_name a b \<Longrightarrow> 38 \<in> set a \<Longrightarrow> 38 \<in> set b"
proof -
  assume s: "same_name a b" and "38 \<in> set a"
  then have "ngx_tolower 38 \<in> set (map ngx_tolower b)" unfolding same_name_def by (metis image_eqI list.set_map)
  then obtain x where "x \<in> set b" "ngx_tolower x = ngx_tolower 38" by auto
  moreover have "ngx_tolower 38 = 38" by (simp add: ngx_tolower_def)
  ultimately show ?thesis using tolower_const [of 38 x] by simp
qed

lemma arg_value:
  assumes q: "q + length name < length args" "args ! (q + length name) = 61"
    and nm: "same_name (take (length name) (drop q args)) name" "38 \<notin> set name"
    and pre: "q = 0 \<or> args ! (q - 1) = 38"
  shows "arg_at args name (slice args (q + length name + 1)
    (case ngx_strlchr (drop q args) 38 of None \<Rightarrow> length args | Some j \<Rightarrow> q + j))"
proof -
  define r where "r = drop (q + length name + 1) args"
  define m where "m = take (length name) (drop q args)"
  have l: "length m = length name" using q(1) by (simp add: m_def)
  have d: "drop q args = m @ 61 # r"
  proof -
    have "drop (q + length name) args = 61 # r" using q by (metis Cons_nth_drop_Suc Suc_eq_plus1 r_def)
    then show ?thesis using append_take_drop_id [of "length name" "drop q args"] by (simp add: m_def add.commute)
  qed
  have a: "args = take q args @ m @ 61 # r" using append_take_drop_id [of q args] d by simp
  have amp: "38 \<notin> set m" using same_name_amp [OF nm(1)] nm(2) by (auto simp: m_def)
  have nm': "same_name m name" using nm(1) by (simp add: m_def)
  have p: "take q args = [] \<or> last (take q args) = 38"
    using pre q(1) by (cases q) (auto simp: take_Suc_conv_app_nth)
  have at: "arg_at args name v" if "r = v @ post" "38 \<notin> set v" "post = [] \<or> hd post = 38" for v post
  proof -
    have "args = take q args @ m @ ch CHR ''='' # v @ post \<and> same_name m name \<and>
        (take q args = [] \<or> last (take q args) = ch CHR ''&'') \<and> ch CHR ''&'' \<notin> set v \<and>
        (post = [] \<or> hd post = ch CHR ''&'')"
      using a p nm' that by simp
    then show ?thesis unfolding arg_at_def by blast
  qed
  show ?thesis
  proof (cases "ngx_strlchr (drop q args) 38")
    case None
    then have "38 \<notin> set (m @ 61 # r)" using strlchr_None [of "drop q args" 38] d by simp
    moreover have "slice args (q + length name + 1) (length args) = r" by (simp add: slice_def r_def)
    ultimately show ?thesis using None at [of r "[]"] by simp
  next
    case (Some k)
    then have k: "k < length (m @ 61 # r)" "(m @ 61 # r) ! k = 38" "38 \<notin> set (take k (m @ 61 # r))"
      using strlchr_Some [of "drop q args" 38 k] unfolding d by blast+
    have "\<not> k < length m" using k(2) amp by (metis nth_append nth_mem)
    moreover have "k \<noteq> length m" using k(2) by auto
    ultimately obtain n where n: "k = length m + Suc n" using less_imp_Suc_add [of "length m" k] by auto
    have "slice args (q + length name + 1) (q + k) = take n r" using n l by (simp add: slice_def r_def)
    moreover have "38 \<notin> set (take n r)" using k(3) n by simp
    moreover have "hd (drop n r) = 38" using k(1,2) n by (simp add: hd_drop_conv_nth nth_append)
    ultimately show ?thesis using Some at [of "take n r" "drop n r"] by simp
  qed
qed

lemma arg_loop_sound:
  assumes "name \<noteq> []" "0 \<notin> set name" "38 \<notin> set name"
  shows "arg_loop args name p = Some v \<Longrightarrow> arg_at args name v"
proof (induction "length args - p" arbitrary: p rule: less_induct)
  case less
  note ln = arg_loop.simps [of args name p]
  have p: "p < length args" using less.prems ln by (auto split: if_splits)
  obtain i where i: "ngx_strlcasestrn (drop p (butlast args)) name (length name - 1) = Some i"
    using less.prems ln p by (auto split: option.splits)
  let ?q = "p + i"
  have b: "i + length name \<le> length args - 1 - p" "same_name (take (length name) (drop i (drop p (butlast args)))) name"
    using strlcasestrn_sound [OF i assms(1,2)] by simp_all
  have q: "?q + length name < length args" using b(1) p by linarith
  obtain bs x where bx: "args = bs @ [x]" using p by (cases args rule: rev_cases) auto
  have nm: "same_name (take (length name) (drop ?q args)) name"
    using b q by (simp add: bx add.commute)
  show ?case
  proof (cases "(?q = 0 \<or> args ! (?q - 1) = 38) \<and> args ! (?q + length name) = 61")
    case True
    then show ?thesis
      using less.prems ln p i arg_value [OF q _ nm assms(3)] by (simp add: Let_def)
  next
    case False
    then have "arg_loop args name (?q + 1) = Some v" using less.prems ln p i by (auto simp: Let_def split: if_splits)
    then show ?thesis using less.hyps [of "?q + 1"] p by simp
  qed
qed

text \<open>A query argument found by \<open>ngx_http_arg\<close> is the value of that name: it stands behind the name and
  an equals sign, at the start of the query or behind an ampersand, and extends to the next
  ampersand or the end; the byte tested behind the name lies inside the query.\<close>

theorem http_arg_sound:
  assumes "ngx_http_arg args name = Some v" "name \<noteq> []" "0 \<notin> set name" "ch CHR ''&'' \<notin> set name"
  shows "arg_at args name v"
  using arg_loop_sound [of name args 0 v] assms by (simp add: ngx_http_arg_def split: if_splits)

theorem http_arg_sound_witness:
  "ngx_http_arg (str ''xa=0&A=1&b'') (str ''a'') = Some (str ''1'') \<and> arg_at (str ''xa=0&A=1&b'') (str ''a'') (str ''1'')"
proof -
  have "ngx_http_arg (str ''xa=0&A=1&b'') (str ''a'') = Some (str ''1'')"
    by (simp add: ngx_http_arg_def arg_loop.simps ngx_strlcasestrn_def ngx_tolower_def slice_def Let_def)
  then show ?thesis using http_arg_sound [of "str ''xa=0&A=1&b''" "str ''a''" "str ''1''"] by simp
qed

end
