(* ===== verification/Ngx_Queue.thy ===== *)
theory Ngx_Queue
  imports Ngx_Prelude "HOL-Library.Multiset"
begin

section \<open>Queues\<close>

text \<open>
  The intrusive doubly linked queues of \<open>src/core/ngx_queue.h\<close> and \<open>src/core/ngx_queue.c\<close>. The
  queue headers and links live in a store: the maps \<open>q_prev\<close> and \<open>q_next\<close> give the two pointers of
  the \<open>ngx_queue_t\<close> at an address. The macros are the sequence of their assignments, each reading
  the store the one before left, so that aliasing between header and elements is as in the code.
  The store is an extensible record: components whose objects carry a queue link add their fields.
  \<open>ngx_queue_remove\<close> is that of a build without \<open>NGX_DEBUG\<close>.
\<close>

record qstore =
  q_prev :: "addr \<Rightarrow> addr"
  q_next :: "addr \<Rightarrow> addr"

abbreviation set_prev :: "addr \<Rightarrow> addr \<Rightarrow> 'z qstore_scheme \<Rightarrow> 'z qstore_scheme" where
  "set_prev q v s \<equiv> s\<lparr>q_prev := (q_prev s)(q := v)\<rparr>"

abbreviation set_next :: "addr \<Rightarrow> addr \<Rightarrow> 'z qstore_scheme \<Rightarrow> 'z qstore_scheme" where
  "set_next q v s \<equiv> s\<lparr>q_next := (q_next s)(q := v)\<rparr>"

subsection \<open>The operations\<close>

definition ngx_queue_init :: "addr \<Rightarrow> 'z qstore_scheme \<Rightarrow> 'z qstore_scheme" where
  "ngx_queue_init q s = (let s = set_prev q q s in set_next q q s)"

definition ngx_queue_empty :: "'z qstore_scheme \<Rightarrow> addr \<Rightarrow> bool" where
  "ngx_queue_empty s h \<longleftrightarrow> h = q_prev s h"

definition ngx_queue_insert_head :: "addr \<Rightarrow> addr \<Rightarrow> 'z qstore_scheme \<Rightarrow> 'z qstore_scheme" where
  "ngx_queue_insert_head h x s =
     (let s = set_next x (q_next s h) s;
          s = set_prev (q_next s x) x s;
          s = set_prev x h s
      in set_next h x s)"

definition ngx_queue_insert_after :: "addr \<Rightarrow> addr \<Rightarrow> 'z qstore_scheme \<Rightarrow> 'z qstore_scheme" where
  "ngx_queue_insert_after h x s = ngx_queue_insert_head h x s"

definition ngx_queue_insert_tail :: "addr \<Rightarrow> addr \<Rightarrow> 'z qstore_scheme \<Rightarrow> 'z qstore_scheme" where
  "ngx_queue_insert_tail h x s =
     (let s = set_prev x (q_prev s h) s;
          s = set_next (q_prev s x) x s;
          s = set_next x h s
      in set_prev h x s)"

definition ngx_queue_head :: "'z qstore_scheme \<Rightarrow> addr \<Rightarrow> addr" where
  "ngx_queue_head s h = q_next s h"

definition ngx_queue_last :: "'z qstore_scheme \<Rightarrow> addr \<Rightarrow> addr" where
  "ngx_queue_last s h = q_prev s h"

definition ngx_queue_next :: "'z qstore_scheme \<Rightarrow> addr \<Rightarrow> addr" where
  "ngx_queue_next s q = q_next s q"

definition ngx_queue_prev :: "'z qstore_scheme \<Rightarrow> addr \<Rightarrow> addr" where
  "ngx_queue_prev s q = q_prev s q"

definition ngx_queue_remove :: "addr \<Rightarrow> 'z qstore_scheme \<Rightarrow> 'z qstore_scheme" where
  "ngx_queue_remove x s =
     (let s = set_prev (q_next s x) (q_prev s x) s
      in set_next (q_prev s x) (q_next s x) s)"

definition ngx_queue_split :: "addr \<Rightarrow> addr \<Rightarrow> addr \<Rightarrow> 'z qstore_scheme \<Rightarrow> 'z qstore_scheme" where
  "ngx_queue_split h q n s =
     (let s = set_prev n (q_prev s h) s;
          s = set_next (q_prev s n) n s;
          s = set_next n q s;
          s = set_prev h (q_prev s q) s;
          s = set_next (q_prev s h) h s
      in set_prev q n s)"

definition ngx_queue_add :: "addr \<Rightarrow> addr \<Rightarrow> 'z qstore_scheme \<Rightarrow> 'z qstore_scheme" where
  "ngx_queue_add h n s =
     (let s = set_next (q_prev s h) (q_next s n) s;
          s = set_prev (q_next s n) (q_prev s h) s;
          s = set_prev h (q_prev s n) s
      in set_next (q_prev s h) h s)"

text \<open>The loop of \<open>ngx_queue_middle\<close>: \<open>None\<close> would be a loop that never returns.\<close>

partial_function (option) middle_loop :: "'z qstore_scheme \<Rightarrow> addr \<Rightarrow> addr \<Rightarrow> addr \<Rightarrow> addr option" where
  "middle_loop s queue middle nxt =
     (let middle = ngx_queue_next s middle; nxt = ngx_queue_next s nxt in
      if nxt = ngx_queue_last s queue then Some middle
      else let nxt = ngx_queue_next s nxt in
        if nxt = ngx_queue_last s queue then Some middle
        else middle_loop s queue middle nxt)"

definition ngx_queue_middle :: "'z qstore_scheme \<Rightarrow> addr \<Rightarrow> addr option" where
  "ngx_queue_middle s queue =
     (let middle = ngx_queue_head s queue in
      if middle = ngx_queue_last s queue then Some middle
      else middle_loop s queue middle (ngx_queue_head s queue))"

text \<open>The inner loop of \<open>ngx_queue_sort\<close> walks back from \<open>prev\<close>, the outer loop takes the elements
  in turn. The callback \<open>cmp\<close> is an argument, as in the code.\<close>

partial_function (option) sort_back ::
  "(addr \<Rightarrow> addr \<Rightarrow> int) \<Rightarrow> 'z qstore_scheme \<Rightarrow> addr \<Rightarrow> addr \<Rightarrow> addr \<Rightarrow> addr option" where
  "sort_back cmp s queue q prev =
     (if cmp prev q \<le> 0 then Some prev
      else let prev = ngx_queue_prev s prev in
        if prev = queue then Some prev else sort_back cmp s queue q prev)"

partial_function (option) sort_loop ::
  "(addr \<Rightarrow> addr \<Rightarrow> int) \<Rightarrow> addr \<Rightarrow> addr \<Rightarrow> 'z qstore_scheme \<Rightarrow> 'z qstore_scheme option" where
  "sort_loop cmp queue q s =
     (if q = queue then Some s
      else let prev = ngx_queue_prev s q; nxt = ngx_queue_next s q; s = ngx_queue_remove q s in
        case sort_back cmp s queue q prev of
          None \<Rightarrow> None
        | Some prev \<Rightarrow> sort_loop cmp queue nxt (ngx_queue_insert_after prev q s))"

definition ngx_queue_sort ::
  "(addr \<Rightarrow> addr \<Rightarrow> int) \<Rightarrow> addr \<Rightarrow> 'z qstore_scheme \<Rightarrow> 'z qstore_scheme option" where
  "ngx_queue_sort cmp queue s =
     (let q = ngx_queue_head s queue in
      if q = ngx_queue_last s queue then Some s
      else sort_loop cmp queue (ngx_queue_next s q) s)"

lemmas queue_defs = ngx_queue_init_def ngx_queue_empty_def ngx_queue_insert_head_def
  ngx_queue_insert_after_def ngx_queue_insert_tail_def ngx_queue_head_def ngx_queue_last_def
  ngx_queue_next_def ngx_queue_prev_def ngx_queue_remove_def ngx_queue_split_def ngx_queue_add_def

subsection \<open>The list a header stands for\<close>

text \<open>\<open>seg s a xs b\<close>: the links lead from \<open>a\<close> through \<open>xs\<close> to \<open>b\<close>, in both directions. A queue is a
  segment from the header back to it.\<close>

fun seg :: "'z qstore_scheme \<Rightarrow> addr \<Rightarrow> addr list \<Rightarrow> addr \<Rightarrow> bool" where
  "seg s a [] b \<longleftrightarrow> q_next s a = b \<and> q_prev s b = a"
| "seg s a (x # xs) b \<longleftrightarrow> q_next s a = x \<and> q_prev s x = a \<and> seg s x xs b"

definition queue :: "'z qstore_scheme \<Rightarrow> addr \<Rightarrow> addr list \<Rightarrow> bool" where
  "queue s h xs \<longleftrightarrow> distinct (h # xs) \<and> seg s h xs h"

lemma seg_append: "seg s a (xs @ y # ys) b \<longleftrightarrow> seg s a xs y \<and> seg s y ys b"
  by (induction xs arbitrary: a) auto

lemma seg_frame:
  "\<lbrakk>\<forall>x \<in> insert a (set xs). q_next s' x = q_next s x; \<forall>x \<in> insert b (set xs). q_prev s' x = q_prev s x\<rbrakk>
   \<Longrightarrow> seg s' a xs b \<longleftrightarrow> seg s a xs b"
  by (induction xs arbitrary: a) auto

lemma seg_set_prev [simp]: "q \<noteq> b \<Longrightarrow> q \<notin> set xs \<Longrightarrow> seg (set_prev q v s) a xs b \<longleftrightarrow> seg s a xs b"
  by (rule seg_frame) auto

lemma seg_set_next [simp]: "q \<noteq> a \<Longrightarrow> q \<notin> set xs \<Longrightarrow> seg (set_next q v s) a xs b \<longleftrightarrow> seg s a xs b"
  by (rule seg_frame) auto

text \<open>A segment is determined by its ends: what the first and last links are.\<close>

lemma seg_ends: "seg s a xs b \<Longrightarrow> q_next s a = hd (xs @ [b]) \<and> q_prev s b = last (a # xs)"
  by (induction xs arbitrary: a) auto

lemma seg_unique: "\<lbrakk>seg s a xs b; seg s a ys b; b \<notin> set xs; b \<notin> set ys\<rbrakk> \<Longrightarrow> xs = ys"
proof (induction xs arbitrary: a ys)
  case Nil
  then show ?case by (cases ys) auto
next
  case (Cons x xs)
  then show ?case by (cases ys) auto
qed

lemma queue_unique: "queue s h xs \<Longrightarrow> queue s h ys \<Longrightarrow> xs = ys"
  using seg_unique unfolding queue_def by fastforce


lemma queueD: "queue s h xs \<Longrightarrow> distinct (h # xs) \<and> q_next s h = hd (xs @ [h]) \<and> q_prev s h = last (h # xs)"
  using seg_ends unfolding queue_def by blast

text \<open>What each operation does to the two link maps, when the assigned addresses are different.\<close>

lemma init_links:
  "q_next (ngx_queue_init q s) = (q_next s)(q := q)" "q_prev (ngx_queue_init q s) = (q_prev s)(q := q)"
  by (simp_all add: ngx_queue_init_def)

lemma insert_head_links:
  assumes "x \<noteq> h" "x \<noteq> q_next s h"
  shows "q_next (ngx_queue_insert_head h x s) = (q_next s)(x := q_next s h, h := x)"
    and "q_prev (ngx_queue_insert_head h x s) = (q_prev s)(q_next s h := x, x := h)"
  using assms by (simp_all add: ngx_queue_insert_head_def Let_def)

lemma insert_tail_links:
  assumes "x \<noteq> h" "x \<noteq> q_prev s h"
  shows "q_prev (ngx_queue_insert_tail h x s) = (q_prev s)(x := q_prev s h, h := x)"
    and "q_next (ngx_queue_insert_tail h x s) = (q_next s)(q_prev s h := x, x := h)"
  using assms by (simp_all add: ngx_queue_insert_tail_def Let_def)

lemma remove_links:
  assumes "x \<noteq> q_next s x"
  shows "q_next (ngx_queue_remove x s) = (q_next s)(q_prev s x := q_next s x)"
    and "q_prev (ngx_queue_remove x s) = (q_prev s)(q_next s x := q_prev s x)"
  using assms by (simp_all add: ngx_queue_remove_def Let_def)

lemma queue_init: "queue (ngx_queue_init q s) q []"
  by (simp add: queue_def init_links)

lemma queue_empty: "queue s h xs \<Longrightarrow> ngx_queue_empty s h \<longleftrightarrow> xs = []"
  using queueD [of s h xs] by (cases xs rule: rev_cases) (auto simp: ngx_queue_empty_def)

lemma queue_head: "queue s h xs \<Longrightarrow> ngx_queue_head s h = hd (xs @ [h])"
  by (simp add: queueD ngx_queue_head_def)

lemma queue_last: "queue s h xs \<Longrightarrow> ngx_queue_last s h = last (h # xs)"
  by (simp add: queueD ngx_queue_last_def)

lemma seg_insert:
  assumes "seg s a xs b" "x \<noteq> a" "x \<noteq> b" "x \<notin> set xs" "distinct xs" "a \<notin> set xs" "b \<notin> set xs"
  shows "seg (ngx_queue_insert_head a x s) a (x # xs) b" "seg (ngx_queue_insert_tail b x s) a (xs @ [x]) b"
proof -
  have n: "x \<noteq> q_next s a" "x \<noteq> q_prev s b" using assms seg_ends [OF assms(1)] by (cases xs; auto)+
  show "seg (ngx_queue_insert_head a x s) a (x # xs) b"
  proof (cases xs)
    case (Cons y ys)
    then have "seg (ngx_queue_insert_head a x s) y ys b \<longleftrightarrow> seg s y ys b"
      using assms n by (intro seg_frame) (auto simp: insert_head_links)
    then show ?thesis using Cons assms n by (simp add: insert_head_links)
  qed (use assms n in \<open>simp add: insert_head_links\<close>)
  show "seg (ngx_queue_insert_tail b x s) a (xs @ [x]) b"
  proof (cases xs rule: rev_cases)
    case (snoc ys y)
    then have "seg (ngx_queue_insert_tail b x s) a ys y \<longleftrightarrow> seg s a ys y"
      using assms n by (intro seg_frame) (auto simp: insert_tail_links seg_append)
    then show ?thesis using snoc assms n by (simp add: insert_tail_links seg_append)
  qed (use assms n in \<open>simp add: insert_tail_links\<close>)
qed

lemma queue_insert_head:
  "queue s h xs \<Longrightarrow> x \<notin> set (h # xs) \<Longrightarrow> queue (ngx_queue_insert_head h x s) h (x # xs)"
  using seg_insert(1) [of s h xs h x] by (simp add: queue_def)

lemma queue_insert_tail:
  "queue s h xs \<Longrightarrow> x \<notin> set (h # xs) \<Longrightarrow> queue (ngx_queue_insert_tail h x s) h (xs @ [x])"
  using seg_insert(2) [of s h xs h x] by (simp add: queue_def)

lemma queue_insert_after:
  assumes "queue s h (xs @ y # ys)" "x \<notin> set (h # xs @ y # ys)"
  shows "queue (ngx_queue_insert_after y x s) h (xs @ y # x # ys)"
proof -
  have d: "distinct (h # xs @ y # ys)" "seg s h xs y" "seg s y ys h"
    using assms(1) by (auto simp: queue_def seg_append)
  have n: "q_next s y = hd (ys @ [h])" using seg_ends [OF d(3)] by simp
  then have "x \<noteq> q_next s y" using assms(2) by (cases ys) auto
  then have "seg (ngx_queue_insert_head y x s) h xs y \<longleftrightarrow> seg s h xs y"
    using d(1) assms(2) n by (intro seg_frame) (cases ys; auto simp: insert_head_links)+
  moreover have "seg (ngx_queue_insert_head y x s) y (x # ys) h"
    using d assms(2) by (intro seg_insert) auto
  ultimately show ?thesis
    using d assms(2) by (auto simp: queue_def ngx_queue_insert_after_def seg_append)
qed

lemma queue_remove:
  assumes "queue s h (xs @ x # ys)"
  shows "queue (ngx_queue_remove x s) h (xs @ ys)"
proof -
  have d: "distinct (h # xs @ x # ys)" "seg s h xs x" "seg s x ys h"
    using assms by (auto simp: queue_def seg_append)
  have n: "q_next s x = hd (ys @ [h])" "q_prev s x = last (h # xs)"
    using seg_ends [OF d(2)] seg_ends [OF d(3)] by auto
  then have x: "x \<noteq> q_next s x" using d(1) by (cases ys) auto
  note l = remove_links [OF x]
  have "seg (ngx_queue_remove x s) h (xs @ ys) h"
  proof (cases xs rule: rev_cases; cases ys)
    assume "xs = []" "ys = []" then show ?thesis using d n by (simp add: l)
  next
    fix y zs assume c: "xs = []" "ys = y # zs"
    then have "seg (ngx_queue_remove x s) y zs h \<longleftrightarrow> seg s y zs h"
      using d n by (intro seg_frame) (auto simp: l)
    then show ?thesis using c d n by (simp add: l)
  next
    fix ws w assume c: "xs = ws @ [w]" "ys = []"
    then have "seg (ngx_queue_remove x s) h ws w \<longleftrightarrow> seg s h ws w"
      using d n by (intro seg_frame) (auto simp: l)
    then show ?thesis using c d n by (simp add: l seg_append)
  next
    fix ws w y zs assume c: "xs = ws @ [w]" "ys = y # zs"
    have "seg (ngx_queue_remove x s) h ws w \<longleftrightarrow> seg s h ws w"
      using c d(1) n by (intro seg_frame) (auto simp: l)
    moreover have "seg (ngx_queue_remove x s) y zs h \<longleftrightarrow> seg s y zs h"
      using c d(1) n by (intro seg_frame) (auto simp: l)
    ultimately show ?thesis using c d n by (simp add: l seg_append)
  qed
  then show ?thesis using d(1) by (simp add: queue_def)
qed


text \<open>Splitting and joining.\<close>

lemma queue_split:
  assumes "queue s h (xs @ q # ys)" "n \<notin> set (h # xs @ q # ys)"
  shows "queue (ngx_queue_split h q n s) h xs \<and> queue (ngx_queue_split h q n s) n (q # ys)"
proof -
  have d: "distinct (h # xs @ q # ys)" "seg s h xs q" "seg s q ys h"
    using assms(1) by (auto simp: queue_def seg_append)
  have e: "q_prev s h = last (q # ys)" "q_prev s q = last (h # xs)"
    using seg_ends [OF d(2)] seg_ends [OF d(3)] by auto
  have m: "last (q # ys) \<in> set (q # ys)" "last (h # xs) \<in> set (h # xs)" by (rule last_in_set; simp)+
  let ?s = "ngx_queue_split h q n s"
  have l: "q_next ?s = (q_next s)(last (q # ys) := n, n := q, last (h # xs) := h)"
    "q_prev ?s = (q_prev s)(n := last (q # ys), h := last (h # xs), q := n)"
    using d(1) assms(2) e m by (auto simp: ngx_queue_split_def Let_def fun_upd_twist)
  have "seg ?s h xs h"
  proof (cases xs rule: rev_cases)
    case (snoc ws w)
    then have "seg ?s h ws w \<longleftrightarrow> seg s h ws w"
      using d(1) assms(2) m by (intro seg_frame) (auto simp: l)
    then show ?thesis using snoc d assms(2) m by (auto simp: l seg_append)
  qed (use d assms(2) m in \<open>auto simp: l\<close>)
  moreover have "seg ?s n (q # ys) n"
  proof (cases ys rule: rev_cases)
    case (snoc ws w)
    then have "seg ?s q ws w \<longleftrightarrow> seg s q ws w"
      using d(1) assms(2) m by (intro seg_frame) (auto simp: l)
    then show ?thesis using snoc d assms(2) m by (auto simp: l seg_append)
  qed (use d assms(2) m in \<open>auto simp: l\<close>)
  ultimately show ?thesis using d(1) assms(2) by (auto simp: queue_def)
qed

lemma queue_add:
  assumes "queue s h xs" "queue s n ys" "set (h # xs) \<inter> set (n # ys) = {}"
  shows "queue (ngx_queue_add h n s) h (xs @ ys)"
proof (cases ys)
  case Nil
  then have n: "q_next s n = n" "q_prev s n = n" using assms(2) by (auto simp: queue_def)
  have e: "q_prev s h = last (h # xs)" "last (h # xs) \<in> set (h # xs)" using queueD [OF assms(1)] by auto
  have l: "q_next (ngx_queue_add h n s) = (q_next s)(last (h # xs) := h)"
    "q_prev (ngx_queue_add h n s) = (q_prev s)(n := last (h # xs), h := last (h # xs))"
    using e n assms(3) by (auto simp: ngx_queue_add_def Let_def)
  have "q_next s (last (h # xs)) = h"
    using assms(1) by (cases xs rule: rev_cases) (auto simp: queue_def seg_append)
  then have "seg (ngx_queue_add h n s) h xs h \<longleftrightarrow> seg s h xs h"
    using assms(3) e by (intro seg_frame) (auto simp: l)
  then show ?thesis using assms(1) Nil by (simp add: queue_def)
next
  case (Cons y zs)
  have d: "distinct (h # xs)" "distinct (n # y # zs)" "seg s h xs h" "seg s n [] y" "seg s y zs n"
    using assms(1,2) Cons by (auto simp: queue_def)
  have e: "q_prev s h = last (h # xs)" "last (h # xs) \<in> set (h # xs)" "q_prev s n = last ys" "last ys \<in> set ys"
    using queueD [OF assms(1)] queueD [OF assms(2)] Cons by auto
  let ?s = "ngx_queue_add h n s"
  have l: "q_next ?s = (q_next s)(last (h # xs) := y, last ys := h)"
    "q_prev ?s = (q_prev s)(y := last (h # xs), h := last ys)"
    using d(1,2,4) e assms(3) Cons by (auto simp: ngx_queue_add_def Let_def)
  have "seg ?s h xs y"
  proof (cases xs rule: rev_cases)
    case (snoc ws w)
    then have "seg ?s h ws w \<longleftrightarrow> seg s h ws w"
      using d(1) assms(3) e Cons by (intro seg_frame) (auto simp: l)
    then show ?thesis using snoc d assms(3) e Cons by (auto simp: l seg_append)
  qed (use d assms(3) e Cons in \<open>auto simp: l\<close>)
  moreover have "seg ?s y zs h"
  proof (cases zs rule: rev_cases)
    case (snoc ws w)
    then have "seg ?s y ws w \<longleftrightarrow> seg s y ws w"
      using d(1,2) assms(3) e Cons by (intro seg_frame) (auto simp: l)
    then show ?thesis using snoc d assms(3) e Cons by (auto simp: l seg_append)
  qed (use d assms(3) e Cons in \<open>auto simp: l\<close>)
  ultimately show ?thesis using d(1,2) assms(3) Cons by (auto simp: queue_def seg_append)
qed


subsection \<open>The middle element\<close>

lemma seg_nth:
  "seg s a xs b \<Longrightarrow> i \<le> length xs \<Longrightarrow>
   q_next s ((a # xs) ! i) = (xs @ [b]) ! i \<and> q_prev s ((xs @ [b]) ! i) = (a # xs) ! i"
proof (induction xs arbitrary: a i)
  case (Cons x xs)
  then show ?case by (cases i) auto
qed simp

lemma queue_next_nth: "queue s h xs \<Longrightarrow> Suc i < length xs \<Longrightarrow> ngx_queue_next s (xs ! i) = xs ! Suc i"
  using seg_nth [of s h xs h "Suc i"] by (simp add: queue_def ngx_queue_next_def nth_append)

lemma middle_loop_nth:
  assumes "queue s h xs" "2 * k + 1 < length xs"
  shows "middle_loop s h (xs ! k) (xs ! (2 * k)) = Some (xs ! (length xs div 2))"
  using assms(2)
proof (induction "length xs - k" arbitrary: k rule: less_induct)
  case less
  have ne: "xs \<noteq> []" using less.prems by auto
  have lastq: "ngx_queue_last s h = xs ! (length xs - 1)"
    using queue_last [OF assms(1)] ne by (simp add: last_conv_nth)
  have eq: "xs ! i = xs ! (length xs - Suc 0) \<longleftrightarrow> i = length xs - Suc 0" if "i < length xs" for i
    using assms(1) that ne by (simp add: queue_def nth_eq_iff_index_eq)
  have m: "ngx_queue_next s (xs ! k) = xs ! Suc k" "ngx_queue_next s (xs ! (2 * k)) = xs ! Suc (2 * k)"
    using queue_next_nth [OF assms(1)] less.prems by auto
  show ?case
  proof (cases "Suc (2 * k) = length xs - 1")
    case True
    then have "length xs div 2 = Suc k" by arith
    then show ?thesis using True by (subst middle_loop.simps) (simp add: m lastq Let_def)
  next
    case False
    then have lt: "Suc (Suc (2 * k)) < length xs" using less.prems by arith
    have m2: "ngx_queue_next s (xs ! Suc (2 * k)) = xs ! Suc (Suc (2 * k))"
      using queue_next_nth [OF assms(1) lt] .
    show ?thesis
    proof (cases "Suc (Suc (2 * k)) = length xs - 1")
      case True
      then have "length xs div 2 = Suc k" by arith
      then show ?thesis using True False lt by (subst middle_loop.simps) (simp add: m m2 lastq eq Let_def)
    next
      case no: False
      then have "middle_loop s h (xs ! Suc k) (xs ! (2 * Suc k)) = Some (xs ! (length xs div 2))"
        using less.hyps [of "Suc k"] lt by auto
      then show ?thesis using no False lt by (subst middle_loop.simps) (simp add: m m2 lastq eq Let_def)
    qed
  qed
qed

lemma queue_middle:
  assumes "queue s h xs"
  shows "ngx_queue_middle s h = Some (if xs = [] then h else xs ! (length xs div 2))"
proof (cases "length xs \<le> 1")
  case True
  then show ?thesis using queue_head [OF assms] queue_last [OF assms]
    by (cases xs) (auto simp: ngx_queue_middle_def)
next
  case False
  then have "hd xs \<noteq> last xs" using assms by (cases xs) (auto simp: queue_def)
  then show ?thesis
    using False queue_head [OF assms] queue_last [OF assms] middle_loop_nth [OF assms, of 0]
    by (auto simp: ngx_queue_middle_def Let_def hd_append hd_conv_nth)
qed

subsection \<open>Sorting\<close>

text \<open>The reference: insert each element behind the last one that is not greater.\<close>

definition insert_back :: "('a \<Rightarrow> 'a \<Rightarrow> int) \<Rightarrow> 'a \<Rightarrow> 'a list \<Rightarrow> 'a list" where
  "insert_back cmp z ys =
     rev (dropWhile (\<lambda>y. 0 < cmp y z) (rev ys)) @ z # rev (takeWhile (\<lambda>y. 0 < cmp y z) (rev ys))"

definition insertion_sort :: "('a \<Rightarrow> 'a \<Rightarrow> int) \<Rightarrow> 'a list \<Rightarrow> 'a list" where
  "insertion_sort cmp xs = fold (insert_back cmp) xs []"

lemma rev_split: "rev (dropWhile P (rev ys)) @ rev (takeWhile P (rev ys)) = ys"
  by (metis rev_append rev_rev_ident takeWhile_dropWhile_id)

lemma sort_back_last:
  "\<lbrakk>seg s h ys b; h \<notin> set ys; ys \<noteq> []\<rbrakk> \<Longrightarrow>
   sort_back cmp s h z (last ys) = Some (last (h # rev (dropWhile (\<lambda>y. 0 < cmp y z) (rev ys))))"
proof (induction ys arbitrary: b rule: rev_induct)
  case (snoc w ws)
  have sg: "seg s h ws w" using snoc.prems(1) by (simp add: seg_append)
  have pv: "ngx_queue_prev s w = last (h # ws)" using seg_ends [OF sg] by (simp add: ngx_queue_prev_def)
  show ?case
  proof (cases "cmp w z \<le> 0")
    case True
    then show ?thesis by (subst sort_back.simps) simp
  next
    case False
    show ?thesis
    proof (cases "ws = []")
      case True
      then show ?thesis using False pv by (subst sort_back.simps) (simp add: Let_def)
    next
      case ne: False
      then have "last ws \<noteq> h" using snoc.prems(2) last_in_set [of ws] by auto
      then show ?thesis using False ne pv snoc.IH [OF sg] snoc.prems(2)
        by (subst sort_back.simps) (simp add: Let_def)
    qed
  qed
qed simp

lemma sort_loop_run:
  "\<lbrakk>queue s h (ys @ zs); ys \<noteq> []; q = hd (zs @ [h])\<rbrakk> \<Longrightarrow>
   \<exists>s'. sort_loop cmp h q s = Some s' \<and> queue s' h (fold (insert_back cmp) zs ys)"
proof (induction zs arbitrary: s ys q)
  case Nil
  then show ?case by (subst sort_loop.simps) simp
next
  case (Cons z zs)
  define us vs where "us = rev (dropWhile (\<lambda>y. 0 < cmp y z) (rev ys))" and "vs = rev (takeWhile (\<lambda>y. 0 < cmp y z) (rev ys))"
  have uv: "us @ vs = ys" unfolding us_def vs_def by (rule rev_split)
  have ib: "insert_back cmp z ys = us @ z # vs" by (simp add: insert_back_def us_def vs_def)
  let ?r = "ngx_queue_remove z s"
  let ?i = "ngx_queue_insert_after (last (h # us)) z ?r"
  have d: "distinct (h # ys @ z # zs)" using Cons.prems(1) by (simp add: queue_def)
  have q: "queue ?r h (ys @ zs)" using queue_remove [OF Cons.prems(1)] .
  then have "\<exists>b. seg ?r h ys b"
    by (cases zs) (auto simp: queue_def seg_append)
  then have bk: "sort_back cmp ?r h z (last ys) = Some (last (h # us))"
    unfolding us_def using sort_back_last d Cons.prems(2) by fastforce
  have ends_z: "ngx_queue_prev s z = last ys" "ngx_queue_next s z = hd (zs @ [h])"
    using Cons.prems(1,2) seg_ends [of s h ys z] seg_ends [of s z zs h]
    by (auto simp: queue_def seg_append ngx_queue_prev_def ngx_queue_next_def)
  have "queue ?i h (insert_back cmp z ys @ zs)"
  proof (cases us rule: rev_cases)
    case Nil
    then show ?thesis
      using uv queue_insert_head [OF q, of z] d by (simp add: ib ngx_queue_insert_after_def)
  next
    case (snoc ws u)
    then have "ys = ws @ u # vs" using uv by simp
    then show ?thesis
      unfolding ib using snoc queue_insert_after [of ?r h ws u "vs @ zs" z] q d by simp
  qed
  moreover have "insert_back cmp z ys \<noteq> []" by (simp add: ib)
  ultimately obtain s' where "sort_loop cmp h (hd (zs @ [h])) ?i = Some s'"
      "queue s' h (fold (insert_back cmp) zs (insert_back cmp z ys))"
    using Cons.IH by blast
  then show ?case using Cons.prems(3) d bk ends_z
    by (subst sort_loop.simps) (simp add: Let_def)
qed

lemma queue_sort_run:
  assumes "queue s h xs"
  shows "\<exists>s'. ngx_queue_sort cmp h s = Some s' \<and> queue s' h (insertion_sort cmp xs)"
proof (cases xs)
  case Nil
  then show ?thesis using assms queue_head [OF assms] queue_last [OF assms]
    by (simp add: ngx_queue_sort_def insertion_sort_def)
next
  case (Cons x ys)
  have one: "insert_back cmp x [] = [x]" by (simp add: insert_back_def)
  show ?thesis
  proof (cases ys)
    case Nil
    then show ?thesis using assms queue_head [OF assms] queue_last [OF assms] Cons
      by (simp add: ngx_queue_sort_def insertion_sort_def one)
  next
    case (Cons y zs)
    then have "x \<noteq> last xs" using assms \<open>xs = x # ys\<close> by (auto simp: queue_def)
    moreover have "ngx_queue_next s x = hd (ys @ [h])"
      using assms \<open>xs = x # ys\<close> Cons by (simp add: queue_def ngx_queue_next_def)
    ultimately show ?thesis
      using sort_loop_run [of s h "[x]" ys _ cmp] assms queue_head [OF assms] queue_last [OF assms] \<open>xs = x # ys\<close>
      by (simp add: ngx_queue_sort_def insertion_sort_def one Let_def)
  qed
qed


lemma insertion_sort_snoc: "insertion_sort cmp (xs @ [x]) = insert_back cmp x (insertion_sort cmp xs)"
  by (simp add: insertion_sort_def)

lemma mset_insertion_sort: "mset (insertion_sort cmp xs) = mset xs"
proof (induction xs rule: rev_induct)
  case (snoc x xs)
  then show ?case unfolding insertion_sort_snoc insert_back_def
    by (metis rev_split mset_append mset.simps(2) union_mset_add_mset_right union_mset_add_mset_left
        add.right_neutral mset.simps(1))
qed (simp add: insertion_sort_def)

definition total_cmp :: "('a \<Rightarrow> 'a \<Rightarrow> int) \<Rightarrow> 'a set \<Rightarrow> bool" where
  "total_cmp cmp A \<longleftrightarrow> (\<forall>a\<in>A. \<forall>b\<in>A. (cmp a b \<le> 0 \<or> cmp b a \<le> 0) \<and>
     (\<forall>c\<in>A. cmp a b \<le> 0 \<longrightarrow> cmp b c \<le> 0 \<longrightarrow> cmp a c \<le> 0))"

definition cmp_equal :: "('a \<Rightarrow> 'a \<Rightarrow> int) \<Rightarrow> 'a \<Rightarrow> 'a \<Rightarrow> bool" where
  "cmp_equal cmp a b \<longleftrightarrow> cmp a b \<le> 0 \<and> cmp b a \<le> 0"

lemma insert_back_sorted:
  assumes "total_cmp cmp A" "insert z (set ys) \<subseteq> A" "sorted_wrt (\<lambda>a b. cmp a b \<le> 0) ys"
  shows "sorted_wrt (\<lambda>a b. cmp a b \<le> 0) (insert_back cmp z ys)"
    and "k \<in> A \<Longrightarrow> filter (cmp_equal cmp k) (insert_back cmp z ys) = filter (cmp_equal cmp k) (ys @ [z])"
proof -
  define us vs where "us = rev (dropWhile (\<lambda>y. 0 < cmp y z) (rev ys))" and "vs = rev (takeWhile (\<lambda>y. 0 < cmp y z) (rev ys))"
  have uv: "ys = us @ vs" unfolding us_def vs_def by (rule rev_split [symmetric])
  have ib: "insert_back cmp z ys = us @ z # vs" by (simp add: insert_back_def us_def vs_def)
  have vz: "0 < cmp y z" if "y \<in> set vs" for y using that set_takeWhileD unfolding vs_def by fastforce
  have zv: "cmp z y \<le> 0" if "y \<in> set vs" for y
    using vz [OF that] assms(1,2) that uv unfolding total_cmp_def by (smt (verit) Un_iff insert_subset set_append subsetD)
  have lu: "cmp (last us) z \<le> 0" if "us \<noteq> []"
    using that hd_dropWhile [of "\<lambda>y. 0 < cmp y z" "rev ys"] unfolding us_def by (simp add: last_rev)
  have uz: "cmp y z \<le> 0" if y: "y \<in> set us" for y
  proof (cases "y = last us")
    case False
    obtain ws w where us: "us = ws @ [w]" using y by (cases us rule: rev_cases) auto
    then have yw: "cmp y w \<le> 0" using assms(3) that False unfolding uv by (auto simp: sorted_wrt_append)
    have "cmp w z \<le> 0" using lu us by simp
    moreover have "y \<in> A" "w \<in> A" "z \<in> A" using assms(2) that uv us by auto
    ultimately show ?thesis using assms(1) yw unfolding total_cmp_def by blast
  next
    case True
    then show ?thesis using lu y by (cases "us = []") auto
  qed
  show "sorted_wrt (\<lambda>a b. cmp a b \<le> 0) (insert_back cmp z ys)"
    unfolding ib using assms(3) [unfolded uv] zv uz by (auto simp: sorted_wrt_append)
  show "filter (cmp_equal cmp k) (insert_back cmp z ys) = filter (cmp_equal cmp k) (ys @ [z])" if "k \<in> A"
  proof -
    have "filter (cmp_equal cmp k) vs = []" if "cmp_equal cmp k z"
    proof (rule filter_False, rule ballI)
      fix y assume y: "y \<in> set vs"
      then have "y \<in> A" "z \<in> A" using assms(2) uv by auto
      then show "\<not> cmp_equal cmp k y"
        using vz [OF y] that \<open>k \<in> A\<close> assms(1) unfolding total_cmp_def cmp_equal_def by (meson not_le)
    qed
    then show ?thesis unfolding ib by (subst uv) auto
  qed
qed

lemma insertion_sort_sorted:
  "total_cmp cmp A \<Longrightarrow> set xs \<subseteq> A \<Longrightarrow> sorted_wrt (\<lambda>a b. cmp a b \<le> 0) (insertion_sort cmp xs)"
proof (induction xs rule: rev_induct)
  case (snoc x xs)
  have "set (insertion_sort cmp xs) = set xs" by (metis mset_insertion_sort set_mset_mset)
  then show ?case using snoc insert_back_sorted(1) [of cmp A x "insertion_sort cmp xs"]
    by (simp add: insertion_sort_snoc)
qed (simp add: insertion_sort_def)

lemma insertion_sort_stable:
  "total_cmp cmp A \<Longrightarrow> set xs \<subseteq> A \<Longrightarrow> k \<in> A \<Longrightarrow>
   filter (cmp_equal cmp k) (insertion_sort cmp xs) = filter (cmp_equal cmp k) xs"
proof (induction xs rule: rev_induct)
  case (snoc x xs)
  have "set (insertion_sort cmp xs) = set xs" by (metis mset_insertion_sort set_mset_mset)
  then show ?case
    using snoc insert_back_sorted(2) [of cmp A x "insertion_sort cmp xs" k] insertion_sort_sorted [of cmp A xs]
    by (simp add: insertion_sort_snoc)
qed (simp add: insertion_sort_def)

subsection \<open>The interface the clients use\<close>

text \<open>An operation on one queue leaves every other queue of the store as it is.\<close>

lemma queue_frame:
  "queue s h xs \<Longrightarrow> \<forall>a \<in> set (h # xs). q_next s' a = q_next s a \<and> q_prev s' a = q_prev s a \<Longrightarrow> queue s' h xs"
  unfolding queue_def using seg_frame [of h xs s' s h] by auto

lemma insert_tail_others:
  assumes "queue s h xs" "queue s g ys" "x \<notin> set (h # xs)" "set (x # h # xs) \<inter> set (g # ys) = {}"
  shows "queue (ngx_queue_insert_tail h x s) g ys"
proof -
  have "q_prev s h \<in> set (h # xs)" using queueD [OF assms(1)] last_in_set [of "h # xs"] by simp
  then have "x \<noteq> q_prev s h" "q_prev s h \<notin> set (g # ys)" using assms(3,4) by auto
  then show ?thesis using assms(2-4) by (elim queue_frame) (auto simp: insert_tail_links)
qed

lemma remove_others:
  assumes "queue s h (xs @ x # ys)" "queue s g zs" "set (h # xs @ x # ys) \<inter> set (g # zs) = {}"
  shows "queue (ngx_queue_remove x s) g zs"
proof -
  have d: "distinct (h # xs @ x # ys)" "q_next s x = hd (ys @ [h])" "q_prev s x = last (h # xs)"
    using assms(1) seg_ends [of s h xs x] seg_ends [of s x ys h] by (auto simp: queue_def seg_append)
  have "hd (ys @ [h]) \<in> set (h # ys)" "last (h # xs) \<in> set (h # xs)" by (cases ys) auto
  then have "x \<noteq> q_next s x" "q_next s x \<notin> set (g # zs)" "q_prev s x \<notin> set (g # zs)"
    using d assms(3) by auto
  then show ?thesis using assms(2) by (elim queue_frame) (auto simp: remove_links)
qed

locale linked_queue =
  fixes rep :: "'s \<Rightarrow> addr \<Rightarrow> addr list \<Rightarrow> bool"
    and is_empty :: "'s \<Rightarrow> addr \<Rightarrow> bool"
    and head :: "'s \<Rightarrow> addr \<Rightarrow> addr"
    and insert_tail :: "addr \<Rightarrow> addr \<Rightarrow> 's \<Rightarrow> 's"
    and remove :: "addr \<Rightarrow> 's \<Rightarrow> 's"
  assumes rep_distinct: "rep s h xs \<Longrightarrow> distinct (h # xs)"
    and rep_empty: "rep s h xs \<Longrightarrow> is_empty s h \<longleftrightarrow> xs = []"
    and rep_head: "rep s h (x # xs) \<Longrightarrow> head s h = x"
    and rep_insert_tail: "rep s h xs \<Longrightarrow> x \<notin> set (h # xs) \<Longrightarrow> rep (insert_tail h x s) h (xs @ [x])"
    and rep_remove: "rep s h (xs @ x # ys) \<Longrightarrow> rep (remove x s) h (xs @ ys)"
    and insert_tail_other: "rep s h xs \<Longrightarrow> rep s g ys \<Longrightarrow> x \<notin> set (h # xs) \<Longrightarrow>
      set (x # h # xs) \<inter> set (g # ys) = {} \<Longrightarrow> rep (insert_tail h x s) g ys"
    and remove_other: "rep s h (xs @ x # ys) \<Longrightarrow> rep s g zs \<Longrightarrow> set (h # xs @ x # ys) \<inter> set (g # zs) = {} \<Longrightarrow>
      rep (remove x s) g zs"
begin

text \<open>The first element can be taken off, and the other queues stay.\<close>

lemma take_first:
  assumes "rep s h xs" "\<not> is_empty s h"
  obtains x ys where "xs = x # ys" "head s h = x" "rep (remove x s) h ys"
proof -
  obtain x ys where "xs = x # ys" using assms rep_empty by (cases xs) auto
  then show thesis using that assms(1) rep_head rep_remove [of s h "[]" x ys] by simp
qed

text \<open>Elements put in one after the other come out in this order.\<close>

lemma insert_all:
  "rep s h xs \<Longrightarrow> distinct ys \<Longrightarrow> set ys \<inter> set (h # xs) = {} \<Longrightarrow> rep (fold (insert_tail h) ys s) h (xs @ ys)"
proof (induction ys arbitrary: s xs)
  case (Cons y ys)
  then have "rep (insert_tail h y s) h (xs @ [y])" by (intro rep_insert_tail) auto
  from Cons.IH [OF this] Cons.prems(2,3) show ?case by auto
qed simp

end

interpretation nq: linked_queue queue ngx_queue_empty ngx_queue_head ngx_queue_insert_tail ngx_queue_remove
proof
  show "distinct (h # xs)" if "queue s h xs" for s :: "'a qstore_scheme" and h xs
    using queueD [OF that] by blast
  show "ngx_queue_head s h = x" if "queue s h (x # xs)" for s :: "'a qstore_scheme" and h x xs
    using queue_head [OF that] by simp
qed (fact queue_empty queue_insert_tail queue_remove insert_tail_others remove_others)+

subsection \<open>Properties\<close>

text \<open>C11. \<open>ngx_queue_sort\<close> returns and leaves a queue of the same elements. If the callback is a total
  preorder on them, the queue is sorted, and elements that compare equal keep their order.\<close>

theorem queue_sort_stable:
  assumes "queue s h xs"
  shows "\<exists>s' ys. ngx_queue_sort cmp h s = Some s' \<and> queue s' h ys \<and> mset ys = mset xs \<and>
    (total_cmp cmp (set xs) \<longrightarrow> sorted_wrt (\<lambda>a b. cmp a b \<le> 0) ys \<and>
      (\<forall>k \<in> set xs. filter (cmp_equal cmp k) ys = filter (cmp_equal cmp k) xs))"
  using queue_sort_run [OF assms, of cmp] mset_insertion_sort insertion_sort_sorted insertion_sort_stable
  by (metis order_refl)


theorem queue_sort_stable_witness:
  "\<exists>s' ys. ngx_queue_sort (\<lambda>a b. int (a div 2) - int (b div 2)) 0 (ngx_queue_insert_tail 0 4
      (ngx_queue_insert_tail 0 7 (ngx_queue_insert_tail 0 5 (ngx_queue_init 0
        \<lparr>q_prev = \<lambda>x. x, q_next = \<lambda>x. x\<rparr>)))) = Some s' \<and> queue s' 0 ys \<and> mset ys = mset [5, 7, 4]"
proof -
  have "queue (ngx_queue_insert_tail 0 4 (ngx_queue_insert_tail 0 7 (ngx_queue_insert_tail 0 5 (ngx_queue_init 0
        \<lparr>q_prev = \<lambda>x. x, q_next = \<lambda>x. x\<rparr>)))) 0 [5, 7, 4]"
    by (simp add: queue_def ngx_queue_init_def ngx_queue_insert_tail_def Let_def)
  then show ?thesis using queue_sort_stable by blast
qed

text \<open>C12. Splitting, joining and finding the middle: \<open>ngx_queue_split\<close> at an element leaves the front
  with the old header and gives the rest to the new one, \<open>ngx_queue_add\<close> puts the elements together again,
  and \<open>ngx_queue_middle\<close> returns the middle element of a queue of odd length, the first of the second half
  of one of even length, and the header of an empty queue.\<close>

theorem queue_split_add_middle:
  assumes "queue s h (xs @ q # ys)" "n \<notin> set (h # xs @ q # ys)"
  shows "ngx_queue_middle s h = Some ((xs @ q # ys) ! (length (xs @ q # ys) div 2)) \<and>
    queue (ngx_queue_split h q n s) h xs \<and> queue (ngx_queue_split h q n s) n (q # ys) \<and>
    queue (ngx_queue_add h n (ngx_queue_split h q n s)) h (xs @ q # ys)"
proof (intro conjI)
  show "ngx_queue_middle s h = Some ((xs @ q # ys) ! (length (xs @ q # ys) div 2))"
    using queue_middle [OF assms(1)] by simp
  show s: "queue (ngx_queue_split h q n s) h xs" "queue (ngx_queue_split h q n s) n (q # ys)"
    using queue_split [OF assms] by auto
  show "queue (ngx_queue_add h n (ngx_queue_split h q n s)) h (xs @ q # ys)"
    using assms by (intro queue_add s) (auto simp: queue_def)
qed

theorem queue_split_add_middle_witness:
  "ngx_queue_middle (ngx_queue_insert_tail 0 2 (ngx_queue_insert_tail 0 1 (ngx_queue_init 0
    \<lparr>q_prev = \<lambda>x. x, q_next = \<lambda>x. x\<rparr>))) 0 = Some 2"
proof -
  have "queue (ngx_queue_insert_tail 0 2 (ngx_queue_insert_tail 0 1 (ngx_queue_init 0
    \<lparr>q_prev = \<lambda>x. x, q_next = \<lambda>x. x\<rparr>))) 0 ([] @ 1 # [2])"
    by (simp add: queue_def ngx_queue_init_def ngx_queue_insert_tail_def Let_def)
  from queue_split_add_middle [OF this, of 3] show ?thesis by simp
qed

end
