(* ===== verification/Ngx_Posted.thy ===== *)
theory Ngx_Posted
  imports Ngx_Queue
begin

section \<open>Posted events\<close>

text \<open>
  \<open>src/event/ngx_event_posted.h\<close> and \<open>ngx_event_posted.c\<close>: events wait in one of three queues and are
  handled later. An event is named by the address of its queue link, so \<open>ngx_queue_data\<close> is the
  identity; its fields \<open>posted\<close>, \<open>ready\<close> and \<open>available\<close> are in the store beside the links. An event's
  handler is a function pointer of the event: a parameter that takes the event and the store.
\<close>

record evstore = qstore +
  ev_posted :: "addr \<Rightarrow> bool"
  ev_ready :: "addr \<Rightarrow> bool"
  ev_available :: "addr \<Rightarrow> int"

text \<open>The three queue headers.\<close>

definition ngx_posted_accept_events :: addr where
  "ngx_posted_accept_events = 0"

definition ngx_posted_next_events :: addr where
  "ngx_posted_next_events = 1"

definition ngx_posted_events :: addr where
  "ngx_posted_events = 2"

definition ngx_post_event :: "addr \<Rightarrow> addr \<Rightarrow> evstore \<Rightarrow> evstore" where
  "ngx_post_event ev q s =
     (if \<not> ev_posted s ev then ngx_queue_insert_tail q ev (s\<lparr>ev_posted := (ev_posted s)(ev := True)\<rparr>)
      else s)"

definition ngx_delete_posted_event :: "addr \<Rightarrow> evstore \<Rightarrow> evstore" where
  "ngx_delete_posted_event ev s = ngx_queue_remove ev (s\<lparr>ev_posted := (ev_posted s)(ev := False)\<rparr>)"

partial_function (option) ngx_event_process_posted ::
  "(addr \<Rightarrow> evstore \<Rightarrow> evstore) \<Rightarrow> addr \<Rightarrow> evstore \<Rightarrow> evstore option" where
  "ngx_event_process_posted handler posted s =
     (if ngx_queue_empty s posted then Some s
      else let ev = ngx_queue_head s posted; s = ngx_delete_posted_event ev s
        in ngx_event_process_posted handler posted (handler ev s))"

partial_function (option) posted_next_loop :: "addr \<Rightarrow> evstore \<Rightarrow> evstore option" where
  "posted_next_loop q s =
     (if q = ngx_posted_next_events then Some s
      else posted_next_loop (ngx_queue_next s q)
        (s\<lparr>ev_ready := (ev_ready s)(q := True), ev_available := (ev_available s)(q := -1)\<rparr>))"

definition ngx_event_move_posted_next :: "evstore \<Rightarrow> evstore option" where
  "ngx_event_move_posted_next s =
     map_option (\<lambda>s. ngx_queue_init ngx_posted_next_events
         (ngx_queue_add ngx_posted_events ngx_posted_next_events s))
       (posted_next_loop (ngx_queue_head s ngx_posted_next_events) s)"

subsection \<open>The invariant\<close>

text \<open>The three queues share no event, and an event's \<open>posted\<close> flag says whether it is in one of
  them.\<close>

definition posted_headers :: "addr set" where
  "posted_headers = {ngx_posted_accept_events, ngx_posted_next_events, ngx_posted_events}"

lemma posted_headers_distinct [simp]:
  "ngx_posted_accept_events \<noteq> ngx_posted_next_events" "ngx_posted_accept_events \<noteq> ngx_posted_events"
  "ngx_posted_next_events \<noteq> ngx_posted_events" "ngx_posted_next_events \<noteq> ngx_posted_accept_events"
  "ngx_posted_events \<noteq> ngx_posted_accept_events" "ngx_posted_events \<noteq> ngx_posted_next_events"
  by (simp_all add: ngx_posted_accept_events_def ngx_posted_next_events_def ngx_posted_events_def)

lemma posted_headers_mem [simp]:
  "ngx_posted_accept_events \<in> posted_headers" "ngx_posted_next_events \<in> posted_headers"
  "ngx_posted_events \<in> posted_headers"
  by (simp_all add: posted_headers_def)

definition posted_inv :: "(addr \<Rightarrow> addr list) \<Rightarrow> evstore \<Rightarrow> bool" where
  "posted_inv f s \<longleftrightarrow>
     (\<forall>h \<in> posted_headers. queue s h (f h) \<and> set (f h) \<inter> posted_headers = {} \<and>
        (\<forall>g \<in> posted_headers. h \<noteq> g \<longrightarrow> set (f h) \<inter> set (f g) = {})) \<and>
     (\<forall>ev. ev \<notin> posted_headers \<longrightarrow> ev_posted s ev = (\<exists>h \<in> posted_headers. ev \<in> set (f h)))"

lemma posted_invD:
  assumes "posted_inv f s"
  shows "h \<in> posted_headers \<Longrightarrow> queue s h (f h)"
    and "h \<in> posted_headers \<Longrightarrow> set (f h) \<inter> posted_headers = {}"
    and "h \<in> posted_headers \<Longrightarrow> g \<in> posted_headers \<Longrightarrow> h \<noteq> g \<Longrightarrow> set (f h) \<inter> set (f g) = {}"
    and "ev \<notin> posted_headers \<Longrightarrow> ev_posted s ev = (\<exists>h \<in> posted_headers. ev \<in> set (f h))"
  using assms unfolding posted_inv_def by blast+

lemma posted_invI:
  "\<lbrakk>\<And>h. h \<in> posted_headers \<Longrightarrow> queue s h (f h); \<And>h. h \<in> posted_headers \<Longrightarrow> set (f h) \<inter> posted_headers = {};
    \<And>h g. h \<in> posted_headers \<Longrightarrow> g \<in> posted_headers \<Longrightarrow> h \<noteq> g \<Longrightarrow> set (f h) \<inter> set (f g) = {};
    \<And>ev. ev \<notin> posted_headers \<Longrightarrow> ev_posted s ev = (\<exists>h \<in> posted_headers. ev \<in> set (f h))\<rbrakk>
   \<Longrightarrow> posted_inv f s"
  unfolding posted_inv_def by blast

lemma queue_ev_fields [simp]:
  "queue (s\<lparr>ev_posted := v\<rparr>) h xs = queue s h xs"
  "queue (s\<lparr>ev_ready := v\<rparr>) h xs = queue s h xs"
  "queue (s\<lparr>ev_available := w\<rparr>) h xs = queue s h xs"
proof -
  have "seg (s\<lparr>ev_posted := v\<rparr>) a xs b = seg s a xs b" "seg (s\<lparr>ev_ready := v\<rparr>) a xs b = seg s a xs b"
    "seg (s\<lparr>ev_available := w\<rparr>) a xs b = seg s a xs b" for a b
    by (rule seg_frame; simp)+
  then show "queue (s\<lparr>ev_posted := v\<rparr>) h xs = queue s h xs" "queue (s\<lparr>ev_ready := v\<rparr>) h xs = queue s h xs"
    "queue (s\<lparr>ev_available := w\<rparr>) h xs = queue s h xs"
    by (simp_all add: queue_def)
qed

lemma queue_keeps_flags [simp]:
  "ev_posted (ngx_queue_insert_tail q x s) = ev_posted s"
  "ev_posted (ngx_queue_remove x s) = ev_posted s"
  "ev_posted (ngx_queue_add q n s) = ev_posted s"
  "ev_posted (ngx_queue_init q s) = ev_posted s"
  by (simp_all add: ngx_queue_insert_tail_def ngx_queue_remove_def ngx_queue_add_def ngx_queue_init_def Let_def)

text \<open>Posting and deleting.\<close>

lemma posted_disjoint:
  assumes "posted_inv f s" "h \<in> posted_headers" "g \<in> posted_headers" "h \<noteq> g"
  shows "set (h # f h) \<inter> set (g # f g) = {}"
  using assms posted_invD(2) [OF assms(1)] posted_invD(3) [OF assms] by auto

lemma post_event_inv:
  assumes "posted_inv f s" "q \<in> posted_headers" "ev \<notin> posted_headers"
  shows "posted_inv (if ev_posted s ev then f else f(q := f q @ [ev])) (ngx_post_event ev q s)"
proof (cases "ev_posted s ev")
  case False
  let ?t = "s\<lparr>ev_posted := (ev_posted s)(ev := True)\<rparr>" and ?f = "f(q := f q @ [ev])"
  have out: "ev \<notin> set (f h)" if "h \<in> posted_headers" for h
    using posted_invD(4) [OF assms(1,3)] False that by blast
  have q: "queue ?t h (f h)" if "h \<in> posted_headers" for h
    using posted_invD(1) [OF assms(1) that] by simp
  have "posted_inv ?f (ngx_queue_insert_tail q ev ?t)"
  proof (rule posted_invI)
    fix h assume h: "h \<in> posted_headers"
    show "queue (ngx_queue_insert_tail q ev ?t) h (?f h)"
    proof (cases "h = q")
      case True
      then show ?thesis using nq.rep_insert_tail [OF q [OF h], of ev] out [OF h] assms(2,3) by auto
    next
      case False
      then have "queue (ngx_queue_insert_tail q ev ?t) h (f h)"
        using out h posted_disjoint [OF assms(1,2) h] assms(2,3)
        by (intro nq.insert_tail_other [OF q [OF assms(2)] q [OF h]]) auto
      then show ?thesis using False by simp
    qed
    show "set (?f h) \<inter> posted_headers = {}" using posted_invD(2) [OF assms(1)] h assms(2,3) by auto
  next
    fix h g assume hg: "h \<in> posted_headers" "g \<in> posted_headers" "h \<noteq> g"
    then show "set (?f h) \<inter> set (?f g) = {}" using posted_invD(3) [OF assms(1) hg] out by auto
  next
    fix e assume e: "e \<notin> posted_headers"
    have mem: "e \<in> set (?f h) \<longleftrightarrow> e \<in> set (f h) \<or> h = q \<and> e = ev" for h by auto
    have "(\<exists>h \<in> posted_headers. e \<in> set (?f h)) \<longleftrightarrow> (\<exists>h \<in> posted_headers. e \<in> set (f h)) \<or> e = ev"
      by (simp only: mem) (use assms(2) in blast)
    then show "ev_posted (ngx_queue_insert_tail q ev ?t) e = (\<exists>h \<in> posted_headers. e \<in> set (?f h))"
      using posted_invD(4) [OF assms(1) e] by simp
  qed
  then show ?thesis using False by (simp add: ngx_post_event_def)
qed (use assms in \<open>simp add: ngx_post_event_def\<close>)

lemma delete_event_inv:
  assumes "posted_inv f s" "q \<in> posted_headers" "f q = xs @ ev # ys"
  shows "posted_inv (f(q := xs @ ys)) (ngx_delete_posted_event ev s)"
proof -
  let ?t = "s\<lparr>ev_posted := (ev_posted s)(ev := False)\<rparr>" and ?f = "f(q := xs @ ys)"
  have q: "queue ?t h (f h)" if "h \<in> posted_headers" for h
    using posted_invD(1) [OF assms(1) that] by simp
  have d: "distinct (q # xs @ ev # ys)" using nq.rep_distinct [OF q [OF assms(2)]] assms(3) by simp
  have out: "ev \<notin> set (f h)" if "h \<in> posted_headers" "h \<noteq> q" for h
    using posted_invD(3) [OF assms(1,2) that(1)] that assms(3) by auto
  have "posted_inv ?f (ngx_queue_remove ev ?t)"
  proof (rule posted_invI)
    fix h assume h: "h \<in> posted_headers"
    show "queue (ngx_queue_remove ev ?t) h (?f h)"
    proof (cases "h = q")
      case True
      then show ?thesis using nq.rep_remove [of ?t q xs ev ys] q [OF h] assms(3) by simp
    next
      case False
      then have "queue (ngx_queue_remove ev ?t) h (f h)"
        using q [OF assms(2)] q [OF h] posted_disjoint [OF assms(1,2) h] assms(3)
        by (intro nq.remove_other [of ?t q xs ev ys]) auto
      then show ?thesis using False by simp
    qed
    show "set (?f h) \<inter> posted_headers = {}" using posted_invD(2) [OF assms(1) h] assms(3) by auto
  next
    fix h g assume hg: "h \<in> posted_headers" "g \<in> posted_headers" "h \<noteq> g"
    then show "set (?f h) \<inter> set (?f g) = {}" using posted_invD(3) [OF assms(1) hg] assms(3) by auto
  next
    fix e assume e: "e \<notin> posted_headers"
    show "ev_posted (ngx_queue_remove ev ?t) e = (\<exists>h \<in> posted_headers. e \<in> set (?f h))"
    proof (cases "e = ev")
      case True
      then show ?thesis using d out by auto
    next
      case False
      then have "e \<in> set (?f h) \<longleftrightarrow> e \<in> set (f h)" for h using assms(3) by auto
      then show ?thesis using posted_invD(4) [OF assms(1) e] False by simp
    qed
  qed
  then show ?thesis by (simp add: ngx_delete_posted_event_def)
qed


text \<open>Moving the events of the next iteration.\<close>

definition mark_ready :: "addr set \<Rightarrow> evstore \<Rightarrow> evstore" where
  "mark_ready A s = s\<lparr>ev_ready := (\<lambda>a. a \<in> A \<or> ev_ready s a),
     ev_available := (\<lambda>a. if a \<in> A then -1 else ev_available s a)\<rparr>"

lemma posted_next_loop_run:
  "seg s a xs ngx_posted_next_events \<Longrightarrow> ngx_posted_next_events \<notin> set xs \<Longrightarrow>
   posted_next_loop (hd (xs @ [ngx_posted_next_events])) s = Some (mark_ready (set xs) s)"
proof (induction xs arbitrary: s a)
  case Nil
  then show ?case by (subst posted_next_loop.simps) (simp add: mark_ready_def)
next
  case (Cons x xs)
  let ?t = "s\<lparr>ev_ready := (ev_ready s)(x := True), ev_available := (ev_available s)(x := -1)\<rparr>"
  have sg: "seg s x xs ngx_posted_next_events" using Cons.prems(1) by simp
  then have "seg ?t x xs ngx_posted_next_events" by (subst seg_frame [of _ _ _ s]) simp_all
  then have "posted_next_loop (hd (xs @ [ngx_posted_next_events])) ?t = Some (mark_ready (set xs) ?t)"
    using Cons.IH Cons.prems(2) by simp
  moreover have "mark_ready (set xs) ?t = mark_ready (set (x # xs)) s" by (auto simp: mark_ready_def fun_eq_iff)
  ultimately show ?case
    using Cons.prems(2) seg_ends [OF sg] by (subst posted_next_loop.simps) (simp add: ngx_queue_next_def)
qed

lemma add_others:
  assumes "queue s h xs" "queue s n ys" "queue s g zs" "set (h # xs @ n # ys) \<inter> set (g # zs) = {}"
    "set (h # xs) \<inter> set (n # ys) = {}"
  shows "queue (ngx_queue_add h n s) g zs"
proof -
  have e: "q_prev s h \<in> set (h # xs)" "q_prev s n \<in> set (n # ys)" "q_next s n \<in> set (n # ys)"
    using queueD [OF assms(1)] queueD [OF assms(2)] by (cases ys; simp)+
  have "q_next (ngx_queue_add h n s) a = q_next s a" "q_prev (ngx_queue_add h n s) a = q_prev s a"
    if "a \<notin> set (h # xs @ n # ys)" for a
    using that e assms(5) by (auto simp: ngx_queue_add_def Let_def split: if_splits)
  then show ?thesis using assms(3,4) by (elim queue_frame) blast
qed


lemma queue_mark_ready [simp]: "queue (mark_ready A s) h xs = queue s h xs"
proof -
  have "seg (mark_ready A s) a xs b = seg s a xs b" for a b by (rule seg_frame) (simp_all add: mark_ready_def)
  then show ?thesis by (simp add: queue_def)
qed

lemma move_next_inv:
  assumes "posted_inv f s"
  shows "\<exists>s'. ngx_event_move_posted_next s = Some s' \<and>
    posted_inv (f(ngx_posted_events := f ngx_posted_events @ f ngx_posted_next_events, ngx_posted_next_events := [])) s' \<and>
    ev_ready s' = ev_ready (mark_ready (set (f ngx_posted_next_events)) s) \<and>
    ev_available s' = ev_available (mark_ready (set (f ngx_posted_next_events)) s)"
proof -
  let ?E = ngx_posted_events and ?N = ngx_posted_next_events and ?A = ngx_posted_accept_events
  let ?t = "mark_ready (set (f ?N)) s"
  let ?u = "ngx_queue_add ?E ?N ?t"
  let ?v = "ngx_queue_init ?N ?u" and ?f = "f(?E := f ?E @ f ?N, ?N := [])"
  note q = posted_invD(1) [OF assms]
  note dj = posted_disjoint [OF assms]
  have sg: "seg s ?N (f ?N) ?N" "?N \<notin> set (f ?N)" using q [of ?N] by (auto simp: queue_def)
  have run: "ngx_event_move_posted_next s = Some ?v"
    using posted_next_loop_run [OF sg] seg_ends [OF sg(1)]
    by (simp add: ngx_event_move_posted_next_def ngx_queue_head_def)
  have uE: "queue ?u ?E (f ?E @ f ?N)" using q dj [of ?E ?N] by (intro queue_add) auto
  have uA: "queue ?u ?A (f ?A)"
    using q [of ?E] q [of ?N] q [of ?A] dj [of ?E ?N] dj [of ?E ?A] dj [of ?N ?A]
    by (intro add_others [of _ _ "f ?E" _ "f ?N"]) auto
  have keep: "queue ?v h xs" if "queue ?u h xs" "?N \<notin> set (h # xs)" for h xs
    using that by (elim queue_frame) (auto simp: init_links)
  have "queue ?v h (?f h)" if "h \<in> posted_headers" for h
    using that uE uA queue_init [of ?N ?u] keep [OF uE] keep [OF uA] posted_invD(2) [OF assms, of ?E]
      posted_invD(2) [OF assms, of ?N] posted_invD(2) [OF assms, of ?A]
    by (auto simp: posted_headers_def)
  moreover have "ev_posted ?v e = (\<exists>h \<in> posted_headers. e \<in> set (?f h))" if "e \<notin> posted_headers" for e
    using posted_invD(4) [OF assms that] by (auto simp: posted_headers_def mark_ready_def)
  moreover have "set (?f h) \<inter> posted_headers = {}" if "h \<in> posted_headers" for h
    using posted_invD(2) [OF assms, of ?E] posted_invD(2) [OF assms, of ?N] posted_invD(2) [OF assms that] by auto
  moreover have "set (?f h) \<inter> set (?f g) = {}" if "h \<in> posted_headers" "g \<in> posted_headers" "h \<noteq> g" for h g
    using posted_invD(3) [OF assms, of ?E] posted_invD(3) [OF assms, of ?N] posted_invD(3) [OF assms that] that
    by auto
  ultimately have "posted_inv ?f ?v" by (intro posted_invI) blast+
  then show ?thesis using run by (simp add: ngx_queue_init_def ngx_queue_add_def Let_def)
qed


subsection \<open>Properties\<close>

text \<open>C21. The posted flag is exact and every event is in at most one of the three queues, in the order
  of posting: posting an event that is not posted appends it, posting it again changes nothing, deleting it
  takes it out of its queue, and moving the next events returns with the next queue empty and its events,
  marked ready with unknown available bytes, behind those of the posted queue.\<close>

theorem posted_queues_invariant:
  assumes "posted_inv f s"
  shows "(\<forall>q \<in> posted_headers. \<forall>ev. ev \<notin> posted_headers \<longrightarrow>
      posted_inv (if ev_posted s ev then f else f(q := f q @ [ev])) (ngx_post_event ev q s)) \<and>
    (\<forall>q \<in> posted_headers. \<forall>ev xs ys. f q = xs @ ev # ys \<longrightarrow>
      posted_inv (f(q := xs @ ys)) (ngx_delete_posted_event ev s)) \<and>
    (\<exists>s'. ngx_event_move_posted_next s = Some s' \<and>
      posted_inv (f(ngx_posted_events := f ngx_posted_events @ f ngx_posted_next_events, ngx_posted_next_events := [])) s' \<and>
      (\<forall>ev \<in> set (f ngx_posted_next_events). ev_ready s' ev \<and> ev_available s' ev = -1))"
  using post_event_inv [OF assms] delete_event_inv [OF assms] move_next_inv [OF assms]
  by (auto simp: mark_ready_def)

definition ev_init :: evstore where
  "ev_init = \<lparr>q_prev = \<lambda>x. x, q_next = \<lambda>x. x, ev_posted = \<lambda>_. False, ev_ready = \<lambda>_. False, ev_available = \<lambda>_. 0\<rparr>"

lemma posted_inv_init: "posted_inv (\<lambda>_. []) ev_init"
  by (rule posted_invI) (simp_all add: queue_def ev_init_def)

theorem posted_queues_invariant_witness:
  "\<exists>s'. ngx_event_move_posted_next (ngx_post_event 7 ngx_posted_next_events ev_init) = Some s' \<and>
     queue s' ngx_posted_events [7] \<and> queue s' ngx_posted_next_events [] \<and> ev_ready s' 7"
proof -
  have 7: "7 \<notin> posted_headers"
    by (simp add: posted_headers_def ngx_posted_accept_events_def ngx_posted_next_events_def ngx_posted_events_def)
  have "posted_inv ((\<lambda>_. [])(ngx_posted_next_events := [7])) (ngx_post_event 7 ngx_posted_next_events ev_init)"
    using posted_queues_invariant [OF posted_inv_init, THEN conjunct1, rule_format, OF _ 7, of ngx_posted_next_events]
    by (simp add: ev_init_def)
  from posted_queues_invariant [OF this, THEN conjunct2, THEN conjunct2] show ?thesis
    using posted_invD(1) [of _ _ ngx_posted_events] posted_invD(1) [of _ _ ngx_posted_next_events] by fastforce
qed

lemma process_posted_step:
  assumes "posted_inv f s" "q \<in> posted_headers" "f q = ev # es"
  shows "ngx_event_process_posted handler q s =
    ngx_event_process_posted handler q (handler ev (ngx_delete_posted_event ev s))"
proof -
  have q: "queue s q (ev # es)" using posted_invD(1) [OF assms(1,2)] assms(3) by simp
  then have "\<not> ngx_queue_empty s q" "ngx_queue_head s q = ev"
    using nq.rep_empty [OF q] nq.rep_head [OF q] by simp_all
  then show ?thesis by (subst ngx_event_process_posted.simps) (simp add: Let_def)
qed

lemma process_posted_empty:
  "posted_inv f s \<Longrightarrow> q \<in> posted_headers \<Longrightarrow> f q = [] \<Longrightarrow> ngx_event_process_posted handler q s = Some s"
  using posted_invD(1) [of f s q] nq.rep_empty [of s q "[]"]
  by (subst ngx_event_process_posted.simps) simp

lemma process_posted_deleted:
  assumes "posted_inv f s" "q \<in> posted_headers" "f q = ev # es"
  shows "posted_inv (f(q := es)) (ngx_delete_posted_event ev s)" "\<not> ev_posted (ngx_delete_posted_event ev s) ev"
    "ev \<notin> posted_headers"
proof -
  show "posted_inv (f(q := es)) (ngx_delete_posted_event ev s)" using delete_event_inv [OF assms(1,2), of "[]"] assms(3) by simp
  show "\<not> ev_posted (ngx_delete_posted_event ev s) ev" by (simp add: ngx_delete_posted_event_def)
  show "ev \<notin> posted_headers" using posted_invD(2) [OF assms(1,2)] assms(3) by auto
qed

text \<open>C22. Processing a queue of posted events returns with the queue empty and the queues well formed, whatever the
  handlers do as long as they keep the queues well formed and post only boundedly many events: the hypothesis, on
  the handlers alone, is a budget of the state that pays for every event a handler adds to the queue. A handler
  finds its event no longer posted, and may post it again.\<close>

theorem process_posted_returns:
  assumes "posted_inv f s" "q \<in> posted_headers"
    and "\<forall>f s ev. posted_inv f s \<longrightarrow> ev \<notin> posted_headers \<longrightarrow> \<not> ev_posted s ev \<longrightarrow>
      (\<exists>f'. posted_inv f' (handler ev s) \<and> length (f' q) + budget (handler ev s) \<le> length (f q) + (budget s :: nat))"
    and "\<forall>s ev. budget (ngx_delete_posted_event ev s) = budget s"
  shows "\<exists>s' f'. ngx_event_process_posted handler q s = Some s' \<and> posted_inv f' s' \<and> f' q = []"
  using assms(1)
proof (induction "length (f q) + budget s" arbitrary: f s rule: less_induct)
  case less
  show ?case
  proof (cases "f q")
    case Nil
    then show ?thesis using process_posted_empty [OF less.prems assms(2)] less.prems by blast
  next
    case (Cons ev es)
    let ?d = "ngx_delete_posted_event ev s"
    obtain f' where f': "posted_inv f' (handler ev ?d)"
        "length (f' q) + budget (handler ev ?d) \<le> length ((f(q := es)) q) + budget ?d"
      using assms(3) process_posted_deleted [OF less.prems assms(2) Cons] by blast
    then have "length (f' q) + budget (handler ev ?d) < length (f q) + budget s" using assms(4) Cons by simp
    from less.hyps [OF this f'(1)] show ?thesis
      using process_posted_step [OF less.prems assms(2) Cons, of handler] by simp
  qed
qed

text \<open>Handlers that leave the queue alone are run for its events in the order they were posted, each
  event no longer posted when its handler runs, and nothing else is run.\<close>

theorem process_posted_order:
  assumes "posted_inv f s" "q \<in> posted_headers"
    and "\<forall>f s ev es. posted_inv f s \<longrightarrow> f q = ev # es \<longrightarrow>
      (\<exists>f'. posted_inv f' (handler ev (ngx_delete_posted_event ev s)) \<and> f' q = es)"
  shows "ngx_event_process_posted handler q s =
    Some (fold (\<lambda>ev s. handler ev (ngx_delete_posted_event ev s)) (f q) s)"
  using assms(1)
proof (induction "f q" arbitrary: f s)
  case Nil
  then show ?case using process_posted_empty [OF Nil.prems assms(2), of handler] by simp
next
  case (Cons ev es)
  obtain f' where f': "posted_inv f' (handler ev (ngx_delete_posted_event ev s))" "f' q = es"
    using assms(3) [rule_format, OF Cons.prems Cons.hyps(2) [symmetric]] by blast
  show ?case
    using process_posted_step [OF Cons.prems assms(2) Cons.hyps(2) [symmetric], of handler]
      Cons.hyps(1) [OF f'(2) [symmetric] f'(1)]
    by (simp add: Cons.hyps(2) [symmetric] f'(2))
qed

lemma posted_two:
  "\<exists>f. posted_inv f (ngx_post_event 8 ngx_posted_events (ngx_post_event 9 ngx_posted_events ev_init)) \<and>
     f ngx_posted_events = [9, 8]"
proof -
  let ?E = ngx_posted_events
  have no: "8 \<notin> posted_headers" "9 \<notin> posted_headers"
    by (simp_all add: posted_headers_def ngx_posted_accept_events_def ngx_posted_next_events_def ngx_posted_events_def)
  have "posted_inv ((\<lambda>_. [])(?E := [9])) (ngx_post_event 9 ?E ev_init)"
    using post_event_inv [OF posted_inv_init _ no(2), of ?E] by (simp add: ev_init_def)
  from post_event_inv [OF this _ no(1), of ?E] show ?thesis
    by (auto simp: ngx_post_event_def ev_init_def ngx_queue_insert_tail_def)
qed

text \<open>A handler that posts another event of the same queue as long as a counter, which a field of its event holds, allows.\<close>

definition repost :: "addr \<Rightarrow> evstore \<Rightarrow> evstore" where
  "repost ev s =
     (if ev_available s 7 > 0 then ngx_post_event 7 ngx_posted_events (s\<lparr>ev_available := (ev_available s)(7 := ev_available s 7 - 1)\<rparr>)
      else s)"

lemma repost_budget:
  assumes "posted_inv f s"
  shows "\<exists>f'. posted_inv f' (repost ev s) \<and>
    length (f' ngx_posted_events) + nat (ev_available (repost ev s) 7) \<le> length (f ngx_posted_events) + nat (ev_available s 7)"
proof (cases "ev_available s 7 > 0")
  case True
  define t where "t = s\<lparr>ev_available := (ev_available s)(7 := ev_available s 7 - 1)\<rparr>"
  have t: "posted_inv f t" using assms by (simp add: posted_inv_def t_def)
  have 7: "7 \<notin> posted_headers"
    by (simp add: posted_headers_def ngx_posted_accept_events_def ngx_posted_next_events_def ngx_posted_events_def)
  have "ev_available (repost ev s) 7 = ev_available s 7 - 1"
    using True by (simp add: repost_def ngx_post_event_def ngx_queue_insert_tail_def Let_def)
  moreover have "repost ev s = ngx_post_event 7 ngx_posted_events t" using True by (simp add: repost_def t_def)
  ultimately show ?thesis
    using True post_event_inv [OF t posted_headers_mem(3) 7]
    by (intro exI [of _ "if ev_posted t 7 then f else f(ngx_posted_events := f ngx_posted_events @ [7])"]) auto
next
  case False
  then show ?thesis using assms by (auto simp: repost_def)
qed

theorem process_posted_returns_witness:
  "\<exists>s'. ngx_event_process_posted repost ngx_posted_events
    (ngx_post_event 8 ngx_posted_events (ngx_post_event 9 ngx_posted_events ev_init)) = Some s'"
proof -
  obtain f where f: "posted_inv f (ngx_post_event 8 ngx_posted_events (ngx_post_event 9 ngx_posted_events ev_init))"
    using posted_two by blast
  have h: "\<forall>f s ev. posted_inv f s \<longrightarrow> ev \<notin> posted_headers \<longrightarrow> \<not> ev_posted s ev \<longrightarrow>
      (\<exists>f'. posted_inv f' (repost ev s) \<and>
        length (f' ngx_posted_events) + nat (ev_available (repost ev s) 7) \<le> length (f ngx_posted_events) + nat (ev_available s 7))"
    using repost_budget by blast
  have b: "\<forall>s ev. nat (ev_available (ngx_delete_posted_event ev s) 7) = nat (ev_available s 7)"
    by (simp add: ngx_delete_posted_event_def ngx_queue_remove_def Let_def)
  show ?thesis using process_posted_returns [OF f posted_headers_mem(3) h b] by blast
qed

theorem process_posted_order_witness:
  "\<exists>s'. ngx_event_process_posted (\<lambda>ev s. s\<lparr>ev_available := (ev_available s)(ev := ev_available s ev + 1)\<rparr>) ngx_posted_events
    (ngx_post_event 8 ngx_posted_events (ngx_post_event 9 ngx_posted_events ev_init)) = Some s' \<and> ev_available s' 8 = 1"
proof -
  let ?h = "\<lambda>ev s. s\<lparr>ev_available := (ev_available s)(ev := ev_available s ev + 1)\<rparr>"
  let ?s = "ngx_post_event 8 ngx_posted_events (ngx_post_event 9 ngx_posted_events ev_init)"
  have keep: "posted_inv f s \<Longrightarrow> posted_inv f (?h ev s)" for f s ev by (simp add: posted_inv_def)
  have del: "posted_inv f s \<Longrightarrow> f ngx_posted_events = ev # es \<Longrightarrow>
      posted_inv (f(ngx_posted_events := es)) (ngx_delete_posted_event ev s)" for f s ev es
    using delete_event_inv [of f s ngx_posted_events "[]" ev es] by simp
  have "\<forall>f s ev es. posted_inv f s \<longrightarrow> f ngx_posted_events = ev # es \<longrightarrow>
      (\<exists>f'. posted_inv f' (?h ev (ngx_delete_posted_event ev s)) \<and> f' ngx_posted_events = es)"
    using keep [OF del] by (metis fun_upd_same)
  note h = this
  obtain f where f: "posted_inv f ?s" "f ngx_posted_events = [9, 8]" using posted_two by blast
  have "ngx_event_process_posted ?h ngx_posted_events ?s =
      Some (fold (\<lambda>ev s. ?h ev (ngx_delete_posted_event ev s)) [9, 8] ?s)"
    using process_posted_order [OF f(1) posted_headers_mem(3) h] by (simp only: f(2))
  moreover have "ev_available (ngx_delete_posted_event ev s) = ev_available s" for ev s
    by (simp add: ngx_delete_posted_event_def ngx_queue_remove_def Let_def)
  moreover have "ev_available ?s 8 = 0"
    by (simp add: ngx_post_event_def ev_init_def ngx_queue_insert_tail_def Let_def)
  ultimately show ?thesis by simp
qed

end
