(* ===== verification/Ngx_Lock.thy ===== *)
theory Ngx_Lock
  imports Ngx_Prelude
begin

section \<open>Locks between processes\<close>

text \<open>
  The reader-writer lock of \<open>src/core/ngx_rwlock.c\<close> and the mutex of \<open>src/core/ngx_shmtx.c\<close>, built on
  atomic operations on a word in shared memory. Each process is at a point of the code between two
  accesses to shared memory; a step of the system is one such access by one process: a read of the word,
  a compare-and-set, an atomic addition, a semaphore call. The worker processes run in any
  interleaving of these steps. \<open>ngx_cpu_pause\<close> and \<open>ngx_sched_yield\<close> access nothing; the variable
  \<open>n\<close> of the spinning loop is kept in the program point.
\<close>

subsection \<open>Reachable states\<close>

inductive reachable :: "('s \<Rightarrow> bool) \<Rightarrow> ('s \<Rightarrow> 's \<Rightarrow> bool) \<Rightarrow> 's \<Rightarrow> bool" for init step where
  reach_init: "init s \<Longrightarrow> reachable init step s"
| reach_step: "reachable init step s \<Longrightarrow> step s s' \<Longrightarrow> reachable init step s'"

text \<open>What a proof of safety needs: an invariant that holds at first and that every step keeps.\<close>

locale inductive_invariant =
  fixes init :: "'s \<Rightarrow> bool" and step :: "'s \<Rightarrow> 's \<Rightarrow> bool" and inv :: "'s \<Rightarrow> bool"
  assumes inv_init: "init s \<Longrightarrow> inv s"
    and inv_step: "inv s \<Longrightarrow> step s s' \<Longrightarrow> inv s'"
begin

lemma reachable_inv: "reachable init step s \<Longrightarrow> inv s"
  by (induction rule: reachable.induct) (auto intro: inv_init inv_step)

end

text \<open>Sums over processes of which one moves.\<close>

lemma sum_moved:
  fixes g :: "'b \<Rightarrow> int"
  assumes "finite P" "p \<in> P"
  shows "(\<Sum>x\<in>P. g ((f(p := v)) x)) = (\<Sum>x\<in>P. g (f x)) - g (f p) + g v"
proof -
  have "(\<Sum>x\<in>P. g ((f(p := v)) x)) = g v + (\<Sum>x\<in>P - {p}. g (f x))"
    using assms by (subst sum.remove [of P p]) (auto intro!: sum.cong)
  then show ?thesis using assms sum.remove [of P p "\<lambda>x. g (f x)"] by simp
qed

subsection \<open>The spinning loop\<close>

text \<open>The next attempt after a failed one: \<open>n = 0\<close> is the attempt at the top of the outer loop, other
  values are the loop variable of \<open>for (n = 1; n < spin; n <<= 1)\<close>; \<open>None\<close> says that the spinning is
  over (or that there is one processor only).\<close>

definition next_spin :: "nat \<Rightarrow> nat \<Rightarrow> nat \<Rightarrow> nat option" where
  "next_spin ncpu spin n =
     (let n' = (if n = 0 then 1 else 2 * n) in if ncpu > 1 \<and> n' < spin then Some n' else None)"

subsection \<open>The reader-writer lock\<close>

definition NGX_RWLOCK_SPIN :: nat where
  "NGX_RWLOCK_SPIN = 2048"

definition NGX_RWLOCK_WLOCK :: "64 word" where
  "NGX_RWLOCK_WLOCK = -1"

text \<open>The points of the four functions: before the read, before the compare-and-set (with the value
  read), and behind the call, holding the lock.\<close>

datatype rw_pc = Rw_idle | Rw_wtest nat | Rw_wcas nat | Rw_rread nat | Rw_rcas nat "64 word" | Rw_held
  | Rw_utest | Rw_ucas | Rw_udec | Rw_dtest | Rw_dset

text \<open>\<open>rw_mode\<close> records what the lock calls of a process have given it; no step of the code reads it.\<close>

datatype rw_mode = Rw_none | Rw_read | Rw_write

record rwlock =
  rw_lock :: "64 word"
  rw_pc :: "nat \<Rightarrow> rw_pc"
  rw_mode :: "nat \<Rightarrow> rw_mode"

definition rw_at :: "nat \<Rightarrow> rw_pc \<Rightarrow> rwlock \<Rightarrow> rwlock" where
  "rw_at p pc s = s\<lparr>rw_pc := (rw_pc s)(p := pc)\<rparr>"

definition rw_gets :: "nat \<Rightarrow> rw_mode \<Rightarrow> rwlock \<Rightarrow> rwlock" where
  "rw_gets p m s = s\<lparr>rw_mode := (rw_mode s)(p := m)\<rparr>"

definition rw_spin :: "nat \<Rightarrow> nat \<Rightarrow> nat" where
  "rw_spin ncpu n = (case next_spin ncpu NGX_RWLOCK_SPIN n of Some m \<Rightarrow> m | None \<Rightarrow> 0)"

definition ngx_rwlock_wlock :: "nat \<Rightarrow> nat \<Rightarrow> rwlock \<Rightarrow> rwlock option" where
  "ngx_rwlock_wlock ncpu p s =
     (case rw_pc s p of
        Rw_wtest n \<Rightarrow> Some (rw_at p (if rw_lock s = 0 then Rw_wcas n else Rw_wtest (rw_spin ncpu n)) s)
      | Rw_wcas n \<Rightarrow>
          Some (if rw_lock s = 0 then rw_gets p Rw_write (rw_at p Rw_held (s\<lparr>rw_lock := NGX_RWLOCK_WLOCK\<rparr>))
                else rw_at p (Rw_wtest (rw_spin ncpu n)) s)
      | _ \<Rightarrow> None)"

definition ngx_rwlock_rlock :: "nat \<Rightarrow> nat \<Rightarrow> rwlock \<Rightarrow> rwlock option" where
  "ngx_rwlock_rlock ncpu p s =
     (case rw_pc s p of
        Rw_rread n \<Rightarrow>
          Some (rw_at p (if rw_lock s \<noteq> NGX_RWLOCK_WLOCK then Rw_rcas n (rw_lock s)
                         else Rw_rread (rw_spin ncpu n)) s)
      | Rw_rcas n readers \<Rightarrow>
          Some (if rw_lock s = readers then rw_gets p Rw_read (rw_at p Rw_held (s\<lparr>rw_lock := readers + 1\<rparr>))
                else rw_at p (Rw_rread (rw_spin ncpu n)) s)
      | _ \<Rightarrow> None)"

definition ngx_rwlock_unlock :: "nat \<Rightarrow> rwlock \<Rightarrow> rwlock option" where
  "ngx_rwlock_unlock p s =
     (case rw_pc s p of
        Rw_utest \<Rightarrow> Some (rw_at p (if rw_lock s = NGX_RWLOCK_WLOCK then Rw_ucas else Rw_udec) s)
      | Rw_ucas \<Rightarrow>
          Some (rw_gets p Rw_none (rw_at p Rw_idle
            (if rw_lock s = NGX_RWLOCK_WLOCK then s\<lparr>rw_lock := 0\<rparr> else s)))
      | Rw_udec \<Rightarrow> Some (rw_gets p Rw_none (rw_at p Rw_idle (s\<lparr>rw_lock := rw_lock s - 1\<rparr>)))
      | _ \<Rightarrow> None)"

definition ngx_rwlock_downgrade :: "nat \<Rightarrow> rwlock \<Rightarrow> rwlock option" where
  "ngx_rwlock_downgrade p s =
     (case rw_pc s p of
        Rw_dtest \<Rightarrow> Some (rw_at p (if rw_lock s = NGX_RWLOCK_WLOCK then Rw_dset else Rw_held) s)
      | Rw_dset \<Rightarrow> Some (rw_gets p Rw_read (rw_at p Rw_held (s\<lparr>rw_lock := 1\<rparr>)))
      | _ \<Rightarrow> None)"

text \<open>A process calls a lock function when it holds nothing, and unlocks or downgrades what it holds.\<close>

inductive rw_step :: "nat \<Rightarrow> nat \<Rightarrow> rwlock \<Rightarrow> rwlock \<Rightarrow> bool" for ncpu procs where
  "p < procs \<Longrightarrow> rw_pc s p = Rw_idle \<Longrightarrow> rw_step ncpu procs s (rw_at p (Rw_wtest 0) s)"
| "p < procs \<Longrightarrow> rw_pc s p = Rw_idle \<Longrightarrow> rw_step ncpu procs s (rw_at p (Rw_rread 0) s)"
| "p < procs \<Longrightarrow> rw_pc s p = Rw_held \<Longrightarrow> rw_step ncpu procs s (rw_at p Rw_utest s)"
| "p < procs \<Longrightarrow> rw_pc s p = Rw_held \<Longrightarrow> rw_step ncpu procs s (rw_at p Rw_dtest s)"
| "p < procs \<Longrightarrow> ngx_rwlock_wlock ncpu p s = Some s' \<Longrightarrow> rw_step ncpu procs s s'"
| "p < procs \<Longrightarrow> ngx_rwlock_rlock ncpu p s = Some s' \<Longrightarrow> rw_step ncpu procs s s'"
| "p < procs \<Longrightarrow> ngx_rwlock_unlock p s = Some s' \<Longrightarrow> rw_step ncpu procs s s'"
| "p < procs \<Longrightarrow> ngx_rwlock_downgrade p s = Some s' \<Longrightarrow> rw_step ncpu procs s s'"

definition rw_init :: "rwlock \<Rightarrow> bool" where
  "rw_init s \<longleftrightarrow> s = \<lparr>rw_lock = 0, rw_pc = \<lambda>_. Rw_idle, rw_mode = \<lambda>_. Rw_none\<rparr>"

text \<open>The invariant: the modes agree with the program points, and the word is the number of readers
  or, with one writer and no reader, all ones.\<close>

fun rw_pc_ok :: "rw_mode \<Rightarrow> rw_pc \<Rightarrow> bool" where
  "rw_pc_ok m Rw_idle = (m = Rw_none)"
| "rw_pc_ok m (Rw_wtest n) = (m = Rw_none)"
| "rw_pc_ok m (Rw_wcas n) = (m = Rw_none)"
| "rw_pc_ok m (Rw_rread n) = (m = Rw_none)"
| "rw_pc_ok m (Rw_rcas n r) = (m = Rw_none \<and> r \<noteq> NGX_RWLOCK_WLOCK)"
| "rw_pc_ok m Rw_held = (m \<noteq> Rw_none)"
| "rw_pc_ok m Rw_utest = (m \<noteq> Rw_none)"
| "rw_pc_ok m Rw_ucas = (m = Rw_write)"
| "rw_pc_ok m Rw_udec = (m = Rw_read)"
| "rw_pc_ok m Rw_dtest = (m \<noteq> Rw_none)"
| "rw_pc_ok m Rw_dset = (m = Rw_write)"

definition rw_readers :: "nat \<Rightarrow> rwlock \<Rightarrow> int" where
  "rw_readers procs s = (\<Sum>p<procs. of_bool (rw_mode s p = Rw_read))"

definition rw_excl :: "nat \<Rightarrow> rwlock \<Rightarrow> bool" where
  "rw_excl procs s \<longleftrightarrow>
     (if \<exists>p<procs. rw_mode s p = Rw_write
      then rw_lock s = NGX_RWLOCK_WLOCK \<and> rw_readers procs s = 0 \<and>
        (\<forall>p<procs. \<forall>q<procs. rw_mode s p = Rw_write \<longrightarrow> rw_mode s q = Rw_write \<longrightarrow> p = q)
      else uint (rw_lock s) = rw_readers procs s)"

definition rw_inv :: "nat \<Rightarrow> rwlock \<Rightarrow> bool" where
  "rw_inv procs s \<longleftrightarrow> (\<forall>p<procs. rw_pc_ok (rw_mode s p) (rw_pc s p)) \<and> rw_excl procs s"


lemma rw_fields [simp]:
  "rw_lock (rw_at p c s) = rw_lock s" "rw_mode (rw_at p c s) = rw_mode s"
  "rw_pc (rw_at p c s) = (rw_pc s)(p := c)"
  "rw_lock (rw_gets p m s) = rw_lock s" "rw_pc (rw_gets p m s) = rw_pc s"
  "rw_mode (rw_gets p m s) = (rw_mode s)(p := m)"
  by (simp_all add: rw_at_def rw_gets_def)

lemma rw_readers_at [simp]: "rw_readers procs (rw_at p c s) = rw_readers procs s"
  by (simp add: rw_readers_def)

lemma uint_wlock: "uint NGX_RWLOCK_WLOCK = 2 ^ 64 - 1"
  by (simp add: NGX_RWLOCK_WLOCK_def unsigned_minus_1_eq_mask mask_eq_exp_minus_1)

lemma uint_not_wlock: "r \<noteq> NGX_RWLOCK_WLOCK \<Longrightarrow> uint r < 2 ^ 64 - 1"
proof -
  assume "r \<noteq> NGX_RWLOCK_WLOCK"
  then have "uint r \<noteq> 2 ^ 64 - 1" using uint_wlock by (metis word_uint_eq_iff)
  then show ?thesis using uint_lt2p [of r] by simp
qed

lemma rw_readers_nonneg: "0 \<le> rw_readers procs s"
  by (simp add: rw_readers_def sum_nonneg)

lemma rw_readers_le: "rw_readers procs s \<le> int procs"
proof -
  have "rw_readers procs s \<le> (\<Sum>p<procs. 1)" unfolding rw_readers_def by (rule sum_mono) simp
  then show ?thesis by simp
qed

lemma rw_readers_pos: "p < procs \<Longrightarrow> rw_mode s p = Rw_read \<Longrightarrow> 0 < rw_readers procs s"
  unfolding rw_readers_def by (rule sum_pos2 [of _ p]) auto

lemma rw_readers_move:
  "p < procs \<Longrightarrow> rw_mode s' = (rw_mode s)(p := m) \<Longrightarrow>
   rw_readers procs s' = rw_readers procs s - of_bool (rw_mode s p = Rw_read) + of_bool (m = Rw_read)"
  unfolding rw_readers_def using sum_moved [of "{..<procs}" p "\<lambda>m. of_bool (m = Rw_read)" "rw_mode s" m] by simp

text \<open>What the word says when it is all ones, and when it is not.\<close>

lemma rw_excl_cases:
  assumes "rw_excl procs s" "int procs < 2 ^ 64 - 1" "p < procs" "rw_mode s p \<noteq> Rw_none"
  shows "rw_mode s p = Rw_write \<longleftrightarrow> rw_lock s = NGX_RWLOCK_WLOCK"
proof (cases "\<exists>p<procs. rw_mode s p = Rw_write")
  case True
  then have l: "rw_lock s = NGX_RWLOCK_WLOCK" "rw_readers procs s = 0" using assms(1) by (simp_all add: rw_excl_def)
  then have "rw_mode s p \<noteq> Rw_read" using rw_readers_pos [OF assms(3), of s] by auto
  then show ?thesis using l(1) assms(4) by (cases "rw_mode s p") auto
next
  case False
  then have "uint (rw_lock s) = rw_readers procs s" using assms(1) by (simp add: rw_excl_def)
  then have "uint (rw_lock s) < 2 ^ 64 - 1" using rw_readers_le [of procs s] assms(2) by linarith
  then have "rw_lock s \<noteq> NGX_RWLOCK_WLOCK" using uint_wlock by auto
  then show ?thesis using False assms(3) by blast
qed

lemma rw_inv_at:
  "rw_inv procs s \<Longrightarrow> rw_pc_ok (rw_mode s p) c \<Longrightarrow> rw_inv procs (rw_at p c s)"
  by (simp add: rw_inv_def rw_excl_def)

lemma rw_no_writer:
  assumes "rw_excl procs s" "rw_lock s \<noteq> NGX_RWLOCK_WLOCK"
  shows "uint (rw_lock s) = rw_readers procs s" "\<forall>p<procs. rw_mode s p \<noteq> Rw_write"
  using assms by (auto simp: rw_excl_def split: if_splits)

lemma rw_wlock_inv:
  assumes "rw_inv procs s" "p < procs" "ngx_rwlock_wlock ncpu p s = Some s'"
  shows "rw_inv procs s'"
proof (cases "rw_pc s p")
  case (Rw_wtest n)
  then have "rw_mode s p = Rw_none" using assms(1,2) unfolding rw_inv_def by fastforce
  then show ?thesis using assms Rw_wtest by (auto simp: ngx_rwlock_wlock_def intro!: rw_inv_at)
next
  case (Rw_wcas n)
  then have m: "rw_mode s p = Rw_none" using assms(1,2) unfolding rw_inv_def by fastforce
  show ?thesis
  proof (cases "rw_lock s = 0")
    case True
    have w: "rw_readers procs s = 0" "\<forall>p<procs. rw_mode s p \<noteq> Rw_write"
      using rw_no_writer [of procs s] assms(1) True by (auto simp: rw_inv_def NGX_RWLOCK_WLOCK_def)
    have s': "s' = rw_gets p Rw_write (rw_at p Rw_held (s\<lparr>rw_lock := NGX_RWLOCK_WLOCK\<rparr>))"
      using assms(3) Rw_wcas True by (simp add: ngx_rwlock_wlock_def)
    then have "rw_readers procs s' = 0" using rw_readers_move [OF assms(2), of s' s Rw_write] w(1) m by simp
    then have "rw_excl procs s'" using w(2) assms(2) s' by (auto simp: rw_excl_def)
    then show ?thesis using assms(1) s' by (simp add: rw_inv_def)
  next
    case False
    then show ?thesis using assms Rw_wcas m by (auto simp: ngx_rwlock_wlock_def intro!: rw_inv_at)
  qed
qed (use assms(3) in \<open>simp_all add: ngx_rwlock_wlock_def\<close>)

lemma rw_rlock_inv:
  assumes "rw_inv procs s" "p < procs" "ngx_rwlock_rlock ncpu p s = Some s'"
  shows "rw_inv procs s'"
proof (cases "rw_pc s p")
  case (Rw_rread n)
  then have "rw_mode s p = Rw_none" using assms(1,2) unfolding rw_inv_def by fastforce
  then show ?thesis using assms Rw_rread by (auto simp: ngx_rwlock_rlock_def intro!: rw_inv_at)
next
  case (Rw_rcas n r)
  then have m: "rw_mode s p = Rw_none" "r \<noteq> NGX_RWLOCK_WLOCK" using assms(1,2) unfolding rw_inv_def by fastforce+
  show ?thesis
  proof (cases "rw_lock s = r")
    case True
    have w: "uint r = rw_readers procs s" "\<forall>p<procs. rw_mode s p \<noteq> Rw_write"
      using rw_no_writer [of procs s] assms(1) True m(2) by (auto simp: rw_inv_def)
    have s': "s' = rw_gets p Rw_read (rw_at p Rw_held (s\<lparr>rw_lock := r + 1\<rparr>))"
      using assms(3) Rw_rcas True by (simp add: ngx_rwlock_rlock_def)
    then have "rw_readers procs s' = rw_readers procs s + 1"
      using rw_readers_move [OF assms(2), of s' s Rw_read] m(1) by simp
    moreover have "uint (r + 1) = uint r + 1"
      using uint_not_wlock [OF m(2)] by (simp add: uint_plus_if')
    ultimately have "rw_excl procs s'" using w s' by (auto simp: rw_excl_def split: if_splits)
    then show ?thesis using assms(1) s' by (simp add: rw_inv_def)
  next
    case False
    then show ?thesis using assms Rw_rcas m by (auto simp: ngx_rwlock_rlock_def intro!: rw_inv_at)
  qed
qed (use assms(3) in \<open>simp_all add: ngx_rwlock_rlock_def\<close>)


lemma rw_unlock_inv:
  assumes "rw_inv procs s" "int procs < 2 ^ 64 - 1" "p < procs" "ngx_rwlock_unlock p s = Some s'"
  shows "rw_inv procs s'"
proof (cases "rw_pc s p")
  case Rw_utest
  then have m: "rw_mode s p \<noteq> Rw_none" using assms(1,3) unfolding rw_inv_def by fastforce
  have "rw_mode s p = Rw_write \<longleftrightarrow> rw_lock s = NGX_RWLOCK_WLOCK"
    using rw_excl_cases assms(1-3) m unfolding rw_inv_def by blast
  then show ?thesis
    using assms(1,4) Rw_utest m by (cases "rw_mode s p") (auto simp: ngx_rwlock_unlock_def intro!: rw_inv_at)
next
  case Rw_ucas
  then have m: "rw_mode s p = Rw_write" using assms(1,3) unfolding rw_inv_def by fastforce
  have x: "rw_lock s = NGX_RWLOCK_WLOCK" "rw_readers procs s = 0" "\<forall>q<procs. rw_mode s q = Rw_write \<longrightarrow> q = p"
    using assms(1,3) m unfolding rw_inv_def rw_excl_def by (auto split: if_splits)
  have s': "s' = rw_gets p Rw_none (rw_at p Rw_idle (s\<lparr>rw_lock := 0\<rparr>))"
    using assms(4) Rw_ucas x(1) by (simp add: ngx_rwlock_unlock_def)
  then have "rw_readers procs s' = 0" using rw_readers_move [OF assms(3), of s' s Rw_none] x(2) m by simp
  then have "rw_excl procs s'" using x(3) s' by (auto simp: rw_excl_def)
  then show ?thesis using assms(1) s' by (simp add: rw_inv_def)
next
  case Rw_udec
  then have m: "rw_mode s p = Rw_read" using assms(1,3) unfolding rw_inv_def by fastforce
  have pos: "0 < rw_readers procs s" using rw_readers_pos [OF assms(3) m] .
  have x: "uint (rw_lock s) = rw_readers procs s" "\<forall>q<procs. rw_mode s q \<noteq> Rw_write"
    using assms(1) pos unfolding rw_inv_def rw_excl_def by (auto split: if_splits)
  have s': "s' = rw_gets p Rw_none (rw_at p Rw_idle (s\<lparr>rw_lock := rw_lock s - 1\<rparr>))"
    using assms(4) Rw_udec by (simp add: ngx_rwlock_unlock_def)
  then have "rw_readers procs s' = rw_readers procs s - 1"
    using rw_readers_move [OF assms(3), of s' s Rw_none] m by simp
  moreover have "uint (rw_lock s - 1) = uint (rw_lock s) - 1" using x(1) pos by (simp add: uint_sub_if')
  ultimately have "rw_excl procs s'" using x s' by (auto simp: rw_excl_def split: if_splits)
  then show ?thesis using assms(1) s' by (simp add: rw_inv_def)
qed (use assms(4) in \<open>simp_all add: ngx_rwlock_unlock_def\<close>)

lemma rw_downgrade_inv:
  assumes "rw_inv procs s" "int procs < 2 ^ 64 - 1" "p < procs" "ngx_rwlock_downgrade p s = Some s'"
  shows "rw_inv procs s'"
proof (cases "rw_pc s p")
  case Rw_dtest
  then have m: "rw_mode s p \<noteq> Rw_none" using assms(1,3) unfolding rw_inv_def by fastforce
  have "rw_mode s p = Rw_write \<longleftrightarrow> rw_lock s = NGX_RWLOCK_WLOCK"
    using rw_excl_cases assms(1-3) m unfolding rw_inv_def by blast
  then show ?thesis
    using assms(1,4) Rw_dtest m by (cases "rw_mode s p") (auto simp: ngx_rwlock_downgrade_def intro!: rw_inv_at)
next
  case Rw_dset
  then have m: "rw_mode s p = Rw_write" using assms(1,3) unfolding rw_inv_def by fastforce
  have x: "rw_readers procs s = 0" "\<forall>q<procs. rw_mode s q = Rw_write \<longrightarrow> q = p"
    using assms(1,3) m unfolding rw_inv_def rw_excl_def by (auto split: if_splits)
  have s': "s' = rw_gets p Rw_read (rw_at p Rw_held (s\<lparr>rw_lock := 1\<rparr>))"
    using assms(4) Rw_dset by (simp add: ngx_rwlock_downgrade_def)
  then have "rw_readers procs s' = 1" using rw_readers_move [OF assms(3), of s' s Rw_read] x(1) m by simp
  then have "rw_excl procs s'" using x(2) s' by (auto simp: rw_excl_def)
  then show ?thesis using assms(1) s' by (simp add: rw_inv_def)
qed (use assms(4) in \<open>simp_all add: ngx_rwlock_downgrade_def\<close>)

lemma rw_step_inv:
  assumes "rw_step ncpu procs s s'" "rw_inv procs s" "int procs < 2 ^ 64 - 1"
  shows "rw_inv procs s'"
  using assms(1)
proof cases
  case (1 p)
  then have "rw_mode s p = Rw_none" using assms(2) unfolding rw_inv_def by fastforce
  then show ?thesis using 1 assms(2) by (simp add: rw_inv_at)
next
  case (2 p)
  then have "rw_mode s p = Rw_none" using assms(2) unfolding rw_inv_def by fastforce
  then show ?thesis using 2 assms(2) by (simp add: rw_inv_at)
next
  case (3 p)
  then have "rw_mode s p \<noteq> Rw_none" using assms(2) unfolding rw_inv_def by fastforce
  then show ?thesis using 3 assms(2) by (simp add: rw_inv_at)
next
  case (4 p)
  then have "rw_mode s p \<noteq> Rw_none" using assms(2) unfolding rw_inv_def by fastforce
  then show ?thesis using 4 assms(2) by (simp add: rw_inv_at)
qed (use assms(2,3) rw_wlock_inv rw_rlock_inv rw_unlock_inv rw_downgrade_inv in blast)+


interpretation rw: inductive_invariant rw_init "rw_step ncpu procs" "\<lambda>s. int procs < 2 ^ 64 - 1 \<longrightarrow> rw_inv procs s"
  for ncpu procs
proof
  show "int procs < 2 ^ 64 - 1 \<longrightarrow> rw_inv procs s" if "rw_init s" for s
    using that by (simp add: rw_init_def rw_inv_def rw_excl_def rw_readers_def)
qed (blast intro: rw_step_inv)

subsection \<open>The mutex\<close>

text \<open>
  \<open>ngx_shmtx_t\<close> with atomic operations. The word is 0 or the process number of the owner; \<open>wait\<close>
  counts the processes that are going to sleep, as a signed 64-bit number; \<open>sem\<close> is the value of the POSIX
  semaphore. \<open>sem_wait\<close> on a semaphore of value 0 blocks; a signal wakes it with \<open>EINTR\<close> and the code waits
  again. The calls do not fail otherwise, as POSIX has it for a valid semaphore. Process numbers are
  positive. A process may die while it holds the mutex; \<open>ngx_shmtx_force_unlock\<close> is called for the
  number of a dead process.
\<close>

record shmtx_conf =
  mtx_spin :: nat
  mtx_semaphore :: bool
  mtx_ncpu :: nat

datatype sh_pc = Sh_idle | Sh_test nat | Sh_cas nat | Sh_inc | Sh_test2 | Sh_cas2 | Sh_dec | Sh_sem | Sh_held
  | Sh_try_test | Sh_try_cas | Sh_rel nat | Sh_wake_read | Sh_wake_cas int | Sh_post | Sh_dead

record shmtx =
  sh_lock :: nat
  sh_wait :: int
  sh_sem :: nat
  sh_pc :: "nat \<Rightarrow> sh_pc"

definition sh_at :: "nat \<Rightarrow> sh_pc \<Rightarrow> shmtx \<Rightarrow> shmtx" where
  "sh_at p c s = s\<lparr>sh_pc := (sh_pc s)(p := c)\<rparr>"

definition ngx_shmtx_trylock :: "nat \<Rightarrow> shmtx \<Rightarrow> shmtx option" where
  "ngx_shmtx_trylock p s =
     (case sh_pc s p of
        Sh_try_test \<Rightarrow> Some (sh_at p (if sh_lock s = 0 then Sh_try_cas else Sh_idle) s)
      | Sh_try_cas \<Rightarrow> Some (if sh_lock s = 0 then sh_at p Sh_held (s\<lparr>sh_lock := p\<rparr>) else sh_at p Sh_idle s)
      | _ \<Rightarrow> None)"

text \<open>Behind a failed attempt: spin on, or go to sleep, or yield and start over.\<close>

definition sh_failed :: "shmtx_conf \<Rightarrow> nat \<Rightarrow> sh_pc" where
  "sh_failed conf n =
     (case next_spin (mtx_ncpu conf) (mtx_spin conf) n of
        Some m \<Rightarrow> Sh_test m
      | None \<Rightarrow> if mtx_semaphore conf then Sh_inc else Sh_test 0)"

definition ngx_shmtx_lock :: "shmtx_conf \<Rightarrow> nat \<Rightarrow> shmtx \<Rightarrow> shmtx option" where
  "ngx_shmtx_lock conf p s =
     (case sh_pc s p of
        Sh_test n \<Rightarrow> Some (sh_at p (if sh_lock s = 0 then Sh_cas n else sh_failed conf n) s)
      | Sh_cas n \<Rightarrow> Some (if sh_lock s = 0 then sh_at p Sh_held (s\<lparr>sh_lock := p\<rparr>) else sh_at p (sh_failed conf n) s)
      | Sh_inc \<Rightarrow> Some (sh_at p Sh_test2 (s\<lparr>sh_wait := s64 (sh_wait s + 1)\<rparr>))
      | Sh_test2 \<Rightarrow> Some (sh_at p (if sh_lock s = 0 then Sh_cas2 else Sh_sem) s)
      | Sh_cas2 \<Rightarrow> Some (if sh_lock s = 0 then sh_at p Sh_dec (s\<lparr>sh_lock := p\<rparr>) else sh_at p Sh_sem s)
      | Sh_dec \<Rightarrow> Some (sh_at p Sh_held (s\<lparr>sh_wait := s64 (sh_wait s - 1)\<rparr>))
      | Sh_sem \<Rightarrow> if sh_sem s > 0 then Some (sh_at p (Sh_test 0) (s\<lparr>sh_sem := sh_sem s - 1\<rparr>)) else None
      | _ \<Rightarrow> None)"

definition ngx_shmtx_wakeup :: "nat \<Rightarrow> shmtx \<Rightarrow> shmtx option" where
  "ngx_shmtx_wakeup p s =
     (case sh_pc s p of
        Sh_wake_read \<Rightarrow> Some (sh_at p (if sh_wait s \<le> 0 then Sh_idle else Sh_wake_cas (sh_wait s)) s)
      | Sh_wake_cas w \<Rightarrow>
          Some (if sh_wait s = w then sh_at p Sh_post (s\<lparr>sh_wait := s64 (w - 1)\<rparr>) else sh_at p Sh_wake_read s)
      | Sh_post \<Rightarrow> Some (sh_at p Sh_idle (s\<lparr>sh_sem := sh_sem s + 1\<rparr>))
      | _ \<Rightarrow> None)"

text \<open>\<open>ngx_shmtx_unlock\<close> releases the caller's own number, \<open>ngx_shmtx_force_unlock\<close> that of its argument.\<close>

definition ngx_shmtx_force_unlock :: "shmtx_conf \<Rightarrow> nat \<Rightarrow> shmtx \<Rightarrow> shmtx option" where
  "ngx_shmtx_force_unlock conf p s =
     (case sh_pc s p of
        Sh_rel pid \<Rightarrow>
          Some (if sh_lock s = pid
                then sh_at p (if mtx_semaphore conf then Sh_wake_read else Sh_idle) (s\<lparr>sh_lock := 0\<rparr>)
                else sh_at p Sh_idle s)
      | _ \<Rightarrow> None)"

inductive sh_step :: "shmtx_conf \<Rightarrow> nat \<Rightarrow> shmtx \<Rightarrow> shmtx \<Rightarrow> bool" for conf procs where
  sh_call_lock: "p \<in> {1..procs} \<Longrightarrow> sh_pc s p = Sh_idle \<Longrightarrow> sh_step conf procs s (sh_at p (Sh_test 0) s)"
| sh_call_try: "p \<in> {1..procs} \<Longrightarrow> sh_pc s p = Sh_idle \<Longrightarrow> sh_step conf procs s (sh_at p Sh_try_test s)"
| sh_call_unlock: "p \<in> {1..procs} \<Longrightarrow> sh_pc s p = Sh_held \<Longrightarrow> sh_step conf procs s (sh_at p (Sh_rel p) s)"
| sh_die: "p \<in> {1..procs} \<Longrightarrow> sh_pc s p = Sh_held \<Longrightarrow> sh_step conf procs s (sh_at p Sh_dead s)"
| sh_call_force: "p \<in> {1..procs} \<Longrightarrow> q \<in> {1..procs} \<Longrightarrow> sh_pc s p = Sh_idle \<Longrightarrow> sh_pc s q = Sh_dead \<Longrightarrow>
    sh_step conf procs s (sh_at p (Sh_rel q) s)"
| sh_lock_step: "p \<in> {1..procs} \<Longrightarrow> ngx_shmtx_lock conf p s = Some s' \<Longrightarrow> sh_step conf procs s s'"
| sh_try_step: "p \<in> {1..procs} \<Longrightarrow> ngx_shmtx_trylock p s = Some s' \<Longrightarrow> sh_step conf procs s s'"
| sh_unlock_step: "p \<in> {1..procs} \<Longrightarrow> ngx_shmtx_force_unlock conf p s = Some s' \<Longrightarrow> sh_step conf procs s s'"
| sh_wakeup_step: "p \<in> {1..procs} \<Longrightarrow> ngx_shmtx_wakeup p s = Some s' \<Longrightarrow> sh_step conf procs s s'"

definition sh_init :: "shmtx \<Rightarrow> bool" where
  "sh_init s \<longleftrightarrow> s = \<lparr>sh_lock = 0, sh_wait = 0, sh_sem = 0, sh_pc = \<lambda>_. Sh_idle\<rparr>"

text \<open>Who owns the mutex, who is counted in \<open>wait\<close>, and who is on the way to take or to wake.\<close>

fun sh_owns :: "nat \<Rightarrow> sh_pc \<Rightarrow> bool" where
  "sh_owns p Sh_dec = True"
| "sh_owns p Sh_held = True"
| "sh_owns p (Sh_rel q) = (p = q)"
| "sh_owns p _ = False"

fun sh_weight :: "sh_pc \<Rightarrow> int" where
  "sh_weight Sh_test2 = 1"
| "sh_weight Sh_cas2 = 1"
| "sh_weight Sh_dec = 1"
| "sh_weight Sh_sem = 1"
| "sh_weight Sh_post = -1"
| "sh_weight _ = 0"

fun sh_waiting :: "sh_pc \<Rightarrow> bool" where
  "sh_waiting Sh_test2 = True"
| "sh_waiting Sh_cas2 = True"
| "sh_waiting Sh_dec = True"
| "sh_waiting Sh_sem = True"
| "sh_waiting _ = False"

fun sh_active :: "sh_pc \<Rightarrow> bool" where
  "sh_active Sh_idle = False"
| "sh_active Sh_held = False"
| "sh_active Sh_dead = False"
| "sh_active Sh_sem = False"
| "sh_active (Sh_rel q) = False"
| "sh_active _ = True"

definition sh_owner_inv :: "nat \<Rightarrow> shmtx \<Rightarrow> bool" where
  "sh_owner_inv procs s \<longleftrightarrow>
     (\<forall>p\<in>{1..procs}. sh_owns p (sh_pc s p) \<longrightarrow> sh_lock s = p) \<and>
     (\<forall>p\<in>{1..procs}. sh_lock s = p \<longrightarrow> sh_owns p (sh_pc s p) \<or> sh_pc s p = Sh_dead) \<and>
     (\<forall>p\<in>{1..procs}. \<forall>q. sh_pc s p = Sh_rel q \<longrightarrow> q \<in> {1..procs} \<and> (q = p \<or> sh_pc s q = Sh_dead))"

definition sh_count_inv :: "nat \<Rightarrow> shmtx \<Rightarrow> bool" where
  "sh_count_inv procs s \<longleftrightarrow>
     sh_wait s + int (sh_sem s) = (\<Sum>p\<in>{1..procs}. sh_weight (sh_pc s p)) \<and>
     0 \<le> sh_wait s + (\<Sum>p\<in>{1..procs}. of_bool (\<not> sh_waiting (sh_pc s p))) \<and>
     (\<forall>p\<in>{1..procs}. \<forall>w. sh_pc s p = Sh_wake_cas w \<longrightarrow> 0 < w)"

definition sh_wake_inv :: "nat \<Rightarrow> shmtx \<Rightarrow> bool" where
  "sh_wake_inv procs s \<longleftrightarrow>
     (sh_lock s = 0 \<longrightarrow> (\<exists>p\<in>{1..procs}. sh_pc s p = Sh_sem) \<longrightarrow>
        0 < sh_sem s \<or> (\<exists>p\<in>{1..procs}. sh_active (sh_pc s p)))"


lemma sh_fields [simp]:
  "sh_lock (sh_at p c s) = sh_lock s" "sh_wait (sh_at p c s) = sh_wait s" "sh_sem (sh_at p c s) = sh_sem s"
  "sh_pc (sh_at p c s) = (sh_pc s)(p := c)"
  by (simp_all add: sh_at_def)

text \<open>Each step moves one process; what it needs to keep the invariants.\<close>

lemma sh_ownerD:
  assumes "sh_owner_inv procs s" "p \<in> {1..procs}"
  shows "sh_owns p (sh_pc s p) \<Longrightarrow> sh_lock s = p"
    and "sh_lock s = p \<Longrightarrow> sh_owns p (sh_pc s p) \<or> sh_pc s p = Sh_dead"
    and "sh_pc s p = Sh_rel q \<Longrightarrow> q \<in> {1..procs} \<and> (q = p \<or> sh_pc s q = Sh_dead)"
  using assms unfolding sh_owner_inv_def by blast+

lemma sh_ownerI:
  assumes "\<And>p. p \<in> {1..procs} \<Longrightarrow> sh_owns p (sh_pc s p) \<Longrightarrow> sh_lock s = p"
    and "\<And>p. p \<in> {1..procs} \<Longrightarrow> sh_lock s = p \<Longrightarrow> sh_owns p (sh_pc s p) \<or> sh_pc s p = Sh_dead"
    and "\<And>p q. p \<in> {1..procs} \<Longrightarrow> sh_pc s p = Sh_rel q \<Longrightarrow> q \<in> {1..procs} \<and> (q = p \<or> sh_pc s q = Sh_dead)"
  shows "sh_owner_inv procs s"
  using assms unfolding sh_owner_inv_def by blast

lemma sh_rel_keep:
  assumes "sh_owner_inv procs s" "sh_pc s' = (sh_pc s)(p := c)" "sh_pc s p \<noteq> Sh_dead"
    "\<And>q. c = Sh_rel q \<Longrightarrow> q \<in> {1..procs} \<and> (q = p \<or> sh_pc s q = Sh_dead)" "x \<in> {1..procs}" "sh_pc s' x = Sh_rel q"
  shows "q \<in> {1..procs} \<and> (q = x \<or> sh_pc s' q = Sh_dead)"
proof (cases "x = p")
  case True
  then show ?thesis using assms(2,4,6) by auto
next
  case False
  then have "q \<in> {1..procs} \<and> (q = x \<or> sh_pc s q = Sh_dead)"
    using sh_ownerD(3) [OF assms(1,5)] assms(2,6) by simp
  then show ?thesis using assms(2,3) by auto
qed

lemma sh_owner_keep:
  assumes "sh_owner_inv procs s" "p \<in> {1..procs}" "sh_lock s' = sh_lock s" "sh_pc s' = (sh_pc s)(p := c)"
    "sh_owns p c = sh_owns p (sh_pc s p)" "sh_pc s p \<noteq> Sh_dead"
    "\<And>q. c = Sh_rel q \<Longrightarrow> q \<in> {1..procs} \<and> (q = p \<or> sh_pc s q = Sh_dead)"
  shows "sh_owner_inv procs s'"
proof (rule sh_ownerI)
  fix x assume x: "x \<in> {1..procs}"
  show "sh_lock s' = x" if "sh_owns x (sh_pc s' x)"
    using that sh_ownerD(1) [OF assms(1) x] assms(3-5) by (cases "x = p") auto
  show "sh_owns x (sh_pc s' x) \<or> sh_pc s' x = Sh_dead" if "sh_lock s' = x"
    using that sh_ownerD(2) [OF assms(1) x] assms(3-6) by (cases "x = p") auto
qed (use sh_rel_keep [OF assms(1,4,6,7)] in blast)

lemma sh_owner_die:
  assumes "sh_owner_inv procs s" "p \<in> {1..procs}" "sh_pc s p = Sh_held"
  shows "sh_owner_inv procs (sh_at p Sh_dead s)"
proof (rule sh_ownerI)
  fix x assume x: "x \<in> {1..procs}"
  show "sh_lock (sh_at p Sh_dead s) = x" if "sh_owns x (sh_pc (sh_at p Sh_dead s) x)"
    using that sh_ownerD(1) [OF assms(1) x] by (cases "x = p") auto
  show "sh_owns x (sh_pc (sh_at p Sh_dead s) x) \<or> sh_pc (sh_at p Sh_dead s) x = Sh_dead"
    if "sh_lock (sh_at p Sh_dead s) = x"
    using that sh_ownerD(2) [OF assms(1) x] by (cases "x = p") auto
  show "q \<in> {1..procs} \<and> (q = x \<or> sh_pc (sh_at p Sh_dead s) q = Sh_dead)"
    if "sh_pc (sh_at p Sh_dead s) x = Sh_rel q" for q
    using that sh_ownerD(3) [OF assms(1) x, of q] by (cases "x = p") auto
qed

lemma sh_owner_take:
  assumes "sh_owner_inv procs s" "p \<in> {1..procs}" "sh_lock s = 0" "sh_lock s' = p" "sh_pc s' = (sh_pc s)(p := c)"
    "sh_owns p c" "\<And>q. c \<noteq> Sh_rel q" "sh_pc s p \<noteq> Sh_dead"
  shows "sh_owner_inv procs s'"
proof (rule sh_ownerI)
  fix x assume x: "x \<in> {1..procs}"
  show "sh_lock s' = x" if "sh_owns x (sh_pc s' x)"
    using that sh_ownerD(1) [OF assms(1) x] assms(3-5) x by (cases "x = p") auto
  show "sh_owns x (sh_pc s' x) \<or> sh_pc s' x = Sh_dead" if "sh_lock s' = x"
    using that assms(4-6) by auto
qed (use sh_rel_keep [OF assms(1,5,8)] assms(7) in blast)

lemma sh_owner_release:
  assumes "sh_owner_inv procs s" "p \<in> {1..procs}" "sh_pc s p = Sh_rel (sh_lock s)" "sh_lock s' = 0"
    "sh_pc s' = (sh_pc s)(p := c)" "\<not> sh_owns p c" "\<And>q. c \<noteq> Sh_rel q"
  shows "sh_owner_inv procs s'"
proof (rule sh_ownerI)
  have l: "sh_lock s = p \<or> sh_pc s (sh_lock s) = Sh_dead" using sh_ownerD(3) [OF assms(1,2,3)] by blast
  fix x assume x: "x \<in> {1..procs}"
  show "sh_lock s' = x" if "sh_owns x (sh_pc s' x)"
  proof (cases "x = p")
    case False
    then have o: "sh_owns x (sh_pc s x)" using that assms(5) by simp
    then have "sh_lock s = x" using sh_ownerD(1) [OF assms(1) x] by blast
    then show ?thesis using l o False by auto
  qed (use that assms(5,6) in simp)
  show "sh_owns x (sh_pc s' x) \<or> sh_pc s' x = Sh_dead" if "sh_lock s' = x"
    using that assms(4) x by simp
  fix q assume "sh_pc s' x = Sh_rel q"
  moreover have "sh_pc s p \<noteq> Sh_dead" using assms(3) by simp
  ultimately show "q \<in> {1..procs} \<and> (q = x \<or> sh_pc s' q = Sh_dead)"
    using sh_rel_keep [OF assms(1,5) _ _ x] assms(7) by blast
qed

definition sh_bounded :: "nat \<Rightarrow> int \<Rightarrow> bool" where
  "sh_bounded procs w \<longleftrightarrow> - int procs \<le> w \<and> w \<le> int procs"

lemma sh_count_bounded:
  assumes "sh_count_inv procs s" shows "sh_bounded procs (sh_wait s)"
proof -
  have "sh_weight c \<le> 1" for c by (cases c) auto
  then have "(\<Sum>p\<in>{1..procs}. sh_weight (sh_pc s p)) \<le> (\<Sum>p\<in>{1..procs}. 1)" by (intro sum_mono)
  moreover have "(\<Sum>p\<in>{1..procs}. of_bool (\<not> sh_waiting (sh_pc s p))) \<le> (\<Sum>p\<in>{1..procs}. (1::int))"
    by (intro sum_mono) simp
  ultimately show ?thesis using assms unfolding sh_count_inv_def sh_bounded_def by simp
qed

lemma sh_count_move:
  assumes "sh_count_inv procs s" "p \<in> {1..procs}" "sh_pc s' = (sh_pc s)(p := c)"
    "sh_wait s' + int (sh_sem s') = sh_wait s + int (sh_sem s) - sh_weight (sh_pc s p) + sh_weight c"
    "0 \<le> sh_wait s' \<or> sh_wait s \<le> sh_wait s' + of_bool (sh_waiting (sh_pc s p)) - of_bool (sh_waiting c)"
    "\<And>w. c = Sh_wake_cas w \<Longrightarrow> 0 < w"
  shows "sh_count_inv procs s'"
proof -
  let ?n = "\<lambda>c. of_bool (\<not> sh_waiting c) :: int"
  have "(\<Sum>q\<in>{1..procs}. ?n (sh_pc s' q)) = (\<Sum>q\<in>{1..procs}. ?n (sh_pc s q)) - ?n (sh_pc s p) + ?n c"
    unfolding assms(3) using assms(2) by (intro sum_moved) auto
  moreover have "0 \<le> (\<Sum>q\<in>{1..procs}. ?n (sh_pc s' q))" by (intro sum_nonneg) simp
  moreover have "(\<Sum>q\<in>{1..procs}. sh_weight (sh_pc s' q)) =
      (\<Sum>q\<in>{1..procs}. sh_weight (sh_pc s q)) - sh_weight (sh_pc s p) + sh_weight c"
    unfolding assms(3) using assms(2) by (intro sum_moved) auto
  moreover have "\<forall>q\<in>{1..procs}. \<forall>w. sh_pc s' q = Sh_wake_cas w \<longrightarrow> 0 < w"
    using assms(1,3,6) unfolding sh_count_inv_def by simp
  ultimately show ?thesis using assms(1,4,5) unfolding sh_count_inv_def by (auto simp: of_bool_def split: if_splits)
qed

lemma sh_wake_active:
  assumes "p \<in> {1..procs}" "sh_pc s' = (sh_pc s)(p := c)" "sh_active c"
  shows "sh_wake_inv procs s'"
  using assms unfolding sh_wake_inv_def by (metis fun_upd_same)

lemma sh_wake_locked: "sh_lock s' \<noteq> 0 \<Longrightarrow> sh_wake_inv procs s'"
  by (simp add: sh_wake_inv_def)

lemma sh_wake_keep:
  assumes "sh_wake_inv procs s" "sh_lock s' = sh_lock s" "sh_pc s' = (sh_pc s)(p := c)" "sh_sem s' = sh_sem s"
    "\<not> sh_active (sh_pc s p)" "c \<noteq> Sh_sem"
  shows "sh_wake_inv procs s'"
  using assms unfolding sh_wake_inv_def by (metis fun_upd_apply)


lemma sh_wait_wrap:
  assumes "sh_count_inv procs s" "int procs < 2 ^ 62"
  shows "s64 (sh_wait s + 1) = sh_wait s + 1" "s64 (sh_wait s - 1) = sh_wait s - 1"
proof -
  have "- (2 ^ 62) < sh_wait s" "sh_wait s < 2 ^ 62"
    using sh_count_bounded [OF assms(1)] assms(2) unfolding sh_bounded_def by linarith+
  then show "s64 (sh_wait s + 1) = sh_wait s + 1" "s64 (sh_wait s - 1) = sh_wait s - 1"
    by (intro s64_id; simp)+
qed

definition sh_inv :: "shmtx_conf \<Rightarrow> nat \<Rightarrow> shmtx \<Rightarrow> bool" where
  "sh_inv conf procs s \<longleftrightarrow>
     sh_owner_inv procs s \<and> sh_count_inv procs s \<and> (mtx_semaphore conf \<longrightarrow> sh_wake_inv procs s)"

lemma sh_failed_cases: "(\<exists>m. sh_failed conf n = Sh_test m) \<or> sh_failed conf n = Sh_inc"
  by (simp add: sh_failed_def split: option.split)

lemma sh_failed_simps [simp]:
  "sh_owns p (sh_failed conf n) = False" "sh_failed conf n \<noteq> Sh_rel q" "sh_active (sh_failed conf n)"
  "sh_weight (sh_failed conf n) = 0" "sh_waiting (sh_failed conf n) = False" "sh_failed conf n \<noteq> Sh_sem"
  "sh_failed conf n \<noteq> Sh_wake_cas w"
  using sh_failed_cases [of conf n] by auto

lemmas sh_moves = sh_owner_keep sh_owner_take sh_owner_release sh_count_move sh_wake_active sh_wake_locked sh_wake_keep

lemma sh_lock_inv:
  assumes "sh_inv conf procs s" "int procs < 2 ^ 62" "p \<in> {1..procs}" "ngx_shmtx_lock conf p s = Some s'"
  shows "sh_inv conf procs s'"
proof -
  have o: "sh_owner_inv procs s" and c: "sh_count_inv procs s" using assms(1) by (simp_all add: sh_inv_def)
  note w = sh_wait_wrap [OF c assms(2)]
  have "sh_owner_inv procs s'"
    using assms(3,4) by (cases "sh_pc s p"; cases "sh_lock s = 0")
      (auto simp: ngx_shmtx_lock_def split: if_splits intro: sh_owner_keep [OF o] sh_owner_take [OF o])
  moreover have "sh_count_inv procs s'"
    using assms(3,4) w by (cases "sh_pc s p"; cases "sh_lock s = 0")
      (auto simp: ngx_shmtx_lock_def split: if_splits intro!: sh_count_move [OF c])
  moreover have "sh_wake_inv procs s'" if "mtx_semaphore conf"
    using assms(3,4) sh_ownerD(1) [OF o assms(3)] by (cases "sh_pc s p"; cases "sh_lock s = 0")
      (auto simp: ngx_shmtx_lock_def split: if_splits intro: sh_wake_active sh_wake_locked)
  ultimately show ?thesis by (simp add: sh_inv_def)
qed


lemma sh_trylock_inv:
  assumes "sh_inv conf procs s" "p \<in> {1..procs}" "ngx_shmtx_trylock p s = Some s'"
  shows "sh_inv conf procs s'"
proof -
  have o: "sh_owner_inv procs s" and c: "sh_count_inv procs s" using assms(1) by (simp_all add: sh_inv_def)
  have "sh_owner_inv procs s'"
    using assms(2,3) by (cases "sh_pc s p"; cases "sh_lock s = 0")
      (auto simp: ngx_shmtx_trylock_def intro: sh_owner_keep [OF o] sh_owner_take [OF o])
  moreover have "sh_count_inv procs s'"
    using assms(2,3) by (cases "sh_pc s p"; cases "sh_lock s = 0")
      (auto simp: ngx_shmtx_trylock_def intro!: sh_count_move [OF c])
  moreover have "sh_wake_inv procs s'"
    using assms(2,3) by (cases "sh_pc s p"; cases "sh_lock s = 0")
      (auto simp: ngx_shmtx_trylock_def intro: sh_wake_active sh_wake_locked)
  ultimately show ?thesis by (simp add: sh_inv_def)
qed

lemma sh_unlock_inv:
  assumes "sh_inv conf procs s" "p \<in> {1..procs}" "ngx_shmtx_force_unlock conf p s = Some s'"
  shows "sh_inv conf procs s'"
proof -
  have o: "sh_owner_inv procs s" and c: "sh_count_inv procs s" and w: "mtx_semaphore conf \<Longrightarrow> sh_wake_inv procs s"
    using assms(1) by (simp_all add: sh_inv_def)
  obtain q where q: "sh_pc s p = Sh_rel q" using assms(3) by (cases "sh_pc s p") (auto simp: ngx_shmtx_force_unlock_def)
  show ?thesis
  proof (cases "sh_lock s = q")
    case True
    let ?c = "if mtx_semaphore conf then Sh_wake_read else Sh_idle"
    have s': "s' = sh_at p ?c (s\<lparr>sh_lock := 0\<rparr>)"
      using assms(3) q True by (simp add: ngx_shmtx_force_unlock_def)
    have "sh_owner_inv procs s'"
      by (rule sh_owner_release [OF o assms(2), of s' ?c]) (use q True s' in auto)
    moreover have "sh_count_inv procs s'" using assms(2) q s' by (auto intro!: sh_count_move [OF c])
    moreover have "sh_wake_inv procs s'" if "mtx_semaphore conf"
      using that assms(2) s' by (intro sh_wake_active [of p procs s' s ?c]) auto
    ultimately show ?thesis by (simp add: sh_inv_def)
  next
    case False
    have s': "s' = sh_at p Sh_idle s" using assms(3) q False by (simp add: ngx_shmtx_force_unlock_def)
    have "q \<noteq> p" using sh_ownerD(1) [OF o assms(2)] q False by auto
    then have "sh_owner_inv procs s'" using assms(2) q s' by (auto intro!: sh_owner_keep [OF o assms(2)])
    moreover have "sh_count_inv procs s'" using assms(2) q s' by (auto intro!: sh_count_move [OF c])
    moreover have "sh_wake_inv procs s'" if "mtx_semaphore conf"
      using q s' by (intro sh_wake_keep [OF w [OF that], of s' p Sh_idle]) auto
    ultimately show ?thesis by (simp add: sh_inv_def)
  qed
qed

text \<open>The waker that finds nobody counted: if somebody sleeps, the semaphore is up or about to be.\<close>

lemma sh_nobody_counted:
  assumes "sh_count_inv procs s" "sh_wait s \<le> 0" "p \<in> {1..procs}" "sh_pc s p = Sh_sem"
  shows "0 < sh_sem s \<or> (\<exists>q\<in>{1..procs}. sh_pc s q = Sh_post)"
proof (rule ccontr)
  assume no: "\<not> ?thesis"
  have ge: "0 \<le> sh_weight (sh_pc s q)" if "q \<in> {1..procs}" for q
  proof -
    have "sh_pc s q \<noteq> Sh_post" using no that by blast
    then show ?thesis by (cases "sh_pc s q") auto
  qed
  have "0 < (\<Sum>q\<in>{1..procs}. sh_weight (sh_pc s q))"
    by (rule sum_pos2 [OF _ assms(3)]) (use ge assms(4) in auto)
  then show False using assms(1,2) no unfolding sh_count_inv_def by auto
qed

lemma sh_wakeup_inv:
  assumes "sh_inv conf procs s" "int procs < 2 ^ 62" "p \<in> {1..procs}" "ngx_shmtx_wakeup p s = Some s'"
  shows "sh_inv conf procs s'"
proof -
  have o: "sh_owner_inv procs s" and c: "sh_count_inv procs s" using assms(1) by (simp_all add: sh_inv_def)
  note w = sh_wait_wrap [OF c assms(2)]
  have "sh_owner_inv procs s'"
    using assms(3,4) by (cases "sh_pc s p")
      (auto simp: ngx_shmtx_wakeup_def intro: sh_owner_keep [OF o] split: if_splits)
  moreover have "sh_count_inv procs s'"
  proof (cases "sh_pc s p")
    case (Sh_wake_cas v)
    then have "0 < v" using c assms(3) unfolding sh_count_inv_def by blast
    then show ?thesis
      using assms(3,4) w Sh_wake_cas by (auto simp: ngx_shmtx_wakeup_def split: if_splits intro!: sh_count_move [OF c])
  qed (use assms(3,4) w in \<open>auto simp: ngx_shmtx_wakeup_def split: if_splits intro!: sh_count_move [OF c]\<close>)
  moreover have "sh_wake_inv procs s'"
  proof (cases "sh_pc s p = Sh_wake_read \<and> sh_wait s \<le> 0")
    case True
    then have s': "s' = sh_at p Sh_idle s" using assms(4) by (simp add: ngx_shmtx_wakeup_def)
    show ?thesis unfolding sh_wake_inv_def
    proof (intro impI)
      assume "\<exists>q\<in>{1..procs}. sh_pc s' q = Sh_sem"
      then obtain q where q: "q \<in> {1..procs}" "sh_pc s q = Sh_sem" using s' by (auto split: if_splits)
      have "0 < sh_sem s \<or> (\<exists>r\<in>{1..procs}. sh_pc s r = Sh_post)" using sh_nobody_counted [OF c _ q] True by blast
      then show "0 < sh_sem s' \<or> (\<exists>q\<in>{1..procs}. sh_active (sh_pc s' q))"
      proof
        assume "\<exists>r\<in>{1..procs}. sh_pc s r = Sh_post"
        then obtain r where "r \<in> {1..procs}" "sh_pc s r = Sh_post" by blast
        moreover from this have "r \<noteq> p" using True by auto
        ultimately have "r \<in> {1..procs} \<and> sh_active (sh_pc s' r)" using s' by simp
        then show ?thesis by blast
      qed (use s' in simp)
    qed
  next
    case False
    then show ?thesis using assms(3,4) by (cases "sh_pc s p")
      (auto simp: ngx_shmtx_wakeup_def sh_wake_inv_def split: if_splits intro: sh_wake_active)
  qed
  ultimately show ?thesis by (simp add: sh_inv_def)
qed


lemma sh_step_inv:
  assumes "sh_step conf procs s s'" "sh_inv conf procs s" "int procs < 2 ^ 62"
  shows "sh_inv conf procs s'"
proof -
  have o: "sh_owner_inv procs s" and c: "sh_count_inv procs s" and w: "mtx_semaphore conf \<Longrightarrow> sh_wake_inv procs s"
    using assms(2) by (simp_all add: sh_inv_def)
  have call: "sh_inv conf procs (sh_at p d s)"
    if "p \<in> {1..procs}" "sh_pc s p = Sh_idle \<or> sh_pc s p = Sh_held" "sh_owns p d = sh_owns p (sh_pc s p)"
      "sh_weight d = 0" "\<not> sh_waiting d" "d \<noteq> Sh_sem" "\<And>w. d \<noteq> Sh_wake_cas w"
      "\<And>q. d = Sh_rel q \<Longrightarrow> q \<in> {1..procs} \<and> (q = p \<or> sh_pc s q = Sh_dead)" for p d
  proof -
    have "sh_owner_inv procs (sh_at p d s)" using that by (intro sh_owner_keep [OF o that(1), of _ d]) auto
    moreover have "sh_count_inv procs (sh_at p d s)" using that by (intro sh_count_move [OF c that(1), of _ d]) auto
    moreover have "sh_wake_inv procs (sh_at p d s)" if "mtx_semaphore conf"
      using \<open>sh_pc s p = Sh_idle \<or> sh_pc s p = Sh_held\<close> \<open>d \<noteq> Sh_sem\<close>
      by (intro sh_wake_keep [OF w [OF that], of _ p d]) auto
    ultimately show ?thesis by (simp add: sh_inv_def)
  qed
  show ?thesis using assms(1)
  proof cases
    case (sh_die p)
    have "sh_count_inv procs (sh_at p Sh_dead s)" using sh_die by (intro sh_count_move [OF c sh_die(2), of _ Sh_dead]) auto
    moreover have "sh_wake_inv procs (sh_at p Sh_dead s)" if "mtx_semaphore conf"
      using sh_die by (intro sh_wake_keep [OF w [OF that], of _ p Sh_dead]) auto
    ultimately show ?thesis using sh_die sh_owner_die [OF o sh_die(2,3)] by (simp add: sh_inv_def)
  next
    case (sh_call_force p q)
    then have "q \<noteq> p" by auto
    then show ?thesis using call [OF sh_call_force(2), of "Sh_rel q"] sh_call_force by simp
  next
    case (sh_call_lock p)
    then show ?thesis using call [OF sh_call_lock(2), of "Sh_test 0"] by simp
  next
    case (sh_call_try p)
    then show ?thesis using call [OF sh_call_try(2), of Sh_try_test] by simp
  next
    case (sh_call_unlock p)
    then show ?thesis using call [OF sh_call_unlock(2), of "Sh_rel p"] by simp
  qed (use assms(2,3) sh_lock_inv sh_trylock_inv sh_unlock_inv sh_wakeup_inv in blast)+
qed

interpretation sh: inductive_invariant sh_init "sh_step conf procs" "\<lambda>s. int procs < 2 ^ 62 \<longrightarrow> sh_inv conf procs s"
  for conf procs
proof
  show "int procs < 2 ^ 62 \<longrightarrow> sh_inv conf procs s" if "sh_init s" for s
    using that by (simp add: sh_init_def sh_inv_def sh_owner_inv_def sh_count_inv_def sh_wake_inv_def)
qed (blast intro: sh_step_inv)


subsection \<open>Properties\<close>

text \<open>C8. The reader-writer lock excludes: in every interleaving of fewer than \<open>2^64 - 1\<close> processes, while
  one process holds the lock for writing no other process holds it at all, and while none does the word is
  the number of readers; a process that downgrades becomes a reader without letting a writer in
  between.\<close>

theorem rwlock_exclusion:
  assumes "reachable rw_init (rw_step ncpu procs) s" "int procs < 2 ^ 64 - 1"
  shows "(\<forall>p<procs. \<forall>q<procs. p \<noteq> q \<longrightarrow> rw_mode s p = Rw_write \<longrightarrow> rw_mode s q = Rw_none) \<and>
    ((\<forall>p<procs. rw_mode s p \<noteq> Rw_write) \<longrightarrow> unat (rw_lock s) = card {p. p < procs \<and> rw_mode s p = Rw_read})"
proof -
  have i: "rw_inv procs s" using rw.reachable_inv [OF assms(1)] assms(2) by blast
  have "rw_mode s q = Rw_none" if "p < procs" "q < procs" "p \<noteq> q" "rw_mode s p = Rw_write" for p q
  proof -
    have "rw_readers procs s = 0" "rw_mode s q \<noteq> Rw_write"
      using i that unfolding rw_inv_def rw_excl_def by (auto split: if_splits)
    then show ?thesis using rw_readers_pos [OF that(2), of s] by (cases "rw_mode s q") auto
  qed
  moreover have "unat (rw_lock s) = card {p. p < procs \<and> rw_mode s p = Rw_read}" if "\<forall>p<procs. rw_mode s p \<noteq> Rw_write"
  proof -
    have "uint (rw_lock s) = rw_readers procs s" using i that unfolding rw_inv_def rw_excl_def by (auto split: if_splits)
    also have "\<dots> = int (card ({..<procs} \<inter> {p. rw_mode s p = Rw_read}))" by (simp add: rw_readers_def)
    also have "{..<procs} \<inter> {p. rw_mode s p = Rw_read} = {p. p < procs \<and> rw_mode s p = Rw_read}" by auto
    finally show ?thesis by (simp add: unat_eq_nat_uint)
  qed
  ultimately show ?thesis by blast
qed

lemma rw_writes:
  "reachable rw_init (rw_step 1 2) \<lparr>rw_lock = NGX_RWLOCK_WLOCK, rw_pc = (\<lambda>_. Rw_idle)(0 := Rw_held),
     rw_mode = (\<lambda>_. Rw_none)(0 := Rw_write)\<rparr>"
proof -
  let ?r = "reachable rw_init (rw_step 1 2)"
  have "?r \<lparr>rw_lock = 0, rw_pc = \<lambda>_. Rw_idle, rw_mode = \<lambda>_. Rw_none\<rparr>" by (rule reach_init) (simp add: rw_init_def)
  from reach_step [OF this rw_step.intros(1) [of 0]]
  have "?r \<lparr>rw_lock = 0, rw_pc = (\<lambda>_. Rw_idle)(0 := Rw_wtest 0), rw_mode = \<lambda>_. Rw_none\<rparr>" by (simp add: rw_at_def)
  from reach_step [OF this rw_step.intros(5) [of 0]]
  have "?r \<lparr>rw_lock = 0, rw_pc = (\<lambda>_. Rw_idle)(0 := Rw_wcas 0), rw_mode = \<lambda>_. Rw_none\<rparr>"
    by (simp add: ngx_rwlock_wlock_def rw_at_def)
  from reach_step [OF this rw_step.intros(5) [of 0]] show ?thesis
    by (simp add: ngx_rwlock_wlock_def rw_at_def rw_gets_def)
qed

theorem rwlock_exclusion_witness:
  "\<exists>s. reachable rw_init (rw_step 1 2) s \<and> rw_mode s 0 = Rw_write \<and> rw_mode s 1 = Rw_none"
  using rwlock_exclusion [OF rw_writes] rw_writes by fastforce

text \<open>C9. The mutex excludes: in every interleaving at most one process is between the return of a lock
  call and its unlock, and the word is its number; and \<open>wait\<close> stays between minus and plus the number of
  processes, so that it never wraps.\<close>

theorem shmtx_exclusion:
  assumes "reachable sh_init (sh_step conf procs) s" "int procs < 2 ^ 62"
  shows "(\<forall>p\<in>{1..procs}. \<forall>q\<in>{1..procs}. sh_pc s p = Sh_held \<longrightarrow> sh_pc s q = Sh_held \<longrightarrow> p = q \<and> sh_lock s = p) \<and>
    - int procs \<le> sh_wait s \<and> sh_wait s \<le> int procs"
proof -
  have i: "sh_owner_inv procs s" "sh_count_inv procs s"
    using sh.reachable_inv [OF assms(1)] assms(2) by (auto simp: sh_inv_def)
  have "sh_lock s = p" if "p \<in> {1..procs}" "sh_pc s p = Sh_held" for p
    using sh_ownerD(1) [OF i(1) that(1)] that(2) by simp
  then show ?thesis using sh_count_bounded [OF i(2)] unfolding sh_bounded_def by metis
qed

text \<open>C10. No wake-up is lost: when the mutex is free and a process sleeps on the semaphore, some process is
  still inside a lock or wake-up call and can go on: the sleeper itself, because the semaphore is up, or one
  that is about to take the mutex or to wake somebody.\<close>

theorem shmtx_no_lost_wakeup:
  assumes "reachable sh_init (sh_step conf procs) s" "int procs < 2 ^ 62" "mtx_semaphore conf"
    and "sh_lock s = 0" "q \<in> {1..procs}" "sh_pc s q = Sh_sem"
  shows "\<exists>p\<in>{1..procs}. ngx_shmtx_lock conf p s \<noteq> None \<or> ngx_shmtx_trylock p s \<noteq> None \<or> ngx_shmtx_wakeup p s \<noteq> None"
proof -
  have "sh_wake_inv procs s" using sh.reachable_inv [OF assms(1)] assms(2,3) by (auto simp: sh_inv_def)
  then consider "0 < sh_sem s" | p where "p \<in> {1..procs}" "sh_active (sh_pc s p)"
    using assms(4-6) unfolding sh_wake_inv_def by metis
  then show ?thesis
  proof cases
    case 1
    then have "ngx_shmtx_lock conf q s \<noteq> None" using assms(6) by (simp add: ngx_shmtx_lock_def)
    then show ?thesis using assms(5) by blast
  next
    case 2
    then have "ngx_shmtx_lock conf p s \<noteq> None \<or> ngx_shmtx_trylock p s \<noteq> None \<or> ngx_shmtx_wakeup p s \<noteq> None"
      by (cases "sh_pc s p") (auto simp: ngx_shmtx_lock_def ngx_shmtx_trylock_def ngx_shmtx_wakeup_def)
    then show ?thesis using 2(1) by blast
  qed
qed

abbreviation sh_example :: shmtx_conf where
  "sh_example \<equiv> \<lparr>mtx_spin = 2048, mtx_semaphore = True, mtx_ncpu = 1\<rparr>"

lemma sh_held_one:
  "reachable sh_init (sh_step sh_example 2) \<lparr>sh_lock = 1, sh_wait = 0, sh_sem = 0, sh_pc = (\<lambda>_. Sh_idle)(1 := Sh_held)\<rparr>"
proof -
  let ?r = "reachable sh_init (sh_step sh_example 2)"
  have "?r \<lparr>sh_lock = 0, sh_wait = 0, sh_sem = 0, sh_pc = \<lambda>_. Sh_idle\<rparr>" by (rule reach_init) (simp add: sh_init_def)
  from reach_step [OF this sh_call_lock [of 1]]
  have "?r \<lparr>sh_lock = 0, sh_wait = 0, sh_sem = 0, sh_pc = (\<lambda>_. Sh_idle)(1 := Sh_test 0)\<rparr>" by (simp add: sh_at_def)
  from reach_step [OF this sh_lock_step [of 1]]
  have "?r \<lparr>sh_lock = 0, sh_wait = 0, sh_sem = 0, sh_pc = (\<lambda>_. Sh_idle)(1 := Sh_cas 0)\<rparr>"
    by (simp add: ngx_shmtx_lock_def sh_at_def)
  from reach_step [OF this sh_lock_step [of 1]] show ?thesis by (simp add: ngx_shmtx_lock_def sh_at_def)
qed

lemma sh_sleeps_two:
  "reachable sh_init (sh_step sh_example 2) \<lparr>sh_lock = 0, sh_wait = 1, sh_sem = 0,
     sh_pc = (\<lambda>_. Sh_idle)(1 := Sh_wake_read, 2 := Sh_sem)\<rparr>"
proof -
  let ?r = "reachable sh_init (sh_step sh_example 2)" and ?f = "(\<lambda>_. Sh_idle)(1 := Sh_held)"
  note [simp] = ngx_shmtx_lock_def ngx_shmtx_force_unlock_def sh_at_def sh_failed_def next_spin_def fun_upd_twist
  have one: "s64 1 = 1" by (simp add: s64_id)
  from reach_step [OF sh_held_one sh_call_lock [of 2]]
  have "?r \<lparr>sh_lock = 1, sh_wait = 0, sh_sem = 0, sh_pc = ?f(2 := Sh_test 0)\<rparr>" by simp
  from reach_step [OF this sh_lock_step [of 2]]
  have "?r \<lparr>sh_lock = 1, sh_wait = 0, sh_sem = 0, sh_pc = ?f(2 := Sh_inc)\<rparr>" by simp
  from reach_step [OF this sh_lock_step [of 2]]
  have "?r \<lparr>sh_lock = 1, sh_wait = 1, sh_sem = 0, sh_pc = ?f(2 := Sh_test2)\<rparr>" by (simp add: one)
  from reach_step [OF this sh_lock_step [of 2]]
  have "?r \<lparr>sh_lock = 1, sh_wait = 1, sh_sem = 0, sh_pc = ?f(2 := Sh_sem)\<rparr>" by simp
  from reach_step [OF this sh_call_unlock [of 1]]
  have "?r \<lparr>sh_lock = 1, sh_wait = 1, sh_sem = 0, sh_pc = ?f(2 := Sh_sem, 1 := Sh_rel 1)\<rparr>" by simp
  from reach_step [OF this sh_unlock_step [of 1]]
  have "?r \<lparr>sh_lock = 0, sh_wait = 1, sh_sem = 0, sh_pc = ?f(2 := Sh_sem, 1 := Sh_wake_read)\<rparr>" by simp
  then show ?thesis by simp
qed

theorem shmtx_exclusion_witness:
  "\<exists>s. reachable sh_init (sh_step sh_example 2) s \<and> sh_pc s 1 = Sh_held \<and> sh_lock s = 1 \<and> sh_wait s \<le> 2"
  using shmtx_exclusion [OF sh_held_one] sh_held_one by fastforce

theorem shmtx_no_lost_wakeup_witness:
  "\<exists>s. reachable sh_init (sh_step sh_example 2) s \<and> sh_lock s = 0 \<and> sh_pc s 2 = Sh_sem \<and> sh_sem s = 0 \<and>
     (\<exists>p\<in>{1..2}. ngx_shmtx_lock sh_example p s \<noteq> None \<or> ngx_shmtx_trylock p s \<noteq> None \<or> ngx_shmtx_wakeup p s \<noteq> None)"
  using shmtx_no_lost_wakeup [OF sh_sleeps_two, of 2] sh_sleeps_two by fastforce

end
