(* ===== verification/Ngx_Round_Robin.thy ===== *)
theory Ngx_Round_Robin
  imports Ngx_Prelude
begin

unbundle bit_operations_syntax

section \<open>Round robin among upstream servers\<close>

text \<open>
  \<open>src/http/ngx_http_upstream_round_robin.c\<close>: the peers of an upstream, how they are built from the
  configured servers, how a request takes one and gives it back. A list of peers chained by \<open>next\<close> is a
  list, a peer is named by its position; the group of backup servers behind \<open>peers->next\<close> is the next
  element of the list of groups. The shared state of an upstream is the list of groups, that of one
  request \<open>rr_peer_data\<close>. The locks around the functions are those of \<open>Ngx_Lock\<close>: a call is one step here.
  Weights and times are unbounded integers, and a theorem below bounds the weights; counters are
  64-bit. Sessions, socket addresses and logging are left out.
\<close>

record rr_peer =
  rr_name :: bytes
  current_weight :: int
  effective_weight :: int
  weight :: int
  conns :: nat
  max_conns :: nat
  fails :: nat
  accessed :: int
  checked :: int
  max_fails :: nat
  fail_timeout :: int
  down :: bool

record rr_peers =
  rr_number :: nat
  total_weight :: int
  rr_tries :: nat
  rr_single :: bool
  weighted :: bool
  rr_peer :: "rr_peer list"

text \<open>What a request holds: \<open>rrp->peers\<close> as the position of the group, the bitmap of the peers it has
  tried, and the peer it uses.\<close>

record rr_peer_data =
  rr_group :: nat
  rr_tried :: "64 word list"
  rr_current :: "nat option"

subsection \<open>Configuration\<close>

record rr_server =
  sv_addrs :: "bytes list"
  sv_weight :: int
  sv_max_conns :: nat
  sv_max_fails :: nat
  sv_fail_timeout :: int
  sv_down :: bool
  sv_backup :: bool

definition rr_server_peers :: "rr_server \<Rightarrow> rr_peer list" where
  "rr_server_peers sv = map (\<lambda>a. \<lparr>rr_name = a, current_weight = 0, effective_weight = sv_weight sv,
     weight = sv_weight sv, conns = 0, max_conns = sv_max_conns sv, fails = 0, accessed = 0, checked = 0,
     max_fails = sv_max_fails sv, fail_timeout = sv_fail_timeout sv, down = sv_down sv\<rparr>) (sv_addrs sv)"

definition rr_make_group :: "rr_server list \<Rightarrow> bool \<Rightarrow> rr_peers" where
  "rr_make_group svs single =
     (let n = sum_list (map (\<lambda>sv. length (sv_addrs sv)) svs);
          w = sum_list (map (\<lambda>sv. int (length (sv_addrs sv)) * sv_weight sv) svs);
          t = sum_list (map (\<lambda>sv. if sv_down sv then 0 else length (sv_addrs sv)) svs)
      in \<lparr>rr_number = n, total_weight = w, rr_tries = t, rr_single = single, weighted = (w \<noteq> int n),
          rr_peer = concat (map rr_server_peers svs)\<rparr>)"

text \<open>\<open>None\<close> is \<open>NGX_ERROR\<close>: no primary server, or (for an upstream with no \<open>server\<close> directives, whose
  host \<open>ngx_inet_resolve_host\<close> resolves to \<open>addrs\<close>) no port or no address.\<close>

definition ngx_http_upstream_init_round_robin :: "rr_server list \<Rightarrow> rr_peers list option" where
  "ngx_http_upstream_init_round_robin servers =
     (let prim = filter (\<lambda>sv. \<not> sv_backup sv) servers; back = filter sv_backup servers;
          n = sum_list (map (\<lambda>sv. length (sv_addrs sv)) prim);
          b = sum_list (map (\<lambda>sv. length (sv_addrs sv)) back)
      in if n = 0 then None
         else if b = 0 then Some [rr_make_group prim (n = 1)]
         else Some [rr_make_group prim False, rr_make_group back False])"

definition rr_implicit :: "bool \<Rightarrow> bytes list option \<Rightarrow> rr_peers list option" where
  "rr_implicit port addrs =
     (if \<not> port then None
      else map_option (\<lambda>as. [\<lparr>rr_number = length as, total_weight = int (length as), rr_tries = length as,
        rr_single = (length as = 1), weighted = False,
        rr_peer = map (\<lambda>a. \<lparr>rr_name = a, current_weight = 0, effective_weight = 1, weight = 1, conns = 0,
          max_conns = 0, fails = 0, accessed = 0, checked = 0, max_fails = 1, fail_timeout = 10, down = False\<rparr>) as\<rparr>])
      addrs)"

definition rr_words :: "nat \<Rightarrow> nat" where
  "rr_words n = (n + 63) div 64"

definition ngx_http_upstream_init_round_robin_peer :: "rr_peers list \<Rightarrow> rr_peer_data" where
  "ngx_http_upstream_init_round_robin_peer groups =
     (let n = (case groups of [] \<Rightarrow> 0
               | [g] \<Rightarrow> rr_number g
               | g # h # _ \<Rightarrow> if rr_number h > rr_number g then rr_number h else rr_number g)
      in \<lparr>rr_group = 0, rr_tried = replicate (if n \<le> 64 then 1 else rr_words n) 0, rr_current = None\<rparr>)"

subsection \<open>Choosing a peer\<close>

definition rr_is_tried :: "64 word list \<Rightarrow> nat \<Rightarrow> bool" where
  "rr_is_tried tried i \<longleftrightarrow> tried ! (i div 64) AND push_bit (i mod 64) 1 \<noteq> 0"

definition rr_set_tried :: "nat \<Rightarrow> 64 word list \<Rightarrow> 64 word list" where
  "rr_set_tried i tried = tried[i div 64 := tried ! (i div 64) OR push_bit (i mod 64) 1]"

text \<open>The conditions under which the loop skips a peer.\<close>

definition rr_skip :: "int \<Rightarrow> 64 word list \<Rightarrow> nat \<Rightarrow> rr_peer \<Rightarrow> bool" where
  "rr_skip now tried i p \<longleftrightarrow>
     rr_is_tried tried i \<or> down p \<or>
     (max_fails p \<noteq> 0 \<and> fails p \<ge> max_fails p \<and> now - checked p \<le> fail_timeout p) \<or>
     (max_conns p \<noteq> 0 \<and> conns p \<ge> max_conns p)"

definition rr_bump :: "rr_peer \<Rightarrow> rr_peer" where
  "rr_bump p = p\<lparr>current_weight := current_weight p + effective_weight p,
     effective_weight := (if effective_weight p < weight p then effective_weight p + 1 else effective_weight p)\<rparr>"

text \<open>The loop over the peers: \<open>best\<close> with its current weight, and \<open>total\<close>.\<close>

fun rr_scan :: "int \<Rightarrow> 64 word list \<Rightarrow> nat \<Rightarrow> (nat \<times> int) option \<Rightarrow> int \<Rightarrow> rr_peer list
    \<Rightarrow> rr_peer list \<times> (nat \<times> int) option \<times> int" where
  "rr_scan now tried i best tot [] = ([], best, tot)"
| "rr_scan now tried i best tot (p # ps) =
     (if rr_skip now tried i p then
        (case rr_scan now tried (Suc i) best tot ps of (ps', b, t) \<Rightarrow> (p # ps', b, t))
      else
        let p' = rr_bump p;
            best = (case best of
                      None \<Rightarrow> Some (i, current_weight p')
                    | Some (_, w) \<Rightarrow> if current_weight p' > w then Some (i, current_weight p') else best)
        in case rr_scan now tried (Suc i) best (tot + effective_weight p) ps of (ps', b, t) \<Rightarrow> (p' # ps', b, t))"

definition ngx_http_upstream_get_peer ::
  "int \<Rightarrow> 64 word list \<Rightarrow> rr_peer list \<Rightarrow> rr_peer list \<times> 64 word list \<times> nat option" where
  "ngx_http_upstream_get_peer now tried peers =
     (case rr_scan now tried 0 None 0 peers of
        (ps, None, tot) \<Rightarrow> (ps, tried, None)
      | (ps, Some (i, _), tot) \<Rightarrow>
          let b = ps ! i;
              b = b\<lparr>current_weight := current_weight b - tot\<rparr>;
              b = (if now - checked b > fail_timeout b then b\<lparr>checked := now\<rparr> else b)
          in (ps[i := b], rr_set_tried i tried, Some i))"

text \<open>\<open>ngx_http_upstream_get_round_robin_peer\<close>: the result is \<open>NGX_OK\<close> or \<open>NGX_BUSY\<close>.\<close>

definition rr_take :: "nat \<Rightarrow> rr_peer list \<Rightarrow> rr_peer list" where
  "rr_take i ps = ps[i := (ps ! i)\<lparr>conns := (conns (ps ! i) + 1) mod 2 ^ 64\<rparr>]"

definition rr_first :: "int \<Rightarrow> rr_peers \<Rightarrow> rr_peer_data \<Rightarrow> rr_peers \<times> rr_peer_data \<times> bool" where
  "rr_first now g d =
     (if rr_single g then
        (let p = hd (rr_peer g) in
         if down p \<or> max_conns p \<noteq> 0 \<and> conns p \<ge> max_conns p then (g, d, False)
         else (g\<lparr>rr_peer := rr_take 0 (rr_peer g)\<rparr>, d\<lparr>rr_current := Some 0\<rparr>, True))
      else
        (case ngx_http_upstream_get_peer now (rr_tried d) (rr_peer g) of
           (ps, tried, None) \<Rightarrow> (g\<lparr>rr_peer := ps\<rparr>, d, False)
         | (ps, tried, Some i) \<Rightarrow>
             (g\<lparr>rr_peer := rr_take i ps\<rparr>, d\<lparr>rr_tried := tried, rr_current := Some i\<rparr>, True)))"

definition rr_clear :: "nat \<Rightarrow> 64 word list \<Rightarrow> 64 word list" where
  "rr_clear n tried = replicate n 0 @ drop n tried"

function ngx_http_upstream_get_round_robin_peer ::
  "int \<Rightarrow> rr_peers list \<Rightarrow> rr_peer_data \<Rightarrow> ngx_rc \<times> rr_peers list \<times> rr_peer_data" where
  "ngx_http_upstream_get_round_robin_peer now groups d =
     (case rr_first now (groups ! rr_group d) d of
        (g, d', ok) \<Rightarrow>
          let groups' = groups[rr_group d := g] in
          if ok then (NGX_OK, groups', d')
          else if Suc (rr_group d) < length groups then
            ngx_http_upstream_get_round_robin_peer now groups'
              (d'\<lparr>rr_group := Suc (rr_group d),
                  rr_tried := rr_clear (rr_words (rr_number (groups ! Suc (rr_group d)))) (rr_tried d')\<rparr>)
          else (NGX_BUSY, groups', d'))"
  by pat_completeness auto
termination by (relation "measure (\<lambda>(now, groups, d). length groups - rr_group d)") auto

declare ngx_http_upstream_get_round_robin_peer.simps [simp del]

text \<open>\<open>ngx_http_upstream_free_round_robin_peer\<close>, with \<open>pc->tries\<close>; \<open>None\<close> would be a call with
  \<open>rrp->current\<close> a null pointer; \<open>failed\<close> is the flag
  \<open>NGX_PEER_FAILED\<close> of \<open>state\<close>.\<close>

definition rr_release :: "int \<Rightarrow> bool \<Rightarrow> rr_peer \<Rightarrow> rr_peer" where
  "rr_release now failed p =
     (let p = (if failed then
                 let p = p\<lparr>fails := (fails p + 1) mod 2 ^ 64, accessed := now, checked := now\<rparr>;
                     p = (if max_fails p \<noteq> 0
                          then p\<lparr>effective_weight := effective_weight p - weight p div int (max_fails p)\<rparr> else p)
                 in if effective_weight p < 0 then p\<lparr>effective_weight := 0\<rparr> else p
               else if accessed p < checked p then p\<lparr>fails := 0\<rparr> else p)
      in p\<lparr>conns := (conns p + 2 ^ 64 - 1) mod 2 ^ 64\<rparr>)"

definition ngx_http_upstream_free_round_robin_peer ::
  "int \<Rightarrow> bool \<Rightarrow> rr_peers list \<Rightarrow> rr_peer_data \<Rightarrow> nat \<Rightarrow> (rr_peers list \<times> nat) option" where
  "ngx_http_upstream_free_round_robin_peer now failed groups d tries =
     (case rr_current d of
        None \<Rightarrow> None
      | Some i \<Rightarrow>
          let g = groups ! rr_group d; p = rr_peer g ! i in
          if rr_single g then
            Some (groups[rr_group d := g\<lparr>rr_peer := (rr_peer g)[i := p\<lparr>conns := (conns p + 2 ^ 64 - 1) mod 2 ^ 64\<rparr>]\<rparr>], 0)
          else Some (groups[rr_group d := g\<lparr>rr_peer := (rr_peer g)[i := rr_release now failed p]\<rparr>],
            if tries \<noteq> 0 then tries - 1 else tries))"


subsection \<open>The choice\<close>

text \<open>The loop as a fold over the candidates, the peers that are not skipped with their new weights.\<close>

definition rr_cands :: "int \<Rightarrow> 64 word list \<Rightarrow> nat \<Rightarrow> rr_peer list \<Rightarrow> (nat \<times> rr_peer) list" where
  "rr_cands now tried i ps = filter (\<lambda>(k, p). \<not> rr_skip now tried k p) (enumerate i ps)"

definition rr_pick :: "nat \<times> rr_peer \<Rightarrow> (nat \<times> int) option \<Rightarrow> (nat \<times> int) option" where
  "rr_pick c best = (case best of
       None \<Rightarrow> Some (fst c, current_weight (rr_bump (snd c)))
     | Some (_, w) \<Rightarrow> if current_weight (rr_bump (snd c)) > w then Some (fst c, current_weight (rr_bump (snd c))) else best)"

lemma rr_scan_fold:
  "rr_scan now tried i best tot ps =
     (map (\<lambda>(k, p). if rr_skip now tried k p then p else rr_bump p) (enumerate i ps),
      fold rr_pick (rr_cands now tried i ps) best,
      tot + (\<Sum>(k, p)\<leftarrow>rr_cands now tried i ps. effective_weight p))"
  by (induction now tried i best tot ps rule: rr_scan.induct)
    (simp_all add: rr_cands_def rr_pick_def Let_def split: option.split)

lemma rr_fold_pick_None: "fold rr_pick cs None = None \<longleftrightarrow> cs = []"
  by (induction cs rule: rev_induct) (auto simp: rr_pick_def split: option.splits)

lemma rr_fold_pick:
  "fold rr_pick cs None = Some (i, w) \<Longrightarrow> \<exists>xs p ys. cs = xs @ (i, p) # ys \<and> w = current_weight (rr_bump p) \<and>
     (\<forall>x\<in>set xs. current_weight (rr_bump (snd x)) < w) \<and> (\<forall>y\<in>set ys. current_weight (rr_bump (snd y)) \<le> w)"
proof (induction cs arbitrary: i w rule: rev_induct)
  case (snoc c cs)
  have f: "fold rr_pick (cs @ [c]) None = Some (i, w)" by (rule snoc.prems)
  show ?case
  proof (cases "fold rr_pick cs None")
    case None
    then have "cs = []" by (simp add: rr_fold_pick_None)
    then show ?thesis using f
      by (intro exI [of _ "[]"] exI [of _ "snd c"] exI [of _ "[]"]) (auto simp: rr_pick_def)
  next
    case (Some b)
    obtain j v where b: "b = (j, v)" by (cases b)
    obtain xs p ys where d: "cs = xs @ (j, p) # ys" "v = current_weight (rr_bump p)"
        "\<forall>x\<in>set xs. current_weight (rr_bump (snd x)) < v" "\<forall>y\<in>set ys. current_weight (rr_bump (snd y)) \<le> v"
      using snoc.IH [of j v] Some b by auto
    show ?thesis
    proof (cases "current_weight (rr_bump (snd c)) > v")
      case True
      then have "i = fst c" "w = current_weight (rr_bump (snd c))" using f Some b by (auto simp: rr_pick_def)
      then have "cs @ [c] = cs @ (i, snd c) # [] \<and> w = current_weight (rr_bump (snd c)) \<and>
          (\<forall>x\<in>set cs. current_weight (rr_bump (snd x)) < w) \<and> (\<forall>y\<in>set []. current_weight (rr_bump (snd y)) \<le> w)"
        using True d by (cases c) fastforce
      then show ?thesis by blast
    next
      case False
      then have iw: "i = j" "w = v" using f Some b by (auto simp: rr_pick_def)
      have "cs @ [c] = xs @ (i, p) # (ys @ [c]) \<and> w = current_weight (rr_bump p) \<and>
          (\<forall>x\<in>set xs. current_weight (rr_bump (snd x)) < w) \<and> (\<forall>y\<in>set (ys @ [c]). current_weight (rr_bump (snd y)) \<le> w)"
        using False d iw by auto
      then show ?thesis by blast
    qed
  qed
qed auto

lemma rr_cands_mem: "(k, p) \<in> set (rr_cands now tried 0 ps) \<longleftrightarrow> k < length ps \<and> p = ps ! k \<and> \<not> rr_skip now tried k p"
  by (auto simp: rr_cands_def in_set_enumerate_eq)

lemma rr_cands_sorted: "sorted_wrt (<) (map fst (rr_cands now tried i ps))"
proof -
  have "sorted_wrt (\<lambda>x y. fst x < fst y) (enumerate i ps)"
    by (induction ps arbitrary: i) (auto simp: in_set_enumerate_eq)
  then show ?thesis unfolding rr_cands_def by (simp add: sorted_wrt_map sorted_wrt_filter)
qed


lemma rr_scan_nth:
  "k < length ps \<Longrightarrow> map (\<lambda>(k, p). if rr_skip now tried k p then p else rr_bump p) (enumerate 0 ps) ! k =
     (if rr_skip now tried k (ps ! k) then ps ! k else rr_bump (ps ! k))"
  by (simp add: nth_enumerate_eq)

text \<open>The sum of the effective weights of the candidates, by position.\<close>

lemma rr_total:
  "(\<Sum>(k, p)\<leftarrow>rr_cands now tried i ps. effective_weight p) =
   (\<Sum>k<length ps. if rr_skip now tried (i + k) (ps ! k) then 0 else effective_weight (ps ! k))"
proof (induction ps arbitrary: i)
  case (Cons p ps)
  have "rr_cands now tried i (p # ps) = (if rr_skip now tried i p then [] else [(i, p)]) @ rr_cands now tried (Suc i) ps"
    by (simp add: rr_cands_def)
  then show ?case using Cons.IH [of "Suc i"] by (auto simp: sum.lessThan_Suc_shift simp del: sum.lessThan_Suc intro!: sum.cong)
qed (simp add: rr_cands_def)

definition rr_chosen :: "int \<Rightarrow> rr_peer \<Rightarrow> int \<Rightarrow> rr_peer" where
  "rr_chosen now b tot = (let b = b\<lparr>current_weight := current_weight b - tot\<rparr>
     in if now - checked b > fail_timeout b then b\<lparr>checked := now\<rparr> else b)"

lemma rr_chosen_simps [simp]:
  "current_weight (rr_chosen now b t) = current_weight b - t" "effective_weight (rr_chosen now b t) = effective_weight b"
  "weight (rr_chosen now b t) = weight b" "down (rr_chosen now b t) = down b" "max_conns (rr_chosen now b t) = max_conns b"
  "max_fails (rr_chosen now b t) = max_fails b" "fails (rr_chosen now b t) = fails b" "conns (rr_chosen now b t) = conns b"
  by (simp_all add: rr_chosen_def Let_def)

lemma rr_bump_simps [simp]:
  "current_weight (rr_bump p) = current_weight p + effective_weight p" "weight (rr_bump p) = weight p"
  "down (rr_bump p) = down p" "max_conns (rr_bump p) = max_conns p" "max_fails (rr_bump p) = max_fails p"
  "fails (rr_bump p) = fails p" "conns (rr_bump p) = conns p"
  by (simp_all add: rr_bump_def)

definition rr_usable :: "int \<Rightarrow> 64 word list \<Rightarrow> rr_peer list \<Rightarrow> nat \<Rightarrow> bool" where
  "rr_usable now tried ps k \<longleftrightarrow> k < length ps \<and> \<not> rr_skip now tried k (ps ! k)"

text \<open>What a call of \<open>ngx_http_upstream_get_peer\<close> does.\<close>

lemma get_peer_spec:
  assumes "ngx_http_upstream_get_peer now tried peers = (ps, tried', r)"
  shows "case r of
      None \<Rightarrow> (\<forall>k. \<not> rr_usable now tried peers k) \<and> ps = peers \<and> tried' = tried
    | Some i \<Rightarrow> rr_usable now tried peers i \<and> tried' = rr_set_tried i tried \<and> length ps = length peers \<and>
        (\<forall>k. rr_usable now tried peers k \<longrightarrow>
          current_weight (peers ! k) + effective_weight (peers ! k) \<le> current_weight (peers ! i) + effective_weight (peers ! i) \<and>
          (k < i \<longrightarrow> current_weight (peers ! k) + effective_weight (peers ! k)
             < current_weight (peers ! i) + effective_weight (peers ! i))) \<and>
        (\<forall>k<length peers. ps ! k =
          (if k = i then rr_chosen now (rr_bump (peers ! i))
             (\<Sum>k<length peers. if rr_skip now tried k (peers ! k) then 0 else effective_weight (peers ! k))
           else if rr_skip now tried k (peers ! k) then peers ! k else rr_bump (peers ! k)))"
proof (cases "fold rr_pick (rr_cands now tried 0 peers) None")
  case None
  then have e: "rr_cands now tried 0 peers = []" by (simp add: rr_fold_pick_None)
  then have n: "\<not> rr_usable now tried peers k" for k
    using rr_cands_mem [of k "peers ! k" now tried peers] unfolding rr_usable_def by auto
  have r: "r = None" "tried' = tried" "ps = map (\<lambda>(k, p). if rr_skip now tried k p then p else rr_bump p) (enumerate 0 peers)"
    using assms None by (auto simp: ngx_http_upstream_get_peer_def rr_scan_fold)
  have "ps = peers" unfolding r(3)
  proof (rule nth_equalityI)
    show "map (\<lambda>(k, p). if rr_skip now tried k p then p else rr_bump p) (enumerate 0 peers) ! k = peers ! k"
      if "k < length (map (\<lambda>(k, p). if rr_skip now tried k p then p else rr_bump p) (enumerate 0 peers))" for k
      using that n [of k] rr_scan_nth [of k peers now tried] unfolding rr_usable_def by simp
  qed simp
  then show ?thesis using n r by simp
next
  case (Some iw)
  obtain i w where iw: "iw = (i, w)" by (cases iw)
  obtain xs p ys where c: "rr_cands now tried 0 peers = xs @ (i, p) # ys" "w = current_weight (rr_bump p)"
      "\<forall>x\<in>set xs. current_weight (rr_bump (snd x)) < w" "\<forall>y\<in>set ys. current_weight (rr_bump (snd y)) \<le> w"
    using rr_fold_pick Some iw by blast
  have i: "i < length peers" "p = peers ! i" "\<not> rr_skip now tried i p"
    using rr_cands_mem [of i p now tried peers] c(1) by auto
  let ?m = "map (\<lambda>(k, p). if rr_skip now tried k p then p else rr_bump p) (enumerate 0 peers)"
  have r: "r = Some i" "tried' = rr_set_tried i tried"
      "ps = ?m[i := rr_chosen now (?m ! i) (\<Sum>(k, p)\<leftarrow>rr_cands now tried 0 peers. effective_weight p)]"
    using assms Some iw by (auto simp: ngx_http_upstream_get_peer_def rr_scan_fold rr_chosen_def Let_def)
  have mx: "current_weight (rr_bump (peers ! k)) \<le> w \<and> (k < i \<longrightarrow> current_weight (rr_bump (peers ! k)) < w)"
    if "rr_usable now tried peers k" for k
  proof -
    have "(k, peers ! k) \<in> set xs \<or> k = i \<or> (k, peers ! k) \<in> set ys"
      using that rr_cands_mem [of k "peers ! k" now tried peers] c(1) unfolding rr_usable_def by auto
    moreover have "i < k" if "(k, peers ! k) \<in> set ys"
      using rr_cands_sorted [of now tried 0 peers] c(1) that by (auto simp: sorted_wrt_append sorted_wrt_map)
    ultimately show ?thesis using c(2-4) i(2) by fastforce
  qed
  have "ps ! k = (if k = i then rr_chosen now (rr_bump (peers ! i))
      (\<Sum>k<length peers. if rr_skip now tried k (peers ! k) then 0 else effective_weight (peers ! k))
      else if rr_skip now tried k (peers ! k) then peers ! k else rr_bump (peers ! k))" if "k < length peers" for k
    using that i r(3) rr_scan_nth [of _ peers now tried] rr_total [of now tried 0 peers] by simp
  moreover have "length ps = length peers" using r(3) by simp
  moreover have "rr_usable now tried peers i" using i by (simp add: rr_usable_def)
  ultimately show ?thesis using r(1,2) mx c(2) i(2) by simp
qed


subsection \<open>The bitmap of tried peers\<close>

lemma rr_is_tried_bit: "rr_is_tried tried k \<longleftrightarrow> bit (tried ! (k div 64)) (k mod 64)"
  by (simp add: rr_is_tried_def bit_iff_and_push_bit_not_eq_0)

lemma rr_is_tried_zero: "k div 64 < n \<Longrightarrow> \<not> rr_is_tried (replicate n 0 @ ws) k"
  by (simp add: rr_is_tried_bit nth_append)

lemma rr_is_tried_set:
  assumes "i div 64 < length tried" "k div 64 < length tried"
  shows "rr_is_tried (rr_set_tried i tried) k \<longleftrightarrow> k = i \<or> rr_is_tried tried k"
proof -
  have eq: "k = i \<longleftrightarrow> k div 64 = i div 64 \<and> k mod 64 = i mod 64" by (metis div_mult_mod_eq)
  show ?thesis
  proof (cases "k div 64 = i div 64")
    case True
    have "bit (push_bit (i mod 64) 1 :: 64 word) (k mod 64) \<longleftrightarrow> k mod 64 = i mod 64"
      by (auto simp: bit_exp_iff possible_bit_def)
    then show ?thesis using True assms eq
      by (auto simp: rr_is_tried_bit rr_set_tried_def bit_or_iff)
  next
    case False
    then show ?thesis using assms eq by (auto simp: rr_is_tried_bit rr_set_tried_def)
  qed
qed

lemma rr_words_enough: "k < n \<Longrightarrow> k div 64 < rr_words n"
  by (simp add: rr_words_def)

lemma rr_init_untried:
  assumes "groups \<noteq> []" "k < rr_number (hd groups)"
  shows "\<not> rr_is_tried (rr_tried (ngx_http_upstream_init_round_robin_peer groups)) k"
proof -
  obtain n where n: "rr_tried (ngx_http_upstream_init_round_robin_peer groups) = replicate (if n \<le> 64 then 1 else rr_words n) 0"
      "k < n"
    using assms by (cases groups rule: remdups_adj.cases) (auto simp: ngx_http_upstream_init_round_robin_peer_def Let_def split: if_splits)
  then have "k div 64 < (if n \<le> 64 then 1 else rr_words n)" using rr_words_enough [of k n] by auto
  then show ?thesis using rr_is_tried_zero [of k _ "[]"] n(1) by simp
qed

subsection \<open>Fairness\<close>

text \<open>One request after the other, each with a fresh bitmap, and the peers they get.\<close>

fun rr_serve :: "int list \<Rightarrow> rr_peers list \<Rightarrow> nat list \<times> rr_peers list" where
  "rr_serve [] groups = ([], groups)"
| "rr_serve (now # ts) groups =
     (case ngx_http_upstream_get_round_robin_peer now groups (ngx_http_upstream_init_round_robin_peer groups) of
        (rc, groups', d) \<Rightarrow> (case rr_serve ts groups' of (is, g) \<Rightarrow> (the (rr_current d) # is, g)))"

definition rr_healthy :: "rr_peer \<Rightarrow> bool" where
  "rr_healthy p \<longleftrightarrow> \<not> down p \<and> max_conns p = 0 \<and> (max_fails p = 0 \<or> fails p < max_fails p) \<and>
     effective_weight p = weight p \<and> 0 < weight p"

definition rr_ready :: "rr_peers list \<Rightarrow> bool" where
  "rr_ready groups \<longleftrightarrow> groups \<noteq> [] \<and> \<not> rr_single (hd groups) \<and> rr_number (hd groups) = length (rr_peer (hd groups)) \<and>
     rr_peer (hd groups) \<noteq> [] \<and> list_all rr_healthy (rr_peer (hd groups))"

abbreviation rr_primary :: "rr_peers list \<Rightarrow> rr_peer list" where
  "rr_primary groups \<equiv> rr_peer (hd groups)"

text \<open>One request to healthy peers: everybody's weight is added, the total is taken from the one that has
  most.\<close>

lemma rr_serve_one:
  assumes "rr_ready groups"
    and "ngx_http_upstream_get_round_robin_peer now groups (ngx_http_upstream_init_round_robin_peer groups) = (rc, groups', d)"
  defines "W \<equiv> \<Sum>k<length (rr_primary groups). weight (rr_primary groups ! k)"
  shows "\<exists>i. rc = NGX_OK \<and> rr_current d = Some i \<and> i < length (rr_primary groups) \<and> rr_ready groups' \<and>
    length (rr_primary groups') = length (rr_primary groups) \<and>
    (\<forall>k<length (rr_primary groups). weight (rr_primary groups' ! k) = weight (rr_primary groups ! k) \<and>
      current_weight (rr_primary groups' ! k) =
        current_weight (rr_primary groups ! k) + weight (rr_primary groups ! k) - (if k = i then W else 0) \<and>
      current_weight (rr_primary groups ! k) + weight (rr_primary groups ! k)
        \<le> current_weight (rr_primary groups ! i) + weight (rr_primary groups ! i))"
proof -
  let ?d = "ngx_http_upstream_init_round_robin_peer groups" and ?ps = "rr_primary groups"
  obtain g gs where gs: "groups = g # gs" using assms(1) by (cases groups) (auto simp: rr_ready_def)
  have gr: "rr_group ?d = 0" by (simp add: ngx_http_upstream_init_round_robin_peer_def Let_def)
  have h: "rr_healthy (?ps ! k)" if "k < length ?ps" for k
    using assms(1) that by (simp add: rr_ready_def list_all_length)
  have sk: "\<not> rr_skip now (rr_tried ?d) k (?ps ! k)" if "k < length ?ps" for k
    using h [OF that] rr_init_untried [of groups k] assms(1) that by (auto simp: rr_ready_def rr_skip_def rr_healthy_def)
  obtain ps tried r where gp: "ngx_http_upstream_get_peer now (rr_tried ?d) ?ps = (ps, tried, r)"
    by (cases "ngx_http_upstream_get_peer now (rr_tried ?d) ?ps")
  have "0 < length ?ps" using assms(1) by (simp add: rr_ready_def)
  then have "rr_usable now (rr_tried ?d) ?ps 0" using sk [of 0] by (simp add: rr_usable_def)
  then obtain i where r: "r = Some i" using get_peer_spec [OF gp] by (cases r) auto
  have us: "rr_usable now (rr_tried ?d) ?ps k" if "k < length ?ps" for k using sk that by (simp add: rr_usable_def)
  have tot: "(\<Sum>k<length ?ps. if rr_skip now (rr_tried ?d) k (?ps ! k) then 0 else effective_weight (?ps ! k)) = W"
    unfolding W_def using sk h by (intro sum.cong) (auto simp: rr_healthy_def)
  have i: "i < length ?ps" "length ps = length ?ps"
    "\<And>k. k < length ?ps \<Longrightarrow> ps ! k = (if k = i then rr_chosen now (rr_bump (?ps ! i)) W else rr_bump (?ps ! k))"
    "\<And>k. k < length ?ps \<Longrightarrow> current_weight (?ps ! k) + effective_weight (?ps ! k)
        \<le> current_weight (?ps ! i) + effective_weight (?ps ! i)"
    using get_peer_spec [OF gp] r us sk tot by (auto simp: rr_usable_def)
  have res: "rc = NGX_OK" "groups' = g\<lparr>rr_peer := rr_take i ps\<rparr> # gs" "rr_current d = Some i"
    using assms(1,2) gs gr gp r by (auto simp: ngx_http_upstream_get_round_robin_peer.simps rr_first_def rr_ready_def)
  have fld: "weight (rr_take i ps ! k) = weight (?ps ! k)" "rr_healthy (rr_take i ps ! k)"
      "current_weight (rr_take i ps ! k) = current_weight (?ps ! k) + weight (?ps ! k) - (if k = i then W else 0)"
    if "k < length ?ps" for k
    using i(1,2) i(3) [OF that] h [OF that] that
    by (auto simp: rr_take_def nth_list_update rr_healthy_def) (auto simp: rr_bump_def)
  have len: "length (rr_take i ps) = length ?ps" using i(2) by (simp add: rr_take_def)
  then have "rr_ready groups'" using assms(1) res(2) gs fld(2) by (auto simp: rr_ready_def list_all_length)
  then show ?thesis using res i(1) len fld gs i(4) h by (auto simp: rr_healthy_def)
qed


definition rr_W :: "rr_peers list \<Rightarrow> int" where
  "rr_W groups = (\<Sum>k<length (rr_primary groups). weight (rr_primary groups ! k))"

definition rr_balanced :: "rr_peers list \<Rightarrow> bool" where
  "rr_balanced groups \<longleftrightarrow> (\<Sum>k<length (rr_primary groups). current_weight (rr_primary groups ! k)) = 0 \<and>
     (\<forall>k<length (rr_primary groups). - rr_W groups < current_weight (rr_primary groups ! k))"

lemma rr_W_pos: "rr_ready groups \<Longrightarrow> 0 < rr_W groups"
  unfolding rr_W_def by (rule sum_pos) (auto simp: rr_ready_def list_all_length rr_healthy_def)

lemma rr_serve_step:
  assumes "rr_ready groups" "rr_balanced groups"
    and "ngx_http_upstream_get_round_robin_peer now groups (ngx_http_upstream_init_round_robin_peer groups) = (rc, groups', d)"
  shows "\<exists>i. rr_current d = Some i \<and> i < length (rr_primary groups) \<and> rr_ready groups' \<and> rr_balanced groups' \<and>
    rr_W groups' = rr_W groups \<and> length (rr_primary groups') = length (rr_primary groups) \<and>
    (\<forall>k<length (rr_primary groups). weight (rr_primary groups' ! k) = weight (rr_primary groups ! k) \<and>
      current_weight (rr_primary groups' ! k) =
        current_weight (rr_primary groups ! k) + weight (rr_primary groups ! k) - (if k = i then rr_W groups else 0))"
proof -
  let ?n = "length (rr_primary groups)" and ?W = "rr_W groups"
  let ?c = "\<lambda>k. current_weight (rr_primary groups ! k)" and ?w = "\<lambda>k. weight (rr_primary groups ! k)"
  obtain i where i: "rr_current d = Some i" "i < ?n" "rr_ready groups'" "length (rr_primary groups') = ?n"
      and k: "\<And>k. k < ?n \<Longrightarrow> weight (rr_primary groups' ! k) = ?w k"
        "\<And>k. k < ?n \<Longrightarrow> current_weight (rr_primary groups' ! k) = ?c k + ?w k - (if k = i then ?W else 0)"
        "\<And>k. k < ?n \<Longrightarrow> ?c k + ?w k \<le> ?c i + ?w i"
    using rr_serve_one [OF assms(1,3)] unfolding rr_W_def by blast
  have s: "(\<Sum>k<?n. ?c k + ?w k) = ?W" using assms(2) by (simp add: rr_balanced_def rr_W_def sum.distrib)
  have pos: "0 < ?c i + ?w i"
  proof (rule ccontr)
    assume "\<not> 0 < ?c i + ?w i"
    then have "?c k + ?w k \<le> 0" if "k < ?n" for k using k(3) [OF that] by linarith
    then have "(\<Sum>k<?n. ?c k + ?w k) \<le> 0" by (intro sum_nonpos) auto
    then show False using s rr_W_pos [OF assms(1)] by simp
  qed
  have W: "rr_W groups' = ?W" unfolding rr_W_def i(4) using k(1) by (intro sum.cong) auto
  have "(\<Sum>k<?n. current_weight (rr_primary groups' ! k)) = (\<Sum>k<?n. ?c k + ?w k - (if k = i then ?W else 0))"
    using k(2) by (intro sum.cong) auto
  also have "\<dots> = 0" using s i(2) by (simp add: sum_subtractf)
  finally have z: "(\<Sum>k<length (rr_primary groups'). current_weight (rr_primary groups' ! k)) = 0" using i(4) by simp
  have "- ?W < current_weight (rr_primary groups' ! k)" if "k < ?n" for k
  proof -
    have "0 < ?w k" using assms(1) that by (simp add: rr_ready_def list_all_length rr_healthy_def)
    moreover have "- ?W < ?c k" using assms(2) that by (simp add: rr_balanced_def)
    ultimately show ?thesis using k(2) [OF that] pos by (cases "k = i") auto
  qed
  then have "rr_balanced groups'" using z W i(4) by (simp add: rr_balanced_def)
  then show ?thesis using i k W by blast
qed

lemma rr_serve_many:
  "\<lbrakk>rr_ready groups; rr_balanced groups; rr_serve ts groups = (is, groups')\<rbrakk> \<Longrightarrow>
   rr_ready groups' \<and> rr_balanced groups' \<and> rr_W groups' = rr_W groups \<and>
   length (rr_primary groups') = length (rr_primary groups) \<and>
   (\<forall>k<length (rr_primary groups). weight (rr_primary groups' ! k) = weight (rr_primary groups ! k) \<and>
     current_weight (rr_primary groups' ! k) = current_weight (rr_primary groups ! k) +
       int (length ts) * weight (rr_primary groups ! k) - rr_W groups * int (count_list is k))"
proof (induction ts arbitrary: groups "is")
  case (Cons now ts)
  obtain rc g d where gp: "ngx_http_upstream_get_round_robin_peer now groups (ngx_http_upstream_init_round_robin_peer groups) = (rc, g, d)"
    by (metis prod_cases3)
  obtain js where js: "rr_serve ts g = (js, groups')" "is = the (rr_current d) # js"
    using Cons.prems(3) by (simp add: gp split: prod.splits)
  obtain i where i: "rr_current d = Some i" "rr_ready g" "rr_balanced g" "rr_W g = rr_W groups"
      "length (rr_primary g) = length (rr_primary groups)"
      "\<And>k. k < length (rr_primary groups) \<Longrightarrow> weight (rr_primary g ! k) = weight (rr_primary groups ! k) \<and>
      current_weight (rr_primary g ! k) =
        current_weight (rr_primary groups ! k) + weight (rr_primary groups ! k) - (if k = i then rr_W groups else 0)"
    using rr_serve_step [OF Cons.prems(1,2) gp] by blast
  from Cons.IH [OF i(2,3) js(1)] show ?case
    using i(1,4-6) js(2) by (auto simp: algebra_simps)
qed simp

text \<open>C7. Round robin is fair and periodic: among healthy peers whose current weights are 0, as many
  requests as the sum of the weights give every peer exactly its weight of them, whatever the clock says,
  and leave all current weights 0 again; in between they stay above minus that sum and sum up to 0.\<close>

theorem round_robin_fair:
  assumes "rr_ready groups" "\<forall>p \<in> set (rr_primary groups). current_weight p = 0"
    and "rr_serve ts groups = (is, groups')"
  shows "(\<Sum>k<length (rr_primary groups'). current_weight (rr_primary groups' ! k)) = 0 \<and>
    (\<forall>k<length (rr_primary groups). - rr_W groups < current_weight (rr_primary groups' ! k)) \<and>
    (int (length ts) = rr_W groups \<longrightarrow>
      (\<forall>k<length (rr_primary groups). int (count_list is k) = weight (rr_primary groups ! k) \<and>
         current_weight (rr_primary groups' ! k) = 0))"
proof -
  let ?n = "length (rr_primary groups)" and ?W = "rr_W groups"
  have W: "0 < ?W" by (rule rr_W_pos [OF assms(1)])
  have c0: "current_weight (rr_primary groups ! k) = 0" if "k < ?n" for k using assms(2) that by simp
  then have "rr_balanced groups" using W by (simp add: rr_balanced_def)
  note m = rr_serve_many [OF assms(1) this assms(3)]
  then have b: "(\<Sum>k<?n. current_weight (rr_primary groups' ! k)) = 0"
      "\<And>k. k < ?n \<Longrightarrow> - ?W < current_weight (rr_primary groups' ! k)"
    unfolding rr_balanced_def by auto
  have "int (count_list is k) = weight (rr_primary groups ! k) \<and> current_weight (rr_primary groups' ! k) = 0"
    if "int (length ts) = ?W" "k < ?n" for k
  proof -
    have c: "current_weight (rr_primary groups' ! j) = ?W * (weight (rr_primary groups ! j) - int (count_list is j))"
      if "j < ?n" for j
      using m c0 [OF that] that \<open>int (length ts) = ?W\<close> by (simp add: right_diff_distrib)
    have nn: "0 \<le> current_weight (rr_primary groups' ! j)" if "j < ?n" for j
    proof -
      let ?x = "weight (rr_primary groups ! j) - int (count_list is j)"
      have "-1 < ?x"
      proof (rule ccontr)
        assume "\<not> -1 < ?x"
        then have "?W * ?x \<le> ?W * (-1)" using W by (intro mult_left_mono) auto
        then show False using b(2) [OF that] c [OF that] by simp
      qed
      then show ?thesis using W c [OF that] by simp
    qed
    have "\<forall>j\<in>{..<?n}. current_weight (rr_primary groups' ! j) = 0"
      using b(1) nn by (subst (asm) sum_nonneg_eq_0_iff) auto
    then have "current_weight (rr_primary groups' ! k) = 0" using that(2) by simp
    then show ?thesis using c [OF that(2)] W by simp
  qed
  then show ?thesis using b m by auto
qed


theorem round_robin_fair_witness:
  "\<exists>groups is groups'. ngx_http_upstream_init_round_robin
      [\<lparr>sv_addrs = [str ''a''], sv_weight = 2, sv_max_conns = 0, sv_max_fails = 1, sv_fail_timeout = 10, sv_down = False, sv_backup = False\<rparr>,
       \<lparr>sv_addrs = [str ''b''], sv_weight = 1, sv_max_conns = 0, sv_max_fails = 1, sv_fail_timeout = 10, sv_down = False, sv_backup = False\<rparr>]
      = Some groups \<and> rr_serve [5, 5, 6] groups = (is, groups') \<and> count_list is 0 = 2 \<and> count_list is 1 = 1"
proof -
  let ?p = "\<lambda>nm w. \<lparr>rr_name = nm, current_weight = 0, effective_weight = w, weight = w, conns = 0, max_conns = 0,
    fails = 0, accessed = 0, checked = 0, max_fails = 1, fail_timeout = 10, down = False\<rparr>"
  let ?g = "[\<lparr>rr_number = 2, total_weight = 3, rr_tries = 2, rr_single = False, weighted = True,
    rr_peer = [?p (str ''a'') 2, ?p (str ''b'') 1]\<rparr>]"
  obtain "is" groups' where s: "rr_serve [5, 5, 6] ?g = (is, groups')" by (cases "rr_serve [5, 5, 6] ?g")
  have "rr_ready ?g" by (simp add: rr_ready_def rr_healthy_def)
  moreover have "rr_W ?g = 3" by (simp add: rr_W_def lessThan_nat_numeral lessThan_Suc)
  ultimately have f: "int (count_list is k) = weight (rr_primary ?g ! k)" if "k < 2" for k
    using round_robin_fair [OF _ _ s] that by simp
  have "count_list is 0 = 2" "count_list is 1 = 1" using f [of 0] f [of 1] by simp_all
  moreover have "ngx_http_upstream_init_round_robin
      [\<lparr>sv_addrs = [str ''a''], sv_weight = 2, sv_max_conns = 0, sv_max_fails = 1, sv_fail_timeout = 10, sv_down = False, sv_backup = False\<rparr>,
       \<lparr>sv_addrs = [str ''b''], sv_weight = 1, sv_max_conns = 0, sv_max_fails = 1, sv_fail_timeout = 10, sv_down = False, sv_backup = False\<rparr>]
      = Some ?g"
    by (simp add: ngx_http_upstream_init_round_robin_def rr_make_group_def rr_server_peers_def Let_def)
  ultimately show ?thesis using s by blast
qed


subsection \<open>Every peer once, backup servers last\<close>

text \<open>C23. \<open>ngx_http_upstream_get_peer\<close> returns a peer exactly if one is usable (not tried, not down, not
  failed too often lately, not at its connection limit); it is the first of those with the greatest current
  plus effective weight. It alone is newly marked as tried, so no request gets the same peer twice, and the
  sum of the current weights stays what it was.\<close>

theorem get_peer_choice:
  assumes "ngx_http_upstream_get_peer now tried peers = (ps, tried', r)" "rr_words (length peers) \<le> length tried"
  shows "case r of
      None \<Rightarrow> (\<forall>k. \<not> rr_usable now tried peers k) \<and> ps = peers \<and> tried' = tried
    | Some i \<Rightarrow> rr_usable now tried peers i \<and>
        (\<forall>k. rr_usable now tried peers k \<longrightarrow>
          current_weight (peers ! k) + effective_weight (peers ! k) \<le> current_weight (peers ! i) + effective_weight (peers ! i) \<and>
          (k < i \<longrightarrow> current_weight (peers ! k) + effective_weight (peers ! k)
             < current_weight (peers ! i) + effective_weight (peers ! i))) \<and>
        (\<forall>k<length peers. rr_is_tried tried' k \<longleftrightarrow> k = i \<or> rr_is_tried tried k) \<and>
        (\<Sum>k<length ps. current_weight (ps ! k)) = (\<Sum>k<length peers. current_weight (peers ! k))"
proof (cases r)
  case None
  then show ?thesis using get_peer_spec [OF assms(1)] by simp
next
  case (Some i)
  let ?n = "length peers" and ?e = "\<lambda>k. if rr_skip now tried k (peers ! k) then 0 else effective_weight (peers ! k)"
  note sp = get_peer_spec [OF assms(1)]
  have i: "i < ?n" "\<not> rr_skip now tried i (peers ! i)" "tried' = rr_set_tried i tried" "length ps = ?n"
    using sp Some by (auto simp: rr_usable_def)
  have tr: "rr_is_tried tried' k \<longleftrightarrow> k = i \<or> rr_is_tried tried k" if "k < ?n" for k
  proof -
    have "k div 64 < length tried" "i div 64 < length tried"
      using rr_words_enough [OF that] rr_words_enough [OF i(1)] assms(2) by linarith+
    then show ?thesis using rr_is_tried_set i(3) by simp
  qed
  have "(\<Sum>k<?n. current_weight (ps ! k)) = (\<Sum>k<?n. current_weight (peers ! k) + ?e k - (if k = i then sum ?e {..<?n} else 0))"
  proof (intro sum.cong refl)
    fix k assume "k \<in> {..<?n}"
    then show "current_weight (ps ! k) = current_weight (peers ! k) + ?e k - (if k = i then sum ?e {..<?n} else 0)"
      using sp Some i(2) by auto
  qed
  also have "\<dots> = (\<Sum>k<?n. current_weight (peers ! k))"
    using i(1) by (simp add: sum_subtractf sum.distrib)
  finally show ?thesis using sp Some i(4) tr by simp
qed

theorem get_peer_choice_witness:
  "\<exists>ps tried'. ngx_http_upstream_get_peer 0 [1] (map (\<lambda>w. \<lparr>rr_name = [], current_weight = 0, effective_weight = w,
      weight = w, conns = 0, max_conns = 0, fails = 0, accessed = 0, checked = 0, max_fails = 1, fail_timeout = 10,
      down = False\<rparr>) [5, 1, 3]) = (ps, tried', Some 2) \<and> rr_is_tried tried' 2"
proof -
  let ?ps = "map (\<lambda>w. \<lparr>rr_name = [], current_weight = 0, effective_weight = w,
      weight = w, conns = 0, max_conns = 0, fails = 0, accessed = 0, checked = 0, max_fails = 1, fail_timeout = 10,
      down = False\<rparr>) [5, 1, 3]"
  obtain ps tried' r where g: "ngx_http_upstream_get_peer 0 [1] ?ps = (ps, tried', r)"
    by (cases "ngx_http_upstream_get_peer 0 [1] ?ps")
  then have r: "r = Some 2"
    by (auto simp: ngx_http_upstream_get_peer_def rr_skip_def rr_is_tried_def rr_bump_def Let_def numeral_2_eq_2)
  then show ?thesis using get_peer_choice [OF g] g by (simp add: rr_words_def)
qed

definition rr_group_usable :: "int \<Rightarrow> 64 word list \<Rightarrow> rr_peers \<Rightarrow> bool" where
  "rr_group_usable now tried g \<longleftrightarrow>
     (if rr_single g then \<not> down (hd (rr_peer g)) \<and> (max_conns (hd (rr_peer g)) = 0 \<or> conns (hd (rr_peer g)) < max_conns (hd (rr_peer g)))
      else \<exists>k. rr_usable now tried (rr_peer g) k)"

text \<open>The bitmap a group of the chain is asked with: the request's own at first, an empty one later.\<close>

definition rr_asked :: "rr_peers list \<Rightarrow> rr_peer_data \<Rightarrow> nat \<Rightarrow> 64 word list" where
  "rr_asked groups d j = (if j = rr_group d then rr_tried d else replicate (rr_words (rr_number (groups ! j))) 0)"

lemma rr_first_ok: "rr_first now g d = (g', d', ok) \<Longrightarrow> ok \<longleftrightarrow> rr_group_usable now (rr_tried d) g"
proof (cases "rr_single g")
  case False
  assume f: "rr_first now g d = (g', d', ok)"
  obtain ps tried r where g: "ngx_http_upstream_get_peer now (rr_tried d) (rr_peer g) = (ps, tried, r)"
    by (cases "ngx_http_upstream_get_peer now (rr_tried d) (rr_peer g)")
  show ?thesis using get_peer_spec [OF g] f False g
    by (cases r) (auto simp: rr_first_def rr_group_usable_def)
qed (auto simp: rr_first_def rr_group_usable_def Let_def not_le split: if_splits)

lemma rr_first_keeps: "rr_first now g d = (g', d', ok) \<Longrightarrow> rr_group d' = rr_group d \<and> (\<not> ok \<longrightarrow> d' = d \<and> g' = g)"
proof (cases "rr_single g")
  case False
  assume f: "rr_first now g d = (g', d', ok)"
  obtain ps tried r where g: "ngx_http_upstream_get_peer now (rr_tried d) (rr_peer g) = (ps, tried, r)"
    by (cases "ngx_http_upstream_get_peer now (rr_tried d) (rr_peer g)")
  show ?thesis using get_peer_spec [OF g] f False g by (cases r) (auto simp: rr_first_def)
qed (auto simp: rr_first_def Let_def split: if_splits)

lemma rr_usable_cleared:
  "rr_number g = length (rr_peer g) \<Longrightarrow>
   rr_group_usable now (rr_clear (rr_words (rr_number g)) tried) g = rr_group_usable now (replicate (rr_words (rr_number g)) 0) g"
proof -
  assume n: "rr_number g = length (rr_peer g)"
  have "rr_usable now (rr_clear (rr_words (rr_number g)) tried) (rr_peer g) k =
      rr_usable now (replicate (rr_words (rr_number g)) 0) (rr_peer g) k" for k
    using n rr_is_tried_zero [of k "rr_words (rr_number g)"] rr_is_tried_zero [of k "rr_words (rr_number g)" "[]"]
      rr_words_enough [of k "rr_number g"]
    by (auto simp: rr_usable_def rr_skip_def rr_clear_def)
  then have "(\<exists>k. rr_usable now (rr_clear (rr_words (rr_number g)) tried) (rr_peer g) k) =
      (\<exists>k. rr_usable now (replicate (rr_words (rr_number g)) 0) (rr_peer g) k)" by simp
  then show ?thesis unfolding rr_group_usable_def by presburger
qed

text \<open>C24. \<open>ngx_http_upstream_get_round_robin_peer\<close> always returns. It returns \<open>NGX_BUSY\<close> exactly if neither
  the request's group of peers nor a later one (the backup servers, asked with an empty bitmap) has a usable
  peer, and then no peer has changed; otherwise it serves the request from the first group that has one.\<close>

theorem get_round_robin_groups:
  assumes "ngx_http_upstream_get_round_robin_peer now groups d = (rc, groups', d')"
    and "rr_group d < length groups" "\<forall>g \<in> set groups. rr_number g = length (rr_peer g)"
  shows "(rc = NGX_OK \<or> rc = NGX_BUSY) \<and>
    (rc = NGX_BUSY \<longleftrightarrow> (\<forall>j. rr_group d \<le> j \<longrightarrow> j < length groups \<longrightarrow> \<not> rr_group_usable now (rr_asked groups d j) (groups ! j))) \<and>
    (rc = NGX_BUSY \<longrightarrow> groups' = groups) \<and>
    (rc = NGX_OK \<longrightarrow> rr_group d \<le> rr_group d' \<and> rr_group d' < length groups \<and>
       rr_group_usable now (rr_asked groups d (rr_group d')) (groups ! rr_group d') \<and>
       (\<forall>j. rr_group d \<le> j \<longrightarrow> j < rr_group d' \<longrightarrow> \<not> rr_group_usable now (rr_asked groups d j) (groups ! j)))"
  using assms
proof (induction now groups d rule: ngx_http_upstream_get_round_robin_peer.induct)
  case (1 now groups d)
  obtain g e ok where f: "rr_first now (groups ! rr_group d) d = (g, e, ok)" by (cases "rr_first now (groups ! rr_group d) d")
  note k = rr_first_keeps [OF f]
  have u: "ok \<longleftrightarrow> rr_group_usable now (rr_asked groups d (rr_group d)) (groups ! rr_group d)"
    using rr_first_ok [OF f] by (simp add: rr_asked_def)
  show ?case
  proof (cases "ok \<or> \<not> Suc (rr_group d) < length groups")
    case True
    then show ?thesis
    proof (cases ok)
      case ok: True
      then have "rc = NGX_OK" "d' = e" using "1.prems"(1) f by (simp_all add: ngx_http_upstream_get_round_robin_peer.simps Let_def)
      then show ?thesis using ok u k "1.prems"(2) by auto
    next
      case no: False
      then have "rc = NGX_BUSY" "groups' = groups" "rr_group d = length groups - 1"
        using "1.prems"(1,2) f True k by (auto simp: ngx_http_upstream_get_round_robin_peer.simps Let_def)
      then show ?thesis using no u by (metis Suc_pred' le_antisym less_Suc_eq_le less_imp_diff_less "1.prems"(2) gr_implies_not0
            neq0_conv ngx_rc.distinct(5))
    qed
  next
    case False
    let ?d = "e\<lparr>rr_group := Suc (rr_group d), rr_tried := rr_clear (rr_words (rr_number (groups ! Suc (rr_group d)))) (rr_tried e)\<rparr>"
    have same: "groups[rr_group d := g] = groups" using k False by simp
    have rec: "ngx_http_upstream_get_round_robin_peer now groups ?d = (rc, groups', d')"
      using "1.prems"(1) f False same by (simp add: ngx_http_upstream_get_round_robin_peer.simps [of now groups d] Let_def)
    have num: "rr_number (groups ! Suc (rr_group d)) = length (rr_peer (groups ! Suc (rr_group d)))"
      using "1.prems"(3) False by (simp add: nth_mem)
    have ask: "rr_group_usable now (rr_asked groups ?d j) (groups ! j) = rr_group_usable now (rr_asked groups d j) (groups ! j)"
      if "Suc (rr_group d) \<le> j" for j
      using that rr_usable_cleared [OF num] by (auto simp: rr_asked_def)
    note ih = "1.IH" [OF f [symmetric] refl refl, simplified same, OF _ _ rec]
    have no: "\<not> rr_group_usable now (rr_asked groups d (rr_group d)) (groups ! rr_group d)" using u False by simp
    have step: "(\<forall>j. rr_group d \<le> j \<longrightarrow> j < m \<longrightarrow> \<not> rr_group_usable now (rr_asked groups d j) (groups ! j)) \<longleftrightarrow>
      (\<forall>j. Suc (rr_group d) \<le> j \<longrightarrow> j < m \<longrightarrow> \<not> rr_group_usable now (rr_asked groups ?d j) (groups ! j))" for m
      using no ask by (metis Suc_leI le_SucI le_neq_implies_less Suc_leD)
    have gd: "rr_group ?d = Suc (rr_group d)" by simp
    have lt: "rr_group ?d < length groups" and nok: "\<not> ok" and lt': "Suc (rr_group d) < length groups" using False by simp_all
    note P = ih [OF nok lt' lt "1.prems"(3), unfolded gd]
    show ?thesis unfolding step using P ask [of "rr_group d'"] by (metis Suc_leD)
  qed
qed


theorem get_round_robin_groups_witness:
  "\<exists>rc groups' d'. ngx_http_upstream_get_round_robin_peer 0
      [\<lparr>rr_number = 0, total_weight = 0, rr_tries = 0, rr_single = False, weighted = False, rr_peer = []\<rparr>]
      \<lparr>rr_group = 0, rr_tried = [0], rr_current = None\<rparr> = (rc, groups', d') \<and> rc = NGX_BUSY"
proof -
  let ?g = "[\<lparr>rr_number = 0, total_weight = 0, rr_tries = 0, rr_single = False, weighted = False, rr_peer = []\<rparr>]"
  let ?d = "\<lparr>rr_group = 0, rr_tried = [0 :: 64 word], rr_current = None\<rparr>"
  obtain rc groups' d' where r: "ngx_http_upstream_get_round_robin_peer 0 ?g ?d = (rc, groups', d')"
    by (cases "ngx_http_upstream_get_round_robin_peer 0 ?g ?d")
  then show ?thesis using get_round_robin_groups [OF r] by (simp add: rr_group_usable_def rr_usable_def)
qed

subsection \<open>The weights stay in range\<close>

definition rr_weight_ok :: "rr_peer \<Rightarrow> bool" where
  "rr_weight_ok p \<longleftrightarrow> 0 \<le> effective_weight p \<and> effective_weight p \<le> weight p"

definition rr_weights_ok :: "rr_peers list \<Rightarrow> bool" where
  "rr_weights_ok groups \<longleftrightarrow> (\<forall>g \<in> set groups. \<forall>p \<in> set (rr_peer g). rr_weight_ok p)"

lemma rr_weights_update:
  assumes "rr_weights_ok groups" "\<forall>p \<in> set (rr_peer g). rr_weight_ok p"
  shows "rr_weights_ok (groups[j := g])"
  using assms set_update_subset_insert [of groups j g] unfolding rr_weights_ok_def by blast

lemma rr_weights_nth: "rr_weights_ok groups \<Longrightarrow> j < length groups \<Longrightarrow> \<forall>p \<in> set (rr_peer (groups ! j)). rr_weight_ok p"
  unfolding rr_weights_ok_def using nth_mem by blast

lemma rr_weight_keep [simp]:
  "rr_weight_ok (p\<lparr>conns := c\<rparr>) = rr_weight_ok p" "rr_weight_ok (rr_chosen now p t) = rr_weight_ok p"
  by (simp_all add: rr_weight_ok_def)

lemma rr_weight_bump: "rr_weight_ok p \<Longrightarrow> rr_weight_ok (rr_bump p)"
  by (simp add: rr_weight_ok_def rr_bump_def)

lemma rr_take_ok: "\<forall>p \<in> set ps. rr_weight_ok p \<Longrightarrow> i < length ps \<Longrightarrow> \<forall>p \<in> set (rr_take i ps). rr_weight_ok p"
  unfolding rr_take_def using set_update_subset_insert [of ps i] nth_mem [of i ps] rr_weight_keep(1) by fast

lemma rr_first_ok_weights:
  assumes "rr_first now g d = (g', d', ok)" "\<forall>p \<in> set (rr_peer g). rr_weight_ok p" "rr_single g \<longrightarrow> rr_peer g \<noteq> []"
  shows "\<forall>p \<in> set (rr_peer g'). rr_weight_ok p"
proof (cases "rr_single g")
  case True
  then show ?thesis using assms rr_take_ok [OF assms(2), of 0]
    by (auto simp: rr_first_def Let_def split: if_splits)
next
  case False
  obtain ps tried r where g: "ngx_http_upstream_get_peer now (rr_tried d) (rr_peer g) = (ps, tried, r)"
    by (cases "ngx_http_upstream_get_peer now (rr_tried d) (rr_peer g)")
  show ?thesis
  proof (cases r)
    case None
    then show ?thesis using get_peer_spec [OF g] assms(1,2) False g by (auto simp: rr_first_def)
  next
    case (Some i)
    note sp = get_peer_spec [OF g]
    have "rr_weight_ok (ps ! k)" if "k < length ps" for k
      using sp Some that assms(2) rr_weight_bump by (auto simp: rr_usable_def)
    then have "\<forall>p \<in> set ps. rr_weight_ok p" by (auto simp: in_set_conv_nth)
    then show ?thesis using rr_take_ok [of ps i] sp Some assms(1) False g by (auto simp: rr_first_def rr_usable_def)
  qed
qed

lemma get_round_robin_weights:
  "\<lbrakk>ngx_http_upstream_get_round_robin_peer now groups d = (rc, groups', d'); rr_group d < length groups;
    \<forall>g \<in> set groups. rr_single g \<longrightarrow> rr_peer g \<noteq> []; rr_weights_ok groups\<rbrakk> \<Longrightarrow> rr_weights_ok groups'"
proof (induction now groups d rule: ngx_http_upstream_get_round_robin_peer.induct)
  case (1 now groups d)
  obtain g e ok where f: "rr_first now (groups ! rr_group d) d = (g, e, ok)" by (cases "rr_first now (groups ! rr_group d) d")
  have w: "rr_weights_ok (groups[rr_group d := g])"
    using rr_first_ok_weights [OF f rr_weights_nth [OF "1.prems"(4,2)]] "1.prems"(2-4) by (intro rr_weights_update) auto
  show ?case
  proof (cases "\<not> ok \<and> Suc (rr_group d) < length groups")
    case True
    then have "groups[rr_group d := g] = groups" using rr_first_keeps [OF f] by simp
    then show ?thesis using "1.IH" [OF f [symmetric] refl refl] True "1.prems" f
      by (simp add: ngx_http_upstream_get_round_robin_peer.simps [of now groups d] Let_def)
  next
    case False
    then show ?thesis using w "1.prems"(1) f by (auto simp: ngx_http_upstream_get_round_robin_peer.simps Let_def split: if_splits)
  qed
qed

lemma rr_release_ok:
  assumes "rr_weight_ok p" shows "rr_weight_ok (rr_release now failed p)"
proof -
  have "0 \<le> weight p div int (max_fails p)" using assms by (simp add: rr_weight_ok_def div_int_pos_iff)
  then show ?thesis using assms by (auto simp: rr_weight_ok_def rr_release_def Let_def)
qed

text \<open>Taking and giving back peers keeps every effective weight between 0 and the configured weight: a
  failure lowers it but not below 0, and it recovers by one with every request up to the weight.\<close>

theorem round_robin_weights:
  assumes "rr_weights_ok groups" "rr_group d < length groups" "\<forall>g \<in> set groups. rr_single g \<longrightarrow> rr_peer g \<noteq> []"
  shows "rr_weights_ok (fst (snd (ngx_http_upstream_get_round_robin_peer now groups d))) \<and>
    (\<forall>groups' n. ngx_http_upstream_free_round_robin_peer now failed groups d tries = Some (groups', n) \<longrightarrow>
      rr_weights_ok groups')"
proof -
  have "rr_weights_ok groups'" if f: "ngx_http_upstream_free_round_robin_peer now failed groups d tries = Some (groups', n)" for groups' n
  proof -
    let ?g = "groups ! rr_group d"
    obtain i where i: "rr_current d = Some i" using f by (auto simp: ngx_http_upstream_free_round_robin_peer_def split: option.splits)
    obtain q where q: "groups' = groups[rr_group d := ?g\<lparr>rr_peer := (rr_peer ?g)[i := q]\<rparr>]"
        "rr_weight_ok (rr_peer ?g ! i) \<Longrightarrow> rr_weight_ok q"
      using f i rr_release_ok by (auto simp: ngx_http_upstream_free_round_robin_peer_def Let_def split: if_splits)
    have g: "\<forall>p \<in> set (rr_peer ?g). rr_weight_ok p" using rr_weights_nth [OF assms(1,2)] .
    have "\<forall>p \<in> set ((rr_peer ?g)[i := q]). rr_weight_ok p"
    proof (cases "i < length (rr_peer ?g)")
      case True
      then show ?thesis using g q(2) set_update_subset_insert [of "rr_peer ?g" i q] by auto
    qed (use g in \<open>simp add: list_update_beyond not_less\<close>)
    then show ?thesis unfolding q(1) using assms(1) by (intro rr_weights_update) simp_all
  qed
  then show ?thesis
    using get_round_robin_weights [OF _ assms(2,3,1)] by (cases "ngx_http_upstream_get_round_robin_peer now groups d") auto
qed

theorem round_robin_weights_witness:
  "rr_weights_ok [\<lparr>rr_number = 0, total_weight = 0, rr_tries = 0, rr_single = False, weighted = False, rr_peer = []\<rparr>] \<and>
   rr_weights_ok (fst (snd (ngx_http_upstream_get_round_robin_peer 0
     [\<lparr>rr_number = 0, total_weight = 0, rr_tries = 0, rr_single = False, weighted = False, rr_peer = []\<rparr>]
     \<lparr>rr_group = 0, rr_tried = [0], rr_current = None\<rparr>)))"
proof -
  have "rr_weights_ok [\<lparr>rr_number = 0, total_weight = 0, rr_tries = 0, rr_single = False, weighted = False, rr_peer = []\<rparr>]"
    by (simp add: rr_weights_ok_def)
  from this round_robin_weights [OF this] show ?thesis by simp
qed

end
