(* ===== verification/Ngx_Location.thy ===== *)
theory Ngx_Location
  imports Ngx_Queue Ngx_Strcmp Ngx_Escape "HOL-Library.Sublist"
begin

section \<open>Locations\<close>

text \<open>
  How a request finds its \<open>location\<close>: the tree of the static locations that \<open>src/http/ngx_http.c\<close> builds from
  the configuration (\<open>ngx_http_init_locations\<close>, \<open>ngx_http_join_exact_locations\<close>,
  \<open>ngx_http_create_locations_list\<close>, \<open>ngx_http_create_locations_tree\<close>), and the search
  \<open>ngx_http_core_find_static_location\<close> of \<open>src/http/ngx_http_core_module.c\<close>. The queues of locations are lists
  here: that sorting, splitting, joining and the middle element of a queue are those of the list it
  holds is shown in \<open>Ngx_Queue\<close>. \<open>'c\<close> is the configuration \<open>loc_conf\<close> a location selects.
\<close>

record 'c loc =
  loc_name :: bytes
  loc_escaped_name :: bytes
  loc_exact_match :: bool
  loc_regex :: bool
  loc_named :: bool
  loc_noname :: bool
  loc_auto_redirect :: bool
  loc_conf :: 'c

text \<open>\<open>ngx_http_location_queue_t\<close>; the list holds the locations whose names extend the entry's.\<close>

datatype 'c lq = Lq (lq_name: bytes) (lq_exact: "'c loc option") (lq_inclusive: "'c loc option") (lq_list: "'c lq list")

text \<open>\<open>ngx_http_location_tree_node_t\<close>; the null pointer is \<open>Loc_null\<close>.\<close>

datatype 'c loc_node = Loc_null
  | Loc_node (nd_left: "'c loc_node") (nd_right: "'c loc_node") (nd_tree: "'c loc_node") (nd_exact: "'c loc option")
      (nd_inclusive: "'c loc option") (nd_len: nat) (nd_auto_redirect: bool) (nd_name: bytes)

subsection \<open>Configuration\<close>

definition ngx_http_escape_location_name :: "'c loc \<Rightarrow> 'c loc" where
  "ngx_http_escape_location_name clcf =
     (let escape = 2 * ngx_escape_uri_count NGX_ESCAPE_URI (loc_name clcf) in
      if escape \<noteq> 0 then clcf\<lparr>loc_escaped_name := ngx_escape_uri NGX_ESCAPE_URI (loc_name clcf)\<rparr>
      else clcf\<lparr>loc_escaped_name := loc_name clcf\<rparr>)"

definition ngx_http_add_location :: "'c lq list \<Rightarrow> 'c loc \<Rightarrow> 'c lq list" where
  "ngx_http_add_location locations clcf =
     (let clcf = ngx_http_escape_location_name clcf in
      locations @ [if loc_exact_match clcf \<or> loc_regex clcf \<or> loc_named clcf \<or> loc_noname clcf
                   then Lq (loc_name clcf) (Some clcf) None []
                   else Lq (loc_name clcf) None (Some clcf) []])"

definition lq_loc :: "'c lq \<Rightarrow> 'c loc" where
  "lq_loc q = (case lq_exact q of Some l \<Rightarrow> l | None \<Rightarrow> the (lq_inclusive q))"

fun ngx_strcmp :: "bytes \<Rightarrow> bytes \<Rightarrow> int" where
  "ngx_strcmp [] t = - uint (rd t)"
| "ngx_strcmp (c # s) t = (if c = rd t \<and> c \<noteq> 0 then ngx_strcmp s (tl t) else uint c - uint (rd t))"

definition ngx_http_cmp_locations :: "'c lq \<Rightarrow> 'c lq \<Rightarrow> int" where
  "ngx_http_cmp_locations one two =
     (let first = lq_loc one; second = lq_loc two in
      if loc_noname first \<and> \<not> loc_noname second then 1
      else if \<not> loc_noname first \<and> loc_noname second then -1
      else if loc_noname first \<or> loc_noname second then 0
      else if loc_named first \<and> \<not> loc_named second then 1
      else if \<not> loc_named first \<and> loc_named second then -1
      else if loc_named first \<and> loc_named second then ngx_strcmp (loc_name first) (loc_name second)
      else if loc_regex first \<and> \<not> loc_regex second then 1
      else if \<not> loc_regex first \<and> loc_regex second then -1
      else if loc_regex first \<or> loc_regex second then 0
      else
        let rc = ngx_filename_cmp (loc_name first) (loc_name second)
                   (min (length (loc_name first)) (length (loc_name second)) + 1)
        in if rc = 0 \<and> \<not> loc_exact_match first \<and> loc_exact_match second then 1 else rc)"

definition lq_static :: "'c lq \<Rightarrow> bool" where
  "lq_static q \<longleftrightarrow> \<not> loc_regex (lq_loc q) \<and> \<not> loc_named (lq_loc q) \<and> \<not> loc_noname (lq_loc q)"

text \<open>\<open>ngx_http_init_locations\<close> for one level: the static locations that stay in the queue, the regular
  expressions in the order of the configuration, the named locations.\<close>

definition ngx_http_init_locations :: "'c lq list \<Rightarrow> 'c lq list \<times> 'c lq list \<times> 'c lq list" where
  "ngx_http_init_locations locations =
     (let qs = insertion_sort ngx_http_cmp_locations locations;
          qs = takeWhile (\<lambda>q. loc_regex (lq_loc q) \<or> loc_named (lq_loc q) \<or> \<not> loc_noname (lq_loc q)) qs;
          is_named = (\<lambda>q. \<not> loc_regex (lq_loc q) \<and> loc_named (lq_loc q));
          named = dropWhile (\<lambda>q. \<not> is_named q) qs;
          qs = takeWhile (\<lambda>q. \<not> is_named q) qs;
          regex = dropWhile (\<lambda>q. \<not> loc_regex (lq_loc q)) qs
      in (takeWhile (\<lambda>q. \<not> loc_regex (lq_loc q)) qs, regex, named))"

text \<open>\<open>ngx_http_join_exact_locations\<close>: an exact and an inclusive location of one name become one entry;
  \<open>None\<close> is the error for a duplicate.\<close>

fun ngx_http_join_exact_locations :: "'c lq list \<Rightarrow> 'c lq list option" where
  "ngx_http_join_exact_locations (q # x # qs) =
     (if length (lq_name q) = length (lq_name x) \<and> ngx_filename_cmp (lq_name q) (lq_name x) (length (lq_name x)) = 0
      then if lq_exact q \<noteq> None \<and> lq_exact x \<noteq> None \<or> lq_inclusive q \<noteq> None \<and> lq_inclusive x \<noteq> None then None
        else ngx_http_join_exact_locations (Lq (lq_name q) (lq_exact q) (lq_inclusive x) (lq_list q) # qs)
      else map_option ((#) q) (ngx_http_join_exact_locations (x # qs)))"
| "ngx_http_join_exact_locations qs = Some qs"

text \<open>The loop of \<open>ngx_http_create_locations_list\<close> goes on while the name of \<open>x\<close> starts with \<open>name\<close>.\<close>

definition lq_extends :: "bytes \<Rightarrow> 'c lq \<Rightarrow> bool" where
  "lq_extends name x \<longleftrightarrow>
     \<not> (length name > length (lq_name x) \<or> ngx_filename_cmp name (lq_name x) (length name) \<noteq> 0)"

text \<open>The recursion on the part of the queue from \<open>q\<close> on.\<close>

function ngx_http_create_locations_list :: "'c lq list \<Rightarrow> 'c lq list" where
  "ngx_http_create_locations_list [] = []"
| "ngx_http_create_locations_list [q] = [q]"
| "ngx_http_create_locations_list (q # y # ys) =
     (if lq_inclusive q = None then q # ngx_http_create_locations_list (y # ys)
      else
        let nested = takeWhile (lq_extends (lq_name q)) (y # ys); rest = dropWhile (lq_extends (lq_name q)) (y # ys) in
        if nested = [] then q # ngx_http_create_locations_list rest
        else Lq (lq_name q) (lq_exact q) (lq_inclusive q) (ngx_http_create_locations_list (lq_list q @ nested))
          # ngx_http_create_locations_list rest)"
  by pat_completeness auto


fun lq_count :: "'c lq \<Rightarrow> nat" where
  "lq_count (Lq n e i l) = Suc (sum_list (map lq_count l))"

abbreviation lqs_count :: "'c lq list \<Rightarrow> nat" where
  "lqs_count qs \<equiv> sum_list (map lq_count qs)"

lemma lqs_count_split: "lqs_count (takeWhile P qs) + lqs_count (dropWhile P qs) = lqs_count qs"
  by (metis map_append sum_list_append takeWhile_dropWhile_id)

lemma lq_count_list: "lqs_count (lq_list q) < lq_count q"
  by (cases q) simp

termination ngx_http_create_locations_list
proof (relation "measure lqs_count", goal_cases)
  case (2 q y ys)
  then show ?case using lq_count_list [of q] by simp
next
  case (3 q y ys xa x)
  then show ?case using lq_count_list [of q] lqs_count_split [of "lq_extends (lq_name q)" "y # ys"] by simp
next
  case (4 q y ys xa x)
  then show ?case using lq_count_list [of q] lqs_count_split [of "lq_extends (lq_name q)" "y # ys"] by simp
next
  case (5 q y ys xa x)
  then show ?case using lq_count_list [of q] lqs_count_split [of "lq_extends (lq_name q)" "y # ys"] by simp
qed simp


text \<open>\<open>ngx_http_create_locations_tree\<close>, never called for an empty queue. \<open>avail\<close> is the number of nodes that
  can still be allocated; \<open>None\<close> is the null pointer the function returns when an allocation fails.
  \<open>node->len\<close> is a \<open>u_short\<close>.\<close>

definition lq_redirect :: "'c lq \<Rightarrow> bool" where
  "lq_redirect q \<longleftrightarrow> (case lq_exact q of Some l \<Rightarrow> loc_auto_redirect l | None \<Rightarrow> False) \<or>
     (case lq_inclusive q of Some l \<Rightarrow> loc_auto_redirect l | None \<Rightarrow> False)"

function ngx_http_create_locations_tree :: "nat \<Rightarrow> 'c lq list \<Rightarrow> nat \<Rightarrow> ('c loc_node \<times> nat) option" where
  "ngx_http_create_locations_tree avail qs pre =
     (if qs = [] \<or> avail = 0 then None
      else
        (let m = length qs div 2; q = qs ! m; len = length (lq_name q) - pre;
             sides = (if take m qs = [] then Some (Loc_null, Loc_null, avail - 1)
               else (case ngx_http_create_locations_tree (avail - 1) (take m qs) pre of
                 None \<Rightarrow> None
               | Some (l, a) \<Rightarrow>
                   if drop (Suc m) qs = [] then Some (l, Loc_null, a)
                   else (case ngx_http_create_locations_tree a (drop (Suc m) qs) pre of
                     None \<Rightarrow> None
                   | Some (r, a') \<Rightarrow> Some (l, r, a'))))
         in (case sides of
               None \<Rightarrow> None
             | Some (l, r, a) \<Rightarrow>
                 (let node = (\<lambda>t. Loc_node l r t (lq_exact q) (lq_inclusive q) (len mod 65536) (lq_redirect q)
                                   (drop pre (lq_name q)))
                  in if lq_list q = [] then Some (node Loc_null, a)
                     else (case ngx_http_create_locations_tree a (lq_list q) (pre + len) of
                       None \<Rightarrow> None
                     | Some (t, a') \<Rightarrow> Some (node t, a'))))))"
  by pat_completeness auto

lemma lqs_count_take: "lqs_count (take m qs) + lqs_count (drop m qs) = lqs_count qs"
  by (metis append_take_drop_id map_append sum_list_append)

lemma lq_count_pos: "0 < lq_count q"
  by (cases q) simp

lemma lqs_count_middle:
  assumes "m < length qs"
  shows "lqs_count (take m qs) + lq_count (qs ! m) + lqs_count (drop (Suc m) qs) = lqs_count qs"
  using lqs_count_take [of m qs] Cons_nth_drop_Suc [OF assms] by (metis add.assoc list.simps(9) sum_list.Cons)

termination ngx_http_create_locations_tree
proof (relation "measure (\<lambda>(avail, qs, pre). lqs_count qs)", goal_cases)
  case (2 avail qs pre m)
  then show ?case using lqs_count_middle [of m qs] lq_count_pos [of "qs ! m"] by simp
next
  case (3 avail qs pre m)
  then show ?case using lqs_count_middle [of m qs] lq_count_pos [of "qs ! m"] by simp
next
  case (4 avail qs pre m)
  then show ?case using lqs_count_middle [of m qs] lq_count_list [of "qs ! m"] by simp
qed simp

declare ngx_http_create_locations_tree.simps [simp del]

text \<open>\<open>ngx_http_init_static_location_trees\<close> for one level; the outer \<open>None\<close> is \<open>NGX_ERROR\<close>.\<close>

definition ngx_http_init_static_location_trees :: "nat \<Rightarrow> 'c lq list \<Rightarrow> 'c loc_node option" where
  "ngx_http_init_static_location_trees avail locations =
     (if locations = [] then Some Loc_null
      else case ngx_http_join_exact_locations locations of
        None \<Rightarrow> None
      | Some qs \<Rightarrow> map_option fst (ngx_http_create_locations_tree avail (ngx_http_create_locations_list qs) 0))"

subsection \<open>The search\<close>

text \<open>\<open>rv\<close> and \<open>r->loc_conf\<close> are arguments; \<open>None\<close> would be a null pointer dereference.\<close>

fun ngx_http_core_find_static_location :: "'c loc_node \<Rightarrow> bytes \<Rightarrow> ngx_rc \<Rightarrow> 'c \<Rightarrow> (ngx_rc \<times> 'c) option" where
  "ngx_http_core_find_static_location Loc_null uri rv c = Some (rv, c)"
| "ngx_http_core_find_static_location (Loc_node l r t ex inc len ar name) uri rv c =
     (let n = (if length uri \<le> len then length uri else len);
          rc = ngx_filename_cmp uri name n
      in if rc \<noteq> 0 then
           (if rc < 0 then ngx_http_core_find_static_location l uri rv c
            else ngx_http_core_find_static_location r uri rv c)
         else if length uri > len then
           (case inc of
              Some i \<Rightarrow> ngx_http_core_find_static_location t (drop n uri) NGX_AGAIN (loc_conf i)
            | None \<Rightarrow> ngx_http_core_find_static_location r uri rv c)
         else if length uri = len then
           (case ex of
              Some e \<Rightarrow> Some (NGX_OK, loc_conf e)
            | None \<Rightarrow> (case inc of Some i \<Rightarrow> Some (NGX_AGAIN, loc_conf i) | None \<Rightarrow> None))
         else if length uri + 1 = len \<and> ar then
           (case ex of
              Some e \<Rightarrow> ngx_http_core_find_static_location l uri NGX_DONE (loc_conf e)
            | None \<Rightarrow> (case inc of
                Some i \<Rightarrow> ngx_http_core_find_static_location l uri NGX_DONE (loc_conf i) | None \<Rightarrow> None))
         else ngx_http_core_find_static_location l uri rv c)"


subsection \<open>The order of names\<close>

text \<open>Names are compared byte by byte with the slash lowest; without NUL bytes this is the lexicographic
  order of their keys. \<open>apart\<close>: the first is less, by a byte in which both differ.\<close>

definition fkey :: "bytes \<Rightarrow> int list" where
  "fkey s = map (\<lambda>c. if c = 47 then 0 else uint c) s"

definition name_less :: "bytes \<Rightarrow> bytes \<Rightarrow> bool" where
  "name_less a b \<longleftrightarrow> lex3 (fkey a) (fkey b) < 0"

definition apart :: "bytes \<Rightarrow> bytes \<Rightarrow> bool" where
  "apart a b \<longleftrightarrow> lex3 (fkey a) (fkey b) < 0 \<and> \<not> prefix (fkey a) (fkey b)"

lemma fkey_append [simp]: "fkey (a @ b) = fkey a @ fkey b"
  by (simp add: fkey_def)

lemma fkey_simps [simp]: "fkey [] = []" "length (fkey s) = length s" "fkey (take n s) = take n (fkey s)"
    "fkey (drop n s) = drop n (fkey s)"
  by (simp_all add: fkey_def take_map drop_map)

lemma file_key_fkey: "0 \<notin> set s \<Longrightarrow> file_key s = fkey s"
  by (induction s) (auto simp: file_key_def fkey_def cstr_def)

lemma fkey_inj: "0 \<notin> set s \<Longrightarrow> 0 \<notin> set t \<Longrightarrow> fkey s = fkey t \<Longrightarrow> s = t"
proof (induction s arbitrary: t)
  case (Cons c s)
  then obtain d t' where t: "t = d # t'" by (cases t) (auto simp: fkey_def)
  have "c = d"
    using Cons.prems t by (auto simp: fkey_def uint_0_iff split: if_splits)
  then show ?case using Cons t by (auto simp: fkey_def)
qed (simp add: fkey_def)

lemma fkey_prefix: "0 \<notin> set s \<Longrightarrow> 0 \<notin> set t \<Longrightarrow> prefix (fkey s) (fkey t) \<longleftrightarrow> prefix s t"
proof
  assume n: "0 \<notin> set s" "0 \<notin> set t" "prefix (fkey s) (fkey t)"
  then have "fkey s = fkey (take (length s) t)" by (auto simp: prefix_def)
  then have "s = take (length s) t" using n fkey_inj [of s "take (length s) t"] by (meson in_set_takeD)
  then show "prefix s t" by (metis take_is_prefix)
qed (auto simp: prefix_def)

lemma lex3_mismatch_append:
  "lex3 xs ys < 0 \<Longrightarrow> \<not> prefix xs ys \<Longrightarrow> lex3 (xs @ a) (ys @ b) < 0 \<and> \<not> prefix (xs @ a) (ys @ b)"
  by (induction xs ys rule: lex3.induct) (auto split: if_splits)

lemma apart_append: "apart a b \<Longrightarrow> apart (a @ x) (b @ y)"
  using lex3_mismatch_append [of "fkey a" "fkey b" "fkey x" "fkey y"] by (simp add: apart_def)

lemma lex3_prefix: "prefix xs ys \<Longrightarrow> lex3 xs ys \<le> 0"
  by (induction xs ys rule: lex3.induct) auto

lemma lex3_interval:
  "lex3 xs ys \<le> 0 \<Longrightarrow> lex3 ys zs \<le> 0 \<Longrightarrow> prefix xs zs \<Longrightarrow> prefix xs ys"
proof (induction xs ys arbitrary: zs rule: lex3.induct)
  case (4 x xs y ys)
  then obtain zs' where z: "zs = x # zs'" "prefix xs zs'" by (cases zs) auto
  have "x = y"
  proof (rule ccontr)
    assume "x \<noteq> y"
    then have "x < y" using "4.prems"(1) by (auto simp: sgn_if split: if_splits)
    then show False using "4.prems"(2) z(1) by (auto simp: sgn_if split: if_splits)
  qed
  then show ?case using 4 z by auto
qed auto

lemma name_less_trans: "name_less a b \<Longrightarrow> name_less b c \<Longrightarrow> name_less a c"
proof -
  assume ab: "name_less a b" and bc: "name_less b c"
  then have le: "lex3 (fkey a) (fkey c) \<le> 0" using lex3_trans [of "fkey a" "fkey b" "fkey c"] by (simp add: name_less_def)
  have "fkey a \<noteq> fkey c"
  proof
    assume "fkey a = fkey c"
    then have "lex3 (fkey a) (fkey b) = - lex3 (fkey b) (fkey c)" using lex3_antisym [of "fkey a" "fkey b"] by simp
    then show False using ab bc by (simp add: name_less_def)
  qed
  then show ?thesis using le lex3_eq0 [of "fkey a" "fkey c"] by (simp add: name_less_def)
qed

lemma name_less_irrefl: "\<not> name_less a a"
  using lex3_eq0 [of "fkey a" "fkey a"] by (simp add: name_less_def)

lemma apart_less: "apart a b \<Longrightarrow> name_less a b"
  by (simp add: apart_def name_less_def)

lemma apart_no_prefix: "apart a b \<Longrightarrow> \<not> prefix a b \<and> \<not> prefix b a \<and> a \<noteq> b"
proof -
  assume ap: "apart a b"
  have "\<not> prefix (fkey b) (fkey a)"
    using ap lex3_prefix [of "fkey b" "fkey a"] lex3_antisym [of "fkey a" "fkey b"] by (auto simp: apart_def)
  then show ?thesis using ap by (auto simp: apart_def prefix_def)
qed

lemma apart_trans_less: "apart a b \<Longrightarrow> name_less b c \<or> prefix b c \<Longrightarrow> apart a c"
proof -
  assume ap: "apart a b" and bc: "name_less b c \<or> prefix b c"
  have le: "lex3 (fkey b) (fkey c) \<le> 0" using bc lex3_prefix [of "fkey b" "fkey c"] by (auto simp: name_less_def prefix_def)
  then have np: "\<not> prefix (fkey a) (fkey c)" using ap lex3_interval [of "fkey a" "fkey b" "fkey c"] by (auto simp: apart_def)
  have "lex3 (fkey a) (fkey c) \<le> 0" using ap le lex3_trans [of "fkey a" "fkey b" "fkey c"] by (simp add: apart_def)
  moreover have "fkey a \<noteq> fkey c" using np by auto
  ultimately show ?thesis using np lex3_eq0 [of "fkey a" "fkey c"] by (simp add: apart_def)
qed

lemma less_apart: "name_less a b \<Longrightarrow> \<not> prefix a b \<Longrightarrow> 0 \<notin> set a \<Longrightarrow> 0 \<notin> set b \<Longrightarrow> apart a b"
  by (simp add: name_less_def apart_def fkey_prefix)

lemma prefix_less: "strict_prefix a b \<Longrightarrow> name_less a b"
proof -
  assume "strict_prefix a b"
  then obtain c where c: "b = a @ c" "c \<noteq> []" by (auto simp: strict_prefix_def prefix_def)
  then have "lex3 (fkey a) (fkey b) \<le> 0" "fkey a \<noteq> fkey b" using lex3_prefix [of "fkey a" "fkey b"] by (auto simp: fkey_def)
  then show ?thesis using lex3_eq0 [of "fkey a" "fkey b"] by (simp add: name_less_def)
qed

text \<open>The comparison of the search, cut at the shorter length.\<close>

lemma filename_cmp_cut:
  assumes "0 \<notin> set u" "0 \<notin> set a" "n = min (length u) (length a)"
  shows "ngx_filename_cmp u a n < 0 \<longleftrightarrow> apart u a" "0 < ngx_filename_cmp u a n \<longleftrightarrow> apart a u"
    "ngx_filename_cmp u a n = 0 \<longleftrightarrow> prefix u a \<or> prefix a u"
proof -
  have s: "sgn (ngx_filename_cmp u a n) = lex3 (take n (fkey u)) (take n (fkey a))"
    using ngx_filename_cmp_key [of u a n] assms by (simp add: file_key_fkey)
  have cut: "lex3 (take n xs) (take n ys) < 0 \<longleftrightarrow> lex3 xs ys < 0 \<and> \<not> prefix xs ys"
    if "n = min (length xs) (length ys)" for xs ys :: "int list" and n
    using that by (induction xs ys arbitrary: n rule: lex3.induct) auto
  have z: "ngx_filename_cmp u a n < 0 \<longleftrightarrow> lex3 (take n (fkey u)) (take n (fkey a)) < 0"
    "0 < ngx_filename_cmp u a n \<longleftrightarrow> lex3 (take n (fkey a)) (take n (fkey u)) < 0"
    unfolding lex3_antisym [of "take n (fkey a)" "take n (fkey u)"] using s by (metis sgn_less sgn_greater neg_less_0_iff_less)+
  show lt: "ngx_filename_cmp u a n < 0 \<longleftrightarrow> apart u a" "0 < ngx_filename_cmp u a n \<longleftrightarrow> apart a u"
    using z cut [of n "fkey u" "fkey a"] cut [of n "fkey a" "fkey u"] assms(3) by (auto simp: apart_def min.commute)
  show "ngx_filename_cmp u a n = 0 \<longleftrightarrow> prefix u a \<or> prefix a u"
  proof
    assume "ngx_filename_cmp u a n = 0"
    then have "take n (fkey u) = take n (fkey a)" using s lex3_eq0 by simp
    then have "prefix (fkey u) (fkey a) \<or> prefix (fkey a) (fkey u)"
      using assms(3) by (cases "length u \<le> length a") (auto simp: min_def, (metis take_is_prefix fkey_simps(2) take_all_iff order_refl)+)
    then show "prefix u a \<or> prefix a u" using assms(1,2) by (simp add: fkey_prefix)
  next
    assume "prefix u a \<or> prefix a u"
    then have "\<not> apart u a" "\<not> apart a u" using apart_no_prefix by blast+
    then show "ngx_filename_cmp u a n = 0" using lt by linarith
  qed
qed


subsection \<open>What a tree stands for\<close>

datatype 'c ent = Ent (en_name: bytes) (en_exact: "'c loc option") (en_inclusive: "'c loc option")

definition en_redirect :: "'c ent \<Rightarrow> bool" where
  "en_redirect e \<longleftrightarrow> (case en_exact e of Some l \<Rightarrow> loc_auto_redirect l | None \<Rightarrow> False) \<or>
     (case en_inclusive e of Some l \<Rightarrow> loc_auto_redirect l | None \<Rightarrow> False)"

definition en_loc :: "'c ent \<Rightarrow> 'c loc" where
  "en_loc e = (case en_exact e of Some l \<Rightarrow> l | None \<Rightarrow> the (en_inclusive e))"

definition en_under :: "bytes \<Rightarrow> 'c ent \<Rightarrow> 'c ent" where
  "en_under a e = Ent (a @ en_name e) (en_exact e) (en_inclusive e)"

lemma en_under_simps [simp]:
  "en_name (en_under a e) = a @ en_name e" "en_exact (en_under a e) = en_exact e"
  "en_inclusive (en_under a e) = en_inclusive e" "en_redirect (en_under a e) = en_redirect e" "en_loc (en_under a e) = en_loc e"
  by (simp_all add: en_under_def en_redirect_def en_loc_def split: option.split)

text \<open>The locations of a tree with their names, and those of its top level.\<close>

fun entries :: "'c loc_node \<Rightarrow> 'c ent list" where
  "entries Loc_null = []"
| "entries (Loc_node l r t ex inc len ar name) =
     entries l @ Ent name ex inc # map (en_under name) (entries t) @ entries r"

fun level :: "'c loc_node \<Rightarrow> 'c ent list" where
  "level Loc_null = []"
| "level (Loc_node l r t ex inc len ar name) = level l @ Ent name ex inc # level r"

text \<open>The result the search should have: an exact location of this name; an inclusive one of this name; a
  location that is the name with a slash and asks for a redirect; the inclusive location with the longest
  name that the URI starts with (the last one, in the order of the tree).\<close>

definition static_spec :: "'c ent list \<Rightarrow> bytes \<Rightarrow> ngx_rc \<Rightarrow> 'c \<Rightarrow> ngx_rc \<times> 'c" where
  "static_spec es uri rv c =
     (case filter (\<lambda>e. en_name e = uri) es of
        e # _ \<Rightarrow> (if en_exact e \<noteq> None then NGX_OK else NGX_AGAIN, loc_conf (en_loc e))
      | [] \<Rightarrow> (case filter (\<lambda>e. en_name e = uri @ [ch CHR ''/''] \<and> en_redirect e) es of
          e # _ \<Rightarrow> (NGX_DONE, loc_conf (en_loc e))
        | [] \<Rightarrow> (case rev (filter (\<lambda>e. en_inclusive e \<noteq> None \<and> prefix (en_name e) uri) es) of
            e # _ \<Rightarrow> (NGX_AGAIN, loc_conf (the (en_inclusive e)))
          | [] \<Rightarrow> (rv, c))))"

definition en_before :: "'c ent \<Rightarrow> 'c ent \<Rightarrow> bool" where
  "en_before x y \<longleftrightarrow> name_less (en_name x) (en_name y) \<and> (en_inclusive x \<noteq> None \<longrightarrow> \<not> prefix (en_name x) (en_name y))"

fun loc_wf :: "'c loc_node \<Rightarrow> bool" where
  "loc_wf Loc_null = True"
| "loc_wf (Loc_node l r t ex inc len ar name) \<longleftrightarrow>
     loc_wf l \<and> loc_wf r \<and> loc_wf t \<and> len = length name \<and> 0 \<notin> set name \<and> (ex \<noteq> None \<or> inc \<noteq> None) \<and>
     ar = en_redirect (Ent name ex inc) \<and> (ar \<longrightarrow> name \<noteq> [] \<and> last name = ch CHR ''/'') \<and>
     (inc = None \<longrightarrow> t = Loc_null) \<and> (\<forall>x \<in> set (level t). en_name x \<noteq> []) \<and>
     (\<forall>x \<in> set (level l). en_before x (Ent name ex inc)) \<and> (\<forall>y \<in> set (level r). en_before (Ent name ex inc) y)"

lemma entries_nul: "loc_wf t \<Longrightarrow> e \<in> set (entries t) \<Longrightarrow> 0 \<notin> set (en_name e)"
  by (induction t arbitrary: e) auto

lemma level_nul: "loc_wf t \<Longrightarrow> x \<in> set (level t) \<Longrightarrow> 0 \<notin> set (en_name x)"
  by (induction t) auto

lemma entries_level:
  "loc_wf t \<Longrightarrow> e \<in> set (entries t) \<Longrightarrow>
   \<exists>x \<in> set (level t). e = x \<or> en_inclusive x \<noteq> None \<and> strict_prefix (en_name x) (en_name e)"
proof (induction t arbitrary: e)
  case (Loc_node l r t ex inc len ar name)
  from Loc_node.prems(2) consider "e \<in> set (entries l)" | "e = Ent name ex inc"
    | f where "f \<in> set (entries t)" "e = en_under name f" | "e \<in> set (entries r)" by auto
  then show ?case
  proof cases
    case 1
    then show ?thesis using Loc_node.IH(1) [of e] Loc_node.prems(1) by auto
  next
    case 2
    then show ?thesis by simp
  next
    case 3
    then obtain y where "y \<in> set (level t)" "prefix (en_name y) (en_name f)"
      using Loc_node.IH(3) [of f] Loc_node.prems(1) by (force simp: strict_prefix_def)
    then have "en_name f \<noteq> []" using Loc_node.prems(1) by auto
    moreover have "inc \<noteq> None" using 3(1) Loc_node.prems(1) by auto
    ultimately have "en_inclusive (Ent name ex inc) \<noteq> None \<and> strict_prefix (en_name (Ent name ex inc)) (en_name e)"
      using 3(2) by (simp add: strict_prefix_def)
    then show ?thesis by (metis in_set_conv_decomp level.simps(2))
  next
    case 4
    then show ?thesis using Loc_node.IH(2) [of e] Loc_node.prems(1) by auto
  qed
qed simp

text \<open>Locations that have no part in the result.\<close>

definition no_match :: "bytes \<Rightarrow> 'c ent \<Rightarrow> bool" where
  "no_match uri e \<longleftrightarrow> en_name e \<noteq> uri \<and> \<not> (en_name e = uri @ [ch CHR ''/''] \<and> en_redirect e) \<and>
     \<not> (en_inclusive e \<noteq> None \<and> prefix (en_name e) uri)"

lemma static_spec_parts:
  assumes "\<forall>e \<in> set xs. no_match uri e" "\<forall>e \<in> set zs. no_match uri e"
  shows "static_spec (xs @ ys @ zs) uri rv c = static_spec ys uri rv c"
proof -
  have f: "filter P xs = []" "filter P zs = []" if "\<And>e. no_match uri e \<Longrightarrow> \<not> P e" for P
    using assms that by (auto simp: filter_empty_conv)
  have "filter (\<lambda>e. en_name e = uri) xs = []" "filter (\<lambda>e. en_name e = uri) zs = []"
    "filter (\<lambda>e. en_name e = uri @ [ch CHR ''/''] \<and> en_redirect e) xs = []"
    "filter (\<lambda>e. en_name e = uri @ [ch CHR ''/''] \<and> en_redirect e) zs = []"
    "filter (\<lambda>e. en_inclusive e \<noteq> None \<and> prefix (en_name e) uri) xs = []"
    "filter (\<lambda>e. en_inclusive e \<noteq> None \<and> prefix (en_name e) uri) zs = []"
    by (intro f; simp add: no_match_def)+
  then show ?thesis unfolding static_spec_def filter_append by (simp only: append_Nil append_Nil2)
qed

lemma no_match_apart: "apart (en_name e) uri \<or> apart uri (en_name e) \<Longrightarrow> no_match uri e"
  using apart_no_prefix [of "en_name e" uri] apart_no_prefix [of uri "en_name e"] by (auto simp: no_match_def prefix_def)

lemma static_spec_under:
  "static_spec (map (en_under a) es) (a @ u) rv c = static_spec es u rv c"
proof -
  have "filter (\<lambda>e. en_name e = a @ u) (map (en_under a) es) = map (en_under a) (filter (\<lambda>e. en_name e = u) es)"
    "filter (\<lambda>e. en_name e = (a @ u) @ [ch CHR ''/''] \<and> en_redirect e) (map (en_under a) es) =
      map (en_under a) (filter (\<lambda>e. en_name e = u @ [ch CHR ''/''] \<and> en_redirect e) es)"
    "filter (\<lambda>e. en_inclusive e \<noteq> None \<and> prefix (en_name e) (a @ u)) (map (en_under a) es) =
      map (en_under a) (filter (\<lambda>e. en_inclusive e \<noteq> None \<and> prefix (en_name e) u) es)"
    by (simp_all add: filter_map comp_def)
  then show ?thesis unfolding static_spec_def by (simp add: rev_map split: list.split)
qed


subsection \<open>The search finds it\<close>

text \<open>Where the locations of the three subtrees of a node stand in the order.\<close>

lemma left_entries:
  assumes "loc_wf l" "\<forall>x \<in> set (level l). en_before x d" "0 \<notin> set (en_name d)" "e \<in> set (entries l)"
  shows "apart (en_name e) (en_name d) \<or> en_inclusive e = None \<and> name_less (en_name e) (en_name d)"
proof -
  obtain x where x: "x \<in> set (level l)" "e = x \<or> en_inclusive x \<noteq> None \<and> strict_prefix (en_name x) (en_name e)"
    using entries_level [OF assms(1,4)] by blast
  have b: "en_before x d" using assms(2) x(1) by blast
  show ?thesis
  proof (cases "en_inclusive x = None")
    case True
    then show ?thesis using x(2) b by (auto simp: en_before_def)
  next
    case False
    then have "apart (en_name x) (en_name d)"
      using b level_nul [OF assms(1) x(1)] assms(3) less_apart by (auto simp: en_before_def)
    moreover obtain s where "en_name e = en_name x @ s" using x(2) by (auto simp: strict_prefix_def prefix_def)
    ultimately show ?thesis using apart_append [of "en_name x" "en_name d" s "[]"] by simp
  qed
qed

lemma right_entries:
  assumes "loc_wf r" "\<forall>y \<in> set (level r). en_before d y" "0 \<notin> set (en_name d)" "e \<in> set (entries r)"
  shows "name_less (en_name d) (en_name e) \<and> (en_inclusive d \<noteq> None \<longrightarrow> apart (en_name d) (en_name e))"
proof -
  obtain y where y: "y \<in> set (level r)" "prefix (en_name y) (en_name e)"
    using entries_level [OF assms(1,4)] by (force simp: strict_prefix_def)
  have b: "en_before d y" using assms(2) y(1) by blast
  have "name_less (en_name d) (en_name e)"
    using b y(2) name_less_trans [of "en_name d" "en_name y" "en_name e"] prefix_less [of "en_name y" "en_name e"]
    by (cases "en_name y = en_name e") (auto simp: en_before_def strict_prefix_def)
  moreover have "apart (en_name d) (en_name e)" if "en_inclusive d \<noteq> None"
    using b that level_nul [OF assms(1) y(1)] assms(3) y(2) apart_trans_less less_apart unfolding en_before_def by blast
  ultimately show ?thesis by blast
qed

lemma less_no_match:
  assumes "name_less (en_name e) uri" "en_inclusive e = None"
  shows "no_match uri e"
proof -
  have "en_name e \<noteq> uri" "en_name e \<noteq> uri @ [ch CHR ''/'']"
    using assms(1) name_less_irrefl [of uri] name_less_trans [of uri "uri @ [ch CHR ''/'']" uri]
      prefix_less [of uri "uri @ [ch CHR ''/'']"] by (auto simp: strict_prefix_def)
  then show ?thesis using assms(2) by (simp add: no_match_def)
qed

lemma greater_no_match:
  assumes "name_less uri (en_name e)" "\<not> (en_name e = uri @ [ch CHR ''/''] \<and> en_redirect e)"
  shows "no_match uri e"
proof -
  have "\<not> prefix (en_name e) uri"
    using assms(1) prefix_less [of "en_name e" uri] name_less_irrefl name_less_trans
    by (metis strict_prefixI)
  then show ?thesis using assms(2) by (auto simp: no_match_def)
qed

lemma slash_first:
  assumes "strict_prefix u a"
  shows "\<not> name_less a (u @ [ch CHR ''/''])"
proof -
  obtain c s where a: "a = u @ c # s" using assms by (auto elim: strict_prefixE')
  have "\<not> lex3 (xs @ k # ks) (xs @ [0]) < 0" if "0 \<le> k" for xs ks :: "int list" and k
  proof (induction xs)
    case Nil
    then show ?case using that by (cases ks) (auto simp: sgn_if)
  next
    case (Cons x xs)
    then show ?case by simp
  qed
  then show ?thesis using a by (simp add: name_less_def fkey_def)
qed

text \<open>The node is a proper prefix: the search goes on in the subtree with the rest of the URI, for an exact
  location to the right.\<close>

lemma static_spec_inclusive:
  assumes "strict_prefix (en_name d) u" "en_inclusive d = Some i"
  shows "static_spec (d # es) u rv c = static_spec es u NGX_AGAIN (loc_conf i)"
proof -
  have "en_name d \<noteq> u" "en_name d \<noteq> u @ [ch CHR ''/'']" "prefix (en_name d) u"
    using assms(1) by (auto simp: strict_prefix_def prefix_def)
  then show ?thesis using assms(2) unfolding static_spec_def by (simp split: list.split)
qed

text \<open>A redirect met on the way, when no inclusive location in the rest is a prefix of the URI.\<close>

lemma static_spec_redirect:
  assumes "en_name d = u @ [ch CHR ''/'']" "en_redirect d"
    "\<forall>e \<in> set es. en_name e \<noteq> en_name d \<and> \<not> (en_inclusive e \<noteq> None \<and> strict_prefix (en_name e) u)"
  shows "static_spec (es @ [d]) u rv c = static_spec es u NGX_DONE (loc_conf (en_loc d))"
proof (cases "filter (\<lambda>e. en_name e = u) es")
  case Nil
  have n: "filter (\<lambda>e. en_name e = u @ [ch CHR ''/''] \<and> en_redirect e) es = []"
    using assms(1,3) by (auto simp: filter_empty_conv)
  have p: "filter (\<lambda>e. en_inclusive e \<noteq> None \<and> prefix (en_name e) u) es = []"
    using assms(3) Nil by (auto simp: filter_empty_conv strict_prefix_def)
  show ?thesis using Nil n p assms(1,2) unfolding static_spec_def by simp
next
  case (Cons e xs)
  then show ?thesis using assms(1) unfolding static_spec_def by simp
qed

lemma level_entries: "set (level t) \<subseteq> set (entries t)"
  by (induction t) auto

theorem find_static_location_spec:
  "loc_wf t \<Longrightarrow> 0 \<notin> set u \<Longrightarrow> ngx_http_core_find_static_location t u rv c = Some (static_spec (entries t) u rv c)"
proof (induction t arbitrary: u rv c)
  case Loc_null
  then show ?case by (simp add: static_spec_def)
next
  case (Loc_node l r t ex inc len ar name)
  let ?d = "Ent name ex inc"
  let ?sub = "map (en_under name) (entries t)"
  have wf: "loc_wf l" "loc_wf r" "loc_wf t" "len = length name" "0 \<notin> set name" "ex \<noteq> None \<or> inc \<noteq> None"
    "ar = en_redirect ?d" "ar \<longrightarrow> name \<noteq> [] \<and> last name = ch CHR ''/''" "inc = None \<longrightarrow> t = Loc_null"
    "\<forall>x \<in> set (level t). en_name x \<noteq> []"
    "\<forall>x \<in> set (level l). en_before x ?d" "\<forall>y \<in> set (level r). en_before ?d y"
    using Loc_node.prems(1) by simp_all
  note nul = Loc_node.prems(2)
  have ne: "en_name e \<noteq> []" if e: "e \<in> set (entries t)" for e
    using entries_level [OF wf(3) e] wf(10) by (auto simp: strict_prefix_def)
  have left: "apart (en_name e) name \<or> en_inclusive e = None \<and> name_less (en_name e) name" if "e \<in> set (entries l)" for e
    using left_entries [OF wf(1) wf(11) _ that] wf(5) by simp
  have right: "name_less name (en_name e)" "inc \<noteq> None \<Longrightarrow> apart name (en_name e)" if "e \<in> set (entries r)" for e
    using right_entries [OF wf(2) wf(12) _ that] wf(5) by auto
  let ?n = "if length u \<le> len then length u else len"
  have n: "?n = min (length u) (length name)" using wf(4) by simp
  note cmp = filename_cmp_cut [OF nul wf(5) n]
  let ?cmp = "ngx_filename_cmp u name ?n"
  consider (less) "apart u name" | (greater) "apart name u" | (same) "u = name"
    | (above) "strict_prefix name u" | (below) "strict_prefix u name"
    using cmp by (metis linorder_neqE_linordered_idom strict_prefixI)
  then show ?case
  proof cases
    case less
    have "\<forall>e \<in> set (?d # ?sub @ entries r). no_match u e"
    proof
      fix e assume e: "e \<in> set (?d # ?sub @ entries r)"
      have "apart u (en_name e)"
      proof (cases "e \<in> set (entries r)")
        case True
        then show ?thesis using right(1) less apart_trans_less by blast
      next
        case False
        then have "prefix name (en_name e)" using e by (auto simp: en_under_def)
        then show ?thesis using less apart_trans_less by blast
      qed
      then show "no_match u e" using no_match_apart by blast
    qed
    then have "static_spec (entries l) u rv c = static_spec (entries (Loc_node l r t ex inc len ar name)) u rv c"
      using static_spec_parts [of "[]" u "?d # ?sub @ entries r" "entries l"] by simp
    then show ?thesis using cmp(1) less Loc_node.IH(1) [OF wf(1) nul] by (simp add: Let_def)
  next
    case greater
    have "no_match u e" if e: "e \<in> set (entries l)" for e
    proof (cases "apart (en_name e) name")
      case True
      then show ?thesis using greater apart_less apart_trans_less no_match_apart by blast
    next
      case False
      then show ?thesis using left [OF e] greater apart_less name_less_trans less_no_match by blast
    qed
    moreover have "no_match u e" if e: "e \<in> set (?d # ?sub)" for e
    proof -
      obtain s where "en_name e = name @ s" using e by auto
      then have "apart (en_name e) u" using greater apart_append [of name u s "[]"] by simp
      then show ?thesis using no_match_apart by blast
    qed
    ultimately have "\<forall>e \<in> set (entries l @ ?d # ?sub). no_match u e" by auto
    then have "static_spec (entries r) u rv c = static_spec (entries (Loc_node l r t ex inc len ar name)) u rv c"
      using static_spec_parts [of "entries l @ ?d # ?sub" u "[]" "entries r"] by simp
    then show ?thesis using cmp(2) greater Loc_node.IH(2) [OF wf(2) nul] by (auto simp: Let_def)
  next
    case same
    have "en_name e \<noteq> u" if "e \<in> set (entries l)" for e
      using left [OF that] same apart_no_prefix name_less_irrefl by metis
    then have "filter (\<lambda>e. en_name e = u) (entries (Loc_node l r t ex inc len ar name)) =
        ?d # filter (\<lambda>e. en_name e = u) (?sub @ entries r)"
      using same by (simp add: filter_empty_conv)
    moreover have "?cmp = 0" using cmp(3) same by simp
    ultimately show ?thesis using same wf(4,6) by (auto simp: Let_def static_spec_def en_loc_def split: option.split)
  next
    case above
    then have z: "?cmp = 0" using cmp(3) by (simp add: strict_prefix_def)
    have len: "length u > len" using above wf(4) by (simp add: prefix_length_less)
    have l: "no_match u e" if e: "e \<in> set (entries l)" for e
    proof (cases "apart (en_name e) name")
      case True
      then show ?thesis using above apart_trans_less no_match_apart strict_prefixE by blast
    next
      case False
      then show ?thesis using left [OF e] prefix_less [OF above] name_less_trans less_no_match by blast
    qed
    show ?thesis
    proof (cases inc)
      case None
      then have sub: "?sub = []" using wf(9) by simp
      have "no_match u ?d" using above None by (auto simp: no_match_def strict_prefix_def prefix_def)
      then have "static_spec (entries (Loc_node l r t ex inc len ar name)) u rv c = static_spec (entries r) u rv c"
        using static_spec_parts [of "entries l @ [?d]" u "[]" "entries r"] sub l by (auto simp del: append_eq_append_conv)
      then show ?thesis using z len None Loc_node.IH(2) [OF wf(2) nul] by (simp add: Let_def)
    next
      case (Some i)
      have "no_match u e" if e: "e \<in> set (entries r)" for e
        using right(2) [OF e] Some above apart_append no_match_apart [of e u] by (metis append_Nil2 option.simps(3) prefix_def strict_prefixE)
      then have "static_spec (entries (Loc_node l r t ex inc len ar name)) u rv c = static_spec (?d # ?sub) u rv c"
        using static_spec_parts [of "entries l" u "entries r" "?d # ?sub"] l by simp
      also have "\<dots> = static_spec ?sub u NGX_AGAIN (loc_conf i)"
        using static_spec_inclusive [of ?d u i] above Some by simp
      also have "\<dots> = static_spec (entries t) (drop len u) NGX_AGAIN (loc_conf i)"
      proof -
        obtain s where "u = name @ s" using above by (auto simp: strict_prefix_def prefix_def)
        then show ?thesis using static_spec_under wf(4) by simp
      qed
      finally have "static_spec (entries (Loc_node l r t ex inc len ar name)) u rv c =
        static_spec (entries t) (drop len u) NGX_AGAIN (loc_conf i)" .
      moreover have "0 \<notin> set (drop len u)" using nul by (meson in_set_dropD)
      ultimately show ?thesis using z len Some Loc_node.IH(3) [OF wf(3)] by (simp add: Let_def)
    qed
  next
    case below
    then have z: "?cmp = 0" using cmp(3) by (simp add: strict_prefix_def)
    have len: "length u < len" using below wf(4) by (simp add: prefix_length_less)
    have r: "no_match u e" if e: "e \<in> set (entries r)" for e
    proof -
      have "en_name e \<noteq> u @ [ch CHR ''/'']" using right(1) [OF e] slash_first [OF below] by auto
      moreover have "name_less u (en_name e)" using right(1) [OF e] prefix_less [OF below] name_less_trans by blast
      ultimately show ?thesis using greater_no_match by blast
    qed
    have sub: "no_match u e" if e: "e \<in> set ?sub" for e
    proof -
      obtain f where f: "f \<in> set (entries t)" "en_name e = name @ en_name f" using e by auto
      have "length (en_name e) = len + length (en_name f)" "0 < length (en_name f)" using f wf(4) ne by simp_all
      then have "length (en_name e) > Suc (length u)" using len by linarith
      then have "en_name e \<noteq> u @ [ch CHR ''/'']" by auto
      moreover have "name_less u (en_name e)" using f(2) below prefix_less by (metis prefix_order.less_le_trans prefixI)
      ultimately show ?thesis using greater_no_match by blast
    qed
    have rest: "\<forall>e \<in> set (?sub @ entries r). no_match u e" using r sub by auto
    have eq: "ngx_http_core_find_static_location (Loc_node l r t ex inc len ar name) u rv c =
        (if length u + 1 = len \<and> ar then Some (static_spec (entries l) u NGX_DONE (loc_conf (en_loc ?d)))
         else Some (static_spec (entries l) u rv c))"
      using z len wf(6) Loc_node.IH(1) [OF wf(1) nul] by (auto simp: Let_def en_loc_def split: option.split)
    show ?thesis
    proof (cases "length u + 1 = len \<and> ar")
      case True
      obtain s where s: "name = u @ s" using below by (auto simp: strict_prefix_def prefix_def)
      then have "length s = 1" using True wf(4) by simp
      then obtain b where "s = [b]" by (auto simp: length_Suc_conv)
      then have nm: "name = u @ [ch CHR ''/'']" using s True wf(8) by simp
      have "\<forall>e \<in> set (entries l). en_name e \<noteq> en_name ?d \<and> \<not> (en_inclusive e \<noteq> None \<and> strict_prefix (en_name e) u)"
      proof
        fix e assume e: "e \<in> set (entries l)"
        have "\<not> prefix (en_name e) name" if "apart (en_name e) name" using that apart_no_prefix by blast
        then show "en_name e \<noteq> en_name ?d \<and> \<not> (en_inclusive e \<noteq> None \<and> strict_prefix (en_name e) u)"
          using left [OF e] name_less_irrefl below by (auto dest: prefix_order.less_trans)
      qed
      then have "static_spec (entries l @ [?d]) u rv c = static_spec (entries l) u NGX_DONE (loc_conf (en_loc ?d))"
        using static_spec_redirect [of ?d u "entries l"] nm True wf(7) by simp
      then show ?thesis using eq True static_spec_parts [of "[]" u "?sub @ entries r" "entries l @ [?d]"] rest by simp
    next
      case False
      have "\<not> (en_name ?d = u @ [ch CHR ''/''] \<and> en_redirect ?d)"
        using False wf(4,7) by (metis length_append_singleton Suc_eq_plus1 ent.sel(1))
      then have "no_match u ?d" using greater_no_match [of u ?d] prefix_less [OF below] by simp
      then have "\<forall>e \<in> set (?d # ?sub @ entries r). no_match u e" using rest by simp
      then show ?thesis using eq False static_spec_parts [of "[]" u "?d # ?sub @ entries r" "entries l"] by auto
    qed
  qed
qed

end
