(* ===== verification/Ngx_Location_Tree.thy ===== *)
theory Ngx_Location_Tree
  imports Ngx_Location
begin

section \<open>Location trees\<close>

text \<open>
  The proofs about the functions of \<open>Ngx_Location\<close> that build the tree: what sorting, joining, nesting and
  halving keep, and, at the end, that the tree serves every URI the location that the configuration asks for.
\<close>

subsection \<open>The tree of a list\<close>

definition lq_before :: "'c lq \<Rightarrow> 'c lq \<Rightarrow> bool" where
  "lq_before x y \<longleftrightarrow> name_less (lq_name x) (lq_name y) \<and> (lq_inclusive x \<noteq> None \<longrightarrow> \<not> prefix (lq_name x) (lq_name y))"

fun lq_wf :: "'c lq \<Rightarrow> bool" where
  "lq_wf (Lq n e i ls) \<longleftrightarrow> 0 \<notin> set n \<and> length n < 65536 \<and> (e \<noteq> None \<or> i \<noteq> None) \<and>
     (lq_redirect (Lq n e i ls) \<longrightarrow> n \<noteq> [] \<and> last n = ch CHR ''/'') \<and> (i = None \<longrightarrow> ls = []) \<and>
     (\<forall>x \<in> set ls. strict_prefix n (lq_name x) \<and> lq_wf x) \<and> sorted_wrt lq_before ls"

text \<open>The locations of an entry of the list, and what is left of a name below a prefix of \<open>p\<close> bytes.\<close>

fun lq_flat :: "'c lq \<Rightarrow> 'c ent list" where
  "lq_flat (Lq n e i ls) = Ent n e i # concat (map lq_flat ls)"

definition en_below :: "nat \<Rightarrow> 'c ent \<Rightarrow> 'c ent" where
  "en_below p e = Ent (drop p (en_name e)) (en_exact e) (en_inclusive e)"

definition lq_ent :: "'c lq \<Rightarrow> 'c ent" where
  "lq_ent q = Ent (lq_name q) (lq_exact q) (lq_inclusive q)"

lemma lq_flat_prefix: "lq_wf q \<Longrightarrow> e \<in> set (lq_flat q) \<Longrightarrow> prefix (lq_name q) (en_name e)"
proof (induction q arbitrary: e rule: lq_flat.induct)
  case (1 n ex i ls)
  show ?case
  proof (cases "e = Ent n ex i")
    case False
    then obtain x where x: "x \<in> set ls" "e \<in> set (lq_flat x)" using "1.prems"(2) by auto
    then have "prefix (lq_name x) (en_name e)" "strict_prefix n (lq_name x)" using "1.IH" "1.prems"(1) by auto
    then show ?thesis by (auto simp: strict_prefix_def)
  qed simp
qed

lemma en_below_under:
  assumes "prefix n (en_name e)" "p \<le> length n"
  shows "en_under (drop p n) (en_below (length n) e) = en_below p e"
  using assms by (auto simp: en_under_def en_below_def prefix_def)

lemma lq_before_below:
  assumes "lq_before x y" "prefix P (lq_name x)" "prefix P (lq_name y)" "p = length P"
  shows "en_before (en_below p (lq_ent x)) (en_below p (lq_ent y))"
proof -
  obtain a b where ab: "lq_name x = P @ a" "lq_name y = P @ b" using assms(2,3) by (auto simp: prefix_def)
  have "lex3 (zs @ xs) (zs @ ys) = lex3 xs ys" for zs xs ys :: "int list" by (induction zs) auto
  then show ?thesis using assms(1,4) ab
    by (simp add: lq_before_def en_before_def en_below_def lq_ent_def name_less_def)
qed

lemma lq_redirect_ent: "lq_redirect q = en_redirect (lq_ent q)" "en_redirect (en_below p e) = en_redirect e"
  by (simp_all add: lq_redirect_def en_redirect_def lq_ent_def en_below_def)

definition tree_of :: "nat \<Rightarrow> 'c lq list \<Rightarrow> 'c loc_node \<Rightarrow> bool" where
  "tree_of p qs t \<longleftrightarrow> loc_wf t \<and> level t = map (en_below p \<circ> lq_ent) qs \<and>
     entries t = map (en_below p) (concat (map lq_flat qs))"

lemma tree_of_Nil: "tree_of p [] Loc_null"
  by (simp add: tree_of_def)

lemma tree_of_node:
  assumes "tree_of p xs l" "tree_of p ys r" "tree_of (length (lq_name q)) (lq_list q) t"
    and "lq_wf q" "sorted_wrt lq_before (xs @ q # ys)" "\<forall>x \<in> set (xs @ q # ys). prefix P (lq_name x)"
    and "p = length P" "lq_redirect q \<longrightarrow> p < length (lq_name q)" "lq_list q = [] \<longrightarrow> t = Loc_null"
  shows "tree_of p (xs @ q # ys) (Loc_node l r t (lq_exact q) (lq_inclusive q) ((length (lq_name q) - p) mod 65536)
    (lq_redirect q) (drop p (lq_name q)))"
proof -
  obtain n e i ls where q: "q = Lq n e i ls" by (cases q)
  have wf: "0 \<notin> set n" "length n < 65536" "e \<noteq> None \<or> i \<noteq> None" "lq_redirect q \<longrightarrow> n \<noteq> [] \<and> last n = ch CHR ''/''"
    "i = None \<longrightarrow> ls = []" "\<forall>x \<in> set ls. strict_prefix n (lq_name x) \<and> lq_wf x"
    using assms(4) q by auto
  have t: "loc_wf t" "level t = map (en_below (length n) \<circ> lq_ent) ls"
    "entries t = map (en_below (length n)) (concat (map lq_flat ls))" using assms(3) q by (auto simp: tree_of_def)
  have p: "p \<le> length n" using assms(6,7) q by (auto dest: prefix_length_le)
  have d: "Ent (drop p n) e i = en_below p (lq_ent q)" by (simp add: q en_below_def lq_ent_def)
  have lx: "en_before x (en_below p (lq_ent q))" if "x \<in> set (level l)" for x
    using that assms(1,5,6,7) lq_before_below by (fastforce simp: tree_of_def sorted_wrt_append)
  have ry: "en_before (en_below p (lq_ent q)) y" if "y \<in> set (level r)" for y
    using that assms(2,5,6,7) lq_before_below by (fastforce simp: tree_of_def sorted_wrt_append)
  have tx: "en_name x \<noteq> []" if x: "x \<in> set (level t)" for x
  proof -
    obtain z where "z \<in> set ls" "x = en_below (length n) (lq_ent z)" using x t(2) by auto
    then show ?thesis using wf(6) by (auto simp: en_below_def lq_ent_def strict_prefix_def prefix_def)
  qed
  have sub: "map (en_under (drop p n)) (entries t) = map (en_below p) (concat (map lq_flat ls))"
    unfolding t(3) map_map
  proof (rule map_cong [OF refl])
    fix x assume "x \<in> set (concat (map lq_flat ls))"
    then obtain z where "z \<in> set ls" "x \<in> set (lq_flat z)" by auto
    then have "prefix n (en_name x)" using wf(6) lq_flat_prefix by (metis prefix_order.trans strict_prefixE)
    then show "(en_under (drop p n) \<circ> en_below (length n)) x = en_below p x" using en_below_under p by simp
  qed
  have len: "(length n - p) mod 65536 = length (drop p n)" using wf(2) by simp
  have "0 \<notin> set (drop p n)" using wf(1) by (meson in_set_dropD)
  moreover have "lq_redirect q \<longrightarrow> drop p n \<noteq> [] \<and> last (drop p n) = ch CHR ''/''" using wf(4) assms(8) q by auto
  moreover have "i = None \<longrightarrow> t = Loc_null" using wf(5) assms(9) q by simp
  ultimately have "loc_wf (Loc_node l r t e i (length (drop p n)) (lq_redirect q) (drop p n))"
    using assms(1,2) t(1) wf(3) tx lx ry unfolding loc_wf.simps d
    by (simp add: tree_of_def lq_redirect_ent)
  then show ?thesis using assms(1,2) sub len by (simp add: tree_of_def q d [symmetric] lq_ent_def en_below_def)
qed

lemma create_tree:
  assumes "qs \<noteq> []" "\<forall>q \<in> set qs. lq_wf q \<and> prefix P (lq_name q) \<and> (lq_redirect q \<longrightarrow> length P < length (lq_name q))"
    and "sorted_wrt lq_before qs" "lqs_count qs \<le> avail"
  shows "\<exists>t. ngx_http_create_locations_tree avail qs (length P) = Some (t, avail - lqs_count qs) \<and> tree_of (length P) qs t"
  using assms
proof (induction "lqs_count qs" arbitrary: qs avail P rule: less_induct)
  case less
  define m where "m = length qs div 2"
  define q where "q = qs ! m"
  have m: "m < length qs" using less.prems(1) by (simp add: m_def)
  have qs: "qs = take m qs @ q # drop (Suc m) qs" using m by (simp add: q_def id_take_nth_drop)
  have q: "q \<in> set qs" using m by (simp add: q_def)
  have cnt: "lqs_count (take m qs) + lq_count q + lqs_count (drop (Suc m) qs) = lqs_count qs"
    using lqs_count_middle [OF m] by (simp add: q_def)
  have cq: "lq_count q = Suc (lqs_count (lq_list q))" by (cases q) simp
  have part: "\<exists>t. (if xs = [] then Some (Loc_null, a) else ngx_http_create_locations_tree a xs (length P)) = Some (t, a - lqs_count xs) \<and>
      tree_of (length P) xs t" if "lqs_count xs < lqs_count qs" "set xs \<subseteq> set qs" "sorted_wrt lq_before xs" "lqs_count xs \<le> a" for xs a
    using less.hyps [OF that(1), of P a] less.prems(2) that tree_of_Nil by (cases "xs = []") auto
  have srt: "sorted_wrt lq_before (take m qs)" "sorted_wrt lq_before (drop (Suc m) qs)"
    using less.prems(3) sorted_wrt_take sorted_wrt_drop by auto
  define al where "al = avail - 1"
  define ar where "ar = al - lqs_count (take m qs)"
  define at where "at = ar - lqs_count (drop (Suc m) qs)"
  have le: "lqs_count (take m qs) \<le> al" "lqs_count (drop (Suc m) qs) \<le> ar" "lqs_count (lq_list q) \<le> at"
    "at - lqs_count (lq_list q) = avail - lqs_count qs" "avail \<noteq> 0"
    using cnt cq less.prems(4) by (simp_all add: al_def ar_def at_def)
  have lt: "lqs_count (take m qs) < lqs_count qs" "lqs_count (drop (Suc m) qs) < lqs_count qs" "lqs_count (lq_list q) < lqs_count qs"
    using cnt cq by linarith+
  obtain l where l: "(if take m qs = [] then Some (Loc_null, al) else ngx_http_create_locations_tree al (take m qs) (length P))
      = Some (l, ar)" "tree_of (length P) (take m qs) l"
    using part [OF lt(1) set_take_subset srt(1) le(1)] unfolding ar_def [symmetric] by blast
  obtain r where r: "(if drop (Suc m) qs = [] then Some (Loc_null, ar) else ngx_http_create_locations_tree ar (drop (Suc m) qs) (length P))
      = Some (r, at)" "tree_of (length P) (drop (Suc m) qs) r"
    using part [OF lt(2) set_drop_subset srt(2) le(2)] unfolding at_def [symmetric] by blast
  have wq: "lq_wf q" "prefix P (lq_name q)" "lq_redirect q \<longrightarrow> length P < length (lq_name q)" using q less.prems(2) by blast+
  have sub: "\<forall>x \<in> set (lq_list q). lq_wf x \<and> prefix (lq_name q) (lq_name x) \<and> (lq_redirect x \<longrightarrow> length (lq_name q) < length (lq_name x))"
    "sorted_wrt lq_before (lq_list q)"
  proof -
    show "\<forall>x \<in> set (lq_list q). lq_wf x \<and> prefix (lq_name q) (lq_name x) \<and> (lq_redirect x \<longrightarrow> length (lq_name q) < length (lq_name x))"
    proof
      fix x assume "x \<in> set (lq_list q)"
      then have "lq_wf x" "strict_prefix (lq_name q) (lq_name x)" using wq(1) by (cases q; simp)+
      then show "lq_wf x \<and> prefix (lq_name q) (lq_name x) \<and> (lq_redirect x \<longrightarrow> length (lq_name q) < length (lq_name x))"
        using prefix_length_less [of "lq_name q" "lq_name x"] by (simp add: strict_prefix_def)
    qed
    show "sorted_wrt lq_before (lq_list q)" using wq(1) by (cases q) simp
  qed
  obtain t where t: "(if lq_list q = [] then Some (Loc_null, at) else ngx_http_create_locations_tree at (lq_list q) (length (lq_name q)))
      = Some (t, avail - lqs_count qs)" "tree_of (length (lq_name q)) (lq_list q) t"
  proof (cases "lq_list q = []")
    case True
    then show ?thesis using that [of Loc_null] le(4) by (simp add: tree_of_Nil)
  next
    case False
    then show ?thesis using less.hyps [OF lt(3) False sub le(3)] le(4) that by auto
  qed
  have e: "take m qs = [] \<Longrightarrow> drop (Suc m) qs = []" using m by (auto simp: m_def)
  have len: "length P + (length (lq_name q) - length P) = length (lq_name q)" using prefix_length_le [OF wq(2)] by simp
  have run: "ngx_http_create_locations_tree avail qs (length P) =
      Some (Loc_node l r t (lq_exact q) (lq_inclusive q) ((length (lq_name q) - length P) mod 65536)
        (lq_redirect q) (drop (length P) (lq_name q)), avail - lqs_count qs)"
    using l(1) r(1) t(1) e less.prems(1) le(5)
    unfolding ngx_http_create_locations_tree.simps [of avail qs] Let_def m_def [symmetric] q_def [symmetric] al_def [symmetric] len
    by (auto split: if_splits)
  have "lq_list q = [] \<longrightarrow> t = Loc_null" using t(1) by (cases "lq_list q = []") simp_all
  then have "tree_of (length P) (take m qs @ q # drop (Suc m) qs) (Loc_node l r t (lq_exact q) (lq_inclusive q)
      ((length (lq_name q) - length P) mod 65536) (lq_redirect q) (drop (length P) (lq_name q)))"
    using tree_of_node [OF l(2) r(2) t(2) wq(1), of P] less.prems(2,3) wq(3) unfolding qs [symmetric] by blast
  then show ?case using run unfolding qs [symmetric] by blast
qed


subsection \<open>The list of a sorted queue\<close>

definition lq_leaf :: "'c lq \<Rightarrow> bool" where
  "lq_leaf q \<longleftrightarrow> lq_list q = [] \<and> lq_wf q"

definition lq_less :: "'c lq \<Rightarrow> 'c lq \<Rightarrow> bool" where
  "lq_less x y \<longleftrightarrow> name_less (lq_name x) (lq_name y)"

lemma lq_wf_nul: "lq_wf q \<Longrightarrow> 0 \<notin> set (lq_name q)"
  by (cases q) simp

lemma lq_extends_prefix:
  assumes "0 \<notin> set a" "0 \<notin> set (lq_name x)"
  shows "lq_extends a x \<longleftrightarrow> prefix a (lq_name x)"
proof (cases "length a \<le> length (lq_name x)")
  case True
  then show ?thesis
    using filename_cmp_cut(3) [OF assms refl] prefix_length_le [of "lq_name x" a] prefix_length_prefix
    by (auto simp: lq_extends_def min_def)
next
  case False
  then show ?thesis by (auto simp: lq_extends_def dest: prefix_length_le)
qed

text \<open>The names that extend a name follow it directly.\<close>

lemma rest_not_below:
  assumes "0 \<notin> set a" "\<forall>x \<in> set xs. 0 \<notin> set (lq_name x) \<and> name_less a (lq_name x)" "sorted_wrt lq_less xs"
    and y: "y \<in> set (dropWhile (lq_extends a) xs)"
  shows "\<not> prefix a (lq_name y)"
proof -
  obtain h ys where h: "dropWhile (lq_extends a) xs = h # ys" using y by (cases "dropWhile (lq_extends a) xs") auto
  have in_xs: "set (h # ys) \<subseteq> set xs" using h by (metis set_dropWhileD subsetI)
  then have "\<not> prefix a (lq_name h)" using hd_dropWhile [of "lq_extends a" xs] h lq_extends_prefix assms(1,2) by auto
  then have "apart a (lq_name h)" using in_xs assms(1,2) less_apart by auto
  moreover have "sorted_wrt lq_less (h # ys)" using assms(3) h by (metis sorted_wrt_append takeWhile_dropWhile_id)
  then have "y = h \<or> name_less (lq_name h) (lq_name y)" using y h by (auto simp: lq_less_def)
  ultimately have "apart a (lq_name y)" using apart_trans_less by blast
  then show ?thesis using apart_no_prefix by blast
qed

lemma sorted_wrt_while: "sorted_wrt R xs \<Longrightarrow> sorted_wrt R (takeWhile P xs) \<and> sorted_wrt R (dropWhile P xs)"
  by (metis sorted_wrt_append takeWhile_dropWhile_id)

lemma lq_leaf_some: "lq_leaf q \<Longrightarrow> lq_exact q \<noteq> None \<or> lq_inclusive q \<noteq> None"
  by (cases q) (auto simp: lq_leaf_def)

lemma lq_flat_leaf: "lq_leaf q \<Longrightarrow> lq_flat q = [lq_ent q]"
  by (cases q) (simp add: lq_leaf_def lq_ent_def)

declare ngx_http_create_locations_list.simps [simp del]

definition list_ok :: "'c lq list \<Rightarrow> 'c lq list \<Rightarrow> bool" where
  "list_ok qs out \<longleftrightarrow> (\<forall>x \<in> set out. lq_wf x \<and> lq_name x \<in> lq_name ` set qs) \<and> sorted_wrt lq_before out \<and>
     concat (map lq_flat out) = map lq_ent qs"

lemma list_ok_Cons:
  assumes "lq_wf q'" "lq_name q' = lq_name q" "lq_flat q' = lq_ent q # map lq_ent nest" "list_ok rest R"
    "\<forall>x \<in> set rest. name_less (lq_name q) (lq_name x) \<and> (lq_inclusive q' \<noteq> None \<longrightarrow> \<not> prefix (lq_name q) (lq_name x))"
  shows "list_ok (q # nest @ rest) (q' # R)"
proof -
  have "lq_before q' x" if x: "x \<in> set R" for x
  proof -
    obtain z where "z \<in> set rest" "lq_name x = lq_name z" using x assms(4) by (auto simp: list_ok_def)
    then show ?thesis using assms(2,5) by (simp add: lq_before_def)
  qed
  then show ?thesis using assms(1-4) by (auto simp: list_ok_def)
qed

lemma list_ok_leaf:
  assumes "lq_leaf q" "list_ok xs R"
    "\<forall>x \<in> set xs. name_less (lq_name q) (lq_name x) \<and> (lq_inclusive q \<noteq> None \<longrightarrow> \<not> prefix (lq_name q) (lq_name x))"
  shows "list_ok (q # xs) (q # R)"
  using list_ok_Cons [of q q "[]" xs R] assms lq_flat_leaf [of q] by (simp add: lq_leaf_def)

lemma list_ok_nest:
  assumes "lq_leaf q" "lq_inclusive q \<noteq> None" "list_ok nest N" "\<forall>x \<in> set nest. strict_prefix (lq_name q) (lq_name x)"
    "list_ok rest R" "\<forall>x \<in> set rest. name_less (lq_name q) (lq_name x) \<and> \<not> prefix (lq_name q) (lq_name x)"
  shows "list_ok (q # nest @ rest) (Lq (lq_name q) (lq_exact q) (lq_inclusive q) N # R)"
proof (rule list_ok_Cons [OF _ _ _ assms(5)])
  let ?q = "Lq (lq_name q) (lq_exact q) (lq_inclusive q) N"
  have "\<forall>x \<in> set N. strict_prefix (lq_name q) (lq_name x) \<and> lq_wf x" using assms(3,4) by (auto simp: list_ok_def)
  moreover have "lq_redirect ?q = lq_redirect q" by (simp add: lq_redirect_def)
  ultimately show "lq_wf ?q" using assms(1-3) by (cases q) (auto simp: lq_leaf_def list_ok_def lq_redirect_def)
  show "lq_flat ?q = lq_ent q # map lq_ent nest" using assms(3) by (simp add: list_ok_def lq_ent_def)
qed (use assms(6) in auto)

lemma create_list:
  assumes "\<forall>q \<in> set qs. lq_leaf q" "sorted_wrt lq_less qs"
  shows "list_ok qs (ngx_http_create_locations_list qs)"
  using assms
proof (induction "length qs" arbitrary: qs rule: less_induct)
  case less
  show ?case
  proof (cases qs)
    case Nil
    then show ?thesis by (simp add: ngx_http_create_locations_list.simps list_ok_def)
  next
    case (Cons q xs)
    define nest where "nest = takeWhile (lq_extends (lq_name q)) xs"
    define rest where "rest = dropWhile (lq_extends (lq_name q)) xs"
    have xs: "xs = nest @ rest" by (simp add: nest_def rest_def)
    have leaf: "lq_leaf q" "\<forall>x \<in> set xs. lq_leaf x" using less.prems(1) Cons by auto
    have srt: "sorted_wrt lq_less xs" "\<forall>x \<in> set xs. name_less (lq_name q) (lq_name x)"
      using less.prems(2) Cons by (simp, auto simp: lq_less_def)
    have nul: "0 \<notin> set (lq_name x)" if "lq_leaf x" for x using that by (simp add: lq_leaf_def lq_wf_nul)
    have IH: "list_ok zs (ngx_http_create_locations_list zs)" if "length zs \<le> length xs" "set zs \<subseteq> set xs" "sorted_wrt lq_less zs" for zs
      using less.hyps [of zs] that leaf(2) Cons by auto
    have nr: "sorted_wrt lq_less nest" "sorted_wrt lq_less rest" "length nest \<le> length xs" "length rest \<le> length xs"
      "set nest \<subseteq> set xs" "set rest \<subseteq> set xs"
      using srt(1) unfolding xs by (auto simp: sorted_wrt_append)
    have out: "ngx_http_create_locations_list (q # xs) =
        (if lq_inclusive q = None then q # ngx_http_create_locations_list xs
         else if nest = [] then q # ngx_http_create_locations_list rest
         else Lq (lq_name q) (lq_exact q) (lq_inclusive q) (ngx_http_create_locations_list nest) # ngx_http_create_locations_list rest)"
      using leaf(1) unfolding lq_leaf_def nest_def rest_def
      by (cases xs) (simp_all add: ngx_http_create_locations_list.simps Let_def)
    have below: "\<not> prefix (lq_name q) (lq_name x)" if "x \<in> set rest" for x
      using that rest_not_below [of "lq_name q" xs x] nul leaf srt unfolding rest_def by blast
    have inner: "strict_prefix (lq_name q) (lq_name x)" if "x \<in> set nest" for x
    proof -
      have x: "x \<in> set xs" "lq_extends (lq_name q) x" using that unfolding nest_def by (blast dest: set_takeWhileD)+
      then have "prefix (lq_name q) (lq_name x)" using lq_extends_prefix nul leaf by blast
      moreover have "lq_name q \<noteq> lq_name x" using x(1) srt(2) name_less_irrefl by metis
      ultimately show ?thesis by (simp add: strict_prefix_def)
    qed
    consider "lq_inclusive q = None" | "lq_inclusive q \<noteq> None" "nest = []" | "lq_inclusive q \<noteq> None" "nest \<noteq> []" by blast
    then show ?thesis
    proof cases
      case 1
      then show ?thesis using out Cons list_ok_leaf [OF leaf(1) IH [of xs]] srt by simp
    next
      case 2
      then show ?thesis using out Cons list_ok_leaf [OF leaf(1) IH [of rest]] nr srt(2) below xs by simp
    next
      case 3
      then show ?thesis
        using out Cons list_ok_nest [OF leaf(1) 3(1) IH [of nest] _ IH [of rest]] nr srt(2) below inner xs by auto
    qed
  qed
qed


subsection \<open>Sorting\<close>

text \<open>The order of \<open>ngx_http_cmp_locations\<close> as a key: static locations by name with an exact one before the
  inclusive one, then the regular expressions, the named and the nameless ones.\<close>

definition lq_key :: "'c lq \<Rightarrow> int list" where
  "lq_key q = (let l = lq_loc q in
     if loc_noname l then [3]
     else if loc_named l then 2 # map uint (loc_name l)
     else if loc_regex l then [1]
     else 0 # map (\<lambda>k. k + 2) (fkey (loc_name l)) @ [if loc_exact_match l then 0 else 1])"

lemma uint_zero [simp]: "uint (c :: 8 word) = 0 \<longleftrightarrow> c = 0"
  by (simp add: uint_0_iff)

lemma ngx_strcmp_key: "0 \<notin> set s \<Longrightarrow> 0 \<notin> set t \<Longrightarrow> sgn (ngx_strcmp s t) = lex3 (map uint s) (map uint t)"
proof (induction s t rule: ngx_strcmp.induct)
  case (1 t)
  then show ?case by (cases t) (auto simp: sgn_if uint_pos uint_0_iff)
next
  case (2 c s t)
  then show ?case by (cases t) (auto simp: sgn_if uint_pos)
qed

lemma filename_cmp_names:
  assumes "0 \<notin> set a" "0 \<notin> set b"
  shows "sgn (ngx_filename_cmp a b (min (length a) (length b) + 1)) = lex3 (fkey a) (fkey b)"
proof -
  have "lex3 (take n xs) (take n ys) = lex3 xs ys" if "min (length xs) (length ys) < n" for xs ys :: "int list" and n
    using that by (induction xs ys arbitrary: n rule: lex3.induct) (auto simp: take_Cons' min_def split: if_splits)
  then have "lex3 (take (min (length a) (length b) + 1) (fkey a)) (take (min (length a) (length b) + 1) (fkey b)) = lex3 (fkey a) (fkey b)"
    by simp
  then show ?thesis
    unfolding ngx_filename_cmp_key file_key_fkey [OF assms(1)] file_key_fkey [OF assms(2)] .
qed

lemma lex3_flagged:
  assumes "\<forall>k \<in> set xs \<union> set ys. 0 \<le> k" "s \<in> {0, 1}" "t \<in> {0, 1 :: int}"
  shows "lex3 (map (\<lambda>k. k + 2) xs @ [s]) (map (\<lambda>k. k + 2) ys @ [t]) = (if xs = ys then sgn (s - t) else lex3 xs ys)"
  using assms by (induction xs ys rule: lex3.induct) (auto simp: sgn_if)

lemma cmp_locations_key:
  assumes "0 \<notin> set (loc_name (lq_loc a))" "0 \<notin> set (loc_name (lq_loc b))"
  shows "ngx_http_cmp_locations a b \<le> 0 \<longleftrightarrow> lex3 (lq_key a) (lq_key b) \<le> 0"
proof -
  let ?s = "if loc_exact_match (lq_loc a) then 0 else 1 :: int" and ?t = "if loc_exact_match (lq_loc b) then 0 else 1 :: int"
  have le: "x \<le> 0 \<longleftrightarrow> sgn x \<le> 0" for x :: int by (auto simp: sgn_if)
  have pos: "\<forall>k \<in> set (fkey (loc_name (lq_loc a))) \<union> set (fkey (loc_name (lq_loc b))). 0 \<le> k" by (auto simp: fkey_def)
  have f: "lex3 (map (\<lambda>k. k + 2) (fkey (loc_name (lq_loc a))) @ [?s]) (map (\<lambda>k. k + 2) (fkey (loc_name (lq_loc b))) @ [?t]) =
      (if fkey (loc_name (lq_loc a)) = fkey (loc_name (lq_loc b)) then sgn (?s - ?t)
       else lex3 (fkey (loc_name (lq_loc a))) (fkey (loc_name (lq_loc b))))"
    by (rule lex3_flagged [OF pos]) auto
  have st: "sgn (ngx_strcmp (loc_name (lq_loc a)) (loc_name (lq_loc b))) = lex3 (map uint (loc_name (lq_loc a))) (map uint (loc_name (lq_loc b)))"
    using ngx_strcmp_key [OF assms] .
  define rc where "rc = ngx_filename_cmp (loc_name (lq_loc a)) (loc_name (lq_loc b))
     (min (length (loc_name (lq_loc a))) (length (loc_name (lq_loc b))) + 1)"
  have rc: "sgn rc = lex3 (fkey (loc_name (lq_loc a))) (fkey (loc_name (lq_loc b)))"
    unfolding rc_def by (rule filename_cmp_names [OF assms])
  then have rc0: "rc = 0 \<longleftrightarrow> fkey (loc_name (lq_loc a)) = fkey (loc_name (lq_loc b))"
    using lex3_eq0 by (metis sgn_0_0)
  have static: "(if rc = 0 \<and> \<not> loc_exact_match (lq_loc a) \<and> loc_exact_match (lq_loc b) then 1 else rc) \<le> 0 \<longleftrightarrow>
      (if fkey (loc_name (lq_loc a)) = fkey (loc_name (lq_loc b)) then sgn (?s - ?t)
       else lex3 (fkey (loc_name (lq_loc a))) (fkey (loc_name (lq_loc b)))) \<le> 0"
    using rc rc0 le [of rc] by auto
  show ?thesis
    unfolding ngx_http_cmp_locations_def lq_key_def Let_def rc_def [symmetric]
    using static f st le [of "ngx_strcmp (loc_name (lq_loc a)) (loc_name (lq_loc b))"] by (auto simp: sgn_if)
qed

definition plain_name :: "'c lq \<Rightarrow> bool" where
  "plain_name q \<longleftrightarrow> 0 \<notin> set (loc_name (lq_loc q))"

lemma lex3_total: "lex3 xs ys \<le> 0 \<or> lex3 ys xs \<le> 0"
  using lex3_antisym [of xs ys] by linarith

lemma cmp_locations_total: "total_cmp ngx_http_cmp_locations {q. plain_name q}"
  unfolding total_cmp_def plain_name_def mem_Collect_eq
  by (intro ballI conjI impI) (use lex3_total in \<open>auto simp: cmp_locations_key elim: lex3_trans\<close>)

lemma set_insertion_sort: "set (insertion_sort cmp qs) = set qs"
  by (metis mset_insertion_sort set_mset_mset)

lemma sorted_locations:
  assumes "\<forall>q \<in> set qs. plain_name q"
  shows "sorted_wrt (\<lambda>a b. lex3 (lq_key a) (lq_key b) \<le> 0) (insertion_sort ngx_http_cmp_locations qs)"
proof -
  have "sorted_wrt (\<lambda>a b. ngx_http_cmp_locations a b \<le> 0) (insertion_sort ngx_http_cmp_locations qs)"
    using insertion_sort_sorted [OF cmp_locations_total, of qs] assms by auto
  then show ?thesis
    by (rule sorted_wrt_mono_rel [rotated])
      (use assms in \<open>auto simp: plain_name_def set_insertion_sort cmp_locations_key\<close>)
qed

text \<open>A configured location is of one kind.\<close>

definition one_kind :: "'c loc \<Rightarrow> bool" where
  "one_kind l \<longleftrightarrow> length (filter id [loc_exact_match l, loc_regex l, loc_named l, loc_noname l]) \<le> 1"

definition lq_rank :: "'c lq \<Rightarrow> int" where
  "lq_rank q = (let l = lq_loc q in if loc_noname l then 3 else if loc_named l then 2 else if loc_regex l then 1 else 0)"

lemma lq_rank_key: "lex3 (lq_key a) (lq_key b) \<le> 0 \<Longrightarrow> lq_rank a \<le> lq_rank b"
  by (auto simp: lq_key_def lq_rank_def Let_def sgn_if split: if_splits)

lemma sorted_while:
  assumes "sorted_wrt (\<lambda>a b. r a \<le> r b) xs" "\<And>x. x \<in> set xs \<Longrightarrow> A x \<Longrightarrow> P x \<longleftrightarrow> r x < (k :: int)"
  shows "takeWhile P (filter A xs) = filter (\<lambda>x. A x \<and> r x < k) xs \<and>
    dropWhile P (filter A xs) = filter (\<lambda>x. A x \<and> \<not> r x < k) xs"
  using assms
proof (induction xs)
  case (Cons x xs)
  have "filter (\<lambda>x. A x \<and> r x < k) xs = []" "filter (\<lambda>x. A x \<and> \<not> r x < k) xs = filter A xs" if "\<not> r x < k"
    using that Cons.prems(1) by (force simp: filter_empty_conv intro: filter_cong)+
  then show ?case using Cons by auto
qed simp

text \<open>The three parts of the sorted queue.\<close>

lemma init_locations_parts:
  assumes "\<forall>q \<in> set qs. plain_name q \<and> one_kind (lq_loc q)"
  shows "ngx_http_init_locations qs =
    (filter lq_static (insertion_sort ngx_http_cmp_locations qs),
     filter (\<lambda>q. loc_regex (lq_loc q)) qs,
     filter (\<lambda>q. loc_named (lq_loc q)) (insertion_sort ngx_http_cmp_locations qs))"
proof -
  let ?s = "insertion_sort ngx_http_cmp_locations qs"
  have ok: "one_kind (lq_loc q)" if "q \<in> set ?s" for q using that assms by (simp add: set_insertion_sort)
  have srt: "sorted_wrt (\<lambda>a b. lq_rank a \<le> lq_rank b) ?s"
    using sorted_locations [of qs] assms sorted_wrt_mono_rel [of ?s "\<lambda>a b. lex3 (lq_key a) (lq_key b) \<le> 0" "\<lambda>a b. lq_rank a \<le> lq_rank b"]
      lq_rank_key by blast
  have rank: "(loc_regex (lq_loc q) \<or> loc_named (lq_loc q) \<or> \<not> loc_noname (lq_loc q)) = (lq_rank q < 3)"
    "(loc_regex (lq_loc q) \<or> \<not> loc_named (lq_loc q)) = (lq_rank q \<noteq> 2)"
    "loc_regex (lq_loc q) = (lq_rank q = 1)" "lq_static q = (lq_rank q = 0)" "loc_named (lq_loc q) = (lq_rank q = 2)" "0 \<le> lq_rank q"
    if "q \<in> set ?s" for q
    using ok [OF that] by (auto simp: one_kind_def lq_rank_def lq_static_def Let_def split: if_splits)
  have a: "takeWhile (\<lambda>q. loc_regex (lq_loc q) \<or> loc_named (lq_loc q) \<or> \<not> loc_noname (lq_loc q)) ?s = filter (\<lambda>q. lq_rank q < 3) ?s"
    using sorted_while [OF srt, of "\<lambda>_. True" _ 3] rank(1) by simp
  have "(loc_regex (lq_loc q) \<or> \<not> loc_named (lq_loc q)) = (lq_rank q < 2)" if "q \<in> set ?s" "lq_rank q < 3" for q
    unfolding rank(2) [OF that(1)] using that(2) by linarith
  then have "takeWhile (\<lambda>q. loc_regex (lq_loc q) \<or> \<not> loc_named (lq_loc q)) (filter (\<lambda>q. lq_rank q < 3) ?s) =
        filter (\<lambda>q. lq_rank q < 3 \<and> lq_rank q < 2) ?s"
    "dropWhile (\<lambda>q. loc_regex (lq_loc q) \<or> \<not> loc_named (lq_loc q)) (filter (\<lambda>q. lq_rank q < 3) ?s) =
        filter (\<lambda>q. lq_rank q < 3 \<and> \<not> lq_rank q < 2) ?s"
    using sorted_while [OF srt, of "\<lambda>q. lq_rank q < 3" "\<lambda>q. loc_regex (lq_loc q) \<or> \<not> loc_named (lq_loc q)" 2] by blast+
  moreover have "filter (\<lambda>q. lq_rank q < 3 \<and> lq_rank q < 2) ?s = filter (\<lambda>q. lq_rank q < 2) ?s"
    "filter (\<lambda>q. lq_rank q < 3 \<and> \<not> lq_rank q < 2) ?s = filter (\<lambda>q. loc_named (lq_loc q)) ?s"
    using rank(5) by (auto intro!: filter_cong)
  ultimately have b: "takeWhile (\<lambda>q. loc_regex (lq_loc q) \<or> \<not> loc_named (lq_loc q)) (filter (\<lambda>q. lq_rank q < 3) ?s) =
        filter (\<lambda>q. lq_rank q < 2) ?s"
    "dropWhile (\<lambda>q. loc_regex (lq_loc q) \<or> \<not> loc_named (lq_loc q)) (filter (\<lambda>q. lq_rank q < 3) ?s) =
        filter (\<lambda>q. loc_named (lq_loc q)) ?s" by simp_all
  have "(\<not> loc_regex (lq_loc q)) = (lq_rank q < 1)" if "q \<in> set ?s" "lq_rank q < 2" for q
    using rank(3,6) [OF that(1)] that(2) by linarith
  then have "takeWhile (\<lambda>q. \<not> loc_regex (lq_loc q)) (filter (\<lambda>q. lq_rank q < 2) ?s) = filter (\<lambda>q. lq_rank q < 2 \<and> lq_rank q < 1) ?s"
    "dropWhile (\<lambda>q. \<not> loc_regex (lq_loc q)) (filter (\<lambda>q. lq_rank q < 2) ?s) = filter (\<lambda>q. lq_rank q < 2 \<and> \<not> lq_rank q < 1) ?s"
    using sorted_while [OF srt, of "\<lambda>q. lq_rank q < 2" "\<lambda>q. \<not> loc_regex (lq_loc q)" 1] by blast+
  moreover have "filter (\<lambda>q. lq_rank q < 2 \<and> lq_rank q < 1) ?s = filter lq_static ?s"
    "filter (\<lambda>q. lq_rank q < 2 \<and> \<not> lq_rank q < 1) ?s = filter (\<lambda>q. loc_regex (lq_loc q)) ?s"
    using rank(3,4,6) by (auto intro!: filter_cong) (smt (verit, best))+
  ultimately have c: "takeWhile (\<lambda>q. \<not> loc_regex (lq_loc q)) (filter (\<lambda>q. lq_rank q < 2) ?s) = filter lq_static ?s"
    "dropWhile (\<lambda>q. \<not> loc_regex (lq_loc q)) (filter (\<lambda>q. lq_rank q < 2) ?s) = filter (\<lambda>q. loc_regex (lq_loc q)) ?s" by simp_all
  have regex: "filter (\<lambda>q. loc_regex (lq_loc q)) ?s = filter (\<lambda>q. loc_regex (lq_loc q)) qs"
  proof (cases "filter (\<lambda>q. loc_regex (lq_loc q)) qs")
    case Nil
    then show ?thesis by (simp add: filter_empty_conv set_insertion_sort)
  next
    case (Cons k ks)
    then have "k \<in> set (filter (\<lambda>q. loc_regex (lq_loc q)) qs)" by simp
    then have k: "k \<in> set qs" "loc_regex (lq_loc k)" by auto
    have "cmp_equal ngx_http_cmp_locations k q = loc_regex (lq_loc q)" if "q \<in> set qs" for q
    proof -
      have "one_kind (lq_loc q)" "one_kind (lq_loc k)" "plain_name k" "plain_name q" using that k(1) assms by auto
      then show ?thesis using k(2)
        by (auto simp: cmp_equal_def cmp_locations_key plain_name_def lq_key_def one_kind_def Let_def sgn_if split: if_splits)
    qed
    then have e: "filter (cmp_equal ngx_http_cmp_locations k) xs = filter (\<lambda>q. loc_regex (lq_loc q)) xs" if "set xs \<subseteq> set qs" for xs
      using that by (auto intro!: filter_cong)
    have "filter (cmp_equal ngx_http_cmp_locations k) ?s = filter (cmp_equal ngx_http_cmp_locations k) qs"
      by (rule insertion_sort_stable [OF cmp_locations_total]) (use assms k(1) in auto)
    then show ?thesis using e [of ?s] e [of qs] by (simp add: set_insertion_sort)
  qed
  show ?thesis unfolding ngx_http_init_locations_def Let_def de_Morgan_conj not_not a b c regex by (rule refl)
qed


subsection \<open>Joining\<close>

text \<open>The locations of an entry; every one has the entry's name and is on its side.\<close>

definition lq_items :: "'c lq \<Rightarrow> 'c loc list" where
  "lq_items q = (case lq_exact q of Some l \<Rightarrow> [l] | None \<Rightarrow> []) @ (case lq_inclusive q of Some l \<Rightarrow> [l] | None \<Rightarrow> [])"

definition lq_sides :: "'c lq \<Rightarrow> bool" where
  "lq_sides q \<longleftrightarrow> (\<forall>l. lq_exact q = Some l \<longrightarrow> loc_exact_match l \<and> loc_name l = lq_name q) \<and>
     (\<forall>l. lq_inclusive q = Some l \<longrightarrow> \<not> loc_exact_match l \<and> loc_name l = lq_name q)"

definition loc_id :: "'c loc \<Rightarrow> bytes \<times> bool" where
  "loc_id l = (loc_name l, loc_exact_match l)"

definition join_le :: "'c lq \<Rightarrow> 'c lq \<Rightarrow> bool" where
  "join_le x y \<longleftrightarrow> name_less (lq_name x) (lq_name y) \<or> lq_name x = lq_name y \<and> (lq_exact y \<noteq> None \<longrightarrow> lq_exact x \<noteq> None)"

definition lq_single :: "'c lq \<Rightarrow> bool" where
  "lq_single q \<longleftrightarrow> (lq_exact q = None) \<noteq> (lq_inclusive q = None)"

lemma join_same:
  assumes "0 \<notin> set a" "0 \<notin> set b"
  shows "length a = length b \<and> ngx_filename_cmp a b (length b) = 0 \<longleftrightarrow> a = b"
proof
  assume h: "length a = length b \<and> ngx_filename_cmp a b (length b) = 0"
  then have "prefix a b \<or> prefix b a" using filename_cmp_cut(3) [OF assms, of "length b"] by simp
  then show "a = b" using h by (auto simp: prefix_def)
next
  assume "a = b"
  then show "length a = length b \<and> ngx_filename_cmp a b (length b) = 0"
    using filename_cmp_cut(3) [OF assms, of "length b"] by simp
qed

lemma join_merge:
  assumes "lq_leaf q" "lq_leaf x" "lq_sides q" "lq_sides x" "lq_name q = lq_name x" "lq_inclusive q = None" "lq_exact x = None"
  shows "lq_leaf (Lq (lq_name q) (lq_exact q) (lq_inclusive x) (lq_list q)) \<and>
    lq_sides (Lq (lq_name q) (lq_exact q) (lq_inclusive x) (lq_list q)) \<and>
    lq_items (Lq (lq_name q) (lq_exact q) (lq_inclusive x) (lq_list q)) = lq_items q @ lq_items x"
  using assms by (cases q; cases x) (auto simp: lq_leaf_def lq_sides_def lq_items_def lq_redirect_def split: option.splits)

definition joined :: "'c lq list \<Rightarrow> 'c lq list option \<Rightarrow> bool" where
  "joined qs out \<longleftrightarrow> (case out of None \<Rightarrow> \<not> distinct (map loc_id (concat (map lq_items qs)))
     | Some rs \<Rightarrow> (\<forall>r \<in> set rs. lq_leaf r \<and> lq_sides r) \<and> sorted_wrt lq_less rs \<and>
         concat (map lq_items rs) = concat (map lq_items qs) \<and> set (map lq_name rs) \<subseteq> set (map lq_name qs))"

lemma joined_mono:
  assumes "joined ps out" "concat (map lq_items ps) = concat (map lq_items qs)" "set (map lq_name ps) \<subseteq> set (map lq_name qs)"
  shows "joined qs out"
proof (cases out)
  case None
  then show ?thesis using assms(1,2) by (simp add: joined_def)
next
  case (Some rs)
  then have "set (map lq_name rs) \<subseteq> set (map lq_name ps)" using assms(1) unfolding joined_def by simp
  then have "set (map lq_name rs) \<subseteq> set (map lq_name qs)" using assms(3) by (rule subset_trans)
  then show ?thesis using assms(1,2) Some by (simp add: joined_def)
qed

lemma items_clash:
  assumes "lq_sides q" "lq_sides x" "lq_name q = lq_name x"
    "lq_exact q \<noteq> None \<and> lq_exact x \<noteq> None \<or> lq_inclusive q \<noteq> None \<and> lq_inclusive x \<noteq> None"
  shows "\<not> distinct (map loc_id (lq_items q @ lq_items x))"
  using assms
  by (cases "lq_exact q"; cases "lq_exact x"; cases "lq_inclusive q"; cases "lq_inclusive x")
    (simp_all add: lq_items_def lq_sides_def loc_id_def)

lemma distinct_part: "zs = xs @ ys \<Longrightarrow> \<not> distinct xs \<or> \<not> distinct ys \<Longrightarrow> \<not> distinct zs"
  by auto

lemma join_exact:
  assumes "\<forall>q \<in> set qs. lq_leaf q \<and> lq_sides q" "\<forall>q \<in> set (tl qs). lq_single q" "sorted_wrt join_le qs"
  shows "joined qs (ngx_http_join_exact_locations qs)"
  using assms
proof (induction qs rule: ngx_http_join_exact_locations.induct)
  case (1 q x qs)
  have q: "lq_leaf q" "lq_sides q" "lq_leaf x" "lq_sides x" "lq_single x" "join_le q x" using "1.prems" by auto
  have same: "length (lq_name q) = length (lq_name x) \<and> ngx_filename_cmp (lq_name q) (lq_name x) (length (lq_name x)) = 0
      \<longleftrightarrow> lq_name q = lq_name x"
    using join_same q(1,3) by (simp add: lq_leaf_def lq_wf_nul)
  let ?dup = "lq_exact q \<noteq> None \<and> lq_exact x \<noteq> None \<or> lq_inclusive q \<noteq> None \<and> lq_inclusive x \<noteq> None"
  consider (dup) "lq_name q = lq_name x" ?dup | (merge) "lq_name q = lq_name x" "\<not> ?dup" | (other) "lq_name q \<noteq> lq_name x" by blast
  then show ?case
  proof cases
    case dup
    have "\<not> distinct (map loc_id (lq_items q @ lq_items x))"
      by (rule items_clash [OF q(2,4) dup])
    moreover have ids: "map loc_id (concat (map lq_items (q # x # qs))) =
        map loc_id (lq_items q @ lq_items x) @ map loc_id (concat (map lq_items qs))" by simp
    ultimately have "\<not> distinct (map loc_id (concat (map lq_items (q # x # qs))))"
      using distinct_part [OF ids] by blast
    moreover have "ngx_http_join_exact_locations (q # x # qs) = None"
      unfolding ngx_http_join_exact_locations.simps same if_P [OF dup(1)] if_P [OF dup(2)] by (rule refl)
    ultimately show ?thesis by (simp add: joined_def del: list.map concat.simps distinct_append)
  next
    case merge
    have "lq_exact q \<noteq> None \<or> lq_inclusive q \<noteq> None" using lq_leaf_some [OF q(1)] .
    then have xe: "lq_exact x = None" "lq_inclusive q = None"
      using merge q(5,6) name_less_irrefl by (auto simp: join_le_def lq_single_def)
    let ?m = "Lq (lq_name q) (lq_exact q) (lq_inclusive x) (lq_list q)"
    note m = join_merge [OF q(1,3,2,4) merge(1) xe(2,1)]
    have "join_le ?m y" if "join_le q y" for y using that by (simp add: join_le_def)
    then have "sorted_wrt join_le (?m # qs)" using "1.prems"(3) by simp
    moreover have leaf: "\<forall>q \<in> set (?m # qs). lq_leaf q \<and> lq_sides q" "\<forall>q \<in> set (tl (?m # qs)). lq_single q"
      using "1.prems"(1,2) m by simp_all
    ultimately have IH: "joined (?m # qs) (ngx_http_join_exact_locations (?m # qs))"
      using "1.IH"(1) [unfolded same, OF merge leaf] by simp
    have items: "concat (map lq_items (?m # qs)) = concat (map lq_items (q # x # qs))"
      using m by simp
    have out: "ngx_http_join_exact_locations (q # x # qs) = ngx_http_join_exact_locations (?m # qs)"
      unfolding ngx_http_join_exact_locations.simps same if_P [OF merge(1)] if_not_P [OF merge(2)] by (rule refl)
    have names: "set (map lq_name (?m # qs)) \<subseteq> set (map lq_name (q # x # qs))" by auto
    show ?thesis unfolding out by (rule joined_mono [OF IH items names])
  next
    case other
    have lt: "name_less (lq_name q) (lq_name y)" if "y \<in> set (x # qs)" for y
      using that other q(6) "1.prems"(3) name_less_trans [of "lq_name q" "lq_name x" "lq_name y"] by (auto simp: join_le_def)
    have p2: "\<forall>q \<in> set (x # qs). lq_leaf q \<and> lq_sides q" "\<forall>q \<in> set (tl (x # qs)). lq_single q" "sorted_wrt join_le (x # qs)"
      using "1.prems" by simp_all
    have IH: "joined (x # qs) (ngx_http_join_exact_locations (x # qs))" using "1.IH"(2) [unfolded same, OF other p2] .
    have out: "ngx_http_join_exact_locations (q # x # qs) = map_option ((#) q) (ngx_http_join_exact_locations (x # qs))"
      unfolding ngx_http_join_exact_locations.simps same if_not_P [OF other] by (rule refl)
    show ?thesis
    proof (cases "ngx_http_join_exact_locations (x # qs)")
      case None
      then have "\<not> distinct (map loc_id (concat (map lq_items (x # qs))))" using IH by (simp add: joined_def)
      moreover have ids: "map loc_id (concat (map lq_items (q # x # qs))) =
          map loc_id (lq_items q) @ map loc_id (concat (map lq_items (x # qs)))" by simp
      ultimately have "\<not> distinct (map loc_id (concat (map lq_items (q # x # qs))))"
        using distinct_part [OF ids] by blast
      then show ?thesis unfolding out None by (simp only: joined_def option.case option.map) blast
    next
      case (Some rs)
      have rs: "\<forall>r \<in> set rs. lq_leaf r \<and> lq_sides r" "sorted_wrt lq_less rs"
        "concat (map lq_items rs) = concat (map lq_items (x # qs))" "set (map lq_name rs) \<subseteq> set (map lq_name (x # qs))"
        using IH unfolding Some joined_def option.case by blast+
      have "lq_less q r" if r: "r \<in> set rs" for r
      proof -
        have "lq_name r \<in> lq_name ` set (x # qs)" using r rs(4) unfolding set_map by blast
        then obtain y where "y \<in> set (x # qs)" "lq_name r = lq_name y" by blast
        then show ?thesis using lt by (simp add: lq_less_def)
      qed
      then have "sorted_wrt lq_less (q # rs)" using rs(2) by simp
      moreover have "\<forall>r \<in> set (q # rs). lq_leaf r \<and> lq_sides r" using rs(1) q by simp
      moreover have "concat (map lq_items (q # rs)) = concat (map lq_items (q # x # qs))" using rs(3) by simp
      moreover have "set (map lq_name (q # rs)) \<subseteq> set (map lq_name (q # x # qs))" using rs(4) by auto
      ultimately show ?thesis unfolding out Some joined_def option.map option.case by blast
    qed
  qed
qed (auto simp: joined_def)

text \<open>The locations of entries with different names are different.\<close>

lemma items_distinct:
  assumes "\<forall>r \<in> set rs. lq_sides r" "sorted_wrt lq_less rs"
  shows "distinct (map loc_id (concat (map lq_items rs)))"
  using assms
proof (induction rs)
  case (Cons r rs)
  have nm: "loc_name l = lq_name x" if "lq_sides x" "l \<in> set (lq_items x)" for x :: "'a lq" and l
    using that by (auto simp: lq_sides_def lq_items_def split: option.splits)
  have "distinct (map loc_id (lq_items r))"
    using Cons.prems(1) by (auto simp: lq_items_def lq_sides_def loc_id_def split: option.splits)
  moreover have "loc_id ` set (lq_items r) \<inter> loc_id ` set (concat (map lq_items rs)) = {}"
  proof (rule ccontr)
    assume "\<not> ?thesis"
    then obtain l k x where lk: "l \<in> set (lq_items r)" "x \<in> set rs" "k \<in> set (lq_items x)" "loc_id l = loc_id k" by fastforce
    then have "lq_name r = lq_name x" using Cons.prems(1) nm by (auto simp: loc_id_def)
    then show False using Cons.prems(2) lk(2) name_less_irrefl by (auto simp: lq_less_def)
  qed
  ultimately show ?case using Cons.IH Cons.prems by (simp only: list.map concat.simps map_append distinct_append set_map) simp
qed simp


subsection \<open>The location the configuration asks for\<close>

text \<open>The reference: an exact location of the name of the URI; an inclusive one; a location with the name and a
  slash that asks for a redirect; the inclusive location with the longest name the URI starts with, found by
  trying one prefix after the other.\<close>

definition exact_at :: "'c loc list \<Rightarrow> bytes \<Rightarrow> 'c loc option" where
  "exact_at cs n = List.find (\<lambda>l. loc_id l = (n, True)) cs"

definition inclusive_at :: "'c loc list \<Rightarrow> bytes \<Rightarrow> 'c loc option" where
  "inclusive_at cs n = List.find (\<lambda>l. loc_id l = (n, False)) cs"

definition redirect_at :: "'c loc list \<Rightarrow> bytes \<Rightarrow> bool" where
  "redirect_at cs n \<longleftrightarrow> (case exact_at cs n of Some l \<Rightarrow> loc_auto_redirect l | None \<Rightarrow> False) \<or>
     (case inclusive_at cs n of Some l \<Rightarrow> loc_auto_redirect l | None \<Rightarrow> False)"

fun longest_inclusive :: "'c loc list \<Rightarrow> bytes \<Rightarrow> nat \<Rightarrow> 'c loc option" where
  "longest_inclusive cs uri 0 = inclusive_at cs []"
| "longest_inclusive cs uri (Suc n) =
     (case inclusive_at cs (take (Suc n) uri) of Some l \<Rightarrow> Some l | None \<Rightarrow> longest_inclusive cs uri n)"

definition static_choice :: "'c loc list \<Rightarrow> bytes \<Rightarrow> ngx_rc \<Rightarrow> 'c \<Rightarrow> ngx_rc \<times> 'c" where
  "static_choice cs uri rv c =
     (case exact_at cs uri of Some l \<Rightarrow> (NGX_OK, loc_conf l)
      | None \<Rightarrow> (case inclusive_at cs uri of Some l \<Rightarrow> (NGX_AGAIN, loc_conf l)
      | None \<Rightarrow>
          (let dir = uri @ [ch CHR ''/''] in
           if redirect_at cs dir
           then (NGX_DONE, loc_conf (case exact_at cs dir of Some l \<Rightarrow> l | None \<Rightarrow> the (inclusive_at cs dir)))
           else (case longest_inclusive cs uri (length uri) of Some l \<Rightarrow> (NGX_AGAIN, loc_conf l) | None \<Rightarrow> (rv, c)))))"

definition describes :: "'c loc list \<Rightarrow> 'c ent list \<Rightarrow> bool" where
  "describes cs es \<longleftrightarrow> sorted_wrt (\<lambda>a b. name_less (en_name a) (en_name b)) es \<and>
     (\<forall>e \<in> set es. en_exact e = exact_at cs (en_name e) \<and> en_inclusive e = inclusive_at cs (en_name e)) \<and>
     (\<forall>n. n \<in> en_name ` set es \<longleftrightarrow> exact_at cs n \<noteq> None \<or> inclusive_at cs n \<noteq> None)"

lemma filter_sorted_name:
  "sorted_wrt (\<lambda>a b. name_less (en_name a) (en_name b)) es \<Longrightarrow> e \<in> set es \<Longrightarrow> filter (\<lambda>x. en_name x = en_name e) es = [e]"
proof (induction es)
  case (Cons x es)
  show ?case
  proof (cases "e = x")
    case True
    then have "filter (\<lambda>y. en_name y = en_name e) es = []" using Cons.prems(1) name_less_irrefl by (fastforce simp: filter_empty_conv)
    then show ?thesis using True by simp
  next
    case False
    then have "en_name x \<noteq> en_name e" using Cons.prems name_less_irrefl by fastforce
    then show ?thesis using Cons False by simp
  qed
qed simp

lemma filter_described:
  assumes "describes cs es"
  shows "filter (\<lambda>e. en_name e = n) es =
    (if exact_at cs n = None \<and> inclusive_at cs n = None then [] else [Ent n (exact_at cs n) (inclusive_at cs n)])"
proof (cases "exact_at cs n = None \<and> inclusive_at cs n = None")
  case True
  then have "n \<notin> en_name ` set es" using assms by (simp add: describes_def)
  then show ?thesis using True by (auto simp: filter_empty_conv)
next
  case False
  then have "n \<in> en_name ` set es" using assms by (simp add: describes_def)
  then obtain e where e: "e \<in> set es" "en_name e = n" by blast
  then have "e = Ent n (exact_at cs n) (inclusive_at cs n)" using assms unfolding describes_def by (metis ent.collapse)
  moreover have "filter (\<lambda>x. en_name x = en_name e) es = [e]"
    by (rule filter_sorted_name [OF _ e(1)]) (use assms in \<open>simp add: describes_def\<close>)
  ultimately show ?thesis using False e(2) by auto
qed

lemma longest_inclusive_Some:
  "k \<le> n \<Longrightarrow> inclusive_at cs (take k uri) = Some l \<Longrightarrow> \<forall>j. k < j \<and> j \<le> n \<longrightarrow> inclusive_at cs (take j uri) = None \<Longrightarrow>
   longest_inclusive cs uri n = Some l"
proof (induction n)
  case (Suc n)
  then show ?case by (cases "k = Suc n") (auto simp: le_Suc_eq)
qed simp

lemma longest_inclusive_None:
  "\<forall>j \<le> n. inclusive_at cs (take j uri) = None \<Longrightarrow> longest_inclusive cs uri n = None"
  by (induction n) auto

lemma longest_described:
  assumes "describes cs es"
  shows "longest_inclusive cs uri (length uri) =
    (case rev (filter (\<lambda>e. en_inclusive e \<noteq> None \<and> prefix (en_name e) uri) es) of e # _ \<Rightarrow> en_inclusive e | [] \<Rightarrow> None)"
proof (cases "filter (\<lambda>e. en_inclusive e \<noteq> None \<and> prefix (en_name e) uri) es" rule: rev_cases)
  case Nil
  have "inclusive_at cs (take j uri) = None" for j
  proof (rule ccontr)
    assume n: "inclusive_at cs (take j uri) \<noteq> None"
    then have "take j uri \<in> en_name ` set es" using assms by (simp add: describes_def)
    then obtain e where "e \<in> set es" "en_name e = take j uri" by force
    then have "e \<in> set (filter (\<lambda>e. en_inclusive e \<noteq> None \<and> prefix (en_name e) uri) es)"
      using n assms by (auto simp: describes_def take_is_prefix)
    then show False unfolding Nil by simp
  qed
  then show ?thesis using Nil by (simp add: longest_inclusive_None)
next
  case (snoc fs e)
  let ?F = "filter (\<lambda>e. en_inclusive e \<noteq> None \<and> prefix (en_name e) uri) es"
  have "e \<in> set ?F" unfolding snoc by simp
  then have e: "e \<in> set es" "en_inclusive e \<noteq> None" "prefix (en_name e) uri" by auto
  have take_len: "take (length n) uri = n" if "prefix n uri" for n using that by (auto simp: prefix_def)
  obtain l where l: "en_inclusive e = Some l" using e(2) by auto
  have none: "inclusive_at cs (take j uri) = None" if j: "length (en_name e) < j" "j \<le> length uri" for j
  proof (rule ccontr)
    assume n: "inclusive_at cs (take j uri) \<noteq> None"
    then have "take j uri \<in> en_name ` set es" using assms by (simp add: describes_def)
    then obtain f where f: "f \<in> set es" "en_name f = take j uri" by force
    then have "f \<in> set (fs @ [e])"
      using n assms unfolding snoc [symmetric] by (auto simp: describes_def take_is_prefix)
    moreover have "f \<noteq> e" using f(2) j by auto
    ultimately have "f \<in> set fs" by simp
    moreover have "sorted_wrt (\<lambda>a b. name_less (en_name a) (en_name b)) (fs @ [e])"
      using assms unfolding snoc [symmetric] by (auto simp: describes_def sorted_wrt_filter)
    ultimately have "name_less (en_name f) (en_name e)" by (simp add: sorted_wrt_append)
    moreover have "strict_prefix (en_name e) (en_name f)"
      using e(3) f(2) j take_len [OF e(3)] by (metis length_take less_irrefl min.absorb2 prefix_length_prefix strict_prefixI take_is_prefix less_imp_le)
    ultimately show False using prefix_less name_less_trans name_less_irrefl by blast
  qed
  have "inclusive_at cs (take (length (en_name e)) uri) = Some l"
    using take_len [OF e(3)] e(1) l assms by (auto simp: describes_def)
  then have "longest_inclusive cs uri (length uri) = Some l"
    using longest_inclusive_Some [of "length (en_name e)" "length uri" cs uri l] none prefix_length_le [OF e(3)] by blast
  then show ?thesis using snoc l by simp
qed

theorem static_spec_choice:
  assumes "describes cs es"
  shows "static_spec es uri rv c = static_choice cs uri rv c"
proof -
  let ?dir = "uri @ [ch CHR ''/'']"
  have two: "filter (\<lambda>e. en_name e = ?dir \<and> en_redirect e) es =
      (if redirect_at cs ?dir then [Ent ?dir (exact_at cs ?dir) (inclusive_at cs ?dir)] else [])"
  proof -
    have "filter (\<lambda>e. en_name e = ?dir \<and> en_redirect e) es = filter en_redirect (filter (\<lambda>e. en_name e = ?dir) es)"
      by (simp add: conj_commute)
    then show ?thesis unfolding filter_described [OF assms]
      by (auto simp: redirect_at_def en_redirect_def split: option.splits)
  qed
  note un = static_spec_def static_choice_def two filter_described [OF assms] longest_described [OF assms] Let_def
  show ?thesis
  proof (cases "rev (filter (\<lambda>e. en_inclusive e \<noteq> None \<and> prefix (en_name e) uri) es)")
    case Nil
    show ?thesis unfolding un Nil by (auto simp: en_loc_def split: option.split)
  next
    case (Cons x xs)
    have "x \<in> set (rev (filter (\<lambda>e. en_inclusive e \<noteq> None \<and> prefix (en_name e) uri) es))" unfolding Cons by simp
    then obtain i where "en_inclusive x = Some i" by auto
    then show ?thesis unfolding un Cons by (auto simp: en_loc_def split: option.split)
  qed
qed


subsection \<open>From the configuration to the location\<close>

definition loc_static :: "'c loc \<Rightarrow> bool" where
  "loc_static l \<longleftrightarrow> \<not> loc_regex l \<and> \<not> loc_named l \<and> \<not> loc_noname l"

text \<open>What the configuration gives: names without NUL of less than 65536 bytes, a redirect only for a name that
  ends with a slash.\<close>

definition loc_ok :: "'c loc \<Rightarrow> bool" where
  "loc_ok l \<longleftrightarrow> 0 \<notin> set (loc_name l) \<and> length (loc_name l) < 65536 \<and> one_kind l \<and>
     (loc_auto_redirect l \<longrightarrow> loc_name l \<noteq> [] \<and> last (loc_name l) = ch CHR ''/'')"

definition lq_of :: "'c loc \<Rightarrow> 'c lq" where
  "lq_of l = (let l = ngx_http_escape_location_name l in
     if loc_exact_match l \<or> loc_regex l \<or> loc_named l \<or> loc_noname l
     then Lq (loc_name l) (Some l) None [] else Lq (loc_name l) None (Some l) [])"

lemma escaped_simps [simp]:
  "loc_name (ngx_http_escape_location_name l) = loc_name l" "loc_conf (ngx_http_escape_location_name l) = loc_conf l"
  "loc_id (ngx_http_escape_location_name l) = loc_id l" "loc_static (ngx_http_escape_location_name l) = loc_static l"
  "loc_auto_redirect (ngx_http_escape_location_name l) = loc_auto_redirect l"
  "loc_ok (ngx_http_escape_location_name l) = loc_ok l" "one_kind (ngx_http_escape_location_name l) = one_kind l"
  "loc_exact_match (ngx_http_escape_location_name l) = loc_exact_match l"
  by (simp_all add: ngx_http_escape_location_name_def Let_def loc_id_def loc_static_def loc_ok_def one_kind_def)

lemma add_locations: "fold (\<lambda>l qs. ngx_http_add_location qs l) cs qs = qs @ map lq_of cs"
  by (induction cs arbitrary: qs) (simp_all add: ngx_http_add_location_def lq_of_def Let_def)

lemma lq_of_loc [simp]: "lq_loc (lq_of l) = ngx_http_escape_location_name l" "lq_static (lq_of l) = loc_static l"
  by (simp_all add: lq_of_def lq_loc_def lq_static_def loc_static_def Let_def ngx_http_escape_location_name_def)

lemma lq_of_static:
  assumes "loc_ok l" "loc_static l"
  shows "lq_leaf (lq_of l)" "lq_sides (lq_of l)" "lq_single (lq_of l)" "lq_items (lq_of l) = [ngx_http_escape_location_name l]"
  using assms by (auto simp: lq_of_def Let_def lq_leaf_def lq_sides_def lq_single_def lq_items_def lq_redirect_def loc_ok_def
      loc_static_def ngx_http_escape_location_name_def)

lemma join_le_key:
  assumes "loc_ok a" "loc_static a" "loc_ok b" "loc_static b" "lex3 (lq_key (lq_of a)) (lq_key (lq_of b)) \<le> 0"
  shows "join_le (lq_of a) (lq_of b)"
proof -
  let ?s = "if loc_exact_match a then 0 else 1 :: int" and ?t = "if loc_exact_match b then 0 else 1 :: int"
  have st: "\<not> loc_noname (ngx_http_escape_location_name l)" "\<not> loc_named (ngx_http_escape_location_name l)"
    "\<not> loc_regex (ngx_http_escape_location_name l)" if "loc_static l" for l :: "'a loc"
    using that by (simp_all add: loc_static_def ngx_http_escape_location_name_def Let_def)
  have "lex3 (map (\<lambda>k. k + 2) (fkey (loc_name a)) @ [?s]) (map (\<lambda>k. k + 2) (fkey (loc_name b)) @ [?t]) \<le> 0"
    using assms(5) st [OF assms(2)] st [OF assms(4)] by (simp add: lq_key_def)
  then have k: "(if fkey (loc_name a) = fkey (loc_name b) then sgn (?s - ?t) else lex3 (fkey (loc_name a)) (fkey (loc_name b))) \<le> 0"
    by (subst (asm) lex3_flagged) (auto simp: fkey_def)
  have nm: "lq_name (lq_of l) = loc_name l" "(lq_exact (lq_of l) \<noteq> None) = loc_exact_match l" if "loc_static l" for l :: "'a loc"
    using st [OF that] by (auto simp: lq_of_def Let_def)
  show ?thesis
  proof (cases "loc_name a = loc_name b")
    case True
    then show ?thesis using k nm assms(2,4) by (auto simp: join_le_def split: if_splits)
  next
    case False
    then have "fkey (loc_name a) \<noteq> fkey (loc_name b)" using fkey_inj assms(1,3) by (auto simp: loc_ok_def)
    then have "name_less (loc_name a) (loc_name b)"
      using k lex3_eq0 [of "fkey (loc_name a)" "fkey (loc_name b)"] by (simp add: name_less_def)
    then show ?thesis using nm assms(2,4) by (simp add: join_le_def)
  qed
qed

lemma find_id:
  "distinct (map loc_id xs) \<Longrightarrow> List.find (\<lambda>l. loc_id l = k) xs = Some l \<longleftrightarrow> l \<in> set xs \<and> loc_id l = k"
  by (induction xs) (auto simp: image_iff)

lemma find_id_None: "List.find (\<lambda>l. loc_id l = k) xs = None \<longleftrightarrow> (\<forall>l \<in> set xs. loc_id l \<noteq> k)"
  by (auto simp: find_None_iff)

lemma rs_describe:
  assumes "\<forall>r \<in> set rs. lq_leaf r \<and> lq_sides r" "sorted_wrt lq_less rs" "distinct (map loc_id ls)"
    "set (concat (map lq_items rs)) = set ls"
  shows "describes ls (map lq_ent rs)"
proof -
  have loc: "l \<in> set ls \<and> loc_id l = (n, b) \<longleftrightarrow> (\<exists>r \<in> set rs. lq_name r = n \<and> (if b then lq_exact r else lq_inclusive r) = Some l)" for l n b
  proof -
    have "l \<in> set (lq_items r) \<and> loc_id l = (n, b) \<longleftrightarrow> lq_name r = n \<and> (if b then lq_exact r else lq_inclusive r) = Some l"
      if "r \<in> set rs" for r
      using that assms(1) by (cases b) (auto simp: lq_items_def lq_sides_def loc_id_def split: option.splits)
    moreover have "l \<in> set ls \<longleftrightarrow> (\<exists>r \<in> set rs. l \<in> set (lq_items r))" unfolding assms(4) [symmetric] by simp
    ultimately show ?thesis by blast
  qed
  have uniq: "x = r" if "x \<in> set rs" "r \<in> set rs" "lq_name x = lq_name r" for x r
    using assms(2) that name_less_irrefl by (induction rs) (auto simp: lq_less_def)
  have "(if b then lq_exact r else lq_inclusive r) = List.find (\<lambda>l. loc_id l = (lq_name r, b)) ls" if r: "r \<in> set rs" for r b
  proof (cases "if b then lq_exact r else lq_inclusive r")
    case None
    have "List.find (\<lambda>l. loc_id l = (lq_name r, b)) ls \<noteq> Some l" for l
      using find_id [OF assms(3), of "(lq_name r, b)" l] loc [of l "lq_name r" b] uniq [OF _ r] None by (metis option.distinct(1))
    then show ?thesis using None by (metis option.exhaust)
  next
    case (Some l)
    then show ?thesis using find_id [OF assms(3), of "(lq_name r, b)" l] loc [of l "lq_name r" b] r by metis
  qed
  from this [of _ True] this [of _ False]
  have sides: "lq_exact r = exact_at ls (lq_name r)" "lq_inclusive r = inclusive_at ls (lq_name r)" if "r \<in> set rs" for r
    using that by (simp_all add: exact_at_def inclusive_at_def)
  have names: "n \<in> lq_name ` set rs \<longleftrightarrow> exact_at ls n \<noteq> None \<or> inclusive_at ls n \<noteq> None" for n
  proof
    assume "n \<in> lq_name ` set rs"
    then obtain r where r: "r \<in> set rs" "n = lq_name r" by auto
    then have "lq_exact r \<noteq> None \<or> lq_inclusive r \<noteq> None" using assms(1) lq_leaf_some by blast
    then show "exact_at ls n \<noteq> None \<or> inclusive_at ls n \<noteq> None" using sides [OF r(1)] r(2) by simp
  next
    assume "exact_at ls n \<noteq> None \<or> inclusive_at ls n \<noteq> None"
    then obtain l b where "l \<in> set ls" "loc_id l = (n, b)"
      unfolding exact_at_def inclusive_at_def find_id_None by auto
    then show "n \<in> lq_name ` set rs" using loc [of l n b] by auto
  qed
  show ?thesis
    using assms(2) [unfolded lq_less_def] sides names by (auto simp: describes_def lq_ent_def sorted_wrt_map image_image)
qed

lemma lq_count_flat: "lq_count q = length (lq_flat q)"
  by (induction q rule: lq_flat.induct) (simp add: length_concat comp_def cong: map_cong)

lemma lqs_count_flat: "lqs_count qs = length (concat (map lq_flat qs))"
  by (induction qs) (simp_all add: lq_count_flat)

lemma static_sorted:
  assumes "\<forall>l \<in> set cs. loc_ok l"
  defines "S \<equiv> filter lq_static (insertion_sort ngx_http_cmp_locations (map lq_of cs))"
  shows "\<forall>q \<in> set S. lq_leaf q \<and> lq_sides q" "\<forall>q \<in> set S. lq_single q" "sorted_wrt join_le S"
    "mset (concat (map lq_items S)) = mset (map ngx_http_escape_location_name (filter loc_static cs))"
proof -
  have S: "\<exists>l. q = lq_of l \<and> loc_ok l \<and> loc_static l" if "q \<in> set S" for q
    using that assms(1) by (auto simp: S_def set_insertion_sort)
  show "\<forall>q \<in> set S. lq_leaf q \<and> lq_sides q" "\<forall>q \<in> set S. lq_single q" using S lq_of_static by blast+
  have "sorted_wrt (\<lambda>a b. lex3 (lq_key a) (lq_key b) \<le> 0) (insertion_sort ngx_http_cmp_locations (map lq_of cs))"
    by (rule sorted_locations) (use assms(1) in \<open>auto simp: plain_name_def loc_ok_def\<close>)
  then have "sorted_wrt (\<lambda>a b. lex3 (lq_key a) (lq_key b) \<le> 0) S" unfolding S_def by (rule sorted_wrt_filter)
  then show "sorted_wrt join_le S"
    by (rule sorted_wrt_mono_rel [rotated]) (metis S join_le_key)
  have "lq_items q = [lq_loc q]" if "q \<in> set S" for q using S [OF that] lq_of_static(4) by auto
  then have "concat (map lq_items S) = map lq_loc S" by (induction S) auto
  then have "mset (concat (map lq_items S)) = image_mset lq_loc (filter_mset lq_static (mset (map lq_of cs)))"
    by (simp add: S_def mset_insertion_sort)
  also have "\<dots> = mset (map ngx_http_escape_location_name (filter loc_static cs))"
    by (induction cs) auto
  finally show "mset (concat (map lq_items S)) = mset (map ngx_http_escape_location_name (filter loc_static cs))" .
qed

lemma static_tree_ok:
  assumes "\<forall>l \<in> set cs. loc_ok l" "distinct (map loc_id (filter loc_static cs))" "length (filter loc_static cs) \<le> avail"
  shows "\<exists>t. ngx_http_init_static_location_trees avail (filter lq_static (insertion_sort ngx_http_cmp_locations (map lq_of cs))) = Some t \<and>
    loc_wf t \<and> describes (map ngx_http_escape_location_name (filter loc_static cs)) (entries t)"
proof -
  define S where "S = filter lq_static (insertion_sort ngx_http_cmp_locations (map lq_of cs))"
  define ls where "ls = map ngx_http_escape_location_name (filter loc_static cs)"
  note S = static_sorted [OF assms(1), folded S_def ls_def]
  have ids: "map loc_id ls = map loc_id (filter loc_static cs)" by (simp add: ls_def)
  have ms: "mset (map loc_id (concat (map lq_items S))) = mset (map loc_id ls)" using S(4) by simp
  have set: "set (concat (map lq_items S)) = set ls" using S(4) mset_eq_setD by blast
  have dl: "distinct (map loc_id ls)" using assms(2) ids by simp
  then have d: "distinct (map loc_id (concat (map lq_items S)))" using ms mset_eq_imp_distinct_iff by blast
  have j: "joined S (ngx_http_join_exact_locations S)" using join_exact S(1-3) by (metis list.set_sel(2) tl_Nil)
  then obtain rs where rs: "ngx_http_join_exact_locations S = Some rs" "\<forall>r \<in> set rs. lq_leaf r \<and> lq_sides r" "sorted_wrt lq_less rs"
    "concat (map lq_items rs) = concat (map lq_items S)"
    using d by (cases "ngx_http_join_exact_locations S") (simp_all add: joined_def)
  have de: "describes ls (map lq_ent rs)" using rs_describe [OF rs(2,3) dl] rs(4) set by simp
  define out where "out = ngx_http_create_locations_list rs"
  have out: "list_ok rs out" unfolding out_def by (rule create_list) (use rs in auto)
  show ?thesis
  proof (cases "S = []")
    case True
    then have "ngx_http_init_static_location_trees avail S = Some Loc_null" by (simp add: ngx_http_init_static_location_trees_def)
    moreover have "rs = []" using rs(1) True by simp
    ultimately show ?thesis using de unfolding S_def [symmetric] ls_def [symmetric] by simp
  next
    case False
    have one: "1 \<le> length (lq_items r)" if "r \<in> set rs" for r
      using that rs(2) lq_leaf_some [of r] by (auto simp: lq_items_def split: option.splits)
    then have "length rs \<le> length (concat (map lq_items rs))"
    proof (induction rs)
      case (Cons r rs)
      have "length rs \<le> length (concat (map lq_items rs))" using Cons by simp
      moreover have "1 \<le> length (lq_items r)" using Cons.prems by simp
      ultimately show ?case by simp
    qed simp
    moreover have "length (concat (map lq_items rs)) = length ls" using rs(4) S(4) by (metis size_mset)
    moreover have cnt: "lqs_count out = length rs" unfolding lqs_count_flat using out by (simp add: list_ok_def)
    ultimately have av: "lqs_count out \<le> avail" using assms(3) by (simp add: ls_def)
    have "rs \<noteq> []" using rs(4) S(1) False by (cases S; cases "hd S") (auto simp: lq_items_def lq_leaf_def split: option.splits)
    then have ne: "out \<noteq> []" using cnt by auto
    have wf: "\<forall>q \<in> set out. lq_wf q \<and> prefix [] (lq_name q) \<and> (lq_redirect q \<longrightarrow> length ([] :: bytes) < length (lq_name q))"
    proof
      fix q assume "q \<in> set out"
      then have "lq_wf q" using out by (simp add: list_ok_def)
      then show "lq_wf q \<and> prefix [] (lq_name q) \<and> (lq_redirect q \<longrightarrow> length ([] :: bytes) < length (lq_name q))"
        by (cases q) simp
    qed
    obtain t where t: "ngx_http_create_locations_tree avail out 0 = Some (t, avail - lqs_count out)" "tree_of 0 out t"
      using create_tree [OF ne wf _ av] out by (auto simp: list_ok_def)
    have "entries t = map lq_ent rs"
      using t(2) out by (simp add: tree_of_def list_ok_def en_below_def lq_ent_def comp_def)
    moreover have "ngx_http_init_static_location_trees avail S = Some t"
      using False rs(1) t(1) by (simp add: ngx_http_init_static_location_trees_def out_def)
    ultimately show ?thesis using t(2) de unfolding S_def [symmetric] ls_def [symmetric] by (simp add: tree_of_def)
  qed
qed

lemma static_tree_dup:
  assumes "\<forall>l \<in> set cs. loc_ok l" "\<not> distinct (map loc_id (filter loc_static cs))"
  shows "ngx_http_init_static_location_trees avail (filter lq_static (insertion_sort ngx_http_cmp_locations (map lq_of cs))) = None"
proof -
  define S where "S = filter lq_static (insertion_sort ngx_http_cmp_locations (map lq_of cs))"
  define ls where "ls = map ngx_http_escape_location_name (filter loc_static cs)"
  note S = static_sorted [OF assms(1), folded S_def ls_def]
  have ids: "map loc_id ls = map loc_id (filter loc_static cs)" by (simp add: ls_def)
  have ms: "mset (map loc_id (concat (map lq_items S))) = mset (map loc_id ls)" using S(4) by simp
  then have d: "\<not> distinct (map loc_id (concat (map lq_items S)))" using assms(2) ids mset_eq_imp_distinct_iff by metis
  have j: "joined S (ngx_http_join_exact_locations S)" using join_exact S(1-3) by (metis list.set_sel(2) tl_Nil)
  have "ngx_http_join_exact_locations S = None"
  proof (cases "ngx_http_join_exact_locations S")
    case (Some rs)
    then have "distinct (map loc_id (concat (map lq_items rs)))" "concat (map lq_items rs) = concat (map lq_items S)"
      using j items_distinct [of rs] by (simp_all add: joined_def)
    then show ?thesis using d by simp
  qed
  moreover have "S \<noteq> []" using d by auto
  ultimately show ?thesis unfolding S_def [symmetric] by (simp add: ngx_http_init_static_location_trees_def)
qed

lemma at_escaped:
  "exact_at (map ngx_http_escape_location_name cs) n = map_option ngx_http_escape_location_name (exact_at cs n)"
  "inclusive_at (map ngx_http_escape_location_name cs) n = map_option ngx_http_escape_location_name (inclusive_at cs n)"
  unfolding exact_at_def inclusive_at_def by (induction cs) auto

lemma static_choice_escaped: "static_choice (map ngx_http_escape_location_name cs) uri rv c = static_choice cs uri rv c"
proof -
  have l: "longest_inclusive (map ngx_http_escape_location_name cs) uri n =
      map_option ngx_http_escape_location_name (longest_inclusive cs uri n)" for n
    by (induction n) (auto simp: at_escaped split: option.split)
  have r: "redirect_at (map ngx_http_escape_location_name cs) n = redirect_at cs n" for n
    by (auto simp: redirect_at_def at_escaped split: option.split)
  have t: "loc_conf (the (inclusive_at (map ngx_http_escape_location_name cs) n)) = loc_conf (the (inclusive_at cs n))"
    if "redirect_at cs n" "exact_at cs n = None" for n
    using that by (auto simp: redirect_at_def at_escaped split: option.splits)
  show ?thesis
    unfolding static_choice_def Let_def l r
    using t by (auto simp: at_escaped split: option.split)
qed

lemma init_locations_static:
  assumes "\<forall>l \<in> set cs. loc_ok l"
  shows "fst (ngx_http_init_locations (fold (\<lambda>l qs. ngx_http_add_location qs l) cs [])) =
    filter lq_static (insertion_sort ngx_http_cmp_locations (map lq_of cs))"
  unfolding add_locations append_Nil
  by (subst init_locations_parts) (use assms in \<open>auto simp: plain_name_def loc_ok_def\<close>)

lemma static_location_search:
  assumes "\<forall>l \<in> set cs. loc_ok l" "distinct (map loc_id (filter loc_static cs))"
    and "length (filter loc_static cs) \<le> avail" "0 \<notin> set uri"
  shows "\<exists>t. ngx_http_init_static_location_trees avail
      (fst (ngx_http_init_locations (fold (\<lambda>l qs. ngx_http_add_location qs l) cs []))) = Some t \<and>
    ngx_http_core_find_static_location t uri rv c = Some (static_choice (filter loc_static cs) uri rv c)"
proof -
  obtain t where t: "ngx_http_init_static_location_trees avail
      (fst (ngx_http_init_locations (fold (\<lambda>l qs. ngx_http_add_location qs l) cs []))) = Some t" "loc_wf t"
    "describes (map ngx_http_escape_location_name (filter loc_static cs)) (entries t)"
    using static_tree_ok [OF assms(1-3)] init_locations_static [OF assms(1)] by auto
  have "ngx_http_core_find_static_location t uri rv c = Some (static_choice (filter loc_static cs) uri rv c)"
    using find_static_location_spec [OF t(2) assms(4)] static_spec_choice [OF t(3)] by (simp add: static_choice_escaped)
  then show ?thesis using t(1) by blast
qed

subsection \<open>Properties\<close>

text \<open>C1. For a configuration without duplicate locations, and when the nodes can be allocated, the tree that
  \<open>ngx_http_init_locations\<close> and \<open>ngx_http_init_static_location_trees\<close> build is one in which
  \<open>ngx_http_core_find_static_location\<close> finds, for every URI, the location the configuration asks for: the exact
  one, the inclusive one of that name, the redirect to the name with a slash, or the one with the longest prefix.\<close>

theorem static_location_found:
  assumes "\<forall>l \<in> set cs. loc_ok l" "distinct (map loc_id (filter loc_static cs))"
    and "length (filter loc_static cs) \<le> avail" "0 \<notin> set uri"
  shows "\<exists>t. ngx_http_init_static_location_trees avail
      (fst (ngx_http_init_locations (fold (\<lambda>l qs. ngx_http_add_location qs l) cs []))) = Some t \<and>
    ngx_http_core_find_static_location t uri rv c = Some (static_choice (filter loc_static cs) uri rv c)"
  by (rule static_location_search [OF assms])

definition sample_loc :: "string \<Rightarrow> bool \<Rightarrow> nat \<Rightarrow> nat loc" where
  "sample_loc n e k = \<lparr>loc_name = str n, loc_escaped_name = [], loc_exact_match = e, loc_regex = False,
     loc_named = False, loc_noname = False, loc_auto_redirect = False, loc_conf = k\<rparr>"

theorem static_location_found_witness:
  "\<exists>t. ngx_http_init_static_location_trees 3
      (fst (ngx_http_init_locations (fold (\<lambda>l qs. ngx_http_add_location qs l)
        [sample_loc ''/'' False 1, sample_loc ''/a'' True 2, sample_loc ''/a'' False 3] []))) = Some t \<and>
    ngx_http_core_find_static_location t (str ''/ab'') NGX_DECLINED 0 = Some (NGX_AGAIN, 3)"
proof -
  have "static_choice (filter loc_static [sample_loc ''/'' False 1, sample_loc ''/a'' True 2, sample_loc ''/a'' False 3])
      (str ''/ab'') NGX_DECLINED 0 = (NGX_AGAIN, 3)"
    by (simp add: sample_loc_def loc_static_def static_choice_def exact_at_def inclusive_at_def redirect_at_def loc_id_def
        numeral_2_eq_2)
  then show ?thesis
    using static_location_found [of "[sample_loc ''/'' False 1, sample_loc ''/a'' True 2, sample_loc ''/a'' False 3]" 3 "str ''/ab''"
        NGX_DECLINED 0]
    by (simp add: sample_loc_def loc_ok_def one_kind_def loc_static_def loc_id_def)
qed

text \<open>C34. The configuration is refused exactly when two static locations have the same name and the same kind.\<close>

theorem duplicate_location_refused:
  assumes "\<forall>l \<in> set cs. loc_ok l" "length (filter loc_static cs) \<le> avail"
  shows "ngx_http_init_static_location_trees avail
      (fst (ngx_http_init_locations (fold (\<lambda>l qs. ngx_http_add_location qs l) cs []))) = None \<longleftrightarrow>
    \<not> distinct (map (\<lambda>l. (loc_name l, loc_exact_match l)) (filter loc_static cs))"
  unfolding init_locations_static [OF assms(1)] loc_id_def [symmetric]
  using static_tree_ok [OF assms(1) _ assms(2)] static_tree_dup [OF assms(1)] by fastforce

theorem duplicate_location_refused_witness:
  "ngx_http_init_static_location_trees 2
      (fst (ngx_http_init_locations (fold (\<lambda>l qs. ngx_http_add_location qs l)
        [sample_loc ''/a'' False 1, sample_loc ''/a'' False 2] []))) = None"
  using duplicate_location_refused [of "[sample_loc ''/a'' False 1, sample_loc ''/a'' False 2]" 2]
  by (simp add: sample_loc_def loc_ok_def one_kind_def loc_static_def)

end
