(* ===== verification/Ngx_Find_Location.thy ===== *)
theory Ngx_Find_Location
  imports Ngx_Location_Tree "HOL-Library.Monad_Syntax"
begin

section \<open>Finding the location of a request\<close>

text \<open>
  \<open>ngx_http_core_find_location\<close> of \<open>src/http/ngx_http_core_module.c\<close>: the static location, the locations nested in
  it, and the regular expressions of the level. A \<open>loc_conf\<close> is an address here, \<open>cf\<close> the configuration it has;
  \<open>rx\<close> is \<open>ngx_http_regex_exec\<close>, the PCRE library. The function calls itself once for each level of nesting, so
  it is a partial function, and that it returns is a property.
\<close>

record lconf =
  lc_static :: "nat loc_node"
  lc_regex :: "(nat \<times> nat) list"
  lc_noregex :: bool

partial_function (option) ngx_http_core_find_location ::
  "(nat \<Rightarrow> lconf) \<Rightarrow> (nat \<Rightarrow> bytes \<Rightarrow> ngx_rc) \<Rightarrow> bytes \<Rightarrow> nat \<Rightarrow> (ngx_rc \<times> nat) option" where
  "ngx_http_core_find_location cf rx uri loc =
     do {
       (rc, found) \<leftarrow> ngx_http_core_find_static_location (lc_static (cf loc)) uri NGX_DECLINED loc;
       (noregex, rc, loc') \<leftarrow>
         (if rc = NGX_AGAIN
          then do { (rc, inner) \<leftarrow> ngx_http_core_find_location cf rx uri found;
                    Some (lc_noregex (cf found), rc, inner) }
          else Some (False, rc, found));
       if rc = NGX_OK \<or> rc = NGX_DONE then Some (rc, loc')
       else if \<not> noregex then
         (case dropWhile (\<lambda>(re, _). rx re uri = NGX_DECLINED) (lc_regex (cf loc)) of
            [] \<Rightarrow> Some (rc, loc')
          | (re, target) # _ \<Rightarrow>
              if rx re uri = NGX_OK
              then do { (rc, inner) \<leftarrow> ngx_http_core_find_location cf rx uri target;
                        Some (if rc = NGX_ERROR then rc else NGX_OK, inner) }
              else Some (NGX_ERROR, loc'))
       else Some (rc, loc')
     }"

subsection \<open>Nesting\<close>

text \<open>\<open>d\<close> is the configuration of a location directly in \<open>c\<close>.\<close>

definition nested_in :: "(nat \<Rightarrow> lconf) \<Rightarrow> nat \<Rightarrow> nat \<Rightarrow> bool" where
  "nested_in cf c d \<longleftrightarrow>
     (\<exists>e \<in> set (entries (lc_static (cf c))). \<exists>l. (en_exact e = Some l \<or> en_inclusive e = Some l) \<and> d = loc_conf l) \<or>
     d \<in> snd ` set (lc_regex (cf c))"

lemma static_spec_again:
  assumes "static_spec es uri NGX_DECLINED c = (NGX_AGAIN, d)" "\<forall>e \<in> set es. en_exact e \<noteq> None \<or> en_inclusive e \<noteq> None"
  shows "\<exists>e \<in> set es. \<exists>l. (en_exact e = Some l \<or> en_inclusive e = Some l) \<and> d = loc_conf l"
proof -
  have loc: "\<exists>l. (en_exact e = Some l \<or> en_inclusive e = Some l) \<and> loc_conf (en_loc e) = loc_conf l" if "e \<in> set es" for e
    using that assms(2) by (cases "en_exact e") (auto simp: en_loc_def)
  have "\<exists>e \<in> set es. d = loc_conf (en_loc e) \<or> en_inclusive e \<noteq> None \<and> d = loc_conf (the (en_inclusive e))"
  proof (cases "filter (\<lambda>e. en_name e = uri) es")
    case (Cons e xs)
    have "e \<in> set (filter (\<lambda>e. en_name e = uri) es)" unfolding Cons by simp
    then have "e \<in> set es" by simp
    moreover have "d = loc_conf (en_loc e)" using assms(1) unfolding static_spec_def Cons by simp
    ultimately show ?thesis by blast
  next
    case Nil
    note first = Nil
    show ?thesis
    proof (cases "filter (\<lambda>e. en_name e = uri @ [ch CHR ''/''] \<and> en_redirect e) es")
      case (Cons e xs)
      then show ?thesis using assms(1) first by (simp add: static_spec_def)
    next
      case Nil
      note second = Nil
      show ?thesis
      proof (cases "rev (filter (\<lambda>e. en_inclusive e \<noteq> None \<and> prefix (en_name e) uri) es)")
        case (Cons e xs)
        have "e \<in> set (rev (filter (\<lambda>e. en_inclusive e \<noteq> None \<and> prefix (en_name e) uri) es))" unfolding Cons by simp
        then have "e \<in> set es" "en_inclusive e \<noteq> None" by auto
        moreover have "d = loc_conf (the (en_inclusive e))"
          using assms(1) unfolding static_spec_def first second Cons by simp
        ultimately show ?thesis by blast
      next
        case Nil
        then show ?thesis using assms(1) unfolding static_spec_def first second Nil by simp
      qed
    qed
  qed
  then show ?thesis using loc by fastforce
qed

lemma entries_some: "loc_wf t \<Longrightarrow> e \<in> set (entries t) \<Longrightarrow> en_exact e \<noteq> None \<or> en_inclusive e \<noteq> None"
proof (induction t arbitrary: e)
  case (Loc_node l r t ex inc len ar name)
  from Loc_node.prems(2) consider "e \<in> set (entries l)" | "e = Ent name ex inc"
    | f where "f \<in> set (entries t)" "e = en_under name f" | "e \<in> set (entries r)" by auto
  then show ?case
  proof cases
    case 3
    then show ?thesis using Loc_node.IH(3) [OF _ 3(1)] Loc_node.prems(1) by simp
  qed (use Loc_node in auto)
qed simp

lemma static_nested:
  assumes "loc_wf (lc_static (cf c))" "0 \<notin> set uri"
  shows "\<exists>rc d. ngx_http_core_find_static_location (lc_static (cf c)) uri NGX_DECLINED c = Some (rc, d) \<and>
    (rc = NGX_AGAIN \<longrightarrow> nested_in cf c d)"
proof -
  obtain rc d where r: "static_spec (entries (lc_static (cf c))) uri NGX_DECLINED c = (rc, d)" by fastforce
  have "nested_in cf c d" if "rc = NGX_AGAIN"
    unfolding nested_in_def using static_spec_again [of "entries (lc_static (cf c))" uri c d] r that entries_some [OF assms(1)] by blast
  then show ?thesis using find_static_location_spec [OF assms] r by simp
qed

lemma dropWhile_member: "dropWhile P xs = y # ys \<Longrightarrow> y \<in> set xs"
  by (metis list.set_intros(1) set_dropWhileD)

text \<open>C33. The search for the location of a request returns: every configuration that is nested less deep gives
  a result in finitely many steps.\<close>

theorem find_location_returns:
  assumes "\<And>c. loc_wf (lc_static (cf c))" "\<And>c d. nested_in cf c d \<Longrightarrow> (rank d :: nat) < rank c" "0 \<notin> set uri"
  shows "\<exists>rc d. ngx_http_core_find_location cf rx uri loc = Some (rc, d)"
proof (induction "rank loc" arbitrary: loc rule: less_induct)
  case less
  obtain rc d where st: "ngx_http_core_find_static_location (lc_static (cf loc)) uri NGX_DECLINED loc = Some (rc, d)"
    "rc = NGX_AGAIN \<longrightarrow> nested_in cf loc d"
    using static_nested [where cf = cf and c = loc, OF assms(1,3)] by blast
  have inner: "\<exists>rc e. ngx_http_core_find_location cf rx uri d = Some (rc, e)" if "rc = NGX_AGAIN"
    using less assms(2) st(2) that by blast
  have regex: "\<exists>rc e. ngx_http_core_find_location cf rx uri target = Some (rc, e)"
    if "dropWhile (\<lambda>(re, _). rx re uri = NGX_DECLINED) (lc_regex (cf loc)) = (re, target) # xs" for re target xs
  proof -
    have "nested_in cf loc target" using dropWhile_member [OF that] by (force simp: nested_in_def)
    then show ?thesis using less assms(2) by blast
  qed
  have level: "\<exists>rc e. (if rc' = NGX_OK \<or> rc' = NGX_DONE then Some (rc', e')
      else if \<not> noregex then
        (case dropWhile (\<lambda>(re, _). rx re uri = NGX_DECLINED) (lc_regex (cf loc)) of
           [] \<Rightarrow> Some (rc', e')
         | (re, target) # _ \<Rightarrow>
             if rx re uri = NGX_OK
             then do { (rc, inner) \<leftarrow> ngx_http_core_find_location cf rx uri target;
                       Some (if rc = NGX_ERROR then rc else NGX_OK, inner) }
             else Some (NGX_ERROR, e'))
      else Some (rc', e')) = Some (rc, e)" for rc' e' noregex
    using regex by (auto split: list.split prod.split)
  show ?case
  proof (cases "rc = NGX_AGAIN")
    case True
    then obtain rc' e' where "ngx_http_core_find_location cf rx uri d = Some (rc', e')" using inner by blast
    then show ?thesis
      using level [of rc' e' "lc_noregex (cf d)"] True by (subst ngx_http_core_find_location.simps) (simp add: st(1))
  next
    case False
    then show ?thesis
      using level [of rc d False] by (subst ngx_http_core_find_location.simps) (simp add: st(1))
  qed
qed

theorem find_location_returns_witness:
  "\<exists>rc d. ngx_http_core_find_location
      (\<lambda>c. \<lparr>lc_static = (if c = 0 then Loc_node Loc_null Loc_null Loc_null None (Some (sample_loc ''/'' False 1)) 1 False (str ''/'')
        else Loc_null), lc_regex = (if c = 0 then [(7, 2)] else []), lc_noregex = False\<rparr>)
      (\<lambda>re u. NGX_OK) (str ''/x'') 0 = Some (rc, d)"
  by (rule find_location_returns [where rank = "\<lambda>c. if c = 0 then 1 else 0"])
    (auto simp: nested_in_def sample_loc_def en_redirect_def split: if_splits)

text \<open>The reference for a level whose locations have no nested ones; \<open>regexes\<close> are tried in order.\<close>

definition leaf_conf :: "lconf \<Rightarrow> bool" where
  "leaf_conf k \<longleftrightarrow> lc_static k = Loc_null \<and> lc_regex k = []"

definition location_choice ::
  "(nat \<Rightarrow> lconf) \<Rightarrow> (nat \<Rightarrow> bytes \<Rightarrow> ngx_rc) \<Rightarrow> nat loc list \<Rightarrow> (nat \<times> nat) list \<Rightarrow> bytes \<Rightarrow> nat \<Rightarrow> ngx_rc \<times> nat" where
  "location_choice cf rx cs regexes uri loc =
     (let (rc, found) = static_choice cs uri NGX_DECLINED loc;
          matching = filter (\<lambda>(re, _). rx re uri \<noteq> NGX_DECLINED) regexes
      in if rc = NGX_OK \<or> rc = NGX_DONE then (rc, found)
         else if matching = [] \<or> rc = NGX_AGAIN \<and> lc_noregex (cf found) then (NGX_DECLINED, found)
         else if rx (fst (hd matching)) uri = NGX_OK then (NGX_OK, snd (hd matching))
         else (NGX_ERROR, found))"

lemma find_location_leaf:
  "leaf_conf (cf c) \<Longrightarrow> ngx_http_core_find_location cf rx uri c = Some (NGX_DECLINED, c)"
  by (subst ngx_http_core_find_location.simps) (simp add: leaf_conf_def)

lemma dropWhile_filter: "dropWhile P xs = y # ys \<Longrightarrow> hd (filter (\<lambda>x. \<not> P x) xs) = y \<and> filter (\<lambda>x. \<not> P x) xs \<noteq> []"
proof (induction xs)
  case (Cons x xs)
  then show ?case by (cases "P x") simp_all
qed simp

lemma find_member: "List.find P xs = Some l \<Longrightarrow> l \<in> set xs"
  by (auto simp: find_Some_iff)

lemma longest_member: "longest_inclusive cs uri n = Some l \<Longrightarrow> l \<in> set cs"
  by (induction n) (auto simp: inclusive_at_def dest: find_member split: option.splits)

lemma static_choice_cases:
  assumes "static_choice cs uri NGX_DECLINED c = (rc, d)"
  shows "rc = NGX_OK \<or> rc = NGX_DONE \<or> rc = NGX_AGAIN \<and> d \<in> loc_conf ` set cs \<or> rc = NGX_DECLINED \<and> d = c"
  using assms longest_member [of cs uri "length uri"]
  by (auto simp: static_choice_def Let_def inclusive_at_def dest!: find_member split: option.splits if_splits)

text \<open>C2. The order of precedence, for locations without nested ones: an exact match or a redirect; the longest
  prefix when it forbids regular expressions; the first regular expression, in the order of the configuration,
  that matches; the longest prefix; the enclosing configuration.\<close>

theorem location_precedence:
  assumes "\<forall>l \<in> set cs. loc_ok l" "distinct (map loc_id (filter loc_static cs))"
    and "ngx_http_init_static_location_trees avail
      (fst (ngx_http_init_locations (fold (\<lambda>l qs. ngx_http_add_location qs l) cs []))) = Some (lc_static (cf loc))"
    and "length (filter loc_static cs) \<le> avail" "0 \<notin> set uri" "\<And>c. c \<noteq> loc \<Longrightarrow> leaf_conf (cf c)"
    and "loc \<notin> loc_conf ` set cs" "loc \<notin> snd ` set (lc_regex (cf loc))"
  shows "ngx_http_core_find_location cf rx uri loc = Some (location_choice cf rx (filter loc_static cs) (lc_regex (cf loc)) uri loc)"
proof -
  let ?st = "filter loc_static cs"
  have st: "ngx_http_core_find_static_location (lc_static (cf loc)) uri NGX_DECLINED loc =
      Some (static_choice ?st uri NGX_DECLINED loc)"
    using static_location_search [OF assms(1,2,4,5), of NGX_DECLINED loc] assms(3) by auto
  obtain rc d where r: "static_choice ?st uri NGX_DECLINED loc = (rc, d)" by fastforce
  note rc = static_choice_cases [OF r]
  have inner: "ngx_http_core_find_location cf rx uri d = Some (NGX_DECLINED, d)" if "rc = NGX_AGAIN"
    using rc that assms(6,7) find_location_leaf by fastforce
  let ?P = "\<lambda>(re, target). rx re uri = NGX_DECLINED"
  let ?m = "filter (\<lambda>(re, target). rx re uri \<noteq> NGX_DECLINED) (lc_regex (cf loc))"
  have m: "filter (\<lambda>x. \<not> ?P x) (lc_regex (cf loc)) = ?m" by (rule filter_cong) auto
  have level: "(case dropWhile ?P (lc_regex (cf loc)) of
           [] \<Rightarrow> Some (NGX_DECLINED, d)
         | (re, target) # _ \<Rightarrow>
             if rx re uri = NGX_OK
             then do { (rc, inner) \<leftarrow> ngx_http_core_find_location cf rx uri target;
                       Some (if rc = NGX_ERROR then rc else NGX_OK, inner) }
             else Some (NGX_ERROR, d)) =
      Some (if ?m = [] then (NGX_DECLINED, d) else if rx (fst (hd ?m)) uri = NGX_OK then (NGX_OK, snd (hd ?m)) else (NGX_ERROR, d))"
  proof (cases "dropWhile ?P (lc_regex (cf loc))")
    case Nil
    then have "filter (\<lambda>x. \<not> ?P x) (lc_regex (cf loc)) = []" unfolding dropWhile_eq_Nil_conv filter_empty_conv by blast
    then have "?m = []" unfolding m .
    then show ?thesis unfolding Nil by simp
  next
    case (Cons y ys)
    obtain re target where y: "y = (re, target)" by fastforce
    have "(re, target) \<in> set (lc_regex (cf loc))" using dropWhile_member [OF Cons] y by simp
    then have "target \<noteq> loc" using assms(8) by force
    then have "ngx_http_core_find_location cf rx uri target = Some (NGX_DECLINED, target)" using assms(6) find_location_leaf by simp
    moreover have "hd ?m = y" "?m \<noteq> []" using dropWhile_filter [OF Cons] unfolding m by blast+
    ultimately show ?thesis unfolding Cons y by simp
  qed
  show ?thesis
  proof (cases "rc = NGX_AGAIN")
    case True
    then show ?thesis
      using level inner by (subst ngx_http_core_find_location.simps) (simp add: st r location_choice_def Let_def split del: if_split split: if_split)
  next
    case False
    then show ?thesis
      using level rc by (subst ngx_http_core_find_location.simps) (auto simp: st r location_choice_def Let_def)
  qed
qed

theorem location_precedence_witness:
  "\<exists>t. ngx_http_core_find_location
      (\<lambda>c. if c = 0 then \<lparr>lc_static = t, lc_regex = [(7, 3)], lc_noregex = False\<rparr>
            else \<lparr>lc_static = Loc_null, lc_regex = [], lc_noregex = False\<rparr>)
      (\<lambda>re u. NGX_OK) (str ''/ab'') 0 = Some (NGX_OK, 3)"
proof -
  let ?cs = "[sample_loc ''/a'' False 2, sample_loc ''/'' True 1]"
  obtain t where t: "ngx_http_init_static_location_trees 2
      (fst (ngx_http_init_locations (fold (\<lambda>l qs. ngx_http_add_location qs l) ?cs []))) = Some t"
    using static_tree_ok [of ?cs 2] init_locations_static [of ?cs]
    by (auto simp: sample_loc_def loc_ok_def one_kind_def loc_static_def loc_id_def)
  let ?cf = "\<lambda>c :: nat. if c = 0 then \<lparr>lc_static = t, lc_regex = [(7, 3)], lc_noregex = False\<rparr>
            else \<lparr>lc_static = Loc_null, lc_regex = [], lc_noregex = False\<rparr>"
  have "ngx_http_core_find_location ?cf (\<lambda>re u. NGX_OK) (str ''/ab'') 0 =
      Some (location_choice ?cf (\<lambda>re u. NGX_OK) (filter loc_static ?cs) (lc_regex (?cf 0)) (str ''/ab'') 0)"
    by (rule location_precedence [of ?cs 2])
      (use t in \<open>simp_all add: sample_loc_def loc_ok_def one_kind_def loc_static_def loc_id_def leaf_conf_def\<close>)
  moreover have "location_choice ?cf (\<lambda>re u. NGX_OK) (filter loc_static ?cs) (lc_regex (?cf 0)) (str ''/ab'') 0 = (NGX_OK, 3)"
    by (simp add: location_choice_def sample_loc_def loc_static_def static_choice_def exact_at_def inclusive_at_def
        redirect_at_def loc_id_def numeral_2_eq_2)
  ultimately have "ngx_http_core_find_location ?cf (\<lambda>re u. NGX_OK) (str ''/ab'') 0 = Some (NGX_OK, 3)" by simp
  then show ?thesis by blast
qed

end
