(* ===== verification/Ngx_Radix.thy ===== *)
theory Ngx_Radix
  imports Ngx_Prelude "HOL-Library.Sublist"
begin

section \<open>Radix trees\<close>

text \<open>
  \<open>src/core/ngx_radix_tree.c\<close>: the binary trees that map networks, an address with a mask, to values; \<open>geo\<close> and
  the realip modules find the network of a client in them. A node is owned by its parent, so the \<open>parent\<close>
  pointers are left out and the nodes are a data type; a null pointer is \<open>Rnull\<close>. The free list and the rest of
  the page are one number, the nodes \<open>ngx_radix_alloc\<close> can still give.
\<close>

unbundle bit_operations_syntax

datatype ngx_radix_node = Rnull | Rnode (rn_left: ngx_radix_node) (rn_right: ngx_radix_node) (rn_value: "64 word")

definition NGX_RADIX_NO_VALUE :: "64 word" where
  "NGX_RADIX_NO_VALUE = - 1"

text \<open>A new node as its callers initialise it.\<close>

definition ngx_radix_alloc :: "nat \<Rightarrow> (ngx_radix_node \<times> nat) option" where
  "ngx_radix_alloc avail =
     (if avail = 0 then None else Some (Rnode Rnull Rnull NGX_RADIX_NO_VALUE, avail - 1))"

subsection \<open>32 bits\<close>

text \<open>The second loop of the insertion, from the node where the first one found no child.\<close>

function radix32_extend :: "nat \<Rightarrow> 32 word \<Rightarrow> 32 word \<Rightarrow> 32 word \<Rightarrow> 64 word \<Rightarrow> ngx_radix_node
    \<Rightarrow> ngx_rc \<times> ngx_radix_node \<times> nat" where
  "radix32_extend avail b key msk value node =
     (if b AND msk = 0 then (NGX_OK, Rnode (rn_left node) (rn_right node) value, avail)
      else (case ngx_radix_alloc avail of
          None \<Rightarrow> (NGX_ERROR, node, avail)
        | Some (nxt, a) \<Rightarrow>
            (case radix32_extend a (drop_bit 1 b) key msk value nxt of
               (rc, nxt, a) \<Rightarrow>
                 (rc, if key AND b \<noteq> 0 then Rnode (rn_left node) nxt (rn_value node)
                      else Rnode nxt (rn_right node) (rn_value node), a))))"
  by pat_completeness auto

lemma drop_bit_less: "b \<noteq> 0 \<Longrightarrow> unat (drop_bit (Suc 0) (b :: 'a::len word)) < unat b"
  by (subst unat_drop_bit_eq) (simp add: drop_bit_eq_div unat_gt_0)

termination radix32_extend
  by (relation "measure (\<lambda>(avail, b, _). unat b)") (auto intro: drop_bit_less)

declare radix32_extend.simps [simp del]

fun radix32_descend :: "nat \<Rightarrow> 32 word \<Rightarrow> 32 word \<Rightarrow> 32 word \<Rightarrow> 64 word \<Rightarrow> ngx_radix_node
    \<Rightarrow> ngx_rc \<times> ngx_radix_node \<times> nat" where
  "radix32_descend avail b key msk value Rnull = (NGX_ERROR, Rnull, avail)"
| "radix32_descend avail b key msk value (Rnode l r v) =
     (if b AND msk = 0 then
        (if v \<noteq> NGX_RADIX_NO_VALUE then (NGX_BUSY, Rnode l r v, avail) else (NGX_OK, Rnode l r value, avail))
      else if key AND b \<noteq> 0 then
        (if r = Rnull then radix32_extend avail b key msk value (Rnode l r v)
         else (case radix32_descend avail (drop_bit 1 b) key msk value r of (rc, r', a) \<Rightarrow> (rc, Rnode l r' v, a)))
      else
        (if l = Rnull then radix32_extend avail b key msk value (Rnode l r v)
         else (case radix32_descend avail (drop_bit 1 b) key msk value l of (rc, l', a) \<Rightarrow> (rc, Rnode l' r v, a))))"

definition ngx_radix32tree_insert :: "nat \<Rightarrow> ngx_radix_node \<Rightarrow> 32 word \<Rightarrow> 32 word \<Rightarrow> 64 word
    \<Rightarrow> ngx_rc \<times> ngx_radix_node \<times> nat" where
  "ngx_radix32tree_insert avail root key msk value = radix32_descend avail 0x80000000 key msk value root"

text \<open>The deletion: \<open>Kept\<close> is the node as it stays, \<open>Unlinked\<close> a node that is on the free list with \<open>k\<close> others.\<close>

datatype radix_del = Kept ngx_rc ngx_radix_node nat | Unlinked nat

text \<open>A pass of the last loop, at a parent with its new children.\<close>

definition radix_parent :: "bool \<Rightarrow> nat \<Rightarrow> ngx_radix_node \<Rightarrow> ngx_radix_node \<Rightarrow> 64 word \<Rightarrow> radix_del" where
  "radix_parent at_root k l r v =
     (if l \<noteq> Rnull \<or> r \<noteq> Rnull \<or> v \<noteq> NGX_RADIX_NO_VALUE \<or> at_root then Kept NGX_OK (Rnode l r v) k else Unlinked (Suc k))"

definition radix_found :: "ngx_radix_node \<Rightarrow> ngx_radix_node \<Rightarrow> 64 word \<Rightarrow> radix_del" where
  "radix_found l r v =
     (if l \<noteq> Rnull \<or> r \<noteq> Rnull then
        (if v \<noteq> NGX_RADIX_NO_VALUE then Kept NGX_OK (Rnode l r NGX_RADIX_NO_VALUE) 0 else Kept NGX_ERROR (Rnode l r v) 0)
      else Unlinked 1)"

fun radix32_unlink :: "bool \<Rightarrow> 32 word \<Rightarrow> 32 word \<Rightarrow> 32 word \<Rightarrow> ngx_radix_node \<Rightarrow> radix_del" where
  "radix32_unlink at_root b key msk Rnull = Kept NGX_ERROR Rnull 0"
| "radix32_unlink at_root b key msk (Rnode l r v) =
     (if b AND msk = 0 then radix_found l r v
      else if key AND b \<noteq> 0 then
        (case radix32_unlink False (drop_bit 1 b) key msk r of
           Kept rc r' k \<Rightarrow> Kept rc (Rnode l r' v) k
         | Unlinked k \<Rightarrow> radix_parent at_root k l Rnull v)
      else
        (case radix32_unlink False (drop_bit 1 b) key msk l of
           Kept rc l' k \<Rightarrow> Kept rc (Rnode l' r v) k
         | Unlinked k \<Rightarrow> radix_parent at_root k Rnull r v))"

text \<open>\<open>None\<close> is the dereference of the null \<open>parent\<close> of the root.\<close>

definition radix_deleted :: "nat \<Rightarrow> radix_del \<Rightarrow> (ngx_rc \<times> ngx_radix_node \<times> nat) option" where
  "radix_deleted avail d = (case d of Kept rc root k \<Rightarrow> Some (rc, root, avail + k) | Unlinked k \<Rightarrow> None)"

definition ngx_radix32tree_delete :: "nat \<Rightarrow> ngx_radix_node \<Rightarrow> 32 word \<Rightarrow> 32 word
    \<Rightarrow> (ngx_rc \<times> ngx_radix_node \<times> nat) option" where
  "ngx_radix32tree_delete avail root key msk = radix_deleted avail (radix32_unlink True 0x80000000 key msk root)"

fun radix32_search :: "32 word \<Rightarrow> 32 word \<Rightarrow> 64 word \<Rightarrow> ngx_radix_node \<Rightarrow> 64 word" where
  "radix32_search b key value Rnull = value"
| "radix32_search b key value (Rnode l r v) =
     (let value = (if v \<noteq> NGX_RADIX_NO_VALUE then v else value) in
      if key AND b \<noteq> 0 then radix32_search (drop_bit 1 b) key value r
      else radix32_search (drop_bit 1 b) key value l)"

definition ngx_radix32tree_find :: "ngx_radix_node \<Rightarrow> 32 word \<Rightarrow> 64 word" where
  "ngx_radix32tree_find root key = radix32_search 0x80000000 key NGX_RADIX_NO_VALUE root"


subsection \<open>128 bits\<close>

text \<open>The address and the mask are arrays of 16 bytes; \<open>i\<close> and \<open>b\<close> are the byte and the bit of the loops, which
  are left when \<open>i\<close> gets 16.\<close>

definition radix128_next :: "nat \<times> byte \<Rightarrow> nat \<times> byte" where
  "radix128_next ib = (let b = drop_bit 1 (snd ib) in if b = 0 then (Suc (fst ib), 0x80) else (fst ib, b))"

definition radix128_more :: "bytes \<Rightarrow> nat \<times> byte \<Rightarrow> bool" where
  "radix128_more msk ib \<longleftrightarrow> fst ib < 16 \<and> snd ib AND msk ! fst ib \<noteq> 0"

definition radix128_measure :: "nat \<times> byte \<Rightarrow> nat" where
  "radix128_measure ib = (16 - fst ib) * 256 + unat (snd ib)"

lemma radix128_next_less:
  assumes "fst ib < 16" "snd ib \<noteq> 0"
  shows "radix128_measure (radix128_next ib) < radix128_measure ib"
proof -
  have "unat (0x80 :: byte) = 128" by simp
  moreover have "(16 - fst ib) * 256 = (16 - Suc (fst ib)) * 256 + 256" using assms(1) by (simp add: Suc_diff_Suc)
  moreover have "0 < unat (snd ib)" using assms(2) by (simp add: unat_gt_0)
  ultimately show ?thesis
    using drop_bit_less [OF assms(2)] by (auto simp: radix128_measure_def radix128_next_def Let_def)
qed

function radix128_extend :: "nat \<Rightarrow> nat \<times> byte \<Rightarrow> bytes \<Rightarrow> bytes \<Rightarrow> 64 word \<Rightarrow> ngx_radix_node
    \<Rightarrow> ngx_rc \<times> ngx_radix_node \<times> nat" where
  "radix128_extend avail ib key msk value node =
     (if \<not> radix128_more msk ib then (NGX_OK, Rnode (rn_left node) (rn_right node) value, avail)
      else (case ngx_radix_alloc avail of
          None \<Rightarrow> (NGX_ERROR, node, avail)
        | Some (nxt, a) \<Rightarrow>
            (case radix128_extend a (radix128_next ib) key msk value nxt of
               (rc, nxt, a) \<Rightarrow>
                 (rc, if key ! fst ib AND snd ib \<noteq> 0 then Rnode (rn_left node) nxt (rn_value node)
                      else Rnode nxt (rn_right node) (rn_value node), a))))"
  by pat_completeness auto

termination radix128_extend
  by (relation "measure (\<lambda>(avail, ib, _). radix128_measure ib)") (auto intro!: radix128_next_less simp: radix128_more_def)

declare radix128_extend.simps [simp del]

fun radix128_descend :: "nat \<Rightarrow> nat \<times> byte \<Rightarrow> bytes \<Rightarrow> bytes \<Rightarrow> 64 word \<Rightarrow> ngx_radix_node
    \<Rightarrow> ngx_rc \<times> ngx_radix_node \<times> nat" where
  "radix128_descend avail ib key msk value Rnull = (NGX_ERROR, Rnull, avail)"
| "radix128_descend avail ib key msk value (Rnode l r v) =
     (if \<not> radix128_more msk ib then
        (if v \<noteq> NGX_RADIX_NO_VALUE then (NGX_BUSY, Rnode l r v, avail) else (NGX_OK, Rnode l r value, avail))
      else if key ! fst ib AND snd ib \<noteq> 0 then
        (if r = Rnull then radix128_extend avail ib key msk value (Rnode l r v)
         else (case radix128_descend avail (radix128_next ib) key msk value r of (rc, r', a) \<Rightarrow> (rc, Rnode l r' v, a)))
      else
        (if l = Rnull then radix128_extend avail ib key msk value (Rnode l r v)
         else (case radix128_descend avail (radix128_next ib) key msk value l of (rc, l', a) \<Rightarrow> (rc, Rnode l' r v, a))))"

definition ngx_radix128tree_insert :: "nat \<Rightarrow> ngx_radix_node \<Rightarrow> bytes \<Rightarrow> bytes \<Rightarrow> 64 word
    \<Rightarrow> ngx_rc \<times> ngx_radix_node \<times> nat" where
  "ngx_radix128tree_insert avail root key msk value = radix128_descend avail (0, 0x80) key msk value root"

fun radix128_unlink :: "bool \<Rightarrow> nat \<times> byte \<Rightarrow> bytes \<Rightarrow> bytes \<Rightarrow> ngx_radix_node \<Rightarrow> radix_del" where
  "radix128_unlink at_root ib key msk Rnull = Kept NGX_ERROR Rnull 0"
| "radix128_unlink at_root ib key msk (Rnode l r v) =
     (if \<not> radix128_more msk ib then radix_found l r v
      else if key ! fst ib AND snd ib \<noteq> 0 then
        (case radix128_unlink False (radix128_next ib) key msk r of
           Kept rc r' k \<Rightarrow> Kept rc (Rnode l r' v) k
         | Unlinked k \<Rightarrow> radix_parent at_root k l Rnull v)
      else
        (case radix128_unlink False (radix128_next ib) key msk l of
           Kept rc l' k \<Rightarrow> Kept rc (Rnode l' r v) k
         | Unlinked k \<Rightarrow> radix_parent at_root k Rnull r v))"

definition ngx_radix128tree_delete :: "nat \<Rightarrow> ngx_radix_node \<Rightarrow> bytes \<Rightarrow> bytes
    \<Rightarrow> (ngx_rc \<times> ngx_radix_node \<times> nat) option" where
  "ngx_radix128tree_delete avail root key msk = radix_deleted avail (radix128_unlink True (0, 0x80) key msk root)"

text \<open>The search does not stop behind the last byte: at a node of depth 128 it reads \<open>key[16]\<close>, which is
  \<open>beyond\<close> here.\<close>

fun radix128_search :: "byte \<Rightarrow> nat \<times> byte \<Rightarrow> bytes \<Rightarrow> 64 word \<Rightarrow> ngx_radix_node \<Rightarrow> 64 word" where
  "radix128_search beyond ib key value Rnull = value"
| "radix128_search beyond ib key value (Rnode l r v) =
     (let value = (if v \<noteq> NGX_RADIX_NO_VALUE then v else value) in
      if (if fst ib < 16 then key ! fst ib else beyond) AND snd ib \<noteq> 0
      then radix128_search beyond (radix128_next ib) key value r
      else radix128_search beyond (radix128_next ib) key value l)"

definition ngx_radix128tree_find :: "byte \<Rightarrow> ngx_radix_node \<Rightarrow> bytes \<Rightarrow> 64 word" where
  "ngx_radix128tree_find beyond root key = radix128_search beyond (0, 0x80) key NGX_RADIX_NO_VALUE root"


subsection \<open>A new tree\<close>

text \<open>\<open>preallocate\<close> is -1 or the number of levels. The inner loop, over the prefixes of one length, goes on until \<open>key\<close> wraps to 0; \<open>Some None\<close> is the null
  pointer that is returned when an allocation fails, \<open>None\<close> would be a loop that does not end.\<close>

partial_function (option) radix_prefill :: "32 word \<Rightarrow> 32 word \<Rightarrow> 32 word \<Rightarrow> nat \<Rightarrow> ngx_radix_node
    \<Rightarrow> (ngx_radix_node \<times> nat) option option" where
  "radix_prefill inc msk key avail root =
     (case ngx_radix32tree_insert avail root key msk NGX_RADIX_NO_VALUE of
        (rc, root, avail) \<Rightarrow>
          if rc \<noteq> NGX_OK then Some None
          else if key + inc = 0 then Some (Some (root, avail))
          else radix_prefill inc msk (key + inc) avail root)"

fun radix_levels :: "nat \<Rightarrow> 32 word \<Rightarrow> 32 word \<Rightarrow> nat \<Rightarrow> ngx_radix_node \<Rightarrow> (ngx_radix_node \<times> nat) option option" where
  "radix_levels 0 inc msk avail root = Some (Some (root, avail))"
| "radix_levels (Suc n) inc msk avail root =
     (let msk = drop_bit 1 msk OR 0x80000000 in
      case radix_prefill inc msk 0 avail root of
        None \<Rightarrow> None
      | Some None \<Rightarrow> Some None
      | Some (Some (root, avail)) \<Rightarrow> radix_levels n (drop_bit 1 inc) msk avail root)"

definition ngx_radix_tree_create :: "nat \<Rightarrow> nat \<Rightarrow> int \<Rightarrow> (ngx_radix_node \<times> nat) option option" where
  "ngx_radix_tree_create pagesize avail preallocate =
     (case ngx_radix_alloc avail of
        None \<Rightarrow> Some None
      | Some (root, avail) \<Rightarrow>
          if preallocate = 0 then Some (Some (root, avail))
          else
            (let preallocate = (if preallocate = -1 then
                   (if pagesize div 32 = 128 then 6 else if pagesize div 32 = 256 then 7 else 8) else preallocate)
             in radix_levels (nat preallocate) 0x80000000 0 avail root))"

subsection \<open>The tree as a map from prefixes\<close>

text \<open>Both widths are one tree whose operations follow a list of bits, \<open>True\<close> to the right.\<close>

fun path_extend :: "nat \<Rightarrow> bool list \<Rightarrow> 64 word \<Rightarrow> ngx_radix_node \<Rightarrow> ngx_rc \<times> ngx_radix_node \<times> nat" where
  "path_extend avail [] value node = (NGX_OK, Rnode (rn_left node) (rn_right node) value, avail)"
| "path_extend avail (x # p) value node =
     (case ngx_radix_alloc avail of
        None \<Rightarrow> (NGX_ERROR, node, avail)
      | Some (nxt, a) \<Rightarrow>
          (case path_extend a p value nxt of
             (rc, nxt, a) \<Rightarrow> (rc, if x then Rnode (rn_left node) nxt (rn_value node) else Rnode nxt (rn_right node) (rn_value node), a)))"

fun path_insert :: "nat \<Rightarrow> bool list \<Rightarrow> 64 word \<Rightarrow> ngx_radix_node \<Rightarrow> ngx_rc \<times> ngx_radix_node \<times> nat" where
  "path_insert avail p value Rnull = (NGX_ERROR, Rnull, avail)"
| "path_insert avail [] value (Rnode l r v) =
     (if v \<noteq> NGX_RADIX_NO_VALUE then (NGX_BUSY, Rnode l r v, avail) else (NGX_OK, Rnode l r value, avail))"
| "path_insert avail (x # p) value (Rnode l r v) =
     (if (if x then r else l) = Rnull then path_extend avail (x # p) value (Rnode l r v)
      else (case path_insert avail p value (if x then r else l) of
              (rc, n, a) \<Rightarrow> (rc, if x then Rnode l n v else Rnode n r v, a)))"

fun path_unlink :: "bool \<Rightarrow> bool list \<Rightarrow> ngx_radix_node \<Rightarrow> radix_del" where
  "path_unlink at_root p Rnull = Kept NGX_ERROR Rnull 0"
| "path_unlink at_root [] (Rnode l r v) = radix_found l r v"
| "path_unlink at_root (x # p) (Rnode l r v) =
     (case path_unlink False p (if x then r else l) of
        Kept rc n k \<Rightarrow> Kept rc (if x then Rnode l n v else Rnode n r v) k
      | Unlinked k \<Rightarrow> if x then radix_parent at_root k l Rnull v else radix_parent at_root k Rnull r v)"

fun path_search :: "(nat \<Rightarrow> bool) \<Rightarrow> nat \<Rightarrow> 64 word \<Rightarrow> ngx_radix_node \<Rightarrow> 64 word" where
  "path_search f i value Rnull = value"
| "path_search f i value (Rnode l r v) =
     path_search f (Suc i) (if v \<noteq> NGX_RADIX_NO_VALUE then v else value) (if f i then r else l)"

text \<open>What the tree stands for.\<close>

fun radix_lookup :: "ngx_radix_node \<Rightarrow> bool list \<Rightarrow> 64 word option" where
  "radix_lookup Rnull p = None"
| "radix_lookup (Rnode l r v) [] = (if v = NGX_RADIX_NO_VALUE then None else Some v)"
| "radix_lookup (Rnode l r v) (x # p) = radix_lookup (if x then r else l) p"

definition radix_val :: "64 word \<Rightarrow> 64 word option" where
  "radix_val v = (if v = NGX_RADIX_NO_VALUE then None else Some v)"

lemma lookup_Nil [simp]: "radix_lookup (Rnode l r v) [] = radix_val v"
  by (simp add: radix_val_def)

declare radix_lookup.simps(2) [simp del]

lemma radix_val_NO [simp]: "radix_val NGX_RADIX_NO_VALUE = None"
  by (simp add: radix_val_def)

lemma lookup_empty [simp]: "radix_lookup (Rnode Rnull Rnull NGX_RADIX_NO_VALUE) = Map.empty"
proof
  fix q show "radix_lookup (Rnode Rnull Rnull NGX_RADIX_NO_VALUE) q = None" by (cases q) auto
qed

lemma lookup_Rnull [simp]: "radix_lookup Rnull = Map.empty"
  by auto

lemma lookup_child:
  "radix_lookup (if x then Rnode l n v else Rnode n r v) =
   (\<lambda>q. case q of [] \<Rightarrow> radix_val v | y # q' \<Rightarrow> if y = x then radix_lookup n q' else radix_lookup (if y then r else l) q')"
  by (auto simp: fun_eq_iff split: list.split)

lemma lookup_extend:
  "path_extend avail p value (Rnode l r v) = (rc, n, a) \<Longrightarrow> (p \<noteq> [] \<Longrightarrow> (if hd p then r else l) = Rnull) \<Longrightarrow>
   n \<noteq> Rnull \<and> (rc = NGX_OK \<and> radix_lookup n = (radix_lookup (Rnode l r v))(p := radix_val value) \<or>
   rc = NGX_ERROR \<and> avail < length p \<and> radix_lookup n = radix_lookup (Rnode l r v))"
proof (induction p arbitrary: avail l r v rc n a)
  case Nil
  then have "rc = NGX_OK" "n = Rnode l r value" by auto
  moreover have "radix_lookup (Rnode l r value) = (radix_lookup (Rnode l r v))([] := radix_val value)"
  proof
    fix q show "radix_lookup (Rnode l r value) q = ((radix_lookup (Rnode l r v))([] := radix_val value)) q" by (cases q) auto
  qed
  ultimately show ?case by simp
next
  case (Cons x p)
  show ?case
  proof (cases avail)
    case 0
    then show ?thesis using Cons.prems by (auto simp: ngx_radix_alloc_def)
  next
    case (Suc m)
    obtain rc' n' a' where e: "path_extend m p value (Rnode Rnull Rnull NGX_RADIX_NO_VALUE) = (rc', n', a')"
      by (cases "path_extend m p value (Rnode Rnull Rnull NGX_RADIX_NO_VALUE)") auto
    have IH: "rc' = NGX_OK \<and> radix_lookup n' = Map.empty(p := radix_val value) \<or>
        rc' = NGX_ERROR \<and> m < length p \<and> radix_lookup n' = Map.empty"
      using Cons.IH [OF e] by (simp add: fun_upd_def)
    have n: "rc = rc'" "n = (if x then Rnode l n' v else Rnode n' r v)"
      using Cons.prems(1) e Suc by (auto simp: ngx_radix_alloc_def)
    have null: "radix_lookup (if x then r else l) = Map.empty" using Cons.prems(2) by simp
    have old: "radix_lookup (Rnode l r v) = (\<lambda>q. case q of [] \<Rightarrow> radix_val v | y # q' \<Rightarrow> if y = x then None else radix_lookup (if y then r else l) q')"
      using null by (auto simp: fun_eq_iff split: list.split)
    have "radix_lookup n = (\<lambda>q. case q of [] \<Rightarrow> radix_val v | y # q' \<Rightarrow> if y = x then radix_lookup n' q' else radix_lookup (if y then r else l) q')"
      unfolding n(2) by (rule lookup_child)
    then show ?thesis using IH n Suc unfolding old by (auto simp: fun_eq_iff split: list.split)
  qed
qed

lemma lookup_insert:
  "path_insert avail p value t = (rc, n, a) \<Longrightarrow> t \<noteq> Rnull \<Longrightarrow>
   n \<noteq> Rnull \<and> (rc = NGX_BUSY \<and> radix_lookup t p \<noteq> None \<and> n = t \<or>
   rc = NGX_OK \<and> radix_lookup t p = None \<and> radix_lookup n = (radix_lookup t)(p := radix_val value) \<or>
   rc = NGX_ERROR \<and> radix_lookup t p = None \<and> avail < length p \<and> radix_lookup n = radix_lookup t)"
proof (induction avail p "value" t arbitrary: rc n a rule: path_insert.induct)
  case (2 avail val l r v)
  have upd: "radix_lookup (Rnode l r val) = (radix_lookup (Rnode l r v))([] := radix_val val)"
  proof
    fix q show "radix_lookup (Rnode l r val) q = ((radix_lookup (Rnode l r v))([] := radix_val val)) q" by (cases q) auto
  qed
  show ?case using 2 upd by (auto simp: radix_val_def split: if_splits)
next
  case (3 avail x p val l r v)
  let ?c = "if x then r else l"
  show ?case
  proof (cases "?c = Rnull")
    case True
    then have "path_extend avail (x # p) val (Rnode l r v) = (rc, n, a)" using "3.prems" by simp
    from lookup_extend [OF this] show ?thesis using True by auto
  next
    case False
    obtain rc' n' a' where e: "path_insert avail p val ?c = (rc', n', a')" by (cases "path_insert avail p val ?c") auto
    have n: "rc = rc'" "n = (if x then Rnode l n' v else Rnode n' r v)" using "3.prems" e False by (auto split: if_splits)
    note IH = "3.IH" [OF False e False]
    have "radix_lookup n = (\<lambda>q. case q of [] \<Rightarrow> radix_val v | y # q' \<Rightarrow> if y = x then radix_lookup n' q' else radix_lookup (if y then r else l) q')"
      unfolding n(2) by (rule lookup_child)
    moreover have "radix_lookup (Rnode l r v) = (\<lambda>q. case q of [] \<Rightarrow> radix_val v | y # q' \<Rightarrow> if y = x then radix_lookup ?c q' else radix_lookup (if y then r else l) q')"
      by (auto simp: fun_eq_iff split: list.split)
    ultimately show ?thesis using IH n
      by (auto simp: fun_eq_iff split: list.split if_splits)
  qed
qed simp

fun del_lookup :: "radix_del \<Rightarrow> bool list \<Rightarrow> 64 word option" where
  "del_lookup (Kept rc n k) = radix_lookup n"
| "del_lookup (Unlinked k) = Map.empty"

fun del_rc :: "radix_del \<Rightarrow> ngx_rc" where
  "del_rc (Kept rc n k) = rc"
| "del_rc (Unlinked k) = NGX_OK"

lemma lookup_Cons: "radix_lookup (Rnode l r v) = (\<lambda>q. case q of [] \<Rightarrow> radix_val v | y # q' \<Rightarrow> radix_lookup (if y then r else l) q')"
  by (auto simp: fun_eq_iff split: list.split)

lemma lookup_child_upd:
  "radix_lookup n' = (radix_lookup (if x then r else l))(p := z) \<Longrightarrow>
   radix_lookup (if x then Rnode l n' v else Rnode n' r v) = (radix_lookup (Rnode l r v))(x # p := z)"
  unfolding lookup_child lookup_Cons by (auto simp: fun_eq_iff split: list.split)

lemma lookup_parent: "del_rc (radix_parent at_root k l r v) = NGX_OK" "del_lookup (radix_parent at_root k l r v) = radix_lookup (Rnode l r v)"
  by (auto simp: radix_parent_def simp del: lookup_Rnull)

definition unlink_ok :: "bool list \<Rightarrow> ngx_radix_node \<Rightarrow> radix_del \<Rightarrow> bool" where
  "unlink_ok p t d \<longleftrightarrow> del_rc d = NGX_OK \<and> del_lookup d = (radix_lookup t)(p := None) \<or>
     (\<exists>k. d = Kept NGX_ERROR t k) \<and> radix_lookup t p = None"

lemma lookup_set_root: "(radix_lookup (Rnode l r v))([] := z) = (\<lambda>q. case q of [] \<Rightarrow> z | y # q' \<Rightarrow> radix_lookup (if y then r else l) q')"
  unfolding lookup_Cons by (auto simp: fun_eq_iff split: list.split)

lemma lookup_found: "unlink_ok [] (Rnode l r v) (radix_found l r v)"
proof (cases "l \<noteq> Rnull \<or> r \<noteq> Rnull")
  case True
  have "radix_lookup (Rnode l r NGX_RADIX_NO_VALUE) = (radix_lookup (Rnode l r v))([] := None)"
    unfolding lookup_set_root unfolding lookup_Cons by simp
  moreover have "radix_found l r v =
      (if v \<noteq> NGX_RADIX_NO_VALUE then Kept NGX_OK (Rnode l r NGX_RADIX_NO_VALUE) 0 else Kept NGX_ERROR (Rnode l r v) 0)"
    unfolding radix_found_def if_P [OF True] by (rule refl)
  ultimately show ?thesis unfolding unlink_ok_def by (cases "v = NGX_RADIX_NO_VALUE") simp_all
next
  case False
  then have n: "l = Rnull" "r = Rnull" by auto
  have "Map.empty = (radix_lookup (Rnode l r v))([] := None)"
    unfolding lookup_set_root n by (auto simp: fun_eq_iff split: list.split)
  moreover have "radix_found l r v = Unlinked 1" by (simp add: radix_found_def n)
  ultimately show ?thesis unfolding unlink_ok_def by simp
qed

lemma lookup_unlink: "unlink_ok p t (path_unlink at_root p t)"
proof (induction p arbitrary: t at_root)
  case Nil
  show ?case by (cases t) (simp_all add: lookup_found, simp add: unlink_ok_def)
next
  case (Cons x p)
  show ?case
  proof (cases t)
    case Rnull
    then show ?thesis by (simp add: unlink_ok_def)
  next
    case (Rnode l r v)
    let ?c = "if x then r else l"
    note IH = Cons.IH [of ?c False]
    show ?thesis
    proof (cases "path_unlink False p ?c")
      case (Kept rc n k)
      have out: "path_unlink at_root (x # p) (Rnode l r v) = Kept rc (if x then Rnode l n v else Rnode n r v) k"
        using Kept Rnode by simp
      consider "rc = NGX_OK" "radix_lookup n = (radix_lookup ?c)(p := None)" | "rc = NGX_ERROR" "n = ?c" "radix_lookup ?c p = None"
        using IH Kept by (auto simp: unlink_ok_def simp del: lookup_Rnull)
      then show ?thesis
      proof cases
        case 1
        then show ?thesis using lookup_child_upd [OF 1(2), of v] unfolding Rnode out unlink_ok_def by simp
      next
        case 2
        then show ?thesis unfolding Rnode out unlink_ok_def by simp
      qed
    next
      case (Unlinked k)
      then have "radix_lookup Rnull = (radix_lookup ?c)(p := None)" using IH by (simp add: unlink_ok_def)
      note l = lookup_child_upd [OF this, of v]
      have out: "path_unlink at_root (x # p) (Rnode l r v) = (if x then radix_parent at_root k l Rnull v else radix_parent at_root k Rnull r v)"
        using Unlinked Rnode by simp
      show ?thesis unfolding Rnode out unlink_ok_def l [symmetric] by (cases x) (simp_all only: if_True if_False lookup_parent, simp_all)
    qed
  qed
qed

lemma unlink_root:
  "(\<exists>k. path_unlink True p (Rnode l r v) = Unlinked k) \<longleftrightarrow> p = [] \<and> l = Rnull \<and> r = Rnull"
  by (cases p) (auto simp: radix_found_def radix_parent_def split: radix_del.splits)

lemma unlink_kept: "path_unlink at_root p t = Kept rc n k \<Longrightarrow> t \<noteq> Rnull \<Longrightarrow> n \<noteq> Rnull"
  by (cases t; cases p) (auto simp: radix_found_def radix_parent_def split: radix_del.splits if_splits)

text \<open>The search: the value of the longest prefix that has one.\<close>

fun longest_value :: "(bool list \<Rightarrow> 64 word option) \<Rightarrow> (nat \<Rightarrow> bool) \<Rightarrow> nat \<Rightarrow> 64 word option" where
  "longest_value m f 0 = m []"
| "longest_value m f (Suc n) = (case m (map f [0..<Suc n]) of Some v \<Rightarrow> Some v | None \<Rightarrow> longest_value m f n)"

fun radix_depth :: "ngx_radix_node \<Rightarrow> nat" where
  "radix_depth Rnull = 0"
| "radix_depth (Rnode l r v) = Suc (max (radix_depth l) (radix_depth r))"

lemma longest_value_shift:
  "longest_value m f (Suc n) = (case longest_value (\<lambda>q. m (f 0 # q)) (\<lambda>i. f (Suc i)) n of Some v \<Rightarrow> Some v | None \<Rightarrow> m [])"
proof (induction n)
  case (Suc n)
  have "map f [0..<Suc (Suc n)] = f 0 # map (\<lambda>i. f (Suc i)) [0..<Suc n]" by (simp only: upt_conv_Cons map_Suc_upt [symmetric] map_map comp_def list.map)
  then have eq: "map f [0..<Suc (Suc n)] = f 0 # map (\<lambda>i. f (Suc i)) [0..<Suc n]" .
  show ?case
    unfolding longest_value.simps(2) [of m f "Suc n"] longest_value.simps(2) [of "\<lambda>q. m (f 0 # q)"] eq Suc.IH
    by (cases "m (f 0 # map (\<lambda>i. f (Suc i)) [0..<Suc n])") (simp_all only: option.case)
qed (simp split: option.split)

lemma path_search_longest:
  "radix_depth t \<le> Suc n \<Longrightarrow> path_search f i value t =
     (case longest_value (radix_lookup t) (\<lambda>j. f (i + j)) n of Some v \<Rightarrow> v | None \<Rightarrow> value)"
proof (induction t arbitrary: i "value" n)
  case Rnull
  have "longest_value (radix_lookup Rnull) g n = None" for g by (induction n) auto
  then show ?case by simp
next
  case (Rnode l r v)
  let ?c = "if f i then r else l" and ?v = "if v \<noteq> NGX_RADIX_NO_VALUE then v else value"
  have d: "radix_depth ?c \<le> n" using Rnode.prems by (cases "f i") simp_all
  show ?case
  proof (cases n)
    case 0
    then have "?c = Rnull" using d by (cases ?c) simp_all
    then show ?thesis using 0 by (simp add: radix_val_def)
  next
    case (Suc m)
    have "path_search f (Suc i) ?v ?c = (case longest_value (radix_lookup ?c) (\<lambda>j. f (Suc i + j)) m of Some v \<Rightarrow> v | None \<Rightarrow> ?v)"
      using Rnode.IH(1) [of m "Suc i" ?v] Rnode.IH(2) [of m "Suc i" ?v] d Suc by (cases "f i") simp_all
    moreover have "longest_value (radix_lookup (Rnode l r v)) (\<lambda>j. f (i + j)) (Suc m) =
        (case longest_value (radix_lookup ?c) (\<lambda>j. f (Suc i + j)) m of Some v \<Rightarrow> Some v | None \<Rightarrow> radix_val v)"
      unfolding longest_value_shift lookup_Nil radix_lookup.simps(3) by simp
    ultimately show ?thesis using Suc by (simp add: radix_val_def split: option.split)
  qed
qed

text \<open>The depth grows at most to the length of the inserted prefix.\<close>

lemma depth_extend: "path_extend avail p v n = (rc, n', a) \<Longrightarrow> n \<noteq> Rnull \<Longrightarrow> radix_depth n' \<le> max (radix_depth n) (Suc (length p))"
proof (induction p arbitrary: avail n rc n' a)
  case Nil
  then show ?case by (cases n) auto
next
  case (Cons x p)
  show ?case
  proof (cases avail)
    case 0
    then show ?thesis using Cons.prems by (simp add: ngx_radix_alloc_def)
  next
    case (Suc m)
    obtain rc1 n1 a1 where e: "path_extend m p v (Rnode Rnull Rnull NGX_RADIX_NO_VALUE) = (rc1, n1, a1)"
      by (cases "path_extend m p v (Rnode Rnull Rnull NGX_RADIX_NO_VALUE)") auto
    have "radix_depth n1 \<le> Suc (length p)" using Cons.IH [OF e] by simp
    then show ?thesis using Cons.prems e Suc by (cases n) (auto simp: ngx_radix_alloc_def)
  qed
qed

lemma depth_insert: "path_insert avail p v t = (rc, n, a) \<Longrightarrow> t \<noteq> Rnull \<Longrightarrow> radix_depth n \<le> max (radix_depth t) (Suc (length p))"
proof (induction avail p v t arbitrary: rc n a rule: path_insert.induct)
  case (3 avail x p val l r v)
  let ?c = "if x then r else l"
  show ?case
  proof (cases "?c = Rnull")
    case True
    then have "path_extend avail (x # p) val (Rnode l r v) = (rc, n, a)" using "3.prems" by (simp del: path_extend.simps)
    from depth_extend [OF this] show ?thesis by simp
  next
    case False
    obtain rc' n' a' where e: "path_insert avail p val ?c = (rc', n', a')" by (cases "path_insert avail p val ?c") auto
    have "radix_depth n' \<le> max (radix_depth ?c) (Suc (length p))" using "3.IH" [OF False e False] .
    then show ?thesis using "3.prems" e False by (auto split: if_splits)
  qed
qed (auto split: if_splits)

lemma depth_unlink: "path_unlink at_root p t = Kept rc n k \<Longrightarrow> radix_depth n \<le> radix_depth t"
proof (induction p arbitrary: at_root t rc n k)
  case Nil
  then show ?case by (cases t) (auto simp: radix_found_def split: if_splits)
next
  case (Cons x p)
  show ?case
  proof (cases t)
    case (Rnode l r v)
    then show ?thesis using Cons.prems Cons.IH [of False "if x then r else l"]
      by (cases "path_unlink False p (if x then r else l)") (auto simp: radix_parent_def split: if_splits)
  qed (use Cons.prems in simp)
qed


subsection \<open>The two widths\<close>

text \<open>What both widths promise: an address is a sequence of bits, an address with a mask a prefix of it.\<close>

locale radix_width =
  fixes pre :: "'k \<Rightarrow> bool list" and bits :: "'a \<Rightarrow> nat \<Rightarrow> bool" and width :: nat
    and ins :: "nat \<Rightarrow> ngx_radix_node \<Rightarrow> 'k \<Rightarrow> 64 word \<Rightarrow> ngx_rc \<times> ngx_radix_node \<times> nat"
    and del :: "nat \<Rightarrow> ngx_radix_node \<Rightarrow> 'k \<Rightarrow> (ngx_rc \<times> ngx_radix_node \<times> nat) option"
    and get :: "ngx_radix_node \<Rightarrow> 'a \<Rightarrow> 64 word"
  assumes pre_width: "length (pre k) \<le> width"
    and ins_path: "ins avail t k v = path_insert avail (pre k) v t"
    and del_path: "del avail t k = radix_deleted avail (path_unlink True (pre k) t)"
    and get_path: "get t a = path_search (bits a) 0 NGX_RADIX_NO_VALUE t"
begin

lemma get_longest:
  assumes "radix_depth t \<le> Suc width"
  shows "get t a = (case longest_value (radix_lookup t) (bits a) width of Some v \<Rightarrow> v | None \<Rightarrow> NGX_RADIX_NO_VALUE)"
  using path_search_longest [OF assms, of "bits a" 0] by (simp add: get_path)

lemma ins_lookup:
  assumes "ins avail t k v = (rc, n, a)" "t \<noteq> Rnull"
  shows "n \<noteq> Rnull \<and> (radix_depth t \<le> Suc width \<longrightarrow> radix_depth n \<le> Suc width) \<and>
    (rc = NGX_BUSY \<and> radix_lookup t (pre k) \<noteq> None \<and> n = t \<or>
     rc = NGX_OK \<and> radix_lookup t (pre k) = None \<and> radix_lookup n = (radix_lookup t)(pre k := radix_val v) \<or>
     rc = NGX_ERROR \<and> radix_lookup t (pre k) = None \<and> avail < length (pre k) \<and> radix_lookup n = radix_lookup t)"
  using lookup_insert [OF assms(1) [unfolded ins_path] assms(2)] depth_insert [OF assms(1) [unfolded ins_path] assms(2)]
    pre_width [of k] by auto

lemma del_lookup_pre:
  assumes "t \<noteq> Rnull"
  shows "case del avail t k of None \<Rightarrow> pre k = [] \<and> rn_left t = Rnull \<and> rn_right t = Rnull
    | Some (rc, n, a) \<Rightarrow> n \<noteq> Rnull \<and> (radix_depth t \<le> Suc width \<longrightarrow> radix_depth n \<le> Suc width) \<and>
       (rc = NGX_OK \<and> radix_lookup n = (radix_lookup t)(pre k := None) \<or>
        rc = NGX_ERROR \<and> radix_lookup t (pre k) = None \<and> n = t)"
proof (cases "path_unlink True (pre k) t")
  case (Kept rc n c)
  have "n \<noteq> Rnull" using unlink_kept [OF Kept assms] .
  then show ?thesis
    using Kept lookup_unlink [of "pre k" t True] depth_unlink [OF Kept] by (auto simp: del_path radix_deleted_def unlink_ok_def)
next
  case (Unlinked c)
  obtain l r v where "t = Rnode l r v" using assms by (cases t) auto
  then show ?thesis using Unlinked unlink_root [of "pre k" l r v] by (auto simp: del_path radix_deleted_def)
qed

end

subsection \<open>32 and 128 bits as widths\<close>

function radix32_pre :: "32 word \<Rightarrow> 32 word \<times> 32 word \<Rightarrow> bool list" where
  "radix32_pre b k = (if b AND snd k = 0 then [] else (fst k AND b \<noteq> 0) # radix32_pre (drop_bit 1 b) k)"
  by pat_completeness auto

termination radix32_pre
  by (relation "measure (\<lambda>(b, _). unat b)") (auto intro: drop_bit_less)

declare radix32_pre.simps [simp del]

lemma radix32_extend_path: "radix32_extend avail b key msk v n = path_extend avail (radix32_pre b (key, msk)) v n"
proof (induction avail b key msk v n rule: radix32_extend.induct)
  case (1 avail b key msk v n)
  then show ?case
    by (subst radix32_extend.simps, subst radix32_pre.simps) (auto split: option.split)
qed

lemma radix32_descend_path: "radix32_descend avail b key msk v t = path_insert avail (radix32_pre b (key, msk)) v t"
proof (induction avail b key msk v t rule: radix32_descend.induct)
  case (2 avail b key msk v l r w)
  show ?case
  proof (cases "b AND msk = 0")
    case True
    then show ?thesis by (simp add: radix32_pre.simps [of b])
  next
    case False
    then have "radix32_pre b (key, msk) = (key AND b \<noteq> 0) # radix32_pre (drop_bit 1 b) (key, msk)"
      by (simp add: radix32_pre.simps [of b])
    then show ?thesis using 2 False by (simp add: radix32_extend_path del: path_extend.simps)
  qed
qed simp

lemma radix32_unlink_path: "radix32_unlink a b key msk t = path_unlink a (radix32_pre b (key, msk)) t"
proof (induction a b key msk t rule: radix32_unlink.induct)
  case (2 a b key msk l r v)
  show ?case
  proof (cases "b AND msk = 0")
    case True
    then show ?thesis by (simp add: radix32_pre.simps [of b])
  next
    case False
    then have "radix32_pre b (key, msk) = (key AND b \<noteq> 0) # radix32_pre (drop_bit 1 b) (key, msk)"
      by (simp add: radix32_pre.simps [of b])
    then show ?thesis using 2 False by (simp split: radix_del.split)
  qed
qed simp

definition radix32_bits :: "32 word \<Rightarrow> nat \<Rightarrow> bool" where
  "radix32_bits key i \<longleftrightarrow> key AND drop_bit i 0x80000000 \<noteq> 0"

lemma radix32_search_path:
  "radix32_search (drop_bit i b) key v t = path_search (\<lambda>j. key AND drop_bit j b \<noteq> 0) i v t"
proof (induction t arbitrary: i v)
  case (Rnode l r w)
  have "drop_bit 1 (drop_bit i b) = drop_bit (Suc i) b" by (simp only: drop_bit_drop_bit Suc_eq_plus1_left)
  then show ?case using Rnode by (simp add: Let_def del: drop_bit_drop_bit)
qed simp

lemma radix32_pre_width: "length (radix32_pre b k) \<le> n" if "unat b < 2 ^ n"
  using that
proof (induction n arbitrary: b)
  case 0
  then have "b = 0" by (simp add: unat_eq_0)
  then show ?case by (subst radix32_pre.simps) simp
next
  case (Suc n)
  have "unat (drop_bit 1 b) < 2 ^ n" using Suc.prems by (subst unat_drop_bit_eq) (simp add: drop_bit_eq_div)
  then show ?case using Suc.IH [of "drop_bit 1 b"] by (subst radix32_pre.simps) simp
qed

interpretation r32: radix_width "radix32_pre 0x80000000" radix32_bits 32
  "\<lambda>avail t k v. ngx_radix32tree_insert avail t (fst k) (snd k) v"
  "\<lambda>avail t k. ngx_radix32tree_delete avail t (fst k) (snd k)" ngx_radix32tree_find
  by unfold_locales (auto simp: ngx_radix32tree_insert_def ngx_radix32tree_delete_def ngx_radix32tree_find_def
      radix32_descend_path radix32_unlink_path radix32_search_path [of 0 "0x80000000", simplified] radix32_bits_def [abs_def] intro: radix32_pre_width)

function radix128_pre :: "nat \<times> byte \<Rightarrow> bytes \<times> bytes \<Rightarrow> bool list" where
  "radix128_pre ib k =
     (if \<not> radix128_more (snd k) ib then [] else (fst k ! fst ib AND snd ib \<noteq> 0) # radix128_pre (radix128_next ib) k)"
  by pat_completeness auto

termination radix128_pre
  by (relation "measure (\<lambda>(ib, _). radix128_measure ib)") (auto intro!: radix128_next_less simp: radix128_more_def)

declare radix128_pre.simps [simp del]

lemma radix128_extend_path: "radix128_extend avail b key msk v n = path_extend avail (radix128_pre b (key, msk)) v n"
proof (induction avail b key msk v n rule: radix128_extend.induct)
  case (1 avail b key msk v n)
  then show ?case
    by (subst radix128_extend.simps, subst radix128_pre.simps) (auto split: option.split)
qed

lemma radix128_descend_path: "radix128_descend avail b key msk v t = path_insert avail (radix128_pre b (key, msk)) v t"
proof (induction avail b key msk v t rule: radix128_descend.induct)
  case (2 avail b key msk v l r w)
  show ?case
  proof (cases "radix128_more msk b")
    case False
    then show ?thesis by (simp add: radix128_pre.simps [of b])
  next
    case True
    then have "radix128_pre b (key, msk) = (key ! fst b AND snd b \<noteq> 0) # radix128_pre (radix128_next b) (key, msk)"
      by (simp add: radix128_pre.simps [of b])
    then show ?thesis using 2 True by (simp add: radix128_extend_path del: path_extend.simps)
  qed
qed simp

lemma radix128_unlink_path: "radix128_unlink a b key msk t = path_unlink a (radix128_pre b (key, msk)) t"
proof (induction a b key msk t rule: radix128_unlink.induct)
  case (2 a b key msk l r v)
  show ?case
  proof (cases "radix128_more msk b")
    case False
    then show ?thesis by (simp add: radix128_pre.simps [of b])
  next
    case True
    then have "radix128_pre b (key, msk) = (key ! fst b AND snd b \<noteq> 0) # radix128_pre (radix128_next b) (key, msk)"
      by (simp add: radix128_pre.simps [of b])
    then show ?thesis using 2 True by (simp split: radix_del.split)
  qed
qed simp

definition radix128_bits :: "byte \<Rightarrow> bytes \<Rightarrow> nat \<Rightarrow> bool" where
  "radix128_bits beyond key i \<longleftrightarrow>
     (if i < 128 then key ! (i div 8) else beyond) AND drop_bit (i mod 8) 0x80 \<noteq> 0"

lemma byte_bits:
  "\<forall>m \<in> set [0..<8]. drop_bit 1 (drop_bit m (0x80 :: byte)) = (if m = 7 then 0 else drop_bit (Suc m) 0x80)
     \<and> (m \<noteq> 7 \<longrightarrow> drop_bit (Suc m) (0x80 :: byte) \<noteq> 0)"
  by code_simp

lemma radix128_next_bits: "radix128_next (i div 8, drop_bit (i mod 8) 0x80) = (Suc i div 8, drop_bit (Suc i mod 8) 0x80)"
proof -
  have m: "i mod 8 \<in> set [0..<8]" by simp
  note b = bspec [OF byte_bits m]
  show ?thesis
  proof (cases "i mod 8 = 7")
    case True
    then have "Suc i mod 8 = 0" "Suc i div 8 = Suc (i div 8)" by presburger+
    then show ?thesis using b True by (simp add: radix128_next_def)
  next
    case False
    then have "Suc i mod 8 = Suc (i mod 8)" "Suc i div 8 = i div 8" by presburger+
    then show ?thesis using b False by (simp add: radix128_next_def Let_def)
  qed
qed

lemma radix128_search_path:
  "radix128_search beyond (i div 8, drop_bit (i mod 8) 0x80) key v t = path_search (radix128_bits beyond key) i v t"
proof (induction t arbitrary: i v)
  case (Rnode l r w)
  have "i div 8 < 16 \<longleftrightarrow> i < 128" by (auto simp: div_less_iff_less_mult)
  then show ?case using Rnode radix128_next_bits [of i] by (simp add: Let_def radix128_bits_def)
qed simp

lemma radix128_pre_length: "length (radix128_pre (i div 8, drop_bit (i mod 8) 0x80) k) \<le> 128 - i"
proof (induction "128 - i" arbitrary: i)
  case 0
  then have "\<not> i div 8 < 16" by (simp add: div_less_iff_less_mult)
  then show ?case by (subst radix128_pre.simps) (simp add: radix128_more_def)
next
  case (Suc n)
  have "length (radix128_pre (Suc i div 8, drop_bit (Suc i mod 8) 0x80) k) \<le> 128 - Suc i"
    by (rule Suc.hyps(1)) (use Suc.hyps(2) in simp)
  then show ?case using Suc.hyps(2) by (subst radix128_pre.simps) (auto simp: radix128_next_bits)
qed

lemma radix128_pre_width: "length (radix128_pre (0, 0x80) k) \<le> 128"
  using radix128_pre_length [of 0 k] by simp

interpretation r128: radix_width "radix128_pre (0, 0x80)" "radix128_bits beyond" 128
  "\<lambda>avail t k v. ngx_radix128tree_insert avail t (fst k) (snd k) v"
  "\<lambda>avail t k. ngx_radix128tree_delete avail t (fst k) (snd k)" "ngx_radix128tree_find beyond"
  by unfold_locales (auto simp: ngx_radix128tree_insert_def ngx_radix128tree_delete_def ngx_radix128tree_find_def
      radix128_descend_path radix128_unlink_path radix128_search_path [where i = 0, simplified] intro: radix128_pre_width)


subsection \<open>Properties\<close>

lemma radix32_pre_cidr:
  assumes "\<And>i. i < 32 \<Longrightarrow> radix32_bits msk i \<longleftrightarrow> i < n" "n \<le> 32"
  shows "radix32_pre (drop_bit i 0x80000000) (key, msk) = map (radix32_bits key) [i..<n]"
proof (induction "32 - i" arbitrary: i)
  case 0
  have "unat (drop_bit i 0x80000000 :: 32 word) < 1"
  proof -
    have "(2 :: nat) ^ 32 \<le> 2 ^ i" using 0 by (intro power_increasing) simp_all
    then have "2147483648 < (2 :: nat) ^ i" by simp
    then show ?thesis by (subst unat_drop_bit_eq) (simp add: drop_bit_eq_div)
  qed
  then have "(drop_bit i 0x80000000 :: 32 word) = 0" by (simp add: unat_eq_0)
  then show ?case using 0 assms(2) by (subst radix32_pre.simps) simp
next
  case (Suc k)
  then have i: "i < 32" by simp
  have "radix32_pre (drop_bit (Suc i) 0x80000000) (key, msk) = map (radix32_bits key) [Suc i..<n]"
    by (rule Suc.hyps(1)) (use Suc.hyps(2) in simp)
  moreover have "drop_bit 1 (drop_bit i 0x80000000) = (drop_bit (Suc i) 0x80000000 :: 32 word)"
    by (simp only: drop_bit_drop_bit Suc_eq_plus1_left)
  moreover have "drop_bit i 0x80000000 AND msk \<noteq> 0 \<longleftrightarrow> i < n"
    using assms(1) [OF i] by (simp add: radix32_bits_def and.commute)
  ultimately show ?case
    by (subst radix32_pre.simps) (auto simp: radix32_bits_def upt_conv_Cons)
qed

definition fresh :: "ngx_radix_node \<Rightarrow> bool" where
  "fresh t \<longleftrightarrow> t \<noteq> Rnull \<and> radix_lookup t = Map.empty \<and> radix_depth t \<le> 33"

lemma fresh_insert:
  assumes "fresh t" "ngx_radix32tree_insert avail t key msk NGX_RADIX_NO_VALUE = (rc, u, a)"
  shows "fresh u"
proof -
  have "ngx_radix32tree_insert avail t (fst (key, msk)) (snd (key, msk)) NGX_RADIX_NO_VALUE = (rc, u, a)" using assms(2) by simp
  from r32.ins_lookup [OF this] show ?thesis using assms(1) by (auto simp: fresh_def)
qed

lemma prefill_returns:
  assumes "e < 32" "i < 2 ^ (32 - e)" "fresh t"
  shows "\<exists>r. radix_prefill (2 ^ e) msk (of_nat (i * 2 ^ e)) avail t = Some r \<and> (\<forall>u a. r = Some (u, a) \<longrightarrow> fresh u)"
  using assms
proof (induction "2 ^ (32 - e) - i" arbitrary: i t avail)
  case 0
  then show ?case by simp
next
  case (Suc k)
  let ?key = "of_nat (i * 2 ^ e) :: 32 word"
  obtain rc u a where ins: "ngx_radix32tree_insert avail t ?key msk NGX_RADIX_NO_VALUE = (rc, u, a)"
    by (cases "ngx_radix32tree_insert avail t ?key msk NGX_RADIX_NO_VALUE") auto
  have u: "fresh u" using fresh_insert [OF Suc.prems(3) ins] .
  have nxt: "?key + 2 ^ e = of_nat (Suc i * 2 ^ e)" by (simp add: algebra_simps)
  show ?case
  proof (cases "rc = NGX_OK \<and> ?key + 2 ^ e \<noteq> 0")
    case False
    then show ?thesis using ins u by (subst radix_prefill.simps) auto
  next
    case True
    have "Suc i \<noteq> 2 ^ (32 - e)"
    proof
      assume "Suc i = 2 ^ (32 - e)"
      then have "Suc i * 2 ^ e = 2 ^ 32" using assms(1) by (simp add: power_add [symmetric] del: mult_Suc)
      then show False using True nxt by (simp del: mult_Suc)
    qed
    then have "Suc i < 2 ^ (32 - e)" using Suc.prems(2) by simp
    then have "\<exists>r. radix_prefill (2 ^ e) msk (of_nat (Suc i * 2 ^ e)) a u = Some r \<and> (\<forall>u a. r = Some (u, a) \<longrightarrow> fresh u)"
      using Suc.hyps(1) [of "Suc i" u a] Suc.hyps(2) Suc.prems(1) u by simp
    then show ?thesis using True ins unfolding nxt [symmetric] by (subst radix_prefill.simps) simp
  qed
qed

lemma levels_return:
  "fresh t \<Longrightarrow> inc = 0 \<or> (\<exists>e < 32. inc = 2 ^ e) \<Longrightarrow>
   \<exists>r. radix_levels n inc msk avail t = Some r \<and> (\<forall>u a. r = Some (u, a) \<longrightarrow> fresh u)"
proof (induction n arbitrary: inc msk avail t)
  case (Suc n)
  let ?msk = "drop_bit 1 msk OR 0x80000000"
  have "\<exists>r. radix_prefill inc ?msk 0 avail t = Some r \<and> (\<forall>u a. r = Some (u, a) \<longrightarrow> fresh u)"
  proof (cases "inc = 0")
    case True
    then show ?thesis using Suc.prems(1) fresh_insert by (subst radix_prefill.simps) (auto split: prod.split)
  next
    case False
    then obtain e where e: "e < 32" "inc = 2 ^ e" using Suc.prems(2) by blast
    then show ?thesis using prefill_returns [of e 0 t ?msk avail] Suc.prems(1) by simp
  qed
  then obtain r where r: "radix_prefill inc ?msk 0 avail t = Some r" "\<forall>u a. r = Some (u, a) \<longrightarrow> fresh u" by blast
  have inc: "drop_bit 1 inc = 0 \<or> (\<exists>e < 32. drop_bit 1 inc = 2 ^ e)"
  proof (cases "inc = 0")
    case False
    then obtain e where e: "e < 32" "inc = 2 ^ e" using Suc.prems(2) by blast
    show ?thesis
    proof (cases e)
      case (Suc k)
      have "drop_bit 1 inc = 2 ^ k" unfolding e(2) Suc drop_bit_exp_eq using e(1) Suc by simp
      then show ?thesis using e(1) Suc by (intro disjI2 exI [of _ k]) simp
    qed (use e in \<open>simp add: drop_bit_exp_eq\<close>)
  qed simp
  show ?case
  proof (cases r)
    case (Some ua)
    then show ?thesis using r Suc.IH [OF _ inc] by (cases ua) (simp add: Let_def)
  qed (use r in \<open>simp add: Let_def\<close>)
qed simp

text \<open>A new tree is always returned, or a null pointer when an allocation fails; it holds no network, whatever
  is allocated in advance.\<close>

theorem radix_create_empty:
  "\<exists>r. ngx_radix_tree_create pagesize avail preallocate = Some r \<and>
     (\<forall>t a. r = Some (t, a) \<longrightarrow> t \<noteq> Rnull \<and> radix_lookup t = Map.empty \<and> radix_depth t \<le> 33)"
proof (cases avail)
  case (Suc m)
  have f: "fresh (Rnode Rnull Rnull NGX_RADIX_NO_VALUE)" by (simp add: fresh_def)
  have two: "(0x80000000 :: 32 word) = 0 \<or> (\<exists>e < 32. (0x80000000 :: 32 word) = 2 ^ e)"
    by (rule disjI2, rule exI [of _ 31]) simp
  have l: "\<exists>r. radix_levels n 0x80000000 0 m (Rnode Rnull Rnull NGX_RADIX_NO_VALUE) = Some r \<and> (\<forall>u a. r = Some (u, a) \<longrightarrow> fresh u)" for n
    by (rule levels_return [OF f two])
  show ?thesis
  proof (cases "preallocate = 0")
    case True
    then show ?thesis using Suc f by (simp add: ngx_radix_tree_create_def ngx_radix_alloc_def fresh_def)
  next
    case False
    let ?n = "nat (if preallocate = -1 then (if pagesize div 32 = 128 then 6 else if pagesize div 32 = 256 then 7 else 8) else preallocate)"
    have "ngx_radix_tree_create pagesize avail preallocate = radix_levels ?n 0x80000000 0 m (Rnode Rnull Rnull NGX_RADIX_NO_VALUE)"
      using Suc False unfolding ngx_radix_tree_create_def ngx_radix_alloc_def Let_def by simp
    then show ?thesis using l [of ?n] unfolding fresh_def by simp
  qed
qed (simp add: ngx_radix_tree_create_def ngx_radix_alloc_def)

text \<open>C13. The tree of 32-bit addresses is a table of networks. Inserting adds the value at the network's prefix, is
  refused with \<open>NGX_BUSY\<close> exactly when the prefix has one, and fails only when nodes run out, without an effect on
  the table. Deleting removes the prefix; it is undefined only for the prefix of length 0 in a tree without
  other nodes. The search gives the value of the longest prefix of the address.\<close>

theorem radix32_route_table:
  assumes "t \<noteq> Rnull" "radix_depth t \<le> 33"
  shows "(case ngx_radix32tree_insert avail t key msk v of (rc, n, a) \<Rightarrow>
      n \<noteq> Rnull \<and> radix_depth n \<le> 33 \<and>
      (let p = radix32_pre 0x80000000 (key, msk) in
       if radix_lookup t p \<noteq> None then rc = NGX_BUSY \<and> n = t
       else rc = NGX_OK \<and> radix_lookup n = (radix_lookup t)(p := radix_val v) \<or>
         rc = NGX_ERROR \<and> avail < length p \<and> radix_lookup n = radix_lookup t)) \<and>
    (case ngx_radix32tree_delete avail t key msk of
       None \<Rightarrow> radix32_pre 0x80000000 (key, msk) = [] \<and> rn_left t = Rnull \<and> rn_right t = Rnull
     | Some (rc, n, a) \<Rightarrow> n \<noteq> Rnull \<and> radix_depth n \<le> 33 \<and>
        (let p = radix32_pre 0x80000000 (key, msk) in
         rc = NGX_OK \<and> radix_lookup n = (radix_lookup t)(p := None) \<or> rc = NGX_ERROR \<and> radix_lookup t p = None \<and> n = t)) \<and>
    ngx_radix32tree_find t address =
      (case longest_value (radix_lookup t) (radix32_bits address) 32 of Some v \<Rightarrow> v | None \<Rightarrow> NGX_RADIX_NO_VALUE)"
proof (intro conjI)
  show "case ngx_radix32tree_insert avail t key msk v of (rc, n, a) \<Rightarrow>
      n \<noteq> Rnull \<and> radix_depth n \<le> 33 \<and>
      (let p = radix32_pre 0x80000000 (key, msk) in
       if radix_lookup t p \<noteq> None then rc = NGX_BUSY \<and> n = t
       else rc = NGX_OK \<and> radix_lookup n = (radix_lookup t)(p := radix_val v) \<or>
         rc = NGX_ERROR \<and> avail < length p \<and> radix_lookup n = radix_lookup t)"
  proof (cases "ngx_radix32tree_insert avail t key msk v")
    case (fields rc n a)
    then have "ngx_radix32tree_insert avail t (fst (key, msk)) (snd (key, msk)) v = (rc, n, a)" by simp
    from r32.ins_lookup [OF this assms(1)] show ?thesis using assms(2) fields by auto
  qed
  show "case ngx_radix32tree_delete avail t key msk of
       None \<Rightarrow> radix32_pre 0x80000000 (key, msk) = [] \<and> rn_left t = Rnull \<and> rn_right t = Rnull
     | Some (rc, n, a) \<Rightarrow> n \<noteq> Rnull \<and> radix_depth n \<le> 33 \<and>
        (let p = radix32_pre 0x80000000 (key, msk) in
         rc = NGX_OK \<and> radix_lookup n = (radix_lookup t)(p := None) \<or> rc = NGX_ERROR \<and> radix_lookup t p = None \<and> n = t)"
    using r32.del_lookup_pre [OF assms(1), where avail = avail and k = "(key, msk)"] assms(2) by (auto split: option.splits)
  show "ngx_radix32tree_find t address =
      (case longest_value (radix_lookup t) (radix32_bits address) 32 of Some v \<Rightarrow> v | None \<Rightarrow> NGX_RADIX_NO_VALUE)"
    by (rule r32.get_longest) (use assms(2) in simp)
qed

theorem radix32_route_table_witness:
  "(case ngx_radix32tree_insert 8 (Rnode Rnull Rnull NGX_RADIX_NO_VALUE) 0x80000000 0xc0000000 5 of
      (rc, n, a) \<Rightarrow> n \<noteq> Rnull \<and> radix_depth n \<le> 33)"
  using radix32_route_table [where t = "Rnode Rnull Rnull NGX_RADIX_NO_VALUE" and avail = 8 and key = "0x80000000"
      and msk = "0xc0000000" and v = 5]
  by (auto split: prod.splits)

text \<open>C14. The same for the tree of 128-bit addresses. Its search reads one byte behind an address that has a node of
  depth 128, and the result does not depend on that byte.\<close>

theorem radix128_route_table:
  assumes "t \<noteq> Rnull" "radix_depth t \<le> 129"
  shows "(case ngx_radix128tree_insert avail t key msk v of (rc, n, a) \<Rightarrow>
      n \<noteq> Rnull \<and> radix_depth n \<le> 129 \<and>
      (let p = radix128_pre (0, 0x80) (key, msk) in
       if radix_lookup t p \<noteq> None then rc = NGX_BUSY \<and> n = t
       else rc = NGX_OK \<and> radix_lookup n = (radix_lookup t)(p := radix_val v) \<or>
         rc = NGX_ERROR \<and> avail < length p \<and> radix_lookup n = radix_lookup t)) \<and>
    (case ngx_radix128tree_delete avail t key msk of
       None \<Rightarrow> radix128_pre (0, 0x80) (key, msk) = [] \<and> rn_left t = Rnull \<and> rn_right t = Rnull
     | Some (rc, n, a) \<Rightarrow> n \<noteq> Rnull \<and> radix_depth n \<le> 129 \<and>
        (let p = radix128_pre (0, 0x80) (key, msk) in
         rc = NGX_OK \<and> radix_lookup n = (radix_lookup t)(p := None) \<or> rc = NGX_ERROR \<and> radix_lookup t p = None \<and> n = t)) \<and>
    ngx_radix128tree_find beyond t address =
      (case longest_value (radix_lookup t) (radix128_bits 0 address) 128 of Some v \<Rightarrow> v | None \<Rightarrow> NGX_RADIX_NO_VALUE)"
proof (intro conjI)
  show "case ngx_radix128tree_insert avail t key msk v of (rc, n, a) \<Rightarrow>
      n \<noteq> Rnull \<and> radix_depth n \<le> 129 \<and>
      (let p = radix128_pre (0, 0x80) (key, msk) in
       if radix_lookup t p \<noteq> None then rc = NGX_BUSY \<and> n = t
       else rc = NGX_OK \<and> radix_lookup n = (radix_lookup t)(p := radix_val v) \<or>
         rc = NGX_ERROR \<and> avail < length p \<and> radix_lookup n = radix_lookup t)"
  proof (cases "ngx_radix128tree_insert avail t key msk v")
    case (fields rc n a)
    then have "ngx_radix128tree_insert avail t (fst (key, msk)) (snd (key, msk)) v = (rc, n, a)" by simp
    from r128.ins_lookup [OF this assms(1)] show ?thesis using assms(2) fields by auto
  qed
  show "case ngx_radix128tree_delete avail t key msk of
       None \<Rightarrow> radix128_pre (0, 0x80) (key, msk) = [] \<and> rn_left t = Rnull \<and> rn_right t = Rnull
     | Some (rc, n, a) \<Rightarrow> n \<noteq> Rnull \<and> radix_depth n \<le> 129 \<and>
        (let p = radix128_pre (0, 0x80) (key, msk) in
         rc = NGX_OK \<and> radix_lookup n = (radix_lookup t)(p := None) \<or> rc = NGX_ERROR \<and> radix_lookup t p = None \<and> n = t)"
    using r128.del_lookup_pre [OF assms(1), where avail = avail and k = "(key, msk)"] assms(2) by (auto split: option.splits)
  have ext: "longest_value m f n = longest_value m g n" if "\<And>i. i < n \<Longrightarrow> f i = g i" for m f g n
    using that
  proof (induction n)
    case (Suc n)
    have m: "map f [0..<Suc n] = map g [0..<Suc n]" by (rule map_cong) (use Suc.prems in auto)
    have e: "longest_value m f n = longest_value m g n" by (rule Suc.IH) (use Suc.prems in simp)
    show ?case unfolding longest_value.simps(2) m e by (rule refl)
  qed simp
  have "longest_value (radix_lookup t) (radix128_bits beyond address) 128 = longest_value (radix_lookup t) (radix128_bits 0 address) 128"
    by (rule ext) (simp add: radix128_bits_def)
  then show "ngx_radix128tree_find beyond t address =
      (case longest_value (radix_lookup t) (radix128_bits 0 address) 128 of Some v \<Rightarrow> v | None \<Rightarrow> NGX_RADIX_NO_VALUE)"
    using r128.get_longest [of t beyond address] assms(2) by simp
qed

theorem radix128_route_table_witness:
  "(case ngx_radix128tree_insert 200 (Rnode Rnull Rnull NGX_RADIX_NO_VALUE) (replicate 16 0) (replicate 16 0xff) 5 of
      (rc, n, a) \<Rightarrow> n \<noteq> Rnull \<and> radix_depth n \<le> 129)"
  using radix128_route_table [where t = "Rnode Rnull Rnull NGX_RADIX_NO_VALUE" and avail = 200 and key = "replicate 16 0"
      and msk = "replicate 16 0xff" and v = 5]
  by (auto split: prod.splits)

end
