(* ===== verification/Ngx_Printf.thy ===== *)
theory Ngx_Printf
  imports Ngx_Number
begin

section \<open>Formatted printing\<close>

text \<open>
  \<open>ngx_vslprintf\<close> of \<open>src/core/ngx_string.c\<close> with \<open>ngx_sprintf_num\<close> and \<open>ngx_sprintf_str\<close>: every conversion, flag
  and width. \<open>room\<close> is \<open>last - buf\<close> and a result is the bytes that are written. The format is the bytes before its
  NUL. \<open>None\<close> is what C leaves undefined: a conversion behind the end of the format, a read behind the end of a string,
  or an argument that is missing or of another type.

  An integer argument is its value; each conversion reads it at the width of its type, with or without a sign. A
  \<open>double\<close> is what the conversion takes from it: whether it is below zero, the integral part of its magnitude, and
  the rounded fraction at a scale.
\<close>

subsection \<open>Numbers and strings\<close>

fun decimal_digits :: "nat \<Rightarrow> bytes" where
  "decimal_digits n = (if n div 10 = 0 then [] else decimal_digits (n div 10)) @ [of_nat (n mod 10) + ch CHR ''0'']"

fun hex_digits :: "bytes \<Rightarrow> nat \<Rightarrow> bytes" where
  "hex_digits digits n = (if n div 16 = 0 then [] else hex_digits digits (n div 16)) @ [digits ! (n mod 16)]"

declare decimal_digits.simps [simp del] hex_digits.simps [simp del]

definition ngx_sprintf_num :: "nat \<Rightarrow> 64 word \<Rightarrow> byte \<Rightarrow> nat \<Rightarrow> nat \<Rightarrow> bytes" where
  "ngx_sprintf_num room ui64 zero hexadecimal width =
     (let temp = (if hexadecimal = 0 then decimal_digits (unat ui64)
                  else if hexadecimal = 1 then hex_digits hex_lower (unat ui64)
                  else hex_digits hex_upper (unat ui64));
          pad = replicate (min (width - length temp) room) zero
      in pad @ take (room - length pad) temp)"

text \<open>The loops of \<open>ngx_sprintf_str\<close>, without and with a length.\<close>

fun str_nul :: "nat \<Rightarrow> bytes \<Rightarrow> bytes option" where
  "str_nul room [] = None"
| "str_nul room (c # src) = (if c = 0 \<or> room = 0 then Some [] else map_option ((#) c) (str_nul (room - 1) src))"

fun hex_nul :: "bytes \<Rightarrow> nat \<Rightarrow> bytes \<Rightarrow> bytes option" where
  "hex_nul digits room [] = None"
| "hex_nul digits room (c # src) =
     (if c = 0 \<or> room < 2 then Some []
      else map_option (\<lambda>r. digits ! unat (drop_bit 4 c) # digits ! unat (c AND 15) # r) (hex_nul digits (room - 2) src))"

fun hex_len :: "bytes \<Rightarrow> nat \<Rightarrow> nat \<Rightarrow> bytes \<Rightarrow> bytes option" where
  "hex_len digits 0 room src = Some []"
| "hex_len digits (Suc n) room src =
     (if room < 2 then Some []
      else case src of
        [] \<Rightarrow> None
      | c # src \<Rightarrow> map_option (\<lambda>r. digits ! unat (drop_bit 4 c) # digits ! unat (c AND 15) # r) (hex_len digits n (room - 2) src))"

definition ngx_sprintf_str :: "nat \<Rightarrow> bytes \<Rightarrow> 64 word \<Rightarrow> nat \<Rightarrow> bytes option" where
  "ngx_sprintf_str room src len hexadecimal =
     (if hexadecimal = 0 then
        (if len = - 1 then str_nul room src
         else let n = min room (unat len) in if length src < n then None else Some (take n src))
      else
        let digits = (if hexadecimal = 1 then hex_lower else hex_upper) in
        if len = - 1 then hex_nul digits room src else hex_len digits (unat len) room src)"

subsection \<open>Conversions\<close>

datatype printf_arg =
    A_num int
  | A_ptr "64 word"
  | A_str bytes
  | A_ngx_str bytes "64 word"
  | A_double bool "64 word" "64 word \<Rightarrow> 64 word"

record fmt_spec =
  fs_zero :: byte
  fs_width :: "64 word"
  fs_sign :: bool
  fs_hex :: nat
  fs_max_width :: bool
  fs_frac_width :: "64 word"
  fs_slen :: "64 word"

text \<open>\<open>width = width * 10 + (*fmt++ - '0')\<close> in \<open>ngx_uint_t\<close>.\<close>

fun fmt_digits :: "64 word \<Rightarrow> bytes \<Rightarrow> 64 word \<times> bytes" where
  "fmt_digits w [] = (w, [])"
| "fmt_digits w (c # fmt) = (if is_dec c then fmt_digits (w * 10 + ucast (c - ch CHR ''0'')) fmt else (w, c # fmt))"

text \<open>The loop over the flags; \<open>.\<close> leaves it, \<open>*\<close> takes an argument.\<close>

fun fmt_flags :: "fmt_spec \<Rightarrow> bytes \<Rightarrow> printf_arg list \<Rightarrow> (fmt_spec \<times> bytes \<times> printf_arg list) option" where
  "fmt_flags sp [] args = Some (sp, [], args)"
| "fmt_flags sp (c # fmt) args =
     (if c = ch CHR ''u'' then fmt_flags (sp\<lparr>fs_sign := False\<rparr>) fmt args
      else if c = ch CHR ''m'' then fmt_flags (sp\<lparr>fs_max_width := True\<rparr>) fmt args
      else if c = ch CHR ''X'' then fmt_flags (sp\<lparr>fs_hex := 2, fs_sign := False\<rparr>) fmt args
      else if c = ch CHR ''x'' then fmt_flags (sp\<lparr>fs_hex := 1, fs_sign := False\<rparr>) fmt args
      else if c = ch CHR ''.'' then (let (w, fmt) = fmt_digits (fs_frac_width sp) fmt in Some (sp\<lparr>fs_frac_width := w\<rparr>, fmt, args))
      else if c = ch CHR ''*'' then
        (case args of A_num n # args \<Rightarrow> fmt_flags (sp\<lparr>fs_slen := word_of_int n\<rparr>) fmt args | _ \<Rightarrow> None)
      else Some (sp, c # fmt, args))"

text \<open>What follows a percent sign: the zero, the width and the flags.\<close>

definition fmt_begin :: "bytes \<Rightarrow> printf_arg list \<Rightarrow> (fmt_spec \<times> bytes \<times> printf_arg list) option" where
  "fmt_begin fmt args =
     (let zero = (case fmt of [] \<Rightarrow> ch CHR '' '' | c # _ \<Rightarrow> if c = ch CHR ''0'' then ch CHR ''0'' else ch CHR '' '');
          (width, fmt) = fmt_digits 0 fmt
      in fmt_flags \<lparr>fs_zero = zero, fs_width = width, fs_sign = True, fs_hex = 0, fs_max_width = False, fs_frac_width = 0,
           fs_slen = - 1\<rparr> fmt args)"

text \<open>The integer conversions set \<open>sign\<close>, \<open>i64\<close> or \<open>ui64\<close>, and for some the width. The width in bits of the
  argument is that of an LP64 platform.\<close>

definition fmt_integer :: "nat \<Rightarrow> fmt_spec \<Rightarrow> int \<Rightarrow> fmt_spec \<times> int \<times> 64 word" where
  "fmt_integer bits sp n =
     (if fs_sign sp then (sp, signed_take_bit (bits - 1) n, 0) else (sp, 0, word_of_int (take_bit bits n)))"

definition NGX_INT_T_LEN :: "64 word" where
  "NGX_INT_T_LEN = 20"

definition fmt_number :: "fmt_spec \<Rightarrow> byte \<Rightarrow> printf_arg \<Rightarrow> (fmt_spec \<times> int \<times> 64 word) option" where
  "fmt_number sp c a =
     (case a of
        A_num n \<Rightarrow>
          if c = ch CHR ''O'' \<or> c = ch CHR ''T'' \<or> c = ch CHR ''r'' then Some (fmt_integer 64 (sp\<lparr>fs_sign := True\<rparr>) n)
          else if c = ch CHR ''P'' then Some (fmt_integer 32 (sp\<lparr>fs_sign := True\<rparr>) n)
          else if c = ch CHR ''M'' then Some (fmt_integer 64 (sp\<lparr>fs_sign := (signed_take_bit 63 n = - 1)\<rparr>) n)
          else if c = ch CHR ''z'' \<or> c = ch CHR ''l'' \<or> c = ch CHR ''L'' then Some (fmt_integer 64 sp n)
          else if c = ch CHR ''i'' \<or> c = ch CHR ''A'' then
            Some (fmt_integer 64 (if fs_max_width sp then sp\<lparr>fs_width := NGX_INT_T_LEN\<rparr> else sp) n)
          else if c = ch CHR ''d'' \<or> c = ch CHR ''D'' then Some (fmt_integer 32 sp n)
          else None
      | A_ptr w \<Rightarrow>
          if c = ch CHR ''p'' then Some (sp\<lparr>fs_hex := 2, fs_sign := False, fs_zero := ch CHR ''0'', fs_width := 16\<rparr>, 0, w) else None
      | _ \<Rightarrow> None)"

text \<open>The sign, then the digits.\<close>

definition print_number :: "nat \<Rightarrow> fmt_spec \<times> int \<times> 64 word \<Rightarrow> bytes" where
  "print_number room r =
     (case r of (sp, i64, ui64) \<Rightarrow>
        let (minus, ui64) = (if fs_sign sp then (if i64 < 0 then ([ch CHR ''-''], word_of_int (- i64)) else ([], word_of_int i64))
                             else ([], ui64))
        in minus @ ngx_sprintf_num (room - length minus) ui64 (fs_zero sp) (fs_hex sp) (unat (fs_width sp)))"

fun pow10 :: "nat \<Rightarrow> 64 word" where
  "pow10 0 = 1"
| "pow10 (Suc n) = pow10 n * 10"

definition print_double :: "nat \<Rightarrow> fmt_spec \<Rightarrow> bool \<Rightarrow> 64 word \<Rightarrow> (64 word \<Rightarrow> 64 word) \<Rightarrow> bytes" where
  "print_double room sp below ui64 fraction =
     (let minus = (if below then [ch CHR ''-''] else []);
          scale = pow10 (unat (fs_frac_width sp));
          frac = fraction scale;
          (ui64, frac) = (if fs_frac_width sp \<noteq> 0 \<and> frac = scale then (ui64 + 1, 0) else (ui64, frac));
          whole = minus @ ngx_sprintf_num (room - length minus) ui64 (fs_zero sp) 0 (unat (fs_width sp))
      in if fs_frac_width sp = 0 then whole
         else let dot = (if length whole < room then [ch CHR ''.''] else [])
              in whole @ dot @ ngx_sprintf_num (room - length whole - length dot) frac (ch CHR ''0'') 0 (unat (fs_frac_width sp)))"

definition arg_letters :: bytes where
  "arg_letters = str ''VvsOPTMzidlDLAfrpc''"

text \<open>One conversion: its letter \<open>c\<close> decides. The result is what is written and the arguments that are left.\<close>

definition fmt_convert :: "nat \<Rightarrow> fmt_spec \<Rightarrow> byte \<Rightarrow> printf_arg list \<Rightarrow> (bytes \<times> printf_arg list) option" where
  "fmt_convert room sp c args =
     (if c \<in> set arg_letters then
        (case args of
           [] \<Rightarrow> None
         | a # args \<Rightarrow>
             if c = ch CHR ''V'' \<or> c = ch CHR ''v'' then
               (case a of A_ngx_str s len \<Rightarrow> map_option (\<lambda>out. (out, args)) (ngx_sprintf_str room s len (fs_hex sp)) | _ \<Rightarrow> None)
             else if c = ch CHR ''s'' then
               (case a of A_str s \<Rightarrow> map_option (\<lambda>out. (out, args)) (ngx_sprintf_str room s (fs_slen sp) (fs_hex sp)) | _ \<Rightarrow> None)
             else if c = ch CHR ''f'' then
               (case a of A_double below ui64 fraction \<Rightarrow> Some (print_double room sp below ui64 fraction, args) | _ \<Rightarrow> None)
             else if c = ch CHR ''c'' then (case a of A_num n \<Rightarrow> Some ([word_of_int n], args) | _ \<Rightarrow> None)
             else map_option (\<lambda>r. (print_number room r, args)) (fmt_number sp c a))
      else if c = ch CHR ''Z'' then Some ([0], args)
      else if c = ch CHR ''N'' then Some ([ch CHR ''\<newline>''], args)
      else Some ([c], args))"

lemma fmt_digits_length: "length (snd (fmt_digits w fmt)) \<le> length fmt"
  by (induction w fmt rule: fmt_digits.induct) auto

lemma fmt_flags_length: "fmt_flags sp fmt args = Some (sp', fmt', args') \<Longrightarrow> length fmt' \<le> length fmt"
proof (induction sp fmt args rule: fmt_flags.induct)
  case (2 sp c fmt args)
  then show ?case
    using fmt_digits_length [of "fs_frac_width sp" fmt]
    by (auto split: if_splits prod.splits list.splits printf_arg.splits)
qed simp

lemma fmt_begin_length: "fmt_begin fmt args = Some (sp, fmt', args') \<Longrightarrow> length fmt' \<le> length fmt"
  unfolding fmt_begin_def Let_def using fmt_digits_length [of 0 fmt] fmt_flags_length
  by (fastforce split: prod.splits)

function ngx_vslprintf :: "nat \<Rightarrow> bytes \<Rightarrow> printf_arg list \<Rightarrow> bytes option" where
  "ngx_vslprintf room [] args = Some []"
| "ngx_vslprintf room (c # fmt) args =
     (if room = 0 then Some []
      else if c = ch CHR ''%'' then
        (case fmt_begin fmt args of
           Some (sp, d # fmt, args) \<Rightarrow>
             (case fmt_convert room sp d args of
                None \<Rightarrow> None
              | Some (out, args) \<Rightarrow> map_option ((@) out) (ngx_vslprintf (room - length out) fmt args))
         | _ \<Rightarrow> None)
      else map_option ((#) c) (ngx_vslprintf (room - 1) fmt args))"
  by pat_completeness auto
termination
  by (relation "measure (\<lambda>(room, fmt, args). length fmt)") (auto dest: fmt_begin_length)

text \<open>\<open>ngx_snprintf\<close> and \<open>ngx_slprintf\<close> pass the room of their buffer; \<open>ngx_sprintf\<close> has the whole address space behind
  \<open>buf\<close>, whose address is the first argument.\<close>

definition ngx_snprintf :: "nat \<Rightarrow> bytes \<Rightarrow> printf_arg list \<Rightarrow> bytes option" where
  "ngx_snprintf mx fmt args = ngx_vslprintf mx fmt args"

definition ngx_slprintf :: "nat \<Rightarrow> nat \<Rightarrow> bytes \<Rightarrow> printf_arg list \<Rightarrow> bytes option" where
  "ngx_slprintf buf lim fmt args = ngx_vslprintf (lim - buf) fmt args"

definition ngx_sprintf :: "nat \<Rightarrow> bytes \<Rightarrow> printf_arg list \<Rightarrow> bytes option" where
  "ngx_sprintf buf fmt args = ngx_vslprintf (2 ^ 64 - 1 - buf) fmt args"


subsection \<open>The buffer\<close>

text \<open>What would be written with no end in sight.\<close>

definition full_num :: "64 word \<Rightarrow> byte \<Rightarrow> nat \<Rightarrow> nat \<Rightarrow> bytes" where
  "full_num ui64 zero hexadecimal width =
     (let temp = (if hexadecimal = 0 then decimal_digits (unat ui64)
                  else if hexadecimal = 1 then hex_digits hex_lower (unat ui64)
                  else hex_digits hex_upper (unat ui64))
      in replicate (width - length temp) zero @ temp)"

lemma take_padded: "replicate (min k room) z @ take (room - length (replicate (min k room) z)) t = take room (replicate k z @ t)"
  by (cases "k \<le> room") (simp_all add: min_def)

lemma sprintf_num_take: "ngx_sprintf_num room ui64 zero h width = take room (full_num ui64 zero h width)"
  unfolding ngx_sprintf_num_def full_num_def Let_def by (rule take_padded)

lemma take_prefixed: "length m \<le> room \<Longrightarrow> m @ take (room - length m) x = take room (m @ x)"
  by simp

definition full_number :: "fmt_spec \<times> int \<times> 64 word \<Rightarrow> bytes" where
  "full_number r =
     (case r of (sp, i64, ui64) \<Rightarrow>
        let (minus, ui64) = (if fs_sign sp then (if i64 < 0 then ([ch CHR ''-''], word_of_int (- i64)) else ([], word_of_int i64))
                             else ([], ui64))
        in minus @ full_num ui64 (fs_zero sp) (fs_hex sp) (unat (fs_width sp)))"

lemma print_number_take: "0 < room \<Longrightarrow> print_number room r = take room (full_number r)"
  unfolding print_number_def full_number_def Let_def sprintf_num_take
  by (auto simp: take_Cons' split: prod.split)

definition full_double :: "fmt_spec \<Rightarrow> bool \<Rightarrow> 64 word \<Rightarrow> (64 word \<Rightarrow> 64 word) \<Rightarrow> bytes" where
  "full_double sp below ui64 fraction =
     (let minus = (if below then [ch CHR ''-''] else []);
          scale = pow10 (unat (fs_frac_width sp));
          frac = fraction scale;
          (ui64, frac) = (if fs_frac_width sp \<noteq> 0 \<and> frac = scale then (ui64 + 1, 0) else (ui64, frac));
          whole = minus @ full_num ui64 (fs_zero sp) 0 (unat (fs_width sp))
      in if fs_frac_width sp = 0 then whole
         else whole @ [ch CHR ''.''] @ full_num frac (ch CHR ''0'') 0 (unat (fs_frac_width sp)))"

lemma take_dot:
  "w = take room x \<Longrightarrow>
   w @ (if length w < room then [d] else []) @ take (room - length w - length (if length w < room then [d] else [])) y =
   take room (x @ [d] @ y)"
  by (cases "length x < room") (simp_all add: min_def take_Cons')

lemma print_double_take: "0 < room \<Longrightarrow> print_double room sp below ui64 fraction = take room (full_double sp below ui64 fraction)"
proof -
  assume room: "0 < room"
  have whole: "m @ take (room - length m) x = take room (m @ x)" if "m = (if below then [ch CHR ''-''] else [])" for m x
    by (rule take_prefixed) (use room that in simp)
  show ?thesis
    unfolding print_double_def full_double_def Let_def sprintf_num_take whole [OF refl] take_dot [OF refl]
    by (simp split: prod.split)
qed

lemma str_nul_take: "str_nul big s = Some r \<Longrightarrow> room \<le> big \<Longrightarrow> str_nul room s = Some (take room r)"
  by (induction big s arbitrary: room r rule: str_nul.induct) (auto simp: take_Cons' split: if_splits)

lemma str_nul_length: "str_nul room s = Some r \<Longrightarrow> length r \<le> room"
  by (induction room s arbitrary: r rule: str_nul.induct) (auto split: if_splits)

lemma hex_nul_length: "hex_nul digits room s = Some r \<Longrightarrow> length r \<le> room"
  by (induction digits room s arbitrary: r rule: hex_nul.induct) (fastforce split: if_splits)+

lemma hex_len_length: "hex_len digits n room s = Some r \<Longrightarrow> length r \<le> room"
  by (induction digits n room s arbitrary: r rule: hex_len.induct) (fastforce split: if_splits list.splits)+

lemma sprintf_str_length: "ngx_sprintf_str room s len h = Some r \<Longrightarrow> length r \<le> room"
  unfolding ngx_sprintf_str_def Let_def
  by (auto dest: str_nul_length hex_nul_length hex_len_length split: if_splits)

lemma sprintf_str_take: "ngx_sprintf_str big s len 0 = Some r \<Longrightarrow> room \<le> big \<Longrightarrow> ngx_sprintf_str room s len 0 = Some (take room r)"
  unfolding ngx_sprintf_str_def Let_def
  by (auto dest: str_nul_take simp: min_def split: if_splits)

lemma convert_length: "0 < room \<Longrightarrow> fmt_convert room sp c args = Some (out, args') \<Longrightarrow> length out \<le> room"
  unfolding fmt_convert_def
  by (auto dest: sprintf_str_length simp: print_number_take print_double_take split: if_splits list.splits printf_arg.splits)

lemma convert_take:
  assumes "0 < room" "room \<le> big" "fs_hex sp = 0 \<or> c \<notin> set (str ''Vvs'')" "fmt_convert big sp c args = Some (out, args')"
  shows "fmt_convert room sp c args = Some (take room out, args')"
proof (cases "c \<in> set arg_letters")
  case False
  then show ?thesis using assms(1,4) unfolding fmt_convert_def if_not_P [OF False] by (auto simp: take_Cons' split: if_splits)
next
  case True
  obtain a rest where args: "args = a # rest" using assms(4) True unfolding fmt_convert_def by (cases args) simp_all
  have num: "print_number big r = take big (full_number r)" "print_number room r = take room (full_number r)" for r
    using assms(1,2) by (simp_all add: print_number_take)
  have double: "print_double big sp b u f = take big (full_double sp b u f)" "print_double room sp b u f = take room (full_double sp b u f)" for b u f
    using assms(1,2) by (simp_all add: print_double_take)
  show ?thesis
    using assms(1-3) assms(4) sprintf_str_take [of big]
    unfolding fmt_convert_def if_P [OF True] args list.case num double
    by (cases a) (auto simp: take_Cons' split: if_splits)
qed

lemma vslprintf_length: "ngx_vslprintf room fmt args = Some out \<Longrightarrow> length out \<le> room"
proof (induction room fmt args arbitrary: out rule: ngx_vslprintf.induct)
  case (2 room c fmt args)
  show ?case
  proof (cases "room = 0 \<or> c \<noteq> ch CHR ''%''")
    case True
    then show ?thesis using 2 by (auto split: if_splits)
  next
    case False
    then obtain sp d fmt' args1 o1 args2 o2 where
      "fmt_begin fmt args = Some (sp, d # fmt', args1)" "fmt_convert room sp d args1 = Some (o1, args2)"
      "ngx_vslprintf (room - length o1) fmt' args2 = Some o2" "out = o1 @ o2"
      using 2(3) by (auto split: option.splits list.splits)
    then show ?thesis using 2(1) False convert_length [of room sp d args1 o1 args2] by fastforce
  qed
qed simp


text \<open>An unsigned 64-bit number has at most 20 decimal and 16 hexadecimal digits: \<open>temp[NGX_INT64_LEN + 1]\<close> is long enough.\<close>

lemma decimal_length: "0 < k \<Longrightarrow> n < 10 ^ k \<Longrightarrow> length (decimal_digits n) \<le> k"
proof (induction k arbitrary: n rule: nat_induct_non_zero)
  case (Suc k)
  have "n div 10 < 10 ^ k" using Suc.prems by (simp add: less_mult_imp_div_less mult.commute)
  then show ?case using Suc.IH [of "n div 10"] by (subst decimal_digits.simps) simp
qed (subst decimal_digits.simps, simp)

lemma hex_length: "0 < k \<Longrightarrow> n < 16 ^ k \<Longrightarrow> length (hex_digits d n) \<le> k"
proof (induction k arbitrary: n rule: nat_induct_non_zero)
  case (Suc k)
  have "n div 16 < 16 ^ k" using Suc.prems by (simp add: less_mult_imp_div_less mult.commute)
  then show ?case using Suc.IH [of "n div 16"] by (subst hex_digits.simps) simp
qed (subst hex_digits.simps, simp)

lemma digits_fit: "length (decimal_digits (unat (w :: 64 word))) \<le> 20" "length (hex_digits d (unat (w :: 64 word))) \<le> 16"
proof -
  have w: "unat w < 2 ^ 64" using unsigned_less [of w] by simp
  show "length (decimal_digits (unat w)) \<le> 20" by (rule decimal_length) (use w in \<open>simp_all add: order.strict_trans2\<close>)
  show "length (hex_digits d (unat w)) \<le> 16" by (rule hex_length) (use w in simp_all)
qed

text \<open>C19. \<open>ngx_vslprintf\<close> never writes behind \<open>last\<close>, whatever the format and the arguments, and the digits of a number fit
  the temporary array.\<close>

theorem vslprintf_bounds:
  "(case ngx_vslprintf room fmt args of None \<Rightarrow> True | Some out \<Rightarrow> length out \<le> room) \<and>
   length (decimal_digits (unat (w :: 64 word))) \<le> 20 \<and> length (hex_digits hex_lower (unat w)) \<le> 20"
  using digits_fit(1) [of w] digits_fit(2) [of hex_lower w] by (auto split: option.split dest: vslprintf_length)

subsection \<open>A buffer that is too short\<close>

text \<open>No conversion of the format prints a string in hexadecimal.\<close>

function no_hex_string :: "bytes \<Rightarrow> printf_arg list \<Rightarrow> bool" where
  "no_hex_string [] args = True"
| "no_hex_string (c # fmt) args =
     (if c = ch CHR ''%'' then
        (case fmt_begin fmt args of
           Some (sp, d # fmt, args) \<Rightarrow>
             (fs_hex sp = 0 \<or> d \<notin> set (str ''Vvs'')) \<and> no_hex_string fmt (if d \<in> set arg_letters then tl args else args)
         | _ \<Rightarrow> True)
      else no_hex_string fmt args)"
  by pat_completeness auto
termination
  by (relation "measure (\<lambda>(fmt, args). length fmt)") (auto dest: fmt_begin_length)

lemma convert_args:
  "fmt_convert room sp d args = Some (out, args') \<Longrightarrow> args' = (if d \<in> set arg_letters then tl args else args)"
  unfolding fmt_convert_def by (auto split: if_splits list.splits printf_arg.splits)

lemma vslprintf_take:
  assumes "ngx_vslprintf big fmt args = Some out" "room \<le> big" "no_hex_string fmt args"
  shows "ngx_vslprintf room fmt args = Some (take room out)"
  using assms
proof (induction big fmt args arbitrary: out room rule: ngx_vslprintf.induct)
  case (2 big c fmt args)
  consider "room = 0" | "room \<noteq> 0" "c \<noteq> ch CHR ''%''" | "room \<noteq> 0" "c = ch CHR ''%''" by blast
  then show ?case
  proof cases
    case 1
    then show ?thesis by simp
  next
    case 2
    then show ?thesis using "2.IH"(2) [where room = "room - 1"] "2.prems" by (auto simp: take_Cons')
  next
    case 3
    obtain sp d fmt' args1 o1 args2 o2 where b: "fmt_begin fmt args = Some (sp, d # fmt', args1)"
      and c: "fmt_convert big sp d args1 = Some (o1, args2)"
      and r: "ngx_vslprintf (big - length o1) fmt' args2 = Some o2" "out = o1 @ o2"
      using "2.prems"(1,2) 3 by (auto split: option.splits list.splits)
    have pl: "fs_hex sp = 0 \<or> d \<notin> set (str ''Vvs'')" "no_hex_string fmt' args2"
      using "2.prems"(3) 3 b convert_args [OF c] by simp_all
    have c': "fmt_convert room sp d args1 = Some (take room o1, args2)"
      by (rule convert_take [OF _ "2.prems"(2) pl(1) c]) (use 3 in simp)
    have "ngx_vslprintf (room - length (take room o1)) fmt' args2 = Some (take (room - length (take room o1)) o2)"
      using "2.prems" pl(2) 3 by (intro "2.IH"(1) [OF _ _ b refl refl refl c refl r(1)]) auto
    moreover have "room - min (length o1) room = room - length o1" by simp
    ultimately show ?thesis using 3 by (simp add: b c' r(2))
  qed
qed simp

text \<open>C20. A buffer that is too short for the output gets exactly the beginning of it, for every format in which no string
  is printed in hexadecimal, whatever its numbers. (With the flags \<open>x\<close> and \<open>X\<close> on a string a byte is written as two digits
  or not at all, and what follows may still fit.)\<close>

theorem vslprintf_truncates:
  assumes "no_hex_string fmt args" "room \<le> big"
  shows "(case ngx_vslprintf big fmt args of None \<Rightarrow> True | Some out \<Rightarrow> ngx_vslprintf room fmt args = Some (take room out))"
  using vslprintf_take assms by (auto split: option.split)

lemma vslprintf_truncates_witness:
  "ngx_vslprintf 3 (str ''%xd!'') [A_num 255] = Some (take 3 (str ''ff!''))"
proof -
  have b: "fmt_begin (str ''xd!'') [A_num 255] = Some (\<lparr>fs_zero = 32, fs_width = 0, fs_sign = False, fs_hex = 1, fs_max_width = False,
      fs_frac_width = 0, fs_slen = - 1\<rparr>, str ''d!'', [A_num 255])" by code_simp
  have "ngx_vslprintf 9 (str ''%xd!'') [A_num 255] = Some (str ''ff!'')" by code_simp
  moreover have "no_hex_string (str ''%xd!'') [A_num 255]" using b by simp
  ultimately show ?thesis
    using vslprintf_truncates [of "str ''%xd!''" "[A_num 255]" 3 9] by (simp del: ngx_vslprintf.simps no_hex_string.simps)
qed


subsection \<open>Printed numbers are read back\<close>

lemma decimal_value: "list_all is_dec (decimal_digits n) \<and> dec_from 0 (decimal_digits n) = int n \<and> decimal_digits n \<noteq> []"
proof (induction n rule: decimal_digits.induct)
  case (1 n)
  have "\<forall>k \<in> set [0..<10]. is_dec (of_nat k + ch CHR ''0'') \<and> dig (of_nat k + ch CHR ''0'') = int k" by code_simp
  then have d: "is_dec (of_nat (n mod 10) + ch CHR ''0'')" "dig (of_nat (n mod 10) + ch CHR ''0'') = int (n mod 10)" by simp_all
  show ?case
    using 1 d div_mult_mod_eq [of "int n" 10]
    by (subst (1 2 3) decimal_digits.simps) (auto simp: dec_from_append zdiv_int zmod_int)
qed

lemma hex_value:
  assumes "\<And>i. i < 16 \<Longrightarrow> hex_digit (d ! i) = Some (int i)"
  shows "list_all (\<lambda>c. hex_digit c \<noteq> None) (hex_digits d n) \<and> hex_from 0 (hex_digits d n) = int n \<and> hex_digits d n \<noteq> []"
  using assms
proof (induction d n rule: hex_digits.induct)
  case (1 d n)
  have "hex_from v (a @ b) = hex_from (hex_from v a) b" for v a b by (simp add: hex_from_def)
  then show ?case
    using 1(1) [OF _ 1(2)] 1(2) [of "n mod 16"] div_mult_mod_eq [of "int n" 16]
    by (subst (1 2 3) hex_digits.simps) (auto simp: zdiv_int zmod_int)
qed

lemma zeros_value: "list_all is_dec (replicate k (ch CHR ''0'')) \<and> dec_from 0 (replicate k (ch CHR ''0'')) = 0"
  by (induction k) (simp_all add: is_dec_def dig_def)

lemma full_num_value: "list_all is_dec (full_num w (ch CHR ''0'') 0 width) \<and> dec_from 0 (full_num w (ch CHR ''0'') 0 width) = uint w \<and>
    full_num w (ch CHR ''0'') 0 width \<noteq> []"
  using decimal_value [of "unat w"] zeros_value [of "width - length (decimal_digits (unat w))"]
  unfolding full_num_def by (simp add: dec_from_append Let_def)

lemma full_num_length: "width \<le> 20 \<Longrightarrow> length (full_num w z h width) \<le> 20"
proof -
  assume width: "width \<le> 20"
  have "length (replicate (width - length t) z @ t) \<le> 20" if "length t \<le> 20" for t :: bytes
    using width that by simp
  then show ?thesis
    using digits_fit(1) [of w] digits_fit(2) [of hex_lower w] digits_fit(2) [of hex_upper w] unfolding full_num_def Let_def by simp
qed

lemma convert_number:
  assumes "20 \<le> mx" "d \<in> set (str ''OTziA'')" "0 \<le> n" "n \<le> NGX_MAX_INT_T_VALUE" "unat (fs_width sp) \<le> 20"
  shows "fmt_convert mx sp d [A_num n] =
    Some (full_num (word_of_int n) (fs_zero sp) (fs_hex sp) (if d \<in> set (str ''iA'') \<and> fs_max_width sp then 20 else unat (fs_width sp)), [])"
proof -
  have n: "signed_take_bit 63 n = n" "take_bit 64 n = n" "\<not> n < 0"
    using assms(3,4) by (simp_all add: NGX_MAX_INT_T_VALUE_def signed_take_bit_int_eq_self take_bit_int_eq_self)
  have mx: "0 < mx" using assms(1) by simp
  have cut: "take mx (full_num w z h k) = full_num w z h k" if "k \<le> 20" for w z h k
    using full_num_length [OF that, of w z h] assms(1) by simp
  have "d = ch CHR ''O'' \<or> d = ch CHR ''T'' \<or> d = ch CHR ''z'' \<or> d = ch CHR ''i'' \<or> d = ch CHR ''A''" using assms(2) by auto
  then show ?thesis
    using cut assms(5)
    by (elim disjE; simp add: fmt_convert_def arg_letters_def fmt_number_def fmt_integer_def print_number_take [OF mx] full_number_def n NGX_INT_T_LEN_def)
qed


lemma full_num_reads:
  assumes "0 \<le> n" "n \<le> NGX_MAX_INT_T_VALUE"
  shows "ngx_ato_loop NGX_MAX_INT_T_VALUE 0 (full_num (word_of_int n) (ch CHR ''0'') 0 width) = Some n"
    "ngx_ato_loop NGX_MAX_INT_T_VALUE 0 (full_num (word_of_int n) z 0 0) = Some n"
    "ngx_hextoi_loop 0 (full_num (word_of_int n) z 1 0) = Some n"
    "ngx_hextoi_loop 0 (full_num (word_of_int n) z 2 0) = Some n"
    "full_num (word_of_int n) z h width \<noteq> []"
proof -
  have n: "uint (word_of_int n :: 64 word) = n"
    using assms by (simp add: uint_word_of_int_eq take_bit_int_eq_self NGX_MAX_INT_T_VALUE_def)
  then have u: "int (unat (word_of_int n :: 64 word)) = n" by simp
  have mx: "0 \<le> NGX_MAX_INT_T_VALUE" by (simp add: NGX_MAX_INT_T_VALUE_def)
  show "ngx_ato_loop NGX_MAX_INT_T_VALUE 0 (full_num (word_of_int n) (ch CHR ''0'') 0 width) = Some n"
    using full_num_value [of "word_of_int n" width] assms ngx_ato_loop_eq [OF order_refl mx] unfolding n by simp
  show "ngx_ato_loop NGX_MAX_INT_T_VALUE 0 (full_num (word_of_int n) z 0 0) = Some n"
    using decimal_value [of "unat (word_of_int n :: 64 word)"] assms ngx_ato_loop_eq [OF order_refl mx] unfolding u full_num_def by simp
  show "ngx_hextoi_loop 0 (full_num (word_of_int n) z 1 0) = Some n"
    using hex_value [OF hex_digit_lower, of "unat (word_of_int n :: 64 word)"] assms ngx_hextoi_loop_eq [OF order_refl mx] unfolding u full_num_def by simp
  show "ngx_hextoi_loop 0 (full_num (word_of_int n) z 2 0) = Some n"
    using hex_value [OF hex_digit_upper, of "unat (word_of_int n :: 64 word)"] assms ngx_hextoi_loop_eq [OF order_refl mx] unfolding u full_num_def by simp
  show "full_num (word_of_int n) z h width \<noteq> []"
    using decimal_value [of "unat (word_of_int n :: 64 word)"] hex_value [OF hex_digit_lower] hex_value [OF hex_digit_upper]
    unfolding full_num_def Let_def by simp
qed

text \<open>C38. A number that is printed is read back as the same number: in decimal with \<open>%i\<close> by \<open>ngx_atoi\<close>, also padded with zeros to
  the full width, with \<open>%z\<close>, \<open>%O\<close> and \<open>%T\<close> by the readers of sizes, offsets and times, and in hexadecimal, in either
  case of the letters, by \<open>ngx_hextoi\<close>.\<close>

theorem printf_reads_back:
  assumes "0 \<le> n" "n \<le> NGX_MAX_INT_T_VALUE" "20 \<le> mx"
  shows "map_option ngx_atoi (ngx_snprintf mx (str ''%i'') [A_num n]) = Some (Some n) \<and>
    map_option ngx_atoi (ngx_snprintf mx (str ''%0mi'') [A_num n]) = Some (Some n) \<and>
    map_option ngx_atosz (ngx_snprintf mx (str ''%z'') [A_num n]) = Some (Some n) \<and>
    map_option ngx_atoof (ngx_snprintf mx (str ''%O'') [A_num n]) = Some (Some n) \<and>
    map_option ngx_atotm (ngx_snprintf mx (str ''%T'') [A_num n]) = Some (Some n) \<and>
    map_option ngx_hextoi (ngx_snprintf mx (str ''%xi'') [A_num n]) = Some (Some n) \<and>
    map_option ngx_hextoi (ngx_snprintf mx (str ''%Xi'') [A_num n]) = Some (Some n)"
proof -
  have mx: "0 < mx" using assms(3) by simp
  note conv = convert_number [OF assms(3) _ assms(1,2)]
  have "ngx_snprintf mx (str ''%i'') [A_num n] = Some (full_num (word_of_int n) (ch CHR '' '') 0 0)"
    "ngx_snprintf mx (str ''%0mi'') [A_num n] = Some (full_num (word_of_int n) (ch CHR ''0'') 0 20)"
    "ngx_snprintf mx (str ''%z'') [A_num n] = Some (full_num (word_of_int n) (ch CHR '' '') 0 0)"
    "ngx_snprintf mx (str ''%O'') [A_num n] = Some (full_num (word_of_int n) (ch CHR '' '') 0 0)"
    "ngx_snprintf mx (str ''%T'') [A_num n] = Some (full_num (word_of_int n) (ch CHR '' '') 0 0)"
    "ngx_snprintf mx (str ''%xi'') [A_num n] = Some (full_num (word_of_int n) (ch CHR '' '') 1 0)"
    "ngx_snprintf mx (str ''%Xi'') [A_num n] = Some (full_num (word_of_int n) (ch CHR '' '') 2 0)"
    using mx by (simp_all add: ngx_snprintf_def fmt_begin_def is_dec_def conv)
  moreover note full_num_reads [OF assms(1,2)]
  moreover have "NGX_MAX_SIZE_T_VALUE = NGX_MAX_INT_T_VALUE" "NGX_MAX_OFF_T_VALUE = NGX_MAX_INT_T_VALUE" "NGX_MAX_TIME_T_VALUE = NGX_MAX_INT_T_VALUE"
    by (simp_all add: NGX_MAX_SIZE_T_VALUE_def NGX_MAX_OFF_T_VALUE_def NGX_MAX_TIME_T_VALUE_def NGX_MAX_INT_T_VALUE_def)
  ultimately show ?thesis
    by (simp add: ngx_atoi_def ngx_atosz_def ngx_atoof_def ngx_atotm_def ngx_hextoi_def)
qed

lemma printf_reads_back_witness: "map_option ngx_hextoi (ngx_snprintf 20 (str ''%Xi'') [A_num 48879]) = Some (Some 48879)"
  using printf_reads_back [of 48879 20] by (simp add: NGX_MAX_INT_T_VALUE_def)


subsection \<open>What a format prints when there is room\<close>

definition prints :: "bytes \<Rightarrow> printf_arg list \<Rightarrow> bytes \<Rightarrow> bool" where
  "prints fmt args out \<longleftrightarrow> (\<forall>room. length out \<le> room \<longrightarrow> ngx_vslprintf room fmt args = Some out)"

lemma prints_empty: "prints [] args []"
  by (simp add: prints_def)

lemma prints_char: "c \<noteq> ch CHR ''%'' \<Longrightarrow> prints fmt args out \<Longrightarrow> prints (c # fmt) args (c # out)"
  by (auto simp: prints_def)

lemma prints_conv:
  assumes "fmt_begin fmt args = Some (sp, d # fmt', args1)" "o1 \<noteq> []"
    "\<And>room. length o1 \<le> room \<Longrightarrow> fmt_convert room sp d args1 = Some (o1, args2)" "prints fmt' args2 o2"
  shows "prints (ch CHR ''%'' # fmt) args (o1 @ o2)"
  using assms by (auto simp: prints_def)

lemma full_num_nonempty: "full_num w z h width \<noteq> []"
  using decimal_value [of "unat w"] hex_value [OF hex_digit_lower, of "unat w"] hex_value [OF hex_digit_upper, of "unat w"]
  unfolding full_num_def Let_def by simp

text \<open>A non-negative number that fits the type of \<open>%d\<close> or \<open>%ud\<close>.\<close>

lemma convert_d:
  assumes "length (full_num (word_of_int n) (fs_zero sp) (fs_hex sp) (unat (fs_width sp))) \<le> room" "0 \<le> n" "n < 2 ^ 31"
  shows "fmt_convert room sp (ch CHR ''d'') (A_num n # args) =
    Some (full_num (word_of_int n) (fs_zero sp) (fs_hex sp) (unat (fs_width sp)), args)"
proof -
  have "signed_take_bit 31 n = n" "take_bit 32 n = n"
    using assms(2,3) by (simp_all add: signed_take_bit_int_eq_self take_bit_int_eq_self)
  moreover have "0 < room"
    using assms(1) full_num_nonempty [of "word_of_int n" "fs_zero sp" "fs_hex sp" "unat (fs_width sp)"]
    by (cases "full_num (word_of_int n) (fs_zero sp) (fs_hex sp) (unat (fs_width sp))") auto
  ultimately show ?thesis
    using assms by (simp add: fmt_convert_def arg_letters_def fmt_number_def fmt_integer_def print_number_take full_number_def)
qed

lemma prints_d:
  assumes "fmt_begin fmt (A_num n # args) = Some (sp, ch CHR ''d'' # fmt', A_num n # args)" "0 \<le> n" "n < 2 ^ 31" "prints fmt' args o2"
  shows "prints (ch CHR ''%'' # fmt) (A_num n # args) (full_num (word_of_int n) (fs_zero sp) (fs_hex sp) (unat (fs_width sp)) @ o2)"
proof -
  define o1 where "o1 = full_num (word_of_int n) (fs_zero sp) (fs_hex sp) (unat (fs_width sp))"
  have "o1 \<noteq> []" unfolding o1_def by (rule full_num_nonempty)
  moreover have "fmt_convert room sp (ch CHR ''d'') (A_num n # args) = Some (o1, args)" if "length o1 \<le> room" for room
    unfolding o1_def using that assms(2,3) unfolding o1_def by (rule convert_d)
  ultimately show ?thesis unfolding o1_def [symmetric] by (rule prints_conv [OF assms(1) _ _ assms(4)])
qed

definition dec :: "byte \<Rightarrow> bytes" where
  "dec b = decimal_digits (unat b)"

lemma unat_small_int: "0 \<le> i \<Longrightarrow> i < 2 ^ 64 \<Longrightarrow> unat (word_of_int i :: 64 word) = nat i"
  by (simp add: unat_eq_nat_uint uint_word_of_int_eq take_bit_int_eq_self)

lemma uint_byte: "0 \<le> uint (b :: byte) \<and> uint b < 256"
proof -
  have "int (unat b) < 256" using unat_byte_less [of b] by linarith
  then show ?thesis by simp
qed

lemma full_num_dec: "full_num (ucast (b :: byte)) z 0 0 = dec b"
proof -
  have "unat (word_of_int (uint b) :: 64 word) = nat (uint b)" by (rule unat_small_int) (use uint_byte [of b] in simp_all)
  moreover have "nat (uint b) = unat b" by simp
  moreover have "word_of_int (uint b) = (ucast b :: 64 word)" by simp
  ultimately have "unat (ucast b :: 64 word) = unat b" by metis
  then show ?thesis unfolding full_num_def dec_def Let_def by simp
qed

lemma dec_length: "length (dec b) \<le> 3"
proof -
  have "unat b < 10 ^ 3" by (rule order.strict_trans [OF unat_byte_less]) simp
  then show ?thesis unfolding dec_def by (intro decimal_length) simp_all
qed

lemma begin_u: "fmt_begin (ch CHR ''u'' # ch CHR ''d'' # fmt) args =
    Some (\<lparr>fs_zero = ch CHR '' '', fs_width = 0, fs_sign = False, fs_hex = 0, fs_max_width = False, fs_frac_width = 0, fs_slen = - 1\<rparr>,
      ch CHR ''d'' # fmt, args)"
  by (simp add: fmt_begin_def is_dec_def)

lemma prints_ud: "prints fmt args o2 \<Longrightarrow> prints (ch CHR ''%'' # ch CHR ''u'' # ch CHR ''d'' # fmt) (A_num (uint (b :: byte)) # args) (dec b @ o2)"
  using prints_d [OF begin_u _ _, of "uint b" fmt args o2] uint_byte [of b] by (simp add: full_num_dec)

lemma begin_d: "fmt_begin (ch CHR ''d'' # fmt) args =
    Some (\<lparr>fs_zero = ch CHR '' '', fs_width = 0, fs_sign = True, fs_hex = 0, fs_max_width = False, fs_frac_width = 0, fs_slen = - 1\<rparr>,
      ch CHR ''d'' # fmt, args)"
  by (simp add: fmt_begin_def is_dec_def)

lemma begin_x: "fmt_begin (ch CHR ''x'' # ch CHR ''d'' # fmt) args =
    Some (\<lparr>fs_zero = ch CHR '' '', fs_width = 0, fs_sign = False, fs_hex = 1, fs_max_width = False, fs_frac_width = 0, fs_slen = - 1\<rparr>,
      ch CHR ''d'' # fmt, args)"
  by (simp add: fmt_begin_def is_dec_def)

lemma full_num_plain: "0 \<le> n \<Longrightarrow> n < 2 ^ 64 \<Longrightarrow> full_num (word_of_int n) z 0 0 = decimal_digits (nat n)"
  "0 \<le> n \<Longrightarrow> n < 2 ^ 64 \<Longrightarrow> full_num (word_of_int n) z 1 0 = hex_digits hex_lower (nat n)"
  by (simp_all add: full_num_def unat_small_int Let_def)

lemma prints_port: "prints fmt args o2 \<Longrightarrow> 0 \<le> n \<Longrightarrow> n < 2 ^ 31 \<Longrightarrow>
    prints (ch CHR ''%'' # ch CHR ''d'' # fmt) (A_num n # args) (decimal_digits (nat n) @ o2)"
  using prints_d [OF begin_d _ _, of n fmt args o2] full_num_plain(1) [of n] by simp

lemma prints_xd: "prints fmt args o2 \<Longrightarrow> 0 \<le> n \<Longrightarrow> n < 2 ^ 31 \<Longrightarrow>
    prints (ch CHR ''%'' # ch CHR ''x'' # ch CHR ''d'' # fmt) (A_num n # args) (hex_digits hex_lower (nat n) @ o2)"
  using prints_d [OF begin_x _ _, of n fmt args o2] full_num_plain(2) [of n] by simp

end
