(* ===== verification/Ngx_Time.thy ===== *)
theory Ngx_Time
  imports Ngx_Printf
begin

section \<open>Times\<close>

text \<open>
  \<open>ngx_gmtime\<close>, \<open>ngx_http_time\<close> and \<open>ngx_http_cookie_time\<close> of \<open>src/core/ngx_times.c\<close>, which print through \<open>ngx_sprintf\<close>
  (\<open>Ngx_Printf\<close>), and \<open>ngx_parse_http_time\<close> of \<open>src/core/ngx_parse_time.c\<close>, which reads the dates of the
  \<open>If-Modified-Since\<close> family of headers. The lemmas relate Gauss' formula, in both directions, to counting days in the
  Gregorian calendar.
\<close>

subsection \<open>Calendar time\<close>

record ngx_tm =
  tm_sec :: int
  tm_min :: int
  tm_hour :: int
  tm_mday :: int
  tm_mon :: int
  tm_year :: int
  tm_wday :: int

text \<open>The days before March 1 of a year, Gauss' formula.\<close>

definition gauss_days :: "int \<Rightarrow> int" where
  "gauss_days year = 365 * year + year div 4 - year div 100 + year div 400"

text \<open>All values are non-negative and far below \<open>2 ^ 63\<close>, except \<open>yday\<close>, which is signed.\<close>

definition ngx_gmtime :: "int \<Rightarrow> ngx_tm" where
  "ngx_gmtime t =
     (let t = (if t < 0 then 0 else t);
          days = t div 86400;
          sec = t mod 86400;
          (days, sec) = (if days > 2932896 then (2932896, 86399) else (days, sec));
          wday = (4 + days) mod 7;
          hour = sec div 3600;
          sec = sec mod 3600;
          mi = sec div 60;
          sec = sec mod 60;
          days = days - (31 + 28) + 719527;
          year = (days + 2) * 400 div (365 * 400 + 100 - 4 + 1);
          yday = days - gauss_days year;
          leap = (if year mod 4 = 0 \<and> (year mod 100 \<noteq> 0 \<or> year mod 400 = 0) then 1 else 0);
          (yday, year) = (if yday < 0 then (365 + leap + yday, year - 1) else (yday, year));
          mon = (yday + 31) * 10 div 306;
          mday = yday - (367 * mon div 12 - 30) + 1;
          (year, mon) = (if yday \<ge> 306 then (year + 1, mon - 10) else (year, mon + 2))
      in \<lparr>tm_sec = sec, tm_min = mi, tm_hour = hour, tm_mday = mday, tm_mon = mon, tm_year = year, tm_wday = wday\<rparr>)"

subsection \<open>Printing\<close>

definition week :: "bytes list" where
  "week = map str [''Sun'', ''Mon'', ''Tue'', ''Wed'', ''Thu'', ''Fri'', ''Sat'']"

definition months :: "bytes list" where
  "months = map str [''Jan'', ''Feb'', ''Mar'', ''Apr'', ''May'', ''Jun'', ''Jul'', ''Aug'', ''Sep'', ''Oct'', ''Nov'', ''Dec'']"

text \<open>\<open>buf\<close> is the address that is written to; the strings of the tables end with a NUL.\<close>

definition ngx_http_time :: "nat \<Rightarrow> int \<Rightarrow> bytes option" where
  "ngx_http_time buf t =
     (let tm = ngx_gmtime t in
      ngx_sprintf buf (str ''%s, %02d %s %4d %02d:%02d:%02d GMT'')
        [A_str (week ! nat (tm_wday tm) @ [0]), A_num (tm_mday tm), A_str (months ! nat (tm_mon tm - 1) @ [0]), A_num (tm_year tm),
         A_num (tm_hour tm), A_num (tm_min tm), A_num (tm_sec tm)])"

definition ngx_http_cookie_time :: "nat \<Rightarrow> int \<Rightarrow> bytes option" where
  "ngx_http_cookie_time buf t =
     (let tm = ngx_gmtime t in
      ngx_sprintf buf
        (if tm_year tm > 2037 then str ''%s, %02d-%s-%d %02d:%02d:%02d GMT'' else str ''%s, %02d-%s-%02d %02d:%02d:%02d GMT'')
        [A_str (week ! nat (tm_wday tm) @ [0]), A_num (tm_mday tm), A_str (months ! nat (tm_mon tm - 1) @ [0]),
         A_num (if tm_year tm > 2037 then tm_year tm else tm_year tm mod 100),
         A_num (tm_hour tm), A_num (tm_min tm), A_num (tm_sec tm)])"

subsection \<open>Parsing\<close>

text \<open>The functions work on the bytes from \<open>p\<close> to \<open>end\<close>. A result \<open>None\<close> is a read at or behind \<open>end\<close>,
  \<open>Some None\<close> is \<open>NGX_ERROR\<close>.\<close>

datatype http_time_fmt = rfc822 | rfc850 | isoc

definition at :: "bytes \<Rightarrow> nat \<Rightarrow> byte option" where
  "at s i = (if i < length s then Some (s ! i) else None)"

definition and_then :: "'a option option \<Rightarrow> ('a \<Rightarrow> 'b option option) \<Rightarrow> 'b option option" where
  "and_then r f = (case r of None \<Rightarrow> None | Some None \<Rightarrow> Some None | Some (Some x) \<Rightarrow> f x)"

text \<open>Digits from \<open>p + i\<close> on are added to \<open>v\<close>; each is read when those before it are digits.\<close>

fun ht_digits :: "nat \<Rightarrow> nat \<Rightarrow> int \<Rightarrow> bytes \<Rightarrow> int option option" where
  "ht_digits 0 i v s = Some (Some v)"
| "ht_digits (Suc n) i v s =
     (case at s i of
        None \<Rightarrow> None
      | Some c \<Rightarrow> if is_dec c then ht_digits n (Suc i) (v * 10 + (uint c - 48)) s else Some None)"

definition ht_byte :: "byte \<Rightarrow> bytes \<Rightarrow> unit option option" where
  "ht_byte c s = (case at s 0 of None \<Rightarrow> None | Some d \<Rightarrow> if d = c then Some (Some ()) else Some None)"

definition ht_month :: "bytes \<Rightarrow> int option option" where
  "ht_month s =
     (case at s 0 of
        None \<Rightarrow> None
      | Some c \<Rightarrow>
          if c = ch CHR ''J'' then
            (case at s 1 of
               None \<Rightarrow> None
             | Some d \<Rightarrow>
                 if d = ch CHR ''a'' then Some (Some 0)
                 else (case at s 2 of None \<Rightarrow> None | Some e \<Rightarrow> Some (Some (if e = ch CHR ''n'' then 5 else 6))))
          else if c = ch CHR ''F'' then Some (Some 1)
          else if c = ch CHR ''M'' then
            (case at s 2 of None \<Rightarrow> None | Some e \<Rightarrow> Some (Some (if e = ch CHR ''r'' then 2 else 4)))
          else if c = ch CHR ''A'' then
            (case at s 1 of None \<Rightarrow> None | Some d \<Rightarrow> Some (Some (if d = ch CHR ''p'' then 3 else 7)))
          else if c = ch CHR ''S'' then Some (Some 8)
          else if c = ch CHR ''O'' then Some (Some 9)
          else if c = ch CHR ''N'' then Some (Some 10)
          else if c = ch CHR ''D'' then Some (Some 11)
          else Some None)"

definition mday :: "int list" where
  "mday = [31, 28, 31, 30, 31, 30, 31, 31, 30, 31, 30, 31]"

text \<open>The checks and the formula; \<open>year\<close> and the sum are \<open>ngx_uint_t\<close>, \<open>month\<close> is \<open>ngx_int_t\<close>.\<close>

definition ht_time :: "int \<Rightarrow> int \<Rightarrow> int \<Rightarrow> int \<Rightarrow> int \<Rightarrow> int \<Rightarrow> int option" where
  "ht_time year month day hour mi sec =
     (if hour > 23 \<or> mi > 59 \<or> sec > 59 then None
      else if (if day = 29 \<and> month = 1
               then year mod 4 \<noteq> 0 \<or> year mod 100 = 0 \<and> year mod 400 \<noteq> 0
               else day > mday ! nat month) then None
      else
        let (month, y) = (if month - 1 \<le> 0 then (month - 1 + 12, word_of_int year - 1)
                          else (month - 1, word_of_int year :: 64 word))
        in Some (sint ((365 * y + y div 4 - y div 100 + y div 400 + word_of_int (367 * month div 12 - 30)
             + word_of_int day - 1 - 719527 + 31 + 28) * 86400
             + word_of_int hour * 3600 + word_of_int mi * 60 + word_of_int sec)))"

definition ht_clock :: "http_time_fmt \<Rightarrow> int \<Rightarrow> int \<Rightarrow> int \<Rightarrow> bytes \<Rightarrow> int option option" where
  "ht_clock fmt year month day s =
     and_then (ht_byte (ch CHR '' '') s) (\<lambda>_.
     and_then (ht_digits 2 0 0 (drop 1 s)) (\<lambda>hour.
     and_then (ht_byte (ch CHR '':'') (drop 3 s)) (\<lambda>_.
     and_then (ht_digits 2 0 0 (drop 4 s)) (\<lambda>mi.
     and_then (ht_byte (ch CHR '':'') (drop 6 s)) (\<lambda>_.
     and_then (ht_digits 2 0 0 (drop 7 s)) (\<lambda>sec.
       if fmt = isoc then
         and_then (ht_byte (ch CHR '' '') (drop 9 s)) (\<lambda>_.
         and_then (ht_digits 4 0 0 (drop 10 s)) (\<lambda>year. Some (ht_time year month day hour mi sec)))
       else Some (ht_time year month day hour mi sec)))))))"

definition ht_isoc_day :: "int \<Rightarrow> bytes \<Rightarrow> int option option" where
  "ht_isoc_day month s =
     (case at s 0 of
        None \<Rightarrow> None
      | Some c \<Rightarrow>
          let s = (if c = ch CHR '' '' then drop 1 s else s) in
          and_then (ht_digits 1 0 0 s) (\<lambda>day.
            case at s 1 of
              None \<Rightarrow> None
            | Some c \<Rightarrow>
                if c = ch CHR '' '' then (if length (drop 1 s) < 14 then Some None else ht_clock isoc 0 month day (drop 1 s))
                else and_then (ht_digits 1 1 day s) (\<lambda>day.
                  if length (drop 2 s) < 14 then Some None else ht_clock isoc 0 month day (drop 2 s))))"

text \<open>From the month on.\<close>

definition ht_date :: "http_time_fmt \<Rightarrow> int \<Rightarrow> bytes \<Rightarrow> int option option" where
  "ht_date fmt day s =
     and_then (ht_month s) (\<lambda>month.
       let s = drop 3 s in
       case fmt of
         rfc822 \<Rightarrow> and_then (ht_byte (ch CHR '' '') s) (\<lambda>_.
           and_then (ht_digits 4 0 0 (drop 1 s)) (\<lambda>year. ht_clock fmt year month day (drop 5 s)))
       | rfc850 \<Rightarrow> and_then (ht_byte (ch CHR ''-'') s) (\<lambda>_.
           and_then (ht_digits 2 0 0 (drop 1 s)) (\<lambda>year.
             ht_clock fmt (if year < 70 then year + 2000 else year + 1900) month day (drop 3 s)))
       | isoc \<Rightarrow> ht_isoc_day month (drop 1 s))"

definition ngx_parse_http_time :: "bytes \<Rightarrow> int option option" where
  "ngx_parse_http_time value =
     (let s = dropWhile (\<lambda>c. c \<noteq> ch CHR '','' \<and> c \<noteq> ch CHR '' '') value;
          c = (if s = [] then 0 else hd s);
          s = dropWhile (\<lambda>c. c = ch CHR '' '') (drop 1 s)
      in if length s < 18 then Some None
         else if c = ch CHR '' '' then ht_date isoc 0 s
         else and_then (ht_digits 2 0 0 s) (\<lambda>day.
           case at s 2 of
             None \<Rightarrow> None
           | Some c \<Rightarrow>
               if c = ch CHR '' '' then (if length (drop 2 s) < 18 then Some None else ht_date rfc822 day (drop 3 s))
               else if c = ch CHR ''-'' then ht_date rfc850 day (drop 3 s)
               else Some None))"


subsection \<open>The calendar\<close>

definition leap_year :: "int \<Rightarrow> bool" where
  "leap_year y \<longleftrightarrow> y mod 4 = 0 \<and> (y mod 100 \<noteq> 0 \<or> y mod 400 = 0)"

definition month_len :: "bool \<Rightarrow> int \<Rightarrow> int" where
  "month_len leap m = (if m = 2 \<and> leap then 29 else mday ! nat (m - 1))"

definition month_days :: "int \<Rightarrow> int \<Rightarrow> int" where
  "month_days y m = month_len (leap_year y) m"

text \<open>The days from January 1, 1970, counted.\<close>

definition days_from_epoch :: "int \<Rightarrow> int \<Rightarrow> int \<Rightarrow> int" where
  "days_from_epoch y m d =
     (\<Sum>k\<leftarrow>[1970..y - 1]. if leap_year k then 366 else 365) + (\<Sum>j\<leftarrow>[1..m - 1]. month_days y j) + (d - 1)"

text \<open>Arithmetic over atoms, so that no decision procedure looks into the quotients.\<close>

lemma int_pred_quotient: "y = k * q + r \<Longrightarrow> 0 \<le> r \<Longrightarrow> r < k \<Longrightarrow> (y - 1) div k = q - (if r = 0 then 1 else 0)" for k :: int
proof (cases "r = 0")
  case True
  assume h: "y = k * q + r" "0 \<le> r" "r < k"
  then have "y - 1 = k * (q - 1) + (k - 1)" using True by (simp add: right_diff_distrib)
  then show ?thesis using True h by (simp add: int_div_pos_eq)
next
  case False
  assume h: "y = k * q + r" "0 \<le> r" "r < k"
  then have "y - 1 = k * q + (r - 1)" by simp
  then show ?thesis using False h by (simp add: int_div_pos_eq)
qed

lemma div_pred: "0 < (k :: int) \<Longrightarrow> (y - 1) div k = y div k - (if y mod k = 0 then 1 else 0)"
  by (rule int_pred_quotient) simp_all

lemma leap_cases: "y mod 100 = 0 \<Longrightarrow> y mod 4 = 0" "y mod 400 = 0 \<Longrightarrow> y mod 100 = 0" for y :: int
  using mod_mod_cancel [of 4 100 y] mod_mod_cancel [of 100 400 y] by auto

lemma gauss_diff_atoms:
  "(365 * y + a - b + c) - (365 * (y - 1) + (a - p) - (b - q) + (c - r)) = 365 + p - q + r" for y :: int
  by simp

lemma gauss_year: "gauss_days y - gauss_days (y - 1) = (if leap_year y then 366 else 365)"
proof -
  have "gauss_days y - gauss_days (y - 1) =
      365 + (if y mod 4 = 0 then 1 else 0) - (if y mod 100 = 0 then 1 else 0) + (if y mod 400 = 0 then 1 else 0)"
    unfolding gauss_days_def div_pred [OF zero_less_numeral] by (rule gauss_diff_atoms)
  moreover have "P \<longrightarrow> Q \<Longrightarrow> R \<longrightarrow> P \<Longrightarrow> (365 :: int) + (if Q then 1 else 0) - (if P then 1 else 0) + (if R then 1 else 0) =
      (if Q \<and> (\<not> P \<or> R) then 366 else 365)" for P Q R by (cases P; cases Q; cases R) simp_all
  ultimately show ?thesis using leap_cases [of y] unfolding leap_year_def by simp
qed

lemma gauss_atoms:
  "4 * a = y - r \<Longrightarrow> 100 * b = y - s \<Longrightarrow> 400 * c = y - t \<Longrightarrow>
   400 * (365 * y + a - b + c) = 146097 * y - 100 * r + 4 * s - t" for y :: int
  by (rule order_antisym) (simp_all add: algebra_simps)

lemma gauss_400: "400 * gauss_days y = 146097 * y - 100 * (y mod 4) + 4 * (y mod 100) - y mod 400"
  unfolding gauss_days_def by (rule gauss_atoms; rule minus_mod_eq_mult_div [symmetric])

lemma estimate_atoms:
  fixes y :: int
  assumes "146097 * y = n * 400 - r" "0 \<le> r" "r < 146097" "400 * g = 146097 * y - 100 * a + 4 * b - c"
    "400 * h = 146097 * (y + 1) - 100 * a' + 4 * b' - c'" "0 \<le> a" "a < 4" "0 \<le> b" "b < 100" "0 \<le> c" "c < 400"
    "0 \<le> a'" "a' < 4" "0 \<le> b'" "b' < 100" "0 \<le> c'" "c' < 400"
  shows "g \<le> n \<and> n - 2 < h"
proof
  have "400 * g < 400 * (n + 1)" using assms by (simp add: algebra_simps)
  then show "g \<le> n" by simp
  have "400 * (n - 2) < 400 * h" using assms by (simp add: algebra_simps)
  then show "n - 2 < h" by simp
qed

lemma gauss_estimate:
  assumes "y = (n + 2) * 400 div 146097"
  shows "gauss_days y \<le> n + 2 \<and> n < gauss_days (y + 1)"
proof -
  have "gauss_days y \<le> n + 2 \<and> n + 2 - 2 < gauss_days (y + 1)"
    unfolding assms
    by (rule estimate_atoms [OF minus_mod_eq_mult_div [symmetric] _ _ gauss_400 gauss_400]) simp_all
  then show ?thesis by simp
qed

definition gauss_date :: "int \<Rightarrow> int \<Rightarrow> int \<times> int \<times> int" where
  "gauss_date year yd =
     (let mon = (yd + 31) * 10 div 306; d = yd - (367 * mon div 12 - 30) + 1 in
      if yd \<ge> 306 then (year + 1, mon - 10, d) else (year, mon + 2, d))"

text \<open>The empirical formula for the month and Gauss' formula for the days before it, on every day of a year that
  begins on March 1; \<open>leap\<close> is of the year of the date.\<close>

definition yday_ok :: "bool \<Rightarrow> int \<Rightarrow> bool" where
  "yday_ok leap yd \<longleftrightarrow>
     (case gauss_date 0 yd of (y, m, d) \<Rightarrow>
        1 \<le> m \<and> m \<le> 12 \<and> 1 \<le> d \<and> (yd = 365 \<and> \<not> leap \<or> d \<le> month_len leap m) \<and> (y = 1) = (m \<le> 2) \<and>
        yd + (if m \<le> 2 then 0 else if leap then 366 else 365) = 306 + (\<Sum>j\<leftarrow>[1..m - 1]. month_len leap j) + (d - 1) \<and>
        yd = (367 * (if m \<le> 2 then m + 10 else m - 2) div 12 - 30) + d - 1)"

lemma yday_table: "\<forall>leap \<in> set [True, False]. \<forall>yd \<in> set [0..365]. yday_ok leap yd"
  by code_simp

lemma gauss_yday:
  assumes "year = (n + 2) * 400 div 146097" "yd = n - gauss_days year"
  shows "\<exists>y z. (if yd < 0 then (365 + (if leap_year year then 1 else 0) + yd, year - 1) else (yd, year)) = (z, y) \<and>
    n = gauss_days y + z \<and> 0 \<le> z \<and> z \<le> 365 \<and> (z = 365 \<longrightarrow> leap_year (y + 1))"
proof -
  note e = gauss_estimate [OF assms(1)]
  have up: "gauss_days (year + 1) = gauss_days year + (if leap_year (year + 1) then 366 else 365)"
    using gauss_year [of "year + 1"] by simp
  show ?thesis
  proof (cases "yd < 0")
    case True
    have "gauss_days year = gauss_days (year - 1) + (if leap_year year then 366 else 365)" using gauss_year [of year] by simp
    then show ?thesis using True e assms(2) by (cases "leap_year year") auto
  next
    case False
    then show ?thesis using e assms(2) up by (cases "leap_year (year + 1)") auto
  qed
qed

lemma gmtime_gauss:
  assumes "0 \<le> t" "t \<le> 253402300799"
  shows "\<exists>y z. t div 86400 - 59 + 719527 = gauss_days y + z \<and> 0 \<le> z \<and> z \<le> 365 \<and> (z = 365 \<longrightarrow> leap_year (y + 1)) \<and>
    ngx_gmtime t = (case gauss_date y z of (year, mon, d) \<Rightarrow>
      \<lparr>tm_sec = t mod 86400 mod 3600 mod 60, tm_min = t mod 86400 mod 3600 div 60, tm_hour = t mod 86400 div 3600,
       tm_mday = d, tm_mon = mon, tm_year = year, tm_wday = (4 + t div 86400) mod 7\<rparr>)"
proof -
  have days: "\<not> t div 86400 > 2932896" "\<not> t < 0" using assms by linarith+
  define n where "n = t div 86400 - 59 + 719527"
  obtain y z where yz: "(if n - gauss_days ((n + 2) * 400 div 146097) < 0
      then (365 + (if leap_year ((n + 2) * 400 div 146097) then 1 else 0) + (n - gauss_days ((n + 2) * 400 div 146097)), (n + 2) * 400 div 146097 - 1)
      else (n - gauss_days ((n + 2) * 400 div 146097), (n + 2) * 400 div 146097)) = (z, y)"
    "n = gauss_days y + z" "0 \<le> z" "z \<le> 365" "z = 365 \<longrightarrow> leap_year (y + 1)"
    using gauss_yday [OF refl refl, of n] by blast
  have n: "t div 86400 - (31 + 28) + 719527 = n" "365 * 400 + 100 - 4 + 1 = (146097 :: int)" by (simp_all add: n_def)
  have "ngx_gmtime t = (case gauss_date y z of (year, mon, d) \<Rightarrow>
      \<lparr>tm_sec = t mod 86400 mod 3600 mod 60, tm_min = t mod 86400 mod 3600 div 60, tm_hour = t mod 86400 div 3600,
       tm_mday = d, tm_mon = mon, tm_year = year, tm_wday = (4 + t div 86400) mod 7\<rparr>)"
    unfolding ngx_gmtime_def if_not_P [OF days(2)] if_not_P [OF days(1)] Let_def prod.case n leap_year_def [symmetric] yz(1) gauss_date_def
    by (cases "z \<ge> 306") (simp_all only: prod.case if_True if_False)
  then show ?thesis using yz(2-5) unfolding n_def by blast
qed


lemma gauss_mono: "a \<le> b \<Longrightarrow> gauss_days a + 365 * (b - a) \<le> gauss_days b"
proof (induction b rule: int_ge_induct)
  case (step i)
  then show ?case using gauss_year [of "i + 1"] by (simp add: algebra_simps split: if_splits)
qed simp

text \<open>Every date the formulas give lies in its month, and its days are counted from January 1.\<close>

lemma gauss_date_ok:
  assumes yz: "0 \<le> z" "z \<le> 365" "z = 365 \<Longrightarrow> leap_year (y + 1)" and d: "gauss_date y z = (year, m, d)"
  shows "1 \<le> m \<and> m \<le> 12 \<and> 1 \<le> d \<and> d \<le> month_days year m \<and> year = (if m \<le> 2 then y + 1 else y) \<and>
    gauss_days y + z = gauss_days (year - 1) + 306 + (\<Sum>j\<leftarrow>[1..m - 1]. month_days year j) + (d - 1) \<and>
    z = (367 * (if m \<le> 2 then m + 10 else m - 2) div 12 - 30) + d - 1"
proof -
  define e where "e = (if z \<ge> 306 then 1 else 0 :: int)"
  have year: "year = y + e" and date: "gauss_date 0 z = (e, m, d)"
    using d unfolding gauss_date_def e_def Let_def by (auto split: if_splits)
  have "yday_ok (leap_year year) z"
    using yz(1,2) yday_table by (metis (full_types) atLeastAtMost_iff list.set_intros set_upto)
  then have ok: "1 \<le> m" "m \<le> 12" "1 \<le> d" "z = 365 \<and> \<not> leap_year year \<or> d \<le> month_days year m" "(e = 1) = (m \<le> 2)"
    "z + (if m \<le> 2 then 0 else if leap_year year then 366 else 365) = 306 + (\<Sum>j\<leftarrow>[1..m - 1]. month_days year j) + (d - 1)"
    "z = (367 * (if m \<le> 2 then m + 10 else m - 2) div 12 - 30) + d - 1"
    unfolding yday_ok_def date prod.case month_days_def by blast+
  have dm: "d \<le> month_days year m"
    using ok(4) yz(3) year unfolding e_def by auto
  have y: "year = (if m \<le> 2 then y + 1 else y)" using year ok(5) unfolding e_def by (simp split: if_splits)
  have "gauss_days y + z = gauss_days (year - 1) + 306 + (\<Sum>j\<leftarrow>[1..m - 1]. month_days year j) + (d - 1)"
    using ok(6) gauss_year [of year] unfolding y by (simp split: if_splits)
  then show ?thesis using ok(1-3,7) dm y by blast
qed

lemma january_1: "1970 \<le> y \<Longrightarrow> (\<Sum>k\<leftarrow>[1970..y - 1]. if leap_year k then 366 else 365) = gauss_days (y - 1) - 719162"
proof (induction y rule: int_ge_induct)
  case base
  then show ?case by (simp add: gauss_days_def)
next
  case (step y)
  have "[1970..y + 1 - 1] = [1970..y - 1] @ [y]" using step(1) upto_rec2 [of 1970 y] by simp
  then show ?case using step gauss_year [of y] by (simp split: if_splits)
qed

subsection \<open>Calendar time is right\<close>

definition valid_tm :: "ngx_tm \<Rightarrow> bool" where
  "valid_tm tm \<longleftrightarrow> 1970 \<le> tm_year tm \<and> tm_year tm \<le> 9999 \<and> 1 \<le> tm_mon tm \<and> tm_mon tm \<le> 12 \<and>
     1 \<le> tm_mday tm \<and> tm_mday tm \<le> month_days (tm_year tm) (tm_mon tm) \<and> 0 \<le> tm_wday tm \<and> tm_wday tm \<le> 6 \<and>
     0 \<le> tm_hour tm \<and> tm_hour tm \<le> 23 \<and> 0 \<le> tm_min tm \<and> tm_min tm \<le> 59 \<and> 0 \<le> tm_sec tm \<and> tm_sec tm \<le> 59"

lemma gauss_values: "gauss_days 1968 = 718797" "gauss_days 1969 = 719162" "gauss_days 9999 = 3652059" "gauss_days 10000 = 3652425"
  by (simp_all add: gauss_days_def)

lemma year_bounds:
  assumes "0 \<le> n" "n \<le> 2932896" "n + 719468 = gauss_days y + z" "0 \<le> z" "z \<le> 365" "306 \<le> z \<longleftrightarrow> year = y + 1" "z < 306 \<longleftrightarrow> year = y"
  shows "1970 \<le> year \<and> year \<le> 9999"
proof -
  note g = gauss_values
  have "\<not> y \<le> 1968" using gauss_mono [of y 1968] assms g by auto
  moreover have "\<not> 10000 \<le> y" using gauss_mono [of 10000 y] assms g by auto
  moreover have "y = 1969 \<Longrightarrow> 306 \<le> z" "y = 9999 \<Longrightarrow> z < 306" using assms(1-3) g by auto
  ultimately show ?thesis using assms(6,7) by linarith
qed

lemma clock_bounds:
  "t mod 86400 div 3600 \<le> 23" "t mod 86400 mod 3600 div 60 \<le> 59" "t mod 86400 mod 3600 mod 60 \<le> 59"
  "t mod 86400 div 3600 * 3600 + t mod 86400 mod 3600 div 60 * 60 + t mod 86400 mod 3600 mod 60 = t mod 86400" for t :: int
proof -
  define s where "s = t mod 86400"
  define r where "r = s mod 3600"
  have s: "s < 86400" "r < 3600" "r mod 60 < 60" by (simp_all add: s_def r_def)
  have "s = s div 3600 * 3600 + r" "r = r div 60 * 60 + r mod 60" unfolding r_def by (rule div_mult_mod_eq [symmetric])+
  then show "t mod 86400 div 3600 \<le> 23" "t mod 86400 mod 3600 div 60 \<le> 59" "t mod 86400 mod 3600 mod 60 \<le> 59"
    "t mod 86400 div 3600 * 3600 + t mod 86400 mod 3600 div 60 * 60 + t mod 86400 mod 3600 mod 60 = t mod 86400"
    unfolding s_def [symmetric] r_def [symmetric] using s zdiv_mono1 [of s 86399 3600] zdiv_mono1 [of r 3599 60] by auto
qed

lemma clock_nonneg:
  "0 \<le> t mod 86400 div 3600" "0 \<le> t mod 86400 mod 3600 div 60" "0 \<le> t mod 86400 mod 3600 mod 60" for t :: int
  by (rule pos_imp_zdiv_nonneg_iff [THEN iffD2] pos_mod_sign; simp)+

lemma weekday_bound: "n mod 7 \<le> 6" "0 \<le> n mod 7" for n :: int
  using pos_mod_bound [of 7 n] by simp_all

lemma gmtime_correct:
  assumes t: "0 \<le> t" "t \<le> 253402300799"
  shows "valid_tm (ngx_gmtime t) \<and>
    days_from_epoch (tm_year (ngx_gmtime t)) (tm_mon (ngx_gmtime t)) (tm_mday (ngx_gmtime t)) = t div 86400 \<and>
    (let m = tm_mon (ngx_gmtime t); y = (if m \<le> 2 then tm_year (ngx_gmtime t) - 1 else tm_year (ngx_gmtime t)) in
     gauss_days y + ((367 * (if m \<le> 2 then m + 10 else m - 2)) div 12 - 30) + tm_mday (ngx_gmtime t) - 1 - 719468 = t div 86400)"
proof -
  obtain y z where yz: "t div 86400 - 59 + 719527 = gauss_days y + z" "0 \<le> z" "z \<le> 365" "z = 365 \<longrightarrow> leap_year (y + 1)"
    and tm: "ngx_gmtime t = (case gauss_date y z of (year, mon, d) \<Rightarrow>
      \<lparr>tm_sec = t mod 86400 mod 3600 mod 60, tm_min = t mod 86400 mod 3600 div 60, tm_hour = t mod 86400 div 3600,
       tm_mday = d, tm_mon = mon, tm_year = year, tm_wday = (4 + t div 86400) mod 7\<rparr>)"
    using gmtime_gauss [OF t] by blast
  obtain year m d where date: "gauss_date y z = (year, m, d)" by (metis prod_cases3)
  note ok = gauss_date_ok [OF yz(2,3) _ date]
  have ok: "1 \<le> m" "m \<le> 12" "1 \<le> d" "d \<le> month_days year m" "year = (if m \<le> 2 then y + 1 else y)"
    "gauss_days y + z = gauss_days (year - 1) + 306 + (\<Sum>j\<leftarrow>[1..m - 1]. month_days year j) + (d - 1)"
    "z = (367 * (if m \<le> 2 then m + 10 else m - 2) div 12 - 30) + d - 1"
    using ok yz(4) by blast+
  have e: "306 \<le> z \<longleftrightarrow> year = y + 1" "z < 306 \<longleftrightarrow> year = y"
    using date unfolding gauss_date_def Let_def by (auto split: if_splits)
  have n: "0 \<le> t div 86400" "t div 86400 \<le> 2932896" "t div 86400 + 719468 = gauss_days y + z" using t yz(1) by linarith+
  have year: "1970 \<le> year \<and> year \<le> 9999" by (rule year_bounds [OF n yz(2,3) e])
  note s = clock_bounds [of t] clock_nonneg [of t] weekday_bound [of "4 + t div 86400"]
  have "valid_tm (ngx_gmtime t)"
    unfolding tm date prod.case valid_tm_def ngx_tm.simps using year ok(1-4) s by (intro conjI; blast)
  moreover have "days_from_epoch year m d = t div 86400"
    using january_1 [of year] year ok(6) n(3) unfolding days_from_epoch_def by linarith
  moreover have "(let y' = (if m \<le> 2 then year - 1 else year) in gauss_days y' + ((367 * (if m \<le> 2 then m + 10 else m - 2)) div 12 - 30) + d - 1 - 719468 = t div 86400)"
    using ok(5,7) n(3) by (simp add: Let_def split: if_splits)
  ultimately show ?thesis unfolding tm date prod.case ngx_tm.simps Let_def by blast
qed


lemma gmtime_negative: "ngx_gmtime t = ngx_gmtime (if t < 0 then 0 else t)"
proof -
  have e: "(if (if t < 0 then 0 else t) < 0 then 0 else (if t < 0 then 0 else t)) = (if t < 0 then 0 else t)" by simp
  show ?thesis unfolding ngx_gmtime_def e by (rule refl)
qed

lemma gmtime_late: "253402300799 < t \<Longrightarrow> ngx_gmtime t = ngx_gmtime 253402300799"
proof -
  assume "253402300799 < t"
  then have t: "\<not> t < 0" "t div 86400 > 2932896" by linarith+
  have u: "\<not> (253402300799 :: int) < 0" "\<not> (253402300799 :: int) div 86400 > 2932896"
    "(253402300799 :: int) div 86400 = 2932896" "(253402300799 :: int) mod 86400 = 86399" by simp_all
  show ?thesis
    unfolding ngx_gmtime_def if_not_P [OF t(1)] if_not_P [OF u(1)] Let_def if_P [OF t(2)] u(3,4) prod.case
    by (simp only: less_irrefl if_False prod.case)
qed

lemma gmtime_clamp: "ngx_gmtime t = ngx_gmtime (max 0 (min 253402300799 t))"
proof -
  consider "t < 0" | "0 \<le> t \<and> t \<le> 253402300799" | "253402300799 < t" by linarith
  then show ?thesis
  proof cases
    case 1
    then have "max 0 (min 253402300799 t) = (if t < 0 then 0 else t)" by simp
    then show ?thesis using gmtime_negative [of t] by metis
  next
    case 2
    then have "max 0 (min 253402300799 t) = t" by simp
    then show ?thesis by metis
  next
    case 3
    then have "max 0 (min 253402300799 t) = 253402300799" by simp
    then show ?thesis using gmtime_late [OF 3] by metis
  qed
qed

lemma gmtime_clock:
  assumes "0 \<le> t" "t \<le> 253402300799"
  shows "tm_wday (ngx_gmtime t) = (4 + t div 86400) mod 7"
    "tm_hour (ngx_gmtime t) * 3600 + tm_min (ngx_gmtime t) * 60 + tm_sec (ngx_gmtime t) = t mod 86400"
proof -
  obtain y z where tm: "ngx_gmtime t = (case gauss_date y z of (year, mon, d) \<Rightarrow>
      \<lparr>tm_sec = t mod 86400 mod 3600 mod 60, tm_min = t mod 86400 mod 3600 div 60, tm_hour = t mod 86400 div 3600,
       tm_mday = d, tm_mon = mon, tm_year = year, tm_wday = (4 + t div 86400) mod 7\<rparr>)"
    using gmtime_gauss [OF assms] by blast
  obtain year m d where date: "gauss_date y z = (year, m, d)" by (metis prod_cases3)
  show "tm_wday (ngx_gmtime t) = (4 + t div 86400) mod 7"
    unfolding tm date prod.case ngx_tm.simps by (rule refl)
  show "tm_hour (ngx_gmtime t) * 3600 + tm_min (ngx_gmtime t) * 60 + tm_sec (ngx_gmtime t) = t mod 86400"
    unfolding tm date prod.case ngx_tm.simps by (rule clock_bounds(4))
qed

text \<open>C36. Whatever the number of seconds, \<open>ngx_gmtime\<close> gives a date of the years 1970 to 9999: the
  month is one of the twelve, the day is one of that month, the weekday, hour, minute and second are in range.\<close>

theorem gmtime_valid: "valid_tm (ngx_gmtime t)"
  unfolding gmtime_clamp [of t] by (rule gmtime_correct [THEN conjunct1]) simp_all

text \<open>C18. The date is that of the time, clamped to the range the code supports: the days counted from
  January 1, 1970, leap years and month lengths as in the Gregorian calendar, and the clock make up exactly the seconds, and
  the weekday is that of a Thursday that many days later.\<close>

theorem gmtime_seconds:
  "(let tm = ngx_gmtime t; days = days_from_epoch (tm_year tm) (tm_mon tm) (tm_mday tm) in
    days * 86400 + tm_hour tm * 3600 + tm_min tm * 60 + tm_sec tm = max 0 (min 253402300799 t) \<and>
    tm_wday tm = (4 + days) mod 7)"
proof -
  define u where "u = max 0 (min 253402300799 t)"
  have u: "0 \<le> u" "u \<le> 253402300799" by (simp_all add: u_def)
  show ?thesis
    unfolding gmtime_clamp [of t] u_def [symmetric] Let_def
      gmtime_correct [OF u, THEN conjunct2, THEN conjunct1] gmtime_clock(1) [OF u]
    using gmtime_clock(2) [OF u] div_mult_mod_eq [of u 86400] by linarith
qed

subsection \<open>Nothing outside the value is read\<close>

definition inside :: "'a option option \<Rightarrow> bool" where
  "inside r \<longleftrightarrow> r \<noteq> None"

lemma inside_intros [intro]:
  "inside (Some x)"
  "i < length s \<Longrightarrow> inside (f (s ! i)) \<Longrightarrow> inside (case at s i of None \<Rightarrow> None | Some c \<Rightarrow> f c)"
  "(b \<Longrightarrow> inside r) \<Longrightarrow> (\<not> b \<Longrightarrow> inside r') \<Longrightarrow> inside (if b then r else r')"
  by (simp_all add: inside_def at_def)

lemma inside_and_then [intro]: "inside q \<Longrightarrow> (\<And>x. inside (f x)) \<Longrightarrow> inside (and_then q f)"
  by (cases q; cases "the q") (auto simp: and_then_def inside_def)

lemma inside_digits [intro]: "i + n \<le> length s \<Longrightarrow> inside (ht_digits n i v s)"
  by (induction n arbitrary: i v) (simp_all add: at_def inside_def)

lemma inside_byte [intro]: "0 < length s \<Longrightarrow> inside (ht_byte c s)"
  by (simp add: ht_byte_def at_def inside_def)

lemma inside_month [intro]: "3 \<le> length s \<Longrightarrow> inside (ht_month s)"
  unfolding ht_month_def by (intro inside_intros) auto

lemma inside_clock [intro]: "9 \<le> length s \<Longrightarrow> (fmt = isoc \<Longrightarrow> 14 \<le> length s) \<Longrightarrow> inside (ht_clock fmt year month day s)"
  unfolding ht_clock_def by (intro inside_intros inside_and_then inside_byte inside_digits) auto

lemma inside_isoc_day [intro]: "3 \<le> length s \<Longrightarrow> inside (ht_isoc_day month s)"
  unfolding ht_isoc_day_def Let_def
  by (intro inside_intros inside_and_then inside_digits inside_clock) (auto split: if_splits)

lemma inside_date [intro]: "15 \<le> length s \<Longrightarrow> (fmt = rfc822 \<Longrightarrow> 17 \<le> length s) \<Longrightarrow> inside (ht_date fmt day s)"
  unfolding ht_date_def Let_def
  by (cases fmt; simp only: http_time_fmt.case; intro inside_and_then inside_month inside_byte inside_digits inside_clock inside_isoc_day)
    simp_all

lemma inside_parse: "inside (ngx_parse_http_time v)"
  unfolding ngx_parse_http_time_def Let_def
  by (intro inside_intros inside_and_then inside_digits inside_date) simp_all

text \<open>C35. \<open>ngx_parse_http_time\<close> never reads a byte at or behind the end of the value, in any of the three
  formats and on every path.\<close>

theorem parse_http_time_safe: "ngx_parse_http_time v \<noteq> None"
  using inside_parse unfolding inside_def .


subsection \<open>What is printed is read back\<close>

definition dec_char :: "nat \<Rightarrow> byte" where
  "dec_char n = of_nat n + ch CHR ''0''"

lemma digit_read: "n < 10 \<Longrightarrow> is_dec (dec_char n) \<and> uint (dec_char n) - 48 = int n"
proof -
  assume n: "n < 10"
  have "\<forall>n \<in> set [0..<10]. is_dec (dec_char n) \<and> uint (dec_char n) - 48 = int n" by code_simp
  then show ?thesis using n by simp
qed

lemma digit_not_space: "n < 10 \<Longrightarrow> dec_char n \<noteq> 32"
  using digit_read [of n] by (auto simp: is_dec_uint)

lemma decimal_small: "n < 10 \<Longrightarrow> decimal_digits n = [dec_char n]"
  by (subst decimal_digits.simps) (simp add: dec_char_def)

lemma decimal_step: "10 \<le> n \<Longrightarrow> decimal_digits n = decimal_digits (n div 10) @ [dec_char (n mod 10)]"
  by (subst decimal_digits.simps) (simp add: dec_char_def div_eq_0_iff)

definition two :: "nat \<Rightarrow> bytes" where
  "two n = [dec_char (n div 10), dec_char (n mod 10)]"

definition four :: "nat \<Rightarrow> bytes" where
  "four n = [dec_char (n div 10 div 10 div 10), dec_char (n div 10 div 10 mod 10), dec_char (n div 10 mod 10), dec_char (n mod 10)]"

lemma length_two_four [simp]: "length (two n) = 2" "length (four n) = 4"
  by (simp_all add: two_def four_def)

lemma full_num_small: "n < 10000 \<Longrightarrow> full_num (word_of_nat n) z 0 width = replicate (width - length (decimal_digits n)) z @ decimal_digits n"
  unfolding full_num_def by (simp add: unsigned_of_nat take_bit_nat_eq_self Let_def)

lemma full_num_two: "n < 100 \<Longrightarrow> full_num (word_of_nat n) (ch CHR ''0'') 0 2 = two n"
  by (cases "n < 10") (simp_all add: full_num_small decimal_small decimal_step two_def dec_char_def numeral_2_eq_2)

lemma full_num_four: "1000 \<le> n \<Longrightarrow> n < 10000 \<Longrightarrow> width \<le> 4 \<Longrightarrow> full_num (word_of_nat n) z 0 width = four n"
proof -
  assume n: "1000 \<le> n" "n < 10000" "width \<le> 4"
  have q: "100 \<le> n div 10" "n div 10 < 1000" using n by auto
  then have q2: "10 \<le> n div 10 div 10" "n div 10 div 10 < 100" by auto
  then have q3: "n div 10 div 10 div 10 < 10" by auto
  have "decimal_digits n = four n"
    using n(1) q(1) q2(1) q3 by (simp only: decimal_step decimal_small four_def) simp
  then show ?thesis using n by (simp add: full_num_small)
qed

lemma time_convert_d:
  assumes "length (full_num (word_of_int n) (fs_zero sp) 0 (unat (fs_width sp))) \<le> room" "0 < room" "0 \<le> n" "n < 10000"
    "fs_sign sp" "fs_hex sp = 0"
  shows "fmt_convert room sp (ch CHR ''d'') (A_num n # args) = Some (full_num (word_of_int n) (fs_zero sp) 0 (unat (fs_width sp)), args)"
proof -
  have "signed_take_bit 31 n = n" using assms(3,4) by (simp add: signed_take_bit_int_eq_self)
  then show ?thesis
    using assms by (simp add: fmt_convert_def arg_letters_def fmt_number_def fmt_integer_def print_number_take full_number_def)
qed

lemma convert_two: "n < 100 \<Longrightarrow> 2 \<le> room \<Longrightarrow> fs_sign sp \<Longrightarrow> fs_hex sp = 0 \<Longrightarrow> fs_zero sp = ch CHR ''0'' \<Longrightarrow> fs_width sp = 2 \<Longrightarrow>
    fmt_convert room sp (ch CHR ''d'') (A_num (int n) # args) = Some (two n, args)"
  by (subst time_convert_d) (simp_all add: full_num_two [simplified])

lemma convert_four: "1000 \<le> n \<Longrightarrow> n < 10000 \<Longrightarrow> 4 \<le> room \<Longrightarrow> fs_sign sp \<Longrightarrow> fs_hex sp = 0 \<Longrightarrow> unat (fs_width sp) \<le> 4 \<Longrightarrow>
    fmt_convert room sp (ch CHR ''d'') (A_num (int n) # args) = Some (four n, args)"
  by (subst time_convert_d) (simp_all add: full_num_four [simplified])

lemma str_nul_all: "0 \<notin> set w \<Longrightarrow> length w \<le> room \<Longrightarrow> str_nul room (w @ [0]) = Some w"
  by (induction w arbitrary: room) auto

lemma convert_s: "0 \<notin> set w \<Longrightarrow> length w \<le> room \<Longrightarrow> fs_slen sp = - 1 \<Longrightarrow> fs_hex sp = 0 \<Longrightarrow>
    fmt_convert room sp (ch CHR ''s'') (A_str (w @ [0]) # args) = Some (w, args)"
  by (simp add: fmt_convert_def arg_letters_def ngx_sprintf_str_def str_nul_all)

definition tm_clock :: "nat \<Rightarrow> nat \<Rightarrow> nat \<Rightarrow> bytes" where
  "tm_clock h i s = two h @ str '':'' @ two i @ str '':'' @ two s @ str '' GMT''"

lemma http_time_printed:
  assumes "length w = 3" "0 \<notin> set w" "length m = 3" "0 \<notin> set m" "d < 100" "1000 \<le> y" "y < 10000" "h < 100" "i < 100" "s < 100" "100 \<le> room"
  shows "ngx_vslprintf room (str ''%s, %02d %s %4d %02d:%02d:%02d GMT'')
    [A_str (w @ [0]), A_num (int d), A_str (m @ [0]), A_num (int y), A_num (int h), A_num (int i), A_num (int s)] =
    Some (w @ str '', '' @ two d @ str '' '' @ m @ str '' '' @ four y @ str '' '' @ tm_clock h i s)"
proof -
  obtain k where "room = 100 + k" using assms(11) nat_le_iff_add by blast
  then show ?thesis
    using assms(1-10) by (simp add: fmt_begin_def is_dec_def convert_two [simplified] convert_four [simplified] convert_s [simplified] tm_clock_def)
qed


lemma cookie_time_printed:
  assumes "length w = 3" "0 \<notin> set w" "length m = 3" "0 \<notin> set m" "d < 100" "h < 100" "i < 100" "s < 100" "100 \<le> room"
  shows "y < 100 \<Longrightarrow> ngx_vslprintf room (str ''%s, %02d-%s-%02d %02d:%02d:%02d GMT'')
    [A_str (w @ [0]), A_num (int d), A_str (m @ [0]), A_num (int y), A_num (int h), A_num (int i), A_num (int s)] =
    Some (w @ str '', '' @ two d @ str ''-'' @ m @ str ''-'' @ two y @ str '' '' @ tm_clock h i s)"
    "1000 \<le> z \<Longrightarrow> z < 10000 \<Longrightarrow> ngx_vslprintf room (str ''%s, %02d-%s-%d %02d:%02d:%02d GMT'')
    [A_str (w @ [0]), A_num (int d), A_str (m @ [0]), A_num (int z), A_num (int h), A_num (int i), A_num (int s)] =
    Some (w @ str '', '' @ two d @ str ''-'' @ m @ str ''-'' @ four z @ str '' '' @ tm_clock h i s)"
proof -
  obtain k where k: "room = 100 + k" using assms(9) nat_le_iff_add by blast
  show "y < 100 \<Longrightarrow> ngx_vslprintf room (str ''%s, %02d-%s-%02d %02d:%02d:%02d GMT'')
    [A_str (w @ [0]), A_num (int d), A_str (m @ [0]), A_num (int y), A_num (int h), A_num (int i), A_num (int s)] =
    Some (w @ str '', '' @ two d @ str ''-'' @ m @ str ''-'' @ two y @ str '' '' @ tm_clock h i s)"
    unfolding k using assms(1-8)
    by (simp add: fmt_begin_def is_dec_def convert_two [simplified] convert_s [simplified] tm_clock_def)
  show "1000 \<le> z \<Longrightarrow> z < 10000 \<Longrightarrow> ngx_vslprintf room (str ''%s, %02d-%s-%d %02d:%02d:%02d GMT'')
    [A_str (w @ [0]), A_num (int d), A_str (m @ [0]), A_num (int z), A_num (int h), A_num (int i), A_num (int s)] =
    Some (w @ str '', '' @ two d @ str ''-'' @ m @ str ''-'' @ four z @ str '' '' @ tm_clock h i s)"
    unfolding k using assms(1-8)
    by (simp add: fmt_begin_def is_dec_def convert_two [simplified] convert_four [simplified] convert_s [simplified] tm_clock_def)
qed

lemma div_word_int: "0 \<le> y \<Longrightarrow> y < 2 ^ 64 \<Longrightarrow> 0 < k \<Longrightarrow> k < 2 ^ 64 \<Longrightarrow> word_of_int y div word_of_int k = (word_of_int (y div k) :: 64 word)"
  by (simp add: word_div_def uint_word_of_int_eq take_bit_int_eq_self)

text \<open>The formula is evaluated modulo \<open>2 ^ 64\<close>, in any order: only the result has to be in range.\<close>

lemma ht_formula:
  fixes y a d h i s t :: int
  assumes y: "0 \<le> y" "y < 2 ^ 64" and t: "(gauss_days y + a + d - 1 - 719468) * 86400 + h * 3600 + i * 60 + s = t" "- (2 ^ 63) \<le> t" "t < 2 ^ 63"
  shows "sint ((365 * word_of_int y + word_of_int y div 4 - word_of_int y div 100 + word_of_int y div 400 + word_of_int a
             + word_of_int d - 1 - 719527 + 31 + 28) * 86400
             + word_of_int h * 3600 + word_of_int i * 60 + word_of_int s :: 64 word) = t"
proof -
  have q: "word_of_int y div 4 = (word_of_int (y div 4) :: 64 word)" "word_of_int y div 100 = (word_of_int (y div 100) :: 64 word)"
    "word_of_int y div 400 = (word_of_int (y div 400) :: 64 word)"
    using div_word_int [OF y, of 4] div_word_int [OF y, of 100] div_word_int [OF y, of 400] by simp_all
  define e where "e = (365 * y + y div 4 - y div 100 + y div 400 + a + d - 1 - 719527 + 31 + 28) * 86400 + h * 3600 + i * 60 + s"
  have "e = t" unfolding e_def t(1) [symmetric] gauss_days_def by simp
  moreover have "(365 * word_of_int y + word_of_int y div 4 - word_of_int y div 100 + word_of_int y div 400 + word_of_int a
             + word_of_int d - 1 - 719527 + 31 + 28) * 86400
             + word_of_int h * 3600 + word_of_int i * 60 + word_of_int s = (word_of_int e :: 64 word)"
    unfolding q e_def by simp
  moreover have "sint (word_of_int t :: 64 word) = t"
    using t(2,3) by (simp add: signed_of_int signed_take_bit_int_eq_self)
  ultimately show ?thesis by metis
qed

lemma ht_time_gmtime:
  assumes t: "0 \<le> t" "t \<le> 253402300799"
  shows "ht_time (tm_year (ngx_gmtime t)) (tm_mon (ngx_gmtime t) - 1) (tm_mday (ngx_gmtime t)) (tm_hour (ngx_gmtime t))
    (tm_min (ngx_gmtime t)) (tm_sec (ngx_gmtime t)) = Some t"
proof -
  define tm where "tm = ngx_gmtime t"
  define m where "m = tm_mon tm"
  define y where "y = (if m \<le> 2 then tm_year tm - 1 else tm_year tm)"
  define a where "a = 367 * (if m \<le> 2 then m + 10 else m - 2) div 12 - 30"
  note ok = gmtime_correct [OF t, folded tm_def, folded m_def, unfolded Let_def, folded y_def a_def]
  have v: "1970 \<le> tm_year tm" "tm_year tm \<le> 9999" "1 \<le> m" "m \<le> 12" "tm_mday tm \<le> month_days (tm_year tm) m"
    "tm_hour tm \<le> 23" "tm_min tm \<le> 59" "tm_sec tm \<le> 59"
    using ok unfolding valid_tm_def m_def by blast+
  have "(gauss_days y + a + tm_mday tm - 1 - 719468) * 86400 + (tm_hour tm * 3600 + tm_min tm * 60 + tm_sec tm) = t"
    using ok gmtime_clock(2) [OF t, folded tm_def] div_mult_mod_eq [of t 86400] by metis
  then have sum: "(gauss_days y + a + tm_mday tm - 1 - 719468) * 86400 + tm_hour tm * 3600 + tm_min tm * 60 + tm_sec tm = t"
    by (simp only: add.assoc)
  have y: "0 \<le> y" "y < 2 ^ 64" using v(1,2) unfolding y_def by auto
  have clock: "\<not> (tm_hour tm > 23 \<or> tm_min tm > 59 \<or> tm_sec tm > 59)" using v(6-8) by linarith
  have day: "\<not> (if tm_mday tm = 29 \<and> m - 1 = 1
      then tm_year tm mod 4 \<noteq> 0 \<or> tm_year tm mod 100 = 0 \<and> tm_year tm mod 400 \<noteq> 0 else tm_mday tm > mday ! nat (m - 1))"
    using v(5) unfolding month_days_def month_len_def leap_year_def by (auto simp: mday_def split: if_splits)
  have month: "(if m - 1 - 1 \<le> 0 then (m - 1 - 1 + 12, word_of_int (tm_year tm) - 1) else (m - 1 - 1, word_of_int (tm_year tm) :: 64 word)) =
      ((if m \<le> 2 then m + 10 else m - 2), word_of_int y)"
    unfolding y_def by (cases "m \<le> 2") simp_all
  show ?thesis
    unfolding tm_def [symmetric] m_def [symmetric] ht_time_def if_not_P [OF clock] if_not_P [OF day] Let_def month prod.case a_def [symmetric]
    using ht_formula [OF y sum] t by simp
qed


lemmas digit_value = digit_read [THEN conjunct1] digit_read [THEN conjunct2]

lemma read_two: "a < 10 \<Longrightarrow> b < 10 \<Longrightarrow> ht_digits 2 0 0 (dec_char a # dec_char b # r) = Some (Some (int a * 10 + int b))"
  by (simp add: numeral_2_eq_2 at_def digit_value)

lemma read_four: "a < 10 \<Longrightarrow> b < 10 \<Longrightarrow> c < 10 \<Longrightarrow> d < 10 \<Longrightarrow>
    ht_digits 4 0 0 (dec_char a # dec_char b # dec_char c # dec_char d # r) = Some (Some (((int a * 10 + int b) * 10 + int c) * 10 + int d))"
  by (simp add: eval_nat_numeral at_def digit_value)

lemma int_digits: "int (n div 10) * 10 + int (n mod 10) = int n"
  by (metis div_mult_mod_eq of_nat_add of_nat_mult of_nat_numeral)

lemma read_2: "n < 100 \<Longrightarrow> ht_digits 2 0 0 (dec_char (n div 10) # dec_char (n mod 10) # r) = Some (Some (int n))"
  using read_two [of "n div 10" "n mod 10" r] int_digits [of n] by simp

lemma read_4: "n < 10000 \<Longrightarrow>
    ht_digits 4 0 0 (dec_char (n div 10 div 10 div 10) # dec_char (n div 10 div 10 mod 10) # dec_char (n div 10 mod 10) # dec_char (n mod 10) # r) = Some (Some (int n))"
proof -
  assume "n < 10000"
  then have "n div 10 div 10 div 10 < 10" by (simp add: div_mult2_eq [symmetric])
  then show ?thesis
    by (subst read_four) (simp_all only: int_digits mod_less_divisor zero_less_numeral)
qed

lemma read_two_four [simp]:
  "n < 100 \<Longrightarrow> ht_digits 2 0 0 (two n @ r) = Some (Some (int n))"
  "n < 10000 \<Longrightarrow> ht_digits 4 0 0 (four n @ r) = Some (Some (int n))"
  using read_2 read_4 by (simp_all add: two_def four_def)

lemma read_clock:
  assumes "fmt \<noteq> isoc" "h < 100" "i < 100" "s < 100"
  shows "ht_clock fmt year month day (ch CHR '' '' # tm_clock h i s) = Some (ht_time year month day (int h) (int i) (int s))"
  unfolding ht_clock_def tm_clock_def using assms by (simp add: ht_byte_def at_def and_then_def)

lemma read_week:
  assumes "0 \<le> w" "w \<le> 6"
  shows "dropWhile (\<lambda>c. c \<noteq> ch CHR '','' \<and> c \<noteq> ch CHR '' '') (week ! nat w @ ch CHR '','' # r) = ch CHR '','' # r"
proof -
  have "\<forall>x \<in> set (week ! nat w). x \<noteq> ch CHR '','' \<and> x \<noteq> ch CHR '' ''"
  proof -
    have "\<forall>u \<in> set week. \<forall>x \<in> set u. x \<noteq> ch CHR '','' \<and> x \<noteq> ch CHR '' ''" by (simp add: week_def)
    moreover have "week ! nat w \<in> set week" by (rule nth_mem) (use assms in \<open>simp add: week_def\<close>)
    ultimately show ?thesis by blast
  qed
  then show ?thesis by (simp add: dropWhile_append2)
qed

lemma read_month: "1 \<le> m \<Longrightarrow> m \<le> 12 \<Longrightarrow> ht_month (months ! nat (m - 1) @ r) = Some (Some (m - 1))"
  and month_text: "1 \<le> m \<Longrightarrow> m \<le> 12 \<Longrightarrow> length (months ! nat (m - 1)) = 3 \<and> 0 \<notin> set (months ! nat (m - 1))"
proof -
  have "\<forall>k \<in> set [0..<12]. \<exists>a b c. months ! k = [a, b, c] \<and> 0 \<notin> set (months ! k) \<and> (\<forall>r. ht_month (a # b # c # r) = Some (Some (int k)))"
    by (simp add: months_def upt_rec ht_month_def at_def)
  moreover assume m: "1 \<le> m" "m \<le> 12"
  moreover have "nat (m - 1) \<in> set [0..<12]" "int (nat (m - 1)) = m - 1" using m by auto
  ultimately show "ht_month (months ! nat (m - 1) @ r) = Some (Some (m - 1))"
    "length (months ! nat (m - 1)) = 3 \<and> 0 \<notin> set (months ! nat (m - 1))" by fastforce+
qed

lemma week_text: "0 \<le> w \<Longrightarrow> w \<le> 6 \<Longrightarrow> length (week ! nat w) = 3 \<and> 0 \<notin> set (week ! nat w)"
proof -
  assume w: "0 \<le> w" "w \<le> 6"
  have "\<forall>u \<in> set week. length u = 3 \<and> 0 \<notin> set u" by (simp add: week_def)
  moreover have "week ! nat w \<in> set week" by (rule nth_mem) (use w in \<open>simp add: week_def\<close>)
  ultimately show ?thesis by blast
qed

lemma month_days_le: "1 \<le> m \<Longrightarrow> m \<le> 12 \<Longrightarrow> month_days y m \<le> 31"
proof -
  assume m: "1 \<le> m" "m \<le> 12"
  have "\<forall>k \<in> set mday. k \<le> 31" by (simp add: mday_def)
  moreover have "mday ! nat (m - 1) \<in> set mday"
    by (rule nth_mem) (use m in \<open>auto simp: mday_def\<close>)
  ultimately show ?thesis unfolding month_days_def month_len_def by simp
qed

text \<open>The fields of a valid date as the numbers \<open>ngx_sprintf\<close> gets.\<close>

lemma valid_digits:
  assumes "valid_tm tm"
  obtains d y h i s where "tm_mday tm = int d" "d < 100" "tm_year tm = int y" "1970 \<le> y" "y < 10000"
    "tm_hour tm = int h" "h < 100" "tm_min tm = int i" "i < 100" "tm_sec tm = int s" "s < 100"
proof -
  have "month_days (tm_year tm) (tm_mon tm) \<le> 31" by (rule month_days_le) (use assms in \<open>auto simp: valid_tm_def\<close>)
  then show ?thesis
    using assms that [of "nat (tm_mday tm)" "nat (tm_year tm)" "nat (tm_hour tm)" "nat (tm_min tm)" "nat (tm_sec tm)"]
    unfolding valid_tm_def by auto
qed

lemma length_clock [simp]: "length (tm_clock h i s) = 12"
  by (simp add: tm_clock_def)

lemma two_first: "d < 100 \<Longrightarrow> two d = [dec_char (d div 10), dec_char (d mod 10)] \<and> dec_char (d div 10) \<noteq> ch CHR '' ''"
  using digit_not_space [of "d div 10"] by (simp add: two_def)

text \<open>The reader up to the month, on the two formats.\<close>

lemma read_rfc822:
  assumes "0 \<le> w" "w \<le> 6" "d < 100" "17 \<le> length r"
  shows "ngx_parse_http_time (week ! nat w @ str '', '' @ two d @ str '' '' @ r) = ht_date rfc822 (int d) r"
proof -
  have "ngx_parse_http_time (week ! nat w @ ch CHR '','' # ch CHR '' '' # two d @ ch CHR '' '' # r) = ht_date rfc822 (int d) r"
    unfolding ngx_parse_http_time_def read_week [OF assms(1,2)] Let_def
    using assms(4) two_first [OF assms(3)] read_two_four(1) [OF assms(3), of "ch CHR '' '' # r"] by (simp add: at_def and_then_def)
  then show ?thesis by simp
qed

lemma read_rfc850:
  assumes "0 \<le> w" "w \<le> 6" "d < 100" "15 \<le> length r"
  shows "ngx_parse_http_time (week ! nat w @ str '', '' @ two d @ str ''-'' @ r) = ht_date rfc850 (int d) r"
proof -
  have "ngx_parse_http_time (week ! nat w @ ch CHR '','' # ch CHR '' '' # two d @ ch CHR ''-'' # r) = ht_date rfc850 (int d) r"
    unfolding ngx_parse_http_time_def read_week [OF assms(1,2)] Let_def
    using assms(4) two_first [OF assms(3)] read_two_four(1) [OF assms(3), of "ch CHR ''-'' # r"] by (simp add: at_def and_then_def)
  then show ?thesis by simp
qed

lemma http_time_read:
  assumes "0 \<le> t" "t \<le> 253402300799" "buf < 2 ^ 63"
  shows "map_option ngx_parse_http_time (ngx_http_time buf t) = Some (Some (Some t))"
proof -
  define tm where "tm = ngx_gmtime t"
  have v: "valid_tm tm" using gmtime_correct [OF assms(1,2)] unfolding tm_def by blast
  obtain d y h i s where n: "tm_mday tm = int d" "d < 100" "tm_year tm = int y" "1970 \<le> y" "y < 10000"
    "tm_hour tm = int h" "h < 100" "tm_min tm = int i" "i < 100" "tm_sec tm = int s" "s < 100" by (rule valid_digits [OF v])
  have m: "1 \<le> tm_mon tm" "tm_mon tm \<le> 12" and w: "0 \<le> tm_wday tm" "tm_wday tm \<le> 6" using v unfolding valid_tm_def by blast+
  have far: "100 \<le> 2 ^ 64 - 1 - buf" using assms(3) by simp
  define rest where "rest = months ! nat (tm_mon tm - 1) @ str '' '' @ four y @ str '' '' @ tm_clock h i s"
  have printed: "ngx_http_time buf t = Some (week ! nat (tm_wday tm) @ str '', '' @ two d @ str '' '' @ rest)"
    unfolding ngx_http_time_def ngx_sprintf_def tm_def [symmetric] Let_def n rest_def
    by (rule http_time_printed) (use week_text [OF w] month_text [OF m] n far in simp_all)
  have "ht_clock rfc822 (int y) (tm_mon tm - 1) (int d) (ch CHR '' '' # tm_clock h i s) = Some (Some t)"
    using read_clock [of rfc822 h i s] ht_time_gmtime [OF assms(1,2), folded tm_def] n by simp
  then have "ht_date rfc822 (int d) rest = Some (Some t)"
    unfolding ht_date_def rest_def read_month [OF m] using month_text [OF m] n(5) by (simp add: and_then_def ht_byte_def at_def)
  moreover have "17 \<le> length rest" using month_text [OF m] unfolding rest_def by simp
  ultimately show ?thesis unfolding printed using read_rfc822 [OF w n(2), of rest] by simp
qed

text \<open>C17. A date header that \<open>ngx_http_time\<close> prints is read back by \<open>ngx_parse_http_time\<close> as the same time.\<close>

theorem http_time_roundtrip:
  assumes "buf < 2 ^ 63"
  shows "map_option ngx_parse_http_time (ngx_http_time buf t) = Some (Some (Some (max 0 (min 253402300799 t))))"
proof -
  have "ngx_http_time buf t = ngx_http_time buf (max 0 (min 253402300799 t))"
    unfolding ngx_http_time_def using gmtime_clamp [of t] by metis
  then show ?thesis using http_time_read [OF _ _ assms, of "max 0 (min 253402300799 t)"] by simp
qed

lemma http_time_roundtrip_witness:
  "map_option ngx_parse_http_time (ngx_http_time 4096 951868799) = Some (Some (Some 951868799))"
  using http_time_roundtrip [of 4096 951868799] by simp


lemma cookie_year: "1970 \<le> y \<Longrightarrow> y \<le> 2037 \<Longrightarrow> (if y mod 100 < 70 then y mod 100 + 2000 else y mod 100 + 1900) = y" for y :: nat
proof -
  assume y: "1970 \<le> y" "y \<le> 2037"
  define k where "k = (if y < 2000 then y - 1900 else y - 2000)"
  have k: "k < 100" "y = (if y < 2000 then k + 19 * 100 else k + 20 * 100)" "k < 70 \<longleftrightarrow> \<not> y < 2000"
    using y unfolding k_def by auto
  then have "y mod 100 = k" by (metis mod_less mod_mult_self1)
  then show ?thesis using k by (simp split: if_splits)
qed

lemma cookie_time_read:
  assumes "0 \<le> t" "t \<le> 253402300799" "buf < 2 ^ 63"
  shows "map_option ngx_parse_http_time (ngx_http_cookie_time buf t) = Some (Some (if tm_year (ngx_gmtime t) \<le> 2037 then Some t else None))"
proof -
  define tm where "tm = ngx_gmtime t"
  have v: "valid_tm tm" using gmtime_correct [OF assms(1,2)] unfolding tm_def by blast
  obtain d y h i s where n: "tm_mday tm = int d" "d < 100" "tm_year tm = int y" "1970 \<le> y" "y < 10000"
    "tm_hour tm = int h" "h < 100" "tm_min tm = int i" "i < 100" "tm_sec tm = int s" "s < 100" by (rule valid_digits [OF v])
  have m: "1 \<le> tm_mon tm" "tm_mon tm \<le> 12" and w: "0 \<le> tm_wday tm" "tm_wday tm \<le> 6" using v unfolding valid_tm_def by blast+
  have far: "100 \<le> 2 ^ 64 - 1 - buf" using assms(3) by simp
  define year where "year = (if y \<le> 2037 then two (y mod 100) else four y)"
  define rest where "rest = months ! nat (tm_mon tm - 1) @ str ''-'' @ year @ str '' '' @ tm_clock h i s"
  have printed: "ngx_http_cookie_time buf t = Some (week ! nat (tm_wday tm) @ str '', '' @ two d @ str ''-'' @ rest)"
  proof (cases "y \<le> 2037")
    case True
    then have e: "\<not> int y > 2037" "int y mod 100 = int (y mod 100)" by (simp_all add: zmod_int)
    show ?thesis
      unfolding ngx_http_cookie_time_def ngx_sprintf_def tm_def [symmetric] Let_def n if_not_P [OF e(1)] e(2) rest_def year_def if_P [OF True]
      by (rule cookie_time_printed(1)) (use week_text [OF w] month_text [OF m] n far in simp_all)
  next
    case False
    then have e: "int y > 2037" by simp
    show ?thesis
      unfolding ngx_http_cookie_time_def ngx_sprintf_def tm_def [symmetric] Let_def n if_P [OF e] rest_def year_def if_not_P [OF False]
      by (rule cookie_time_printed(2)) (use week_text [OF w] month_text [OF m] n far in simp_all)
  qed
  have month: "ht_date rfc850 (int d) rest = and_then (ht_digits 2 0 0 (year @ str '' '' @ tm_clock h i s))
      (\<lambda>k. ht_clock rfc850 (if k < 70 then k + 2000 else k + 1900) (tm_mon tm - 1) (int d) (drop 2 (year @ str '' '' @ tm_clock h i s)))"
  proof -
    have "drop 3 (c # r) = drop 2 r" for c :: byte and r by (simp add: eval_nat_numeral)
    then show ?thesis
      unfolding ht_date_def rest_def read_month [OF m] using month_text [OF m]
      by (simp add: and_then_def ht_byte_def at_def cong: option.case_cong)
  qed
  have "ht_date rfc850 (int d) rest = Some (if y \<le> 2037 then Some t else None)"
  proof (cases "y \<le> 2037")
    case True
    have "ht_clock rfc850 (int y) (tm_mon tm - 1) (int d) (ch CHR '' '' # tm_clock h i s) = Some (Some t)"
      using read_clock [of rfc850 h i s] ht_time_gmtime [OF assms(1,2), folded tm_def] n by simp
    moreover have "(if int (y mod 100) < 70 then int (y mod 100) + 2000 else int (y mod 100) + 1900) = int y"
      using cookie_year [OF n(4) True] by presburger
    ultimately show ?thesis
      unfolding month year_def using True read_two_four(1) [of "y mod 100" "str '' '' @ tm_clock h i s"] by (simp add: and_then_def)
  next
    case False
    have a: "y div 10 div 10 div 10 < 10" using n(5) by (simp add: div_mult2_eq [symmetric])
    have "ht_clock fmt u v w (drop 2 (year @ r)) = Some None" for fmt u v w r
      using False digit_not_space [of "y div 10 mod 10"] unfolding year_def four_def by (simp add: ht_clock_def and_then_def ht_byte_def at_def)
    then show ?thesis
      unfolding month using False a by (simp add: year_def four_def read_two and_then_def)
  qed
  moreover have "15 \<le> length rest" using month_text [OF m] unfolding rest_def year_def by simp
  ultimately show ?thesis unfolding printed using read_rfc850 [OF w n(2), of rest] n(3) unfolding tm_def by simp
qed

text \<open>A cookie date is read back as the same time while its year has two digits; a date behind 2037
  has four, which the reader refuses.\<close>

theorem cookie_time_roundtrip:
  assumes "buf < 2 ^ 63"
  shows "map_option ngx_parse_http_time (ngx_http_cookie_time buf t) =
    Some (Some (if tm_year (ngx_gmtime t) \<le> 2037 then Some (max 0 (min 253402300799 t)) else None))"
proof -
  have "ngx_http_cookie_time buf t = ngx_http_cookie_time buf (max 0 (min 253402300799 t))"
    unfolding ngx_http_cookie_time_def using gmtime_clamp [of t] by metis
  then show ?thesis using cookie_time_read [OF _ _ assms, of "max 0 (min 253402300799 t)"] gmtime_clamp [of t] by simp
qed

lemma cookie_time_roundtrip_witness:
  "map_option ngx_parse_http_time (ngx_http_cookie_time 4096 951868799) = Some (Some (Some 951868799))"
proof -
  have "tm_year (ngx_gmtime 951868799) = 2000" by code_simp
  then show ?thesis using cookie_time_roundtrip [of 4096 951868799] by simp
qed

subsection \<open>Every date that is accepted\<close>

lemma month_table: "\<forall>leap \<in> set [True, False]. \<forall>m \<in> set [1..12].
    (if m \<le> 2 then 0 else if leap then 366 else 365) + (367 * (if m \<le> 2 then m + 10 else m - 2) div 12 - 30) =
    306 + (\<Sum>j\<leftarrow>[1..m - 1]. month_len leap j)"
  by code_simp

lemma gauss_days_from_epoch:
  assumes "1970 \<le> y" "1 \<le> m" "m \<le> 12"
  shows "gauss_days (if m \<le> 2 then y - 1 else y) + (367 * (if m \<le> 2 then m + 10 else m - 2) div 12 - 30) + d - 1 - 719468 = days_from_epoch y m d"
proof -
  have "(if m \<le> 2 then 0 else if leap_year y then 366 else 365) + (367 * (if m \<le> 2 then m + 10 else m - 2) div 12 - 30) =
      306 + (\<Sum>j\<leftarrow>[1..m - 1]. month_days y j)"
    unfolding month_days_def by (rule month_table [THEN bspec, THEN bspec]) (use assms(2,3) in auto)
  then show ?thesis
    using gauss_year [of y] unfolding days_from_epoch_def january_1 [OF assms(1)] by (simp split: if_splits)
qed

text \<open>What \<open>ht_time\<close> makes of date fields of the years 1970 to 9999: they are refused unless the clock is in range and the day is at most the
  length of its month in that year, and otherwise give the seconds of that date since 1970. A day 0 passes the check and stands
  for the last day of the month before.\<close>

theorem http_date_seconds:
  assumes "1970 \<le> year" "year \<le> 9999" "0 \<le> month" "month \<le> 11" "0 \<le> day" "0 \<le> hour" "0 \<le> mi" "0 \<le> sec"
  shows "ht_time year month day hour mi sec =
    (if hour \<le> 23 \<and> mi \<le> 59 \<and> sec \<le> 59 \<and> day \<le> month_days year (month + 1)
     then Some (days_from_epoch year (month + 1) day * 86400 + hour * 3600 + mi * 60 + sec) else None)"
proof (cases "hour > 23 \<or> mi > 59 \<or> sec > 59")
  case False
  have day: "(if day = 29 \<and> month = 1 then year mod 4 \<noteq> 0 \<or> year mod 100 = 0 \<and> year mod 400 \<noteq> 0 else day > mday ! nat month) =
      (\<not> day \<le> month_days year (month + 1))"
    unfolding month_days_def month_len_def leap_year_def by (auto simp: mday_def)
  define y where "y = (if month + 1 \<le> 2 then year - 1 else year)"
  define a where "a = 367 * (if month + 1 \<le> 2 then month + 1 + 10 else month + 1 - 2) div 12 - 30"
  define e where "e = days_from_epoch year (month + 1) day"
  have month: "(if month - 1 \<le> 0 then (month - 1 + 12, word_of_int year - 1) else (month - 1, word_of_int year :: 64 word)) =
      ((if month + 1 \<le> 2 then month + 1 + 10 else month + 1 - 2), word_of_int y)"
    unfolding y_def by (cases "month \<le> 1") simp_all
  have g: "gauss_days y + a + day - 1 - 719468 = e"
    unfolding y_def a_def e_def by (rule gauss_days_from_epoch) (use assms in simp_all)
  show ?thesis
  proof (cases "day \<le> month_days year (month + 1)")
    case True
    have "month_days year (month + 1) \<le> 31" by (rule month_days_le) (use assms in simp_all)
    then have d: "day \<le> 31" using True by simp
    have y: "1969 \<le> y" "y \<le> 9999" using assms(1,2) unfolding y_def by auto
    have gy: "719162 \<le> gauss_days y" "gauss_days y \<le> 3652059"
      using gauss_mono [OF y(1)] gauss_mono [OF y(2)] y unfolding gauss_values by simp_all
    have al: "0 \<le> a" "a \<le> 337" using assms(3,4) unfolding a_def by (auto split: if_splits)
    have "- 1000 \<le> e" "e \<le> 10000000" using g gy al d assms(5) by linarith+
    then have r: "- (2 ^ 63) \<le> e * 86400 + hour * 3600 + mi * 60 + sec" "e * 86400 + hour * 3600 + mi * 60 + sec < 2 ^ 63"
      using False assms(6-8) by auto
    have "sint ((365 * word_of_int y + word_of_int y div 4 - word_of_int y div 100 + word_of_int y div 400 + word_of_int a
             + word_of_int day - 1 - 719527 + 31 + 28) * 86400
             + word_of_int hour * 3600 + word_of_int mi * 60 + word_of_int sec :: 64 word) = e * 86400 + hour * 3600 + mi * 60 + sec"
      using y by (intro ht_formula [OF _ _ _ r]) (simp_all add: g)
    then show ?thesis
      using True False unfolding ht_time_def if_not_P [OF False] day Let_def month prod.case a_def [symmetric] e_def [symmetric] by simp
  next
    case False
    then show ?thesis using \<open>\<not> (hour > 23 \<or> mi > 59 \<or> sec > 59)\<close> unfolding ht_time_def day by simp
  qed
qed (auto simp: ht_time_def)

lemma http_date_seconds_witness: "ht_time 2000 1 29 23 59 59 = Some 951868799"
  using http_date_seconds [of 2000 1 29 23 59 59] by (simp add: month_days_def month_len_def leap_year_def days_from_epoch_def upto.simps mday_def)

end
