(* ===== verification/Ngx_Inet.thy ===== *)
theory Ngx_Inet
  imports Ngx_Printf Ngx_Strcmp
begin

section \<open>Internet addresses\<close>

text \<open>
  \<open>src/core/ngx_inet.c\<close>: reading and printing IPv4 and IPv6 addresses, networks in CIDR notation and matching against them,
  addresses with ports, comparing socket addresses. An \<open>in_addr_t\<close> and a port are words as they lie in memory of a
  little-endian machine, so \<open>htonl\<close> and \<open>htons\<close> swap bytes; an IPv6 address is its 16 bytes. Resolving names and the
  syntax of URLs of upstreams are left out.
\<close>

subsection \<open>Byte order\<close>

definition addr_bytes :: "32 word \<Rightarrow> bytes" where
  "addr_bytes w = [ucast w, ucast (drop_bit 8 w), ucast (drop_bit 16 w), ucast (drop_bit 24 w)]"

definition htonl :: "32 word \<Rightarrow> 32 word" where
  "htonl w = push_bit 24 (w AND 0xff) OR push_bit 8 (w AND 0xff00) OR drop_bit 8 (w AND 0xff0000) OR drop_bit 24 w"

definition htons :: "16 word \<Rightarrow> 16 word" where
  "htons w = push_bit 8 w OR drop_bit 8 w"

definition INADDR_NONE :: "32 word" where
  "INADDR_NONE = - 1"

subsection \<open>Reading addresses\<close>

text \<open>The state of the loop is \<open>addr\<close>, \<open>octet\<close> and \<open>n\<close>.\<close>

fun inet_loop :: "32 word \<Rightarrow> nat \<Rightarrow> nat \<Rightarrow> bytes \<Rightarrow> (32 word \<times> nat \<times> nat) option" where
  "inet_loop addr octet n [] = Some (addr, octet, n)"
| "inet_loop addr octet n (c # p) =
     (if ch CHR ''0'' \<le> c \<and> c \<le> ch CHR ''9'' then
        (let octet = octet * 10 + unat (c - ch CHR ''0'') in if octet > 255 then None else inet_loop addr octet n p)
      else if c = ch CHR ''.'' then inet_loop (push_bit 8 addr + of_nat octet) 0 (n + 1) p
      else None)"

definition ngx_inet_addr :: "bytes \<Rightarrow> 32 word" where
  "ngx_inet_addr text =
     (case inet_loop 0 0 0 text of
        None \<Rightarrow> INADDR_NONE
      | Some (addr, octet, n) \<Rightarrow> if n = 3 then htonl (push_bit 8 addr + of_nat octet) else INADDR_NONE)"

text \<open>\<open>i6_addr\<close> is what has been written to \<open>addr\<close>, \<open>i6_zero\<close> an offset into it, \<open>i6_digit\<close> the text from \<open>digit\<close> on, of which
  \<open>len4 - 1\<close> bytes are left.\<close>

record in6_state =
  i6_addr :: bytes
  i6_zero :: "nat option"
  i6_digit :: "bytes option"
  i6_n :: nat
  i6_nibbles :: nat
  i6_word :: "64 word"

definition i6_write :: "byte \<Rightarrow> byte \<Rightarrow> in6_state \<Rightarrow> in6_state" where
  "i6_write a b st = st\<lparr>i6_addr := i6_addr st @ [a, b], i6_n := i6_n st - 1\<rparr>"

text \<open>One pass of the loop over the byte \<open>c\<close> with \<open>p\<close> behind it: go on, leave the loop, or an error.\<close>

datatype i6_next = I6_go in6_state | I6_break in6_state | I6_error

definition i6_colon :: "in6_state \<Rightarrow> bytes \<Rightarrow> i6_next" where
  "i6_colon st p =
     (if i6_nibbles st \<noteq> 0 then
        (let st = i6_write (ucast (drop_bit 8 (i6_word st))) (ucast (i6_word st AND 0xff)) (st\<lparr>i6_digit := Some p\<rparr>) in
         if i6_n st \<noteq> 0 then I6_go (st\<lparr>i6_nibbles := 0, i6_word := 0\<rparr>) else I6_error)
      else if i6_zero st = None then I6_go (st\<lparr>i6_digit := Some p, i6_zero := Some (length (i6_addr st))\<rparr>)
      else I6_error)"

definition i6_dot :: "in6_state \<Rightarrow> i6_next" where
  "i6_dot st =
     (if i6_n st < 2 then I6_error
      else case i6_digit st of
        None \<Rightarrow> I6_error
      | Some digit \<Rightarrow>
          let w = ngx_inet_addr digit in
          if w = INADDR_NONE then I6_error
          else let word = htonl w in
            I6_break (i6_write (ucast (drop_bit 24 word)) (ucast (drop_bit 16 word)) (st\<lparr>i6_word := ucast word\<rparr>)))"

definition i6_nibble :: "in6_state \<Rightarrow> byte \<Rightarrow> i6_next" where
  "i6_nibble st c =
     (let st = st\<lparr>i6_nibbles := i6_nibbles st + 1\<rparr> in
      if i6_nibbles st > 4 then I6_error
      else if ch CHR ''0'' \<le> c \<and> c \<le> ch CHR ''9'' then I6_go (st\<lparr>i6_word := i6_word st * 16 + ucast (c - ch CHR ''0'')\<rparr>)
      else
        let c = c OR 0x20 in
        if ch CHR ''a'' \<le> c \<and> c \<le> ch CHR ''f'' then I6_go (st\<lparr>i6_word := i6_word st * 16 + ucast (c - ch CHR ''a'') + 10\<rparr>)
        else I6_error)"

definition i6_step :: "in6_state \<Rightarrow> byte \<Rightarrow> bytes \<Rightarrow> i6_next" where
  "i6_step st c p =
     (if c = ch CHR '':'' then i6_colon st p
      else if c = ch CHR ''.'' \<and> i6_nibbles st \<noteq> 0 then i6_dot st
      else i6_nibble st c)"

fun inet6_loop :: "in6_state \<Rightarrow> bytes \<Rightarrow> in6_state option" where
  "inet6_loop st [] = Some st"
| "inet6_loop st (c # p) =
     (case i6_step st c p of I6_go st \<Rightarrow> inet6_loop st p | I6_break st \<Rightarrow> Some st | I6_error \<Rightarrow> None)"

text \<open>At the end, the bytes behind \<open>zero\<close> move to the end of the address and the gap is cleared.\<close>

definition ngx_inet6_addr :: "bytes \<Rightarrow> bytes option" where
  "ngx_inet6_addr p =
     (if p = [] then None
      else
        let p = (if hd p = ch CHR '':'' then tl p else p) in
        case inet6_loop \<lparr>i6_addr = [], i6_zero = None, i6_digit = None, i6_n = 8, i6_nibbles = 0, i6_word = 0\<rparr> p of
          None \<Rightarrow> None
        | Some st \<Rightarrow>
            if i6_nibbles st = 0 \<and> i6_zero st = None then None
            else
              let st = i6_write (ucast (drop_bit 8 (i6_word st))) (ucast (i6_word st AND 0xff)) st in
              if i6_n st \<noteq> 0 then
                (case i6_zero st of
                   Some zero \<Rightarrow> Some (take zero (i6_addr st) @ replicate (i6_n st * 2) 0 @ drop zero (i6_addr st))
                 | None \<Rightarrow> None)
              else if i6_zero st = None then Some (i6_addr st) else None)"

subsection \<open>Printing addresses\<close>

text \<open>\<open>%ud.%ud.%ud.%ud\<close>\<close>

definition dotted_fmt :: bytes where
  "dotted_fmt = str ''%ud.%ud.%ud.%ud''"

definition byte_args :: "bytes \<Rightarrow> printf_arg list" where
  "byte_args bs = map (\<lambda>b. A_num (uint b)) bs"

definition NGX_INET6_ADDRSTRLEN :: nat where
  "NGX_INET6_ADDRSTRLEN = 45"

text \<open>The first loop of \<open>ngx_inet6_ntop\<close>, over the pairs of bytes from offset \<open>i\<close> on: \<open>zero\<close>, \<open>last\<close>, \<open>max\<close>, \<open>n\<close>.\<close>

fun ntop_runs :: "nat \<Rightarrow> nat option \<Rightarrow> nat option \<Rightarrow> nat \<Rightarrow> nat \<Rightarrow> bytes \<Rightarrow> nat option \<times> nat" where
  "ntop_runs i zero lst mx n (a # b # p) =
     (if a \<noteq> 0 \<or> b \<noteq> 0 then (if mx < n then ntop_runs (i + 2) lst lst n 0 p else ntop_runs (i + 2) zero lst mx 0 p)
      else ntop_runs (i + 2) zero (if n = 0 then Some i else lst) mx (n + 1) p)"
| "ntop_runs i zero lst mx n _ = (if mx < n then (lst, n) else (zero, mx))"

text \<open>The second loop, from offset \<open>i\<close> to \<open>n\<close>; \<open>text\<close> is the address that is written to next.\<close>

function ntop_loop :: "bytes \<Rightarrow> nat \<Rightarrow> nat option \<Rightarrow> nat \<Rightarrow> nat \<Rightarrow> nat \<Rightarrow> bytes option" where
  "ntop_loop p n zero mx text i =
     (if i < n then
        (if zero = Some i then map_option ((#) (ch CHR '':'')) (ntop_loop p n zero mx (text + 1) (i + (mx - 1) * 2 + 2))
         else case ngx_sprintf text (str ''%xd'') [A_num (uint (p ! i) * 256 + uint (p ! (i + 1)))] of
           None \<Rightarrow> None
         | Some w \<Rightarrow>
             let w = w @ (if i < 14 then [ch CHR '':''] else [])
             in map_option ((@) w) (ntop_loop p n zero mx (text + length w) (i + 2)))
      else Some [])"
  by pat_completeness auto
termination
  by (relation "measure (\<lambda>(p, n, zero, mx, text, i). n - i)") auto

declare ntop_loop.simps [simp del]

definition ngx_inet6_ntop :: "bytes \<Rightarrow> nat \<Rightarrow> nat \<Rightarrow> bytes option" where
  "ngx_inet6_ntop p text len =
     (if len < NGX_INET6_ADDRSTRLEN then Some []
      else
        let (zero, mx) = ntop_runs 0 None None 1 0 p;
            n = (if zero = Some 0 \<and> (mx = 5 \<and> p ! 10 = 0xff \<and> p ! 11 = 0xff \<or> mx = 6 \<or> mx = 7 \<and> p ! 14 \<noteq> 0 \<and> p ! 15 \<noteq> 1) then 12 else 16);
            dst = (if zero = Some 0 then [ch CHR '':''] else [])
        in case ntop_loop p n zero mx (text + length dst) 0 of
             None \<Rightarrow> None
           | Some w \<Rightarrow>
               let dst = dst @ w in
               if n = 12 then map_option ((@) dst) (ngx_sprintf (text + length dst) dotted_fmt (byte_args [p ! 12, p ! 13, p ! 14, p ! 15]))
               else Some dst)"

subsection \<open>Socket addresses\<close>

text \<open>A \<open>sockaddr\<close> of each family: port and address, or the bytes of \<open>sun_path\<close> that its length covers.\<close>

datatype sockaddr = Sin "16 word" "32 word" | Sin6 "16 word" bytes | Sun bytes

datatype family = AF_INET | AF_INET6 | AF_UNIX

fun sa_family :: "sockaddr \<Rightarrow> family" where
  "sa_family (Sin _ _) = AF_INET"
| "sa_family (Sin6 _ _) = AF_INET6"
| "sa_family (Sun _) = AF_UNIX"

fun ngx_strnlen :: "bytes \<Rightarrow> nat" where
  "ngx_strnlen [] = 0"
| "ngx_strnlen (c # p) = (if c = 0 then 0 else Suc (ngx_strnlen p))"

text \<open>The length that is returned does not count the zero at the end of a Unix address; it wraps when there is no room at all,
  which is \<open>None\<close> here.\<close>

definition ngx_sock_ntop :: "sockaddr \<Rightarrow> nat \<Rightarrow> nat \<Rightarrow> bool \<Rightarrow> bytes option" where
  "ngx_sock_ntop sa text len port =
     (case sa of
        Sin sin_port sin_addr \<Rightarrow>
          if port then ngx_snprintf len (str ''%ud.%ud.%ud.%ud:%d'') (byte_args (addr_bytes sin_addr) @ [A_num (uint (htons sin_port))])
          else ngx_snprintf len dotted_fmt (byte_args (addr_bytes sin_addr))
      | Sin6 sin6_port s6_addr \<Rightarrow>
          (case ngx_inet6_ntop s6_addr (text + (if port then 1 else 0)) len of
             None \<Rightarrow> None
           | Some s \<Rightarrow>
               if port then map_option (\<lambda>q. ch CHR ''['' # s @ q) (ngx_sprintf (text + 1 + length s) (str '']:%d'') [A_num (uint (htons sin6_port))])
               else Some s)
      | Sun sun_path \<Rightarrow>
          if len = 0 then None
          else map_option butlast
            (if sun_path = [] then ngx_snprintf len (str ''unix:%Z'') []
             else ngx_snprintf len (str ''unix:%*s%Z'') [A_num (int (ngx_strnlen sun_path)), A_str sun_path]))"

definition ngx_inet_ntop :: "family \<Rightarrow> bytes \<Rightarrow> nat \<Rightarrow> nat \<Rightarrow> bytes option" where
  "ngx_inet_ntop family addr text len =
     (case family of
        AF_INET \<Rightarrow> ngx_snprintf len dotted_fmt (byte_args [addr ! 0, addr ! 1, addr ! 2, addr ! 3])
      | AF_INET6 \<Rightarrow> ngx_inet6_ntop addr text len
      | AF_UNIX \<Rightarrow> Some [])"

text \<open>The pool can be out of memory, which \<open>mem\<close> says for the next allocation.\<close>

definition ngx_parse_addr :: "bool \<Rightarrow> bytes \<Rightarrow> ngx_rc \<times> sockaddr option" where
  "ngx_parse_addr mem text =
     (let inaddr = ngx_inet_addr text in
      if inaddr \<noteq> INADDR_NONE then (if mem then (NGX_OK, Some (Sin 0 inaddr)) else (NGX_ERROR, None))
      else case ngx_inet6_addr text of
        Some a \<Rightarrow> if mem then (NGX_OK, Some (Sin6 0 a)) else (NGX_ERROR, None)
      | None \<Rightarrow> (NGX_DECLINED, None))"

fun ngx_inet_get_port :: "sockaddr \<Rightarrow> 16 word" where
  "ngx_inet_get_port (Sin p a) = htons p"
| "ngx_inet_get_port (Sin6 p a) = htons p"
| "ngx_inet_get_port (Sun _) = 0"

fun ngx_inet_set_port :: "sockaddr \<Rightarrow> 16 word \<Rightarrow> sockaddr" where
  "ngx_inet_set_port (Sin _ a) port = Sin (htons port) a"
| "ngx_inet_set_port (Sin6 _ a) port = Sin6 (htons port) a"
| "ngx_inet_set_port (Sun s) port = Sun s"

fun ngx_inet_wildcard :: "sockaddr \<Rightarrow> bool" where
  "ngx_inet_wildcard (Sin _ a) = (a = 0)"
| "ngx_inet_wildcard (Sin6 _ a) = (\<forall>b \<in> set a. b = 0)"
| "ngx_inet_wildcard (Sun _) = False"

text \<open>The offset of the port behind its colon and the part of the text that is the address.\<close>

definition addr_port_split :: "bytes \<Rightarrow> (bytes \<times> bytes) option" where
  "addr_port_split text =
     (if text \<noteq> [] \<and> hd text = ch CHR ''['' then
        (case ngx_strlchr text (ch CHR '']'') of
           None \<Rightarrow> None
         | Some p \<Rightarrow>
             if p = length text - 1 \<or> text ! (p + 1) \<noteq> ch CHR '':'' then None
             else let port = drop (p + 2) text in Some (take (length text - 2 - (length port + 1)) (tl text), port))
      else
        (case ngx_strlchr text (ch CHR '':'') of
           None \<Rightarrow> None
         | Some p \<Rightarrow> let port = drop (p + 1) text in Some (take (length text - (length port + 1)) text, port)))"

definition ngx_parse_addr_port :: "bool \<Rightarrow> bytes \<Rightarrow> ngx_rc \<times> sockaddr option" where
  "ngx_parse_addr_port mem text =
     (case ngx_parse_addr mem text of
        (rc, sa) \<Rightarrow>
          if rc \<noteq> NGX_DECLINED then (rc, sa)
          else case addr_port_split text of
            None \<Rightarrow> (NGX_DECLINED, None)
          | Some (addr, port) \<Rightarrow>
              case ngx_atoi port of
                None \<Rightarrow> (NGX_DECLINED, None)
              | Some port \<Rightarrow>
                  if port < 1 \<or> port > 65535 then (NGX_DECLINED, None)
                  else case ngx_parse_addr mem addr of
                    (rc, sa) \<Rightarrow> if rc \<noteq> NGX_OK then (rc, sa) else (NGX_OK, map_option (\<lambda>sa. ngx_inet_set_port sa (word_of_int port)) sa))"

fun ngx_cmp_sockaddr :: "sockaddr \<Rightarrow> sockaddr \<Rightarrow> bool \<Rightarrow> ngx_rc" where
  "ngx_cmp_sockaddr (Sin6 p1 a1) (Sin6 p2 a2) cmp_port =
     (if cmp_port \<and> p1 \<noteq> p2 then NGX_DECLINED else if a1 \<noteq> a2 then NGX_DECLINED else NGX_OK)"
| "ngx_cmp_sockaddr (Sun s1) (Sun s2) cmp_port =
     (let len = min (if length s1 < length s2 then length s1 else length s2) 108
      in if take len s1 \<noteq> take len s2 then NGX_DECLINED else NGX_OK)"
| "ngx_cmp_sockaddr (Sin p1 a1) (Sin p2 a2) cmp_port =
     (if cmp_port \<and> p1 \<noteq> p2 then NGX_DECLINED else if a1 \<noteq> a2 then NGX_DECLINED else NGX_OK)"
| "ngx_cmp_sockaddr _ _ cmp_port = NGX_DECLINED"

subsection \<open>Networks\<close>

datatype ngx_cidr = Cidr_in "32 word" "32 word" | Cidr_in6 bytes bytes | Cidr_unix

text \<open>The loop over the bytes of an IPv6 network: addresses, masks and whether a byte was changed.\<close>

fun cidr6_loop :: "int \<Rightarrow> bytes \<Rightarrow> bytes \<times> bytes \<times> ngx_rc" where
  "cidr6_loop shift [] = ([], [], NGX_OK)"
| "cidr6_loop shift (a # addr) =
     (let s = (if shift > 8 then 8 else shift);
          m = ucast (push_bit (nat (8 - s)) (0xff :: 32 word)) :: byte;
          (as, ms, rc) = cidr6_loop (shift - s) addr
      in ((a AND m) # as, m # ms, if a \<noteq> a AND m then NGX_DONE else rc))"

definition ngx_ptocidr :: "bytes \<Rightarrow> ngx_rc \<times> ngx_cidr option" where
  "ngx_ptocidr text =
     (let msk = ngx_strlchr text (ch CHR ''/'');
          addr = (case msk of Some p \<Rightarrow> take p text | None \<Rightarrow> text);
          inaddr = ngx_inet_addr addr
      in if inaddr \<noteq> INADDR_NONE then
           (case msk of
              None \<Rightarrow> (NGX_OK, Some (Cidr_in inaddr 0xffffffff))
            | Some p \<Rightarrow>
                (case ngx_atoi (drop (p + 1) text) of
                   None \<Rightarrow> (NGX_ERROR, None)
                 | Some shift \<Rightarrow>
                     if shift > 32 then (NGX_ERROR, None)
                     else
                       let m = (if shift \<noteq> 0 then htonl (push_bit (nat (32 - shift)) 0xffffffff) else 0) in
                       (if inaddr = inaddr AND m then NGX_OK else NGX_DONE, Some (Cidr_in (inaddr AND m) m))))
         else
           (case ngx_inet6_addr addr of
              None \<Rightarrow> (NGX_ERROR, None)
            | Some a \<Rightarrow>
                (case msk of
                   None \<Rightarrow> (NGX_OK, Some (Cidr_in6 a (replicate 16 0xff)))
                 | Some p \<Rightarrow>
                     (case ngx_atoi (drop (p + 1) text) of
                        None \<Rightarrow> (NGX_ERROR, None)
                      | Some shift \<Rightarrow>
                          if shift > 128 then (NGX_ERROR, None)
                          else case cidr6_loop shift a of (a, m, rc) \<Rightarrow> (rc, Some (Cidr_in6 a m))))))"

definition v4mapped :: "bytes \<Rightarrow> bool" where
  "v4mapped a \<longleftrightarrow> take 12 a = replicate 10 0 @ [0xff, 0xff]"

text \<open>The address to compare: a v4-mapped IPv6 address counts as its IPv4 address.\<close>

definition match_addr :: "sockaddr \<Rightarrow> sockaddr" where
  "match_addr sa =
     (case sa of
        Sin6 p a \<Rightarrow>
          if v4mapped a then
            Sin p (htonl (push_bit 24 (ucast (a ! 12)) + push_bit 16 (ucast (a ! 13)) + push_bit 8 (ucast (a ! 14)) + ucast (a ! 15)))
          else sa
      | _ \<Rightarrow> sa)"

fun cidr_matches :: "sockaddr \<Rightarrow> ngx_cidr \<Rightarrow> bool" where
  "cidr_matches (Sin p inaddr) (Cidr_in addr msk) = (inaddr AND msk = addr)"
| "cidr_matches (Sin6 p inaddr6) (Cidr_in6 addr msk) = list_all (\<lambda>n. inaddr6 ! n AND msk ! n = addr ! n) [0..<16]"
| "cidr_matches (Sun s) Cidr_unix = True"
| "cidr_matches _ _ = False"

definition ngx_cidr_match :: "sockaddr \<Rightarrow> ngx_cidr list \<Rightarrow> ngx_rc" where
  "ngx_cidr_match sa cidrs = (if list_ex (cidr_matches (match_addr sa)) cidrs then NGX_OK else NGX_DECLINED)"


subsection \<open>IPv4 addresses\<close>

definition dotted :: "bytes \<Rightarrow> bytes" where
  "dotted a = dec (a ! 0) @ ch CHR ''.'' # dec (a ! 1) @ ch CHR ''.'' # dec (a ! 2) @ ch CHR ''.'' # dec (a ! 3)"

lemma prints_dotted: "prints fmt args o2 \<Longrightarrow> prints (dotted_fmt @ fmt) (byte_args [a, b, c, d] @ args) (dotted [a, b, c, d] @ o2)"
proof -
  assume "prints fmt args o2"
  then have "prints (ch CHR ''%'' # ch CHR ''u'' # ch CHR ''d'' # ch CHR ''.'' # ch CHR ''%'' # ch CHR ''u'' # ch CHR ''d'' # ch CHR ''.'' #
      ch CHR ''%'' # ch CHR ''u'' # ch CHR ''d'' # ch CHR ''.'' # ch CHR ''%'' # ch CHR ''u'' # ch CHR ''d'' # fmt)
      (A_num (uint a) # A_num (uint b) # A_num (uint c) # A_num (uint d) # args)
      (dec a @ ch CHR ''.'' # dec b @ ch CHR ''.'' # dec c @ ch CHR ''.'' # dec d @ o2)"
    by (intro prints_ud prints_char) simp_all
  then show ?thesis by (simp add: dotted_fmt_def byte_args_def dotted_def)
qed

lemma dotted_length: "length (dotted a) \<le> 15"
  unfolding dotted_def using dec_length [of "a ! 0"] dec_length [of "a ! 1"] dec_length [of "a ! 2"] dec_length [of "a ! 3"] by simp


lemma dec_digit: "is_dec c \<Longrightarrow> int (unat (c - ch CHR ''0'')) = dig c"
proof -
  assume "is_dec c"
  then have "uint (c - ch CHR ''0'') = uint c - uint (ch CHR ''0'')"
    unfolding uint_sub_lem [symmetric] by (simp add: is_dec_def word_le_def)
  then show ?thesis by (simp add: dig_def)
qed

lemma inet_loop_digits:
  "list_all is_dec ds \<Longrightarrow> dec_from (int v) ds \<le> 255 \<Longrightarrow> inet_loop addr v n (ds @ r) = inet_loop addr (nat (dec_from (int v) ds)) n r"
proof (induction ds arbitrary: v)
  case (Cons c ds)
  have d: "is_dec c" "ch CHR ''0'' \<le> c \<and> c \<le> ch CHR ''9''" using Cons.prems(1) by (simp_all add: is_dec_def)
  define k where "k = v * 10 + unat (c - ch CHR ''0'')"
  have k: "int k = int v * 10 + dig c" unfolding k_def dec_digit [OF d(1), symmetric] by (simp only: of_nat_add of_nat_mult of_nat_numeral)
  have "int k \<le> dec_from (int k) ds" using Cons.prems(1) by (intro dec_from_ge) auto
  then have "\<not> k > 255" using Cons.prems(2) k by simp
  then have "inet_loop addr v n ((c # ds) @ r) = inet_loop addr k n (ds @ r)"
    unfolding append_Cons inet_loop.simps Let_def if_P [OF d(2)] k_def [symmetric] by simp
  moreover have "dec_from (int v) (c # ds) = dec_from (int k) ds" using k by simp
  ultimately show ?case using Cons.IH [of k] Cons.prems by simp
qed simp

lemma dec_value: "list_all is_dec (dec b) \<and> dec_from 0 (dec b) = uint b \<and> dec b \<noteq> []"
  using decimal_value [of "unat b"] by (simp add: dec_def)

lemma inet_loop_dec: "inet_loop addr 0 n (dec b @ r) = inet_loop addr (unat b) n r"
proof -
  have "nat (uint b) = unat b" by simp
  then show ?thesis using inet_loop_digits [of "dec b" 0 addr n r] dec_value [of b] uint_byte [of b] by simp
qed

definition inaddr_of :: "bytes \<Rightarrow> 32 word" where
  "inaddr_of a = htonl (push_bit 8 (push_bit 8 (push_bit 8 (ucast (a ! 0)) + ucast (a ! 1)) + ucast (a ! 2)) + ucast (a ! 3))"

lemma inet_addr_dotted: "ngx_inet_addr (dotted a) = inaddr_of a"
proof -
  have "inet_loop 0 0 0 (dotted a) = Some (push_bit 8 (push_bit 8 (push_bit 8 0 + of_nat (unat (a ! 0))) + of_nat (unat (a ! 1))) + of_nat (unat (a ! 2)), unat (a ! 3), 3)"
    unfolding dotted_def inet_loop_dec using inet_loop_dec [of _ _ "a ! 3" "[]"] by (simp add: inet_loop_dec)
  then show ?thesis by (simp add: ngx_inet_addr_def inaddr_of_def)
qed

lemma byte_bit: "8 \<le> n \<Longrightarrow> \<not> bit (b :: byte) n"
  by (simp add: impossible_bit)

lemma disjoint_sum: "push_bit 8 (w :: 32 word) + ucast (b :: byte) = push_bit 8 w OR ucast b"
  by (rule disjunctive_add) (auto simp: bit_simps byte_bit)

lemma byte_masks: "(0xff :: 32 word) = mask 8" "(0xff00 :: 32 word) = push_bit 8 (mask 8)" "(0xff0000 :: 32 word) = push_bit 16 (mask 8)"
  by code_simp+

lemma inaddr_bytes: "length a = 4 \<Longrightarrow> addr_bytes (inaddr_of a) = a"
proof -
  assume "length a = 4"
  then obtain b c d e where a: "a = [b, c, d, e]" by (auto simp: length_Suc_conv eval_nat_numeral)
  show ?thesis
    unfolding a addr_bytes_def inaddr_of_def htonl_def disjoint_sum byte_masks
    by (auto intro!: bit_word_eqI simp: bit_simps byte_bit)
qed

end
