(* ===== verification/Ngx_Inet6.thy ===== *)
theory Ngx_Inet6
  imports Ngx_Inet
begin

section \<open>IPv6 addresses\<close>

text \<open>
  The proofs about \<open>ngx_inet6_addr\<close> and \<open>ngx_inet6_ntop\<close> of \<open>Ngx_Inet\<close>: the reader on groups of hexadecimal digits, gaps
  and dotted ends, the printer as a text of such groups, and the round trip.
\<close>

subsection \<open>IPv6 addresses are read back\<close>

lemma ucast_diff: "(b :: byte) \<le> c \<Longrightarrow> ucast (c - b) = (word_of_int (uint c - uint b) :: 64 word)"
proof -
  assume "b \<le> c"
  then have "uint (c - b) = uint c - uint b" by (simp add: uint_sub_lem [symmetric] word_le_def)
  then show ?thesis unfolding ucast_eq by simp
qed

lemma nibble_step:
  assumes "hex_digit c = Some d" "i6_nibbles st < 4"
  shows "i6_step st c p = I6_go (st\<lparr>i6_nibbles := i6_nibbles st + 1, i6_word := i6_word st * 16 + word_of_int d\<rparr>)"
proof -
  have c: "c \<noteq> ch CHR '':''" "c \<noteq> ch CHR ''.''" using assms(1) by (auto simp: hex_digit_def)
  show ?thesis
  proof (cases "ch CHR ''0'' \<le> c \<and> c \<le> ch CHR ''9''")
    case True
    have "ch CHR ''0'' \<le> c \<Longrightarrow> ucast (c - ch CHR ''0'') = (word_of_int (uint c - 48) :: 64 word)" using ucast_diff [of "ch CHR ''0''" c] by simp
    then show ?thesis using assms True c unfolding i6_step_def i6_nibble_def hex_digit_def by (auto simp: Let_def)
  next
    case False
    have "ch CHR ''a'' \<le> c \<Longrightarrow> ucast (c - ch CHR ''a'') + 10 = (word_of_int (uint c - 97 + 10) :: 64 word)" for c
      using ucast_diff [of "ch CHR ''a''" c] by simp
    from this [of "c OR 0x20"] show ?thesis
      using assms False c unfolding i6_step_def i6_nibble_def hex_digit_def
      by (auto simp: Let_def add.assoc split: if_splits)
  qed
qed

lemma i6_digits:
  "list_all (\<lambda>c. hex_digit c \<noteq> None) ds \<Longrightarrow> i6_nibbles st + length ds \<le> 4 \<Longrightarrow> i6_word st = word_of_int v \<Longrightarrow>
   inet6_loop st (ds @ r) = inet6_loop (st\<lparr>i6_nibbles := i6_nibbles st + length ds, i6_word := word_of_int (hex_from v ds)\<rparr>) r"
proof (induction ds arbitrary: st v)
  case Nil
  then have "st\<lparr>i6_nibbles := i6_nibbles st + length [], i6_word := word_of_int (hex_from v [])\<rparr> = st" by simp
  then show ?case by simp
next
  case (Cons c ds)
  obtain d where d: "hex_digit c = Some d" using Cons.prems(1) by auto
  then show ?case
    using Cons.prems Cons.IH [of "st\<lparr>i6_nibbles := i6_nibbles st + 1, i6_word := i6_word st * 16 + word_of_int d\<rparr>" "v * 16 + d"]
    by (simp add: nibble_step)
qed

text \<open>A group of four hexadecimal digits, from the two bytes of an address at \<open>2 * j\<close>.\<close>

definition group_value :: "bytes \<Rightarrow> nat \<Rightarrow> int" where
  "group_value a j = uint (a ! (2 * j)) * 256 + uint (a ! (2 * j + 1))"

definition hexgroup :: "bytes \<Rightarrow> nat \<Rightarrow> bytes" where
  "hexgroup a j = hex_digits hex_lower (nat (group_value a j))"

definition group_bytes :: "bytes \<Rightarrow> nat \<Rightarrow> bytes" where
  "group_bytes a j = [a ! (2 * j), a ! (2 * j + 1)]"

lemma group_range: "0 \<le> group_value a j \<and> group_value a j < 65536"
  unfolding group_value_def using uint_byte [of "a ! (2 * j)"] uint_byte [of "a ! (2 * j + 1)"] by simp

lemma group_text: "list_all (\<lambda>c. hex_digit c \<noteq> None) (hexgroup a j)" "hex_from 0 (hexgroup a j) = group_value a j" "hexgroup a j \<noteq> []"
  "length (hexgroup a j) \<le> 4"
proof -
  show "list_all (\<lambda>c. hex_digit c \<noteq> None) (hexgroup a j)" "hex_from 0 (hexgroup a j) = group_value a j" "hexgroup a j \<noteq> []"
    using hex_value [OF hex_digit_lower, of "nat (group_value a j)"] group_range [of a j] by (simp_all add: hexgroup_def)
  show "length (hexgroup a j) \<le> 4"
    unfolding hexgroup_def using group_range [of a j] by (intro hex_length) auto
qed

lemma group_word_bytes: "ucast (drop_bit 8 (word_of_int (group_value a j) :: 64 word)) = a ! (2 * j) \<and>
    ucast ((word_of_int (group_value a j) :: 64 word) AND 0xff) = a ! (2 * j + 1)"
proof -
  have "word_of_int (group_value a j) = (push_bit 8 (ucast (a ! (2 * j))) OR ucast (a ! (2 * j + 1)) :: 64 word)"
  proof -
    have "(push_bit 8 (ucast (a ! (2 * j))) + ucast (a ! (2 * j + 1)) :: 64 word) = push_bit 8 (ucast (a ! (2 * j))) OR ucast (a ! (2 * j + 1))"
      by (rule disjunctive_add) (auto simp: bit_simps byte_bit)
    moreover have "(push_bit 8 (ucast (a ! (2 * j))) :: 64 word) = ucast (a ! (2 * j)) * 256" by (simp add: push_bit_eq_mult)
    ultimately show ?thesis by (simp add: group_value_def)
  qed
  moreover have m: "(0xff :: 64 word) = mask 8" by code_simp
  ultimately show ?thesis unfolding m by (auto intro!: bit_word_eqI simp: bit_simps byte_bit)
qed


text \<open>The loop between two groups, with \<open>addr\<close> written and \<open>n\<close> groups to come.\<close>

definition i6_at :: "bytes \<Rightarrow> nat option \<Rightarrow> bytes option \<Rightarrow> nat \<Rightarrow> in6_state" where
  "i6_at addr zero digit n = \<lparr>i6_addr = addr, i6_zero = zero, i6_digit = digit, i6_n = n, i6_nibbles = 0, i6_word = 0\<rparr>"

definition i6_in :: "bytes \<Rightarrow> nat option \<Rightarrow> bytes option \<Rightarrow> nat \<Rightarrow> nat \<Rightarrow> int \<Rightarrow> in6_state" where
  "i6_in addr zero digit n k v = \<lparr>i6_addr = addr, i6_zero = zero, i6_digit = digit, i6_n = n, i6_nibbles = k, i6_word = word_of_int v\<rparr>"

lemma i6_group: "inet6_loop (i6_at addr zero digit n) (hexgroup a j @ r) =
    inet6_loop (i6_in addr zero digit n (length (hexgroup a j)) (group_value a j)) r"
  using i6_digits [of "hexgroup a j" "i6_at addr zero digit n" 0 r] group_text [of a j] by (simp add: i6_at_def i6_in_def)

lemma i6_group_colon:
  assumes "2 \<le> n"
  shows "inet6_loop (i6_at addr zero digit n) (hexgroup a j @ ch CHR '':'' # r) =
    inet6_loop (i6_at (addr @ group_bytes a j) zero (Some r) (n - 1)) r"
proof -
  have "length (hexgroup a j) \<noteq> 0" using group_text(3) [of a j] by simp
  then show ?thesis
    unfolding i6_group using assms group_word_bytes [of a j]
    by (simp add: i6_in_def i6_at_def i6_step_def i6_colon_def i6_write_def Let_def group_bytes_def)
qed

text \<open>The groups from \<open>j\<close> on, each with a colon behind it.\<close>

definition groups_colon :: "bytes \<Rightarrow> nat \<Rightarrow> nat \<Rightarrow> bytes" where
  "groups_colon a j k = concat (map (\<lambda>i. hexgroup a i @ str '':'') [j..<k])"

definition groups_bytes :: "bytes \<Rightarrow> nat \<Rightarrow> nat \<Rightarrow> bytes" where
  "groups_bytes a j k = concat (map (group_bytes a) [j..<k])"

lemma groups_rec:
  "j < k \<Longrightarrow> groups_colon a j k = hexgroup a j @ ch CHR '':'' # groups_colon a (Suc j) k"
  "j < k \<Longrightarrow> groups_bytes a j k = group_bytes a j @ groups_bytes a (Suc j) k"
  "k \<le> j \<Longrightarrow> groups_colon a j k = []" "k \<le> j \<Longrightarrow> groups_bytes a j k = []"
  by (simp_all add: groups_colon_def groups_bytes_def upt_rec [of j k])

lemma i6_groups:
  "k - j < n \<Longrightarrow> inet6_loop (i6_at addr zero digit n) (groups_colon a j k @ r) =
    inet6_loop (i6_at (addr @ groups_bytes a j k) zero (if j < k then Some r else digit) (n - (k - j))) r"
proof (induction "k - j" arbitrary: j addr digit n)
  case 0
  then show ?case by (simp add: groups_rec)
next
  case (Suc x)
  then have j: "j < k" "2 \<le> n" "x = k - Suc j" by simp_all
  have "k - Suc j < n - 1" "n - 1 - (k - Suc j) = n - (k - j)" using Suc.prems j(1) by simp_all
  then show ?case
    using Suc(1) [OF j(3), of "n - 1" "addr @ group_bytes a j" "Some (groups_colon a (Suc j) k @ r)"] j
    by (cases "Suc j < k") (simp_all add: groups_rec i6_group_colon [simplified])
qed

lemma groups_bytes_all: "length a = 16 \<Longrightarrow> j \<le> k \<Longrightarrow> k \<le> 8 \<Longrightarrow> groups_bytes a j k = take (2 * (k - j)) (drop (2 * j) a)"
proof (induction "k - j" arbitrary: j)
  case (Suc x)
  then have j: "j < k" "x = k - Suc j" by simp_all
  have "drop (2 * j) a = a ! (2 * j) # a ! (2 * j + 1) # drop (2 * Suc j) a"
    using Suc.prems j(1) Cons_nth_drop_Suc [of "2 * j" a] Cons_nth_drop_Suc [of "2 * j + 1" a] by simp
  moreover have "2 * (k - j) = Suc (Suc (2 * (k - Suc j)))" using j(1) by simp
  ultimately show ?case using Suc(1) [OF j(2)] Suc.prems j by (simp add: groups_rec group_bytes_def)
qed (simp add: groups_rec)


definition i6_end :: "in6_state \<Rightarrow> bytes option" where
  "i6_end st =
     (if i6_nibbles st = 0 \<and> i6_zero st = None then None
      else
        let st = i6_write (ucast (drop_bit 8 (i6_word st))) (ucast (i6_word st AND 0xff)) st in
        if i6_n st \<noteq> 0 then
          (case i6_zero st of
             Some zero \<Rightarrow> Some (take zero (i6_addr st) @ replicate (i6_n st * 2) 0 @ drop zero (i6_addr st))
           | None \<Rightarrow> None)
        else if i6_zero st = None then Some (i6_addr st) else None)"

lemma inet6_addr_end:
  "p \<noteq> [] \<Longrightarrow> ngx_inet6_addr p = Option.bind (inet6_loop (i6_at [] None None 8) (if hd p = ch CHR '':'' then tl p else p)) i6_end"
  unfolding ngx_inet6_addr_def i6_at_def i6_end_def Let_def by (simp split: option.split)

lemma end_full: "inet6_loop (i6_at addr None digit 1) (hexgroup a j) = Some st \<Longrightarrow> i6_end st = Some (addr @ group_bytes a j)"
  using i6_group [of addr None digit 1 a j "[]"] group_word_bytes [of a j] group_text(3) [of a j]
  by (auto simp: i6_in_def i6_end_def i6_write_def Let_def group_bytes_def)

lemma end_gap:
  assumes "2 \<le> n"
  shows "Option.bind (inet6_loop (i6_at addr (Some z) digit n) (hexgroup a j)) i6_end =
    Some (take z (addr @ group_bytes a j) @ replicate ((n - 1) * 2) 0 @ drop z (addr @ group_bytes a j))"
  using assms i6_group [of addr "Some z" digit n a j "[]"] group_word_bytes [of a j] group_text(3) [of a j]
  by (auto simp: i6_in_def i6_end_def i6_write_def Let_def group_bytes_def)

lemma end_zero:
  assumes "2 \<le> n"
  shows "i6_end (i6_at addr (Some z) digit n) = Some (take z (addr @ [0, 0]) @ replicate ((n - 1) * 2) 0 @ drop z (addr @ [0, 0]))"
  using assms by (simp add: i6_at_def i6_end_def i6_write_def Let_def)

lemma inaddr_parts:
  assumes "length q = 4" "w = htonl (inaddr_of q)"
  shows "ucast (drop_bit 24 w) = q ! 0" "ucast (drop_bit 16 w) = q ! 1" "ucast (drop_bit 8 (ucast w :: 64 word)) = q ! 2"
    "ucast ((ucast w :: 64 word) AND 0xff) = q ! 3"
proof -
  obtain b c d e where a: "q = [b, c, d, e]" using assms(1) by (auto simp: length_Suc_conv eval_nat_numeral)
  have m: "(0xff :: 64 word) = mask 8" by code_simp
  show "ucast (drop_bit 24 w) = q ! 0" "ucast (drop_bit 16 w) = q ! 1" "ucast (drop_bit 8 (ucast w :: 64 word)) = q ! 2"
    "ucast ((ucast w :: 64 word) AND 0xff) = q ! 3"
    unfolding a assms(2) inaddr_of_def htonl_def disjoint_sum byte_masks m
    by (auto intro!: bit_word_eqI simp: bit_simps byte_bit)
qed

lemma dec_hex: "list_all (\<lambda>c. hex_digit c \<noteq> None) (dec b)"
  using dec_value [of b] by (auto simp: list_all_iff hex_digit_def is_dec_def)

lemma i6_dotted:
  assumes "length q = 4" "inaddr_of q \<noteq> INADDR_NONE" "2 \<le> n"
  shows "Option.bind (inet6_loop (i6_at addr (Some z) (Some (dotted q)) n) (dotted q)) i6_end =
    (if n = 2 then None else Some (take z (addr @ q) @ replicate ((n - 2) * 2) 0 @ drop z (addr @ q)))"
proof -
  obtain r where r: "dotted q = dec (q ! 0) @ ch CHR ''.'' # r" unfolding dotted_def by blast
  have nz: "length (dec (q ! 0)) \<noteq> 0" using dec_value [of "q ! 0"] by simp
  have "inet6_loop (i6_at addr (Some z) (Some (dotted q)) n) (dotted q) =
      inet6_loop (i6_in addr (Some z) (Some (dotted q)) n (length (dec (q ! 0))) (hex_from 0 (dec (q ! 0)))) (ch CHR ''.'' # r)"
    using i6_digits [OF dec_hex, of "i6_at addr (Some z) (Some (dotted q)) n" "q ! 0" 0 "ch CHR ''.'' # r"] dec_length [of "q ! 0"]
    unfolding r by (simp add: i6_at_def i6_in_def)
  also have "\<dots> = Some \<lparr>i6_addr = addr @ [q ! 0, q ! 1], i6_zero = Some z, i6_digit = Some (dotted q), i6_n = n - 1,
      i6_nibbles = length (dec (q ! 0)), i6_word = ucast (htonl (inaddr_of q))\<rparr>"
    using nz assms(2,3) inaddr_parts [OF assms(1) refl]
    by (simp add: i6_in_def i6_step_def i6_dot_def inet_addr_dotted Let_def i6_write_def)
  finally have l: "inet6_loop (i6_at addr (Some z) (Some (dotted q)) n) (dotted q) = \<dots>" .
  have "[q ! 0, q ! 1, q ! 2, q ! 3] = q" using assms(1) by (auto simp: length_Suc_conv eval_nat_numeral)
  then show ?thesis
    unfolding l using nz assms(3) inaddr_parts(3,4) [OF assms(1) refl] by (auto simp: i6_end_def i6_write_def Let_def)
qed


subsection \<open>Printing IPv6 addresses\<close>

text \<open>A run of at least two groups that are zero, before group \<open>i\<close>.\<close>

definition zero_run :: "bytes \<Rightarrow> nat \<Rightarrow> nat option \<Rightarrow> nat \<Rightarrow> bool" where
  "zero_run a i zero mx \<longleftrightarrow>
     (case zero of
        None \<Rightarrow> mx = 1
      | Some z \<Rightarrow> 2 \<le> mx \<and> (\<exists>k. z = 2 * k \<and> k + mx \<le> i \<and> (\<forall>j. k \<le> j \<longrightarrow> j < k + mx \<longrightarrow> group_bytes a j = [0, 0])))"

lemma zero_run_Suc: "zero_run a i zero mx \<Longrightarrow> zero_run a (Suc i) zero mx"
  unfolding zero_run_def by (auto split: option.splits)

lemma runs_inv:
  assumes "length a = 16"
  shows "i \<le> 8 \<Longrightarrow> zero_run a i zero mx \<Longrightarrow> 1 \<le> mx \<Longrightarrow> n \<le> i \<Longrightarrow> (0 < n \<Longrightarrow> lst = Some (2 * (i - n))) \<Longrightarrow>
    (\<forall>j. i - n \<le> j \<longrightarrow> j < i \<longrightarrow> group_bytes a j = [0, 0]) \<Longrightarrow>
    ntop_runs (2 * i) zero lst mx n (drop (2 * i) a) = (z, m) \<Longrightarrow> zero_run a 8 z m"
proof (induction "8 - i" arbitrary: i zero lst mx n)
  case 0
  then have i: "i = 8" by simp
  have new: "zero_run a 8 lst n" if "mx < n"
    using 0 that i unfolding zero_run_def by (auto intro!: exI [of _ "8 - n"])
  show ?case using 0 i assms new by (auto split: if_splits)
next
  case (Suc x)
  then have i: "i < 8" "x = 8 - Suc i" by simp_all
  have d: "drop (2 * i) a = a ! (2 * i) # a ! (2 * i + 1) # drop (2 * Suc i) a"
    using i(1) assms Cons_nth_drop_Suc [of "2 * i" a] Cons_nth_drop_Suc [of "2 * i + 1" a] by simp
  have new: "zero_run a (Suc i) lst n" if "mx < n"
    using Suc.prems that unfolding zero_run_def by (auto intro!: exI [of _ "i - n"])
  show ?case
  proof (cases "a ! (2 * i) \<noteq> 0 \<or> a ! (2 * i + 1) \<noteq> 0")
    case True
    show ?thesis
    proof (cases "mx < n")
      case True
      then show ?thesis
        using Suc.prems(7) \<open>a ! (2 * i) \<noteq> 0 \<or> a ! (2 * i + 1) \<noteq> 0\<close> unfolding d
        by (intro Suc(1) [OF i(2), of lst n 0 lst] new) (use i Suc.prems in auto)
    next
      case False
      then show ?thesis
        using Suc.prems(7) \<open>a ! (2 * i) \<noteq> 0 \<or> a ! (2 * i + 1) \<noteq> 0\<close> unfolding d
        by (intro Suc(1) [OF i(2), of zero mx 0 lst] zero_run_Suc Suc.prems(2)) (use i Suc.prems in auto)
    qed
  next
    case False
    then have g: "group_bytes a i = [0, 0]" by (simp add: group_bytes_def)
    have "ntop_runs (2 * Suc i) zero (if n = 0 then Some (2 * i) else lst) mx (n + 1) (drop (2 * Suc i) a) = (z, m)"
      using Suc.prems(7) False unfolding d by simp
    moreover have "\<forall>j. Suc i - (n + 1) \<le> j \<longrightarrow> j < Suc i \<longrightarrow> group_bytes a j = [0, 0]"
      using Suc.prems(6) g by (auto simp: less_Suc_eq)
    ultimately show ?thesis
      by (intro Suc(1) [OF i(2), of zero mx "n + 1" "if n = 0 then Some (2 * i) else lst"] zero_run_Suc Suc.prems(2))
        (use i Suc.prems in auto)
  qed
qed

lemma runs_start: "length a = 16 \<Longrightarrow> ntop_runs 0 None None 1 0 a = (z, m) \<Longrightarrow> zero_run a 8 z m"
  using runs_inv [of a 0 None 1 0 None z m] by (simp add: zero_run_def)

definition gtext :: "bytes \<Rightarrow> nat \<Rightarrow> bytes" where
  "gtext a j = hexgroup a j @ (if j < 7 then str '':'' else [])"

definition gtexts :: "bytes \<Rightarrow> nat \<Rightarrow> nat \<Rightarrow> bytes" where
  "gtexts a j k = concat (map (gtext a) [j..<k])"

lemma gtexts_rec: "j < k \<Longrightarrow> gtexts a j k = gtext a j @ gtexts a (Suc j) k" "k \<le> j \<Longrightarrow> gtexts a j k = []"
  by (simp_all add: gtexts_def upt_rec [of j k])

lemma prints_sprintf: "prints fmt args out \<Longrightarrow> length out \<le> 2 ^ 64 - 1 - buf \<Longrightarrow> ngx_sprintf buf fmt args = Some out"
  by (simp add: prints_def ngx_sprintf_def)

lemma sprintf_group:
  assumes "dst < 2 ^ 63 + 200"
  shows "ngx_sprintf dst (str ''%xd'') [A_num (uint (a ! (2 * j)) * 256 + uint (a ! (2 * j + 1)))] = Some (hexgroup a j)"
proof -
  have "prints (ch CHR ''%'' # ch CHR ''x'' # ch CHR ''d'' # []) [A_num (group_value a j)] (hexgroup a j @ [])"
    unfolding hexgroup_def by (intro prints_xd prints_empty) (use group_range [of a j] in simp_all)
  moreover have "length (hexgroup a j @ []) \<le> 2 ^ 64 - 1 - dst" using group_text(4) [of a j] assms by simp
  ultimately have "ngx_sprintf dst (ch CHR ''%'' # ch CHR ''x'' # ch CHR ''d'' # []) [A_num (group_value a j)] = Some (hexgroup a j @ [])"
    by (rule prints_sprintf)
  then show ?thesis unfolding group_value_def list.map append_Nil2 .
qed

lemma ntop_plain:
  "j \<le> N \<Longrightarrow> N \<le> 8 \<Longrightarrow> (\<And>z. zero = Some z \<Longrightarrow> z < 2 * j \<or> 2 * N \<le> z) \<Longrightarrow> dst + 5 * (N - j) < 2 ^ 63 + 200 \<Longrightarrow>
   ntop_loop a (2 * N) zero mx dst (2 * j) = Some (gtexts a j N)"
proof (induction "N - j" arbitrary: j dst)
  case 0
  then show ?case by (subst ntop_loop.simps) (simp add: gtexts_rec)
next
  case (Suc x)
  then have j: "j < N" "x = N - Suc j" by simp_all
  have w: "ngx_sprintf dst (str ''%xd'') [A_num (uint (a ! (2 * j)) * 256 + uint (a ! (2 * j + 1)))] = Some (hexgroup a j)"
    by (rule sprintf_group) (use Suc.prems in simp)
  have z: "zero \<noteq> Some (2 * j)" using Suc.prems(3) j(1) by fastforce
  have "ntop_loop a (2 * N) zero mx (dst + length (gtext a j)) (2 * Suc j) = Some (gtexts a (Suc j) N)"
    using Suc.prems group_text(4) [of a j] j by (intro Suc(1) [OF j(2)]) (force simp: gtext_def)+
  then show ?case
    using j(1) z w by (subst ntop_loop.simps) (cases "j < 7"; simp add: gtext_def gtexts_rec Let_def)
qed


lemma ntop_run:
  "j \<le> k \<Longrightarrow> k < N \<Longrightarrow> N \<le> 8 \<Longrightarrow> 2 \<le> mx \<Longrightarrow> dst + 5 * (N - j) < 2 ^ 63 + 199 \<Longrightarrow>
   ntop_loop a (2 * N) (Some (2 * k)) mx dst (2 * j) = Some (gtexts a j k @ ch CHR '':'' # gtexts a (k + mx) N)"
proof (induction "k - j" arbitrary: j dst)
  case 0
  then have j: "j = k" by simp
  have e: "2 * k + (mx - 1) * 2 + 2 = 2 * (k + mx)" using 0 by (simp add: algebra_simps)
  have "ntop_loop a (2 * N) (Some (2 * k)) mx (dst + 1) (2 * (k + mx)) = Some (gtexts a (k + mx) N)"
  proof (cases "k + mx \<le> N")
    case True
    then show ?thesis using 0 j by (intro ntop_plain) auto
  next
    case False
    then show ?thesis by (subst ntop_loop.simps) (simp add: gtexts_rec)
  qed
  moreover have "ntop_loop a (2 * N) (Some (2 * k)) mx dst (2 * k) =
      map_option ((#) (ch CHR '':'')) (ntop_loop a (2 * N) (Some (2 * k)) mx (dst + 1) (2 * k + (mx - 1) * 2 + 2))"
    using 0 j by (subst ntop_loop.simps) simp
  ultimately show ?case unfolding e j by (simp add: gtexts_rec)
next
  case (Suc x)
  then have j: "j < k" "x = k - Suc j" by simp_all
  have w: "ngx_sprintf dst (str ''%xd'') [A_num (uint (a ! (2 * j)) * 256 + uint (a ! (2 * j + 1)))] = Some (hexgroup a j)"
    by (rule sprintf_group) (use Suc.prems in simp)
  have "ntop_loop a (2 * N) (Some (2 * k)) mx (dst + length (gtext a j)) (2 * Suc j) = Some (gtexts a (Suc j) k @ ch CHR '':'' # gtexts a (k + mx) N)"
    using Suc.prems group_text(4) [of a j] j by (intro Suc(1) [OF j(2)]) (force simp: gtext_def)+
  then show ?case
    using j(1) Suc.prems w by (subst ntop_loop.simps) (simp add: gtext_def gtexts_rec Let_def)
qed

lemma gtexts_colon: "k \<le> 7 \<Longrightarrow> gtexts a j k = groups_colon a j k"
  unfolding gtexts_def groups_colon_def gtext_def by (rule arg_cong [of _ _ concat]) simp

lemma gtexts_end: "j < 8 \<Longrightarrow> gtexts a j 8 = groups_colon a j 7 @ hexgroup a 7"
proof -
  assume "j < 8"
  then have "[j..<8] = [j..<7] @ [7]" using upt_Suc_append [of j 7] by simp
  then have "gtexts a j 8 = gtexts a j 7 @ gtext a 7" by (simp add: gtexts_def)
  then show ?thesis by (simp add: gtexts_colon) (simp add: gtext_def)
qed


lemma groups_bytes_append: "i \<le> j \<Longrightarrow> j \<le> k \<Longrightarrow> groups_bytes a i k = groups_bytes a i j @ groups_bytes a j k"
  unfolding groups_bytes_def by (metis concat_append le_Suc_ex map_append upt_add_eq_append)

lemma groups_bytes_length: "length (groups_bytes a j k) = 2 * (k - j)"
  by (simp add: groups_bytes_def length_concat comp_def group_bytes_def sum_list_triv)

lemma groups_bytes_zero: "(\<And>i. j \<le> i \<Longrightarrow> i < k \<Longrightarrow> group_bytes a i = [0, 0]) \<Longrightarrow> groups_bytes a j k = replicate (2 * (k - j)) 0"
proof (induction "k - j" arbitrary: j)
  case (Suc x)
  then have j: "j < k" "x = k - Suc j" by simp_all
  have "2 * (k - j) = Suc (Suc (2 * (k - Suc j)))" using j(1) by simp
  then show ?case using Suc(1) [OF j(2)] Suc.prems j by (simp add: groups_rec)
qed (simp add: groups_rec)

lemma parse_gap:
  assumes "length a = 16" "k + mx \<le> 8" "2 \<le> mx" "\<And>i. k \<le> i \<Longrightarrow> i < k + mx \<Longrightarrow> group_bytes a i = [0, 0]"
  shows "Option.bind (inet6_loop (i6_at (groups_bytes a 0 k) (Some (2 * k)) digit (8 - k)) (gtexts a (k + mx) 8)) i6_end = Some a"
proof -
  have all: "groups_bytes a 0 8 = a" using groups_bytes_all [OF assms(1), of 0 8] assms(1) by simp
  have split: "a = groups_bytes a 0 k @ replicate (2 * mx) 0 @ groups_bytes a (k + mx) 8"
  proof -
    have "groups_bytes a 0 8 = groups_bytes a 0 k @ groups_bytes a k (k + mx) @ groups_bytes a (k + mx) 8"
      using assms(2) groups_bytes_append [of 0 k 8 a] groups_bytes_append [of k "k + mx" 8 a] by simp
    moreover have "groups_bytes a k (k + mx) = replicate (2 * mx) 0"
      using groups_bytes_zero [of k "k + mx" a] assms(4) by simp
    ultimately show ?thesis using all by simp
  qed
  show ?thesis
  proof (cases "k + mx = 8")
    case True
    have "replicate ((8 - k - 1) * 2) 0 @ [0, 0] = (replicate (2 * mx) 0 :: bytes)"
    proof -
      have "2 * mx = (8 - k - 1) * 2 + 2" using True assms(3) by simp
      then show ?thesis by (simp only: replicate_add) (simp add: numeral_2_eq_2)
    qed
    then show ?thesis
      using True assms(2,3) split groups_bytes_length [of a 0 k] by (simp add: gtexts_rec end_zero groups_rec)
  next
    case False
    then have k: "k + mx < 8" "7 - (k + mx) < 8 - k" "8 - k - (7 - (k + mx)) = mx + 1" using assms(2,3) by simp_all
    define A where "A = groups_bytes a 0 k @ groups_bytes a (k + mx) 7"
    obtain d where "inet6_loop (i6_at (groups_bytes a 0 k) (Some (2 * k)) digit (8 - k)) (gtexts a (k + mx) 8) =
        inet6_loop (i6_at A (Some (2 * k)) d (mx + 1)) (hexgroup a 7)"
      unfolding gtexts_end [OF k(1)] i6_groups [OF k(2)] k(3) A_def by blast
    moreover have "groups_bytes a (k + mx) 8 = groups_bytes a (k + mx) 7 @ group_bytes a 7"
      using k(1) groups_bytes_append [of "k + mx" 7 8 a] by (simp add: groups_rec)
    ultimately show ?thesis
      using split groups_bytes_length [of a 0 k] end_gap [of "mx + 1" A "2 * k" d a 7] assms(3) unfolding A_def by (simp add: mult.commute)
  qed
qed

lemma parse_plain:
  assumes "length a = 16"
  shows "Option.bind (inet6_loop (i6_at [] None None 8) (gtexts a 0 8)) i6_end = Some a"
proof -
  have l: "inet6_loop (i6_at [] None None 8) (gtexts a 0 8) = inet6_loop (i6_at (groups_bytes a 0 7) None (Some (hexgroup a 7)) 1) (hexgroup a 7)"
    using gtexts_end [of 0 a] i6_groups [of 7 0 8 "[]" None None a "hexgroup a 7"] by simp
  moreover obtain st where st: "inet6_loop (i6_at (groups_bytes a 0 7) None (Some (hexgroup a 7)) 1) (hexgroup a 7) = Some st"
    using i6_group [of "groups_bytes a 0 7" None "Some (hexgroup a 7)" 1 a 7 "[]"] by simp
  moreover have "groups_bytes a 0 7 @ group_bytes a 7 = a"
    using groups_bytes_append [of 0 7 8 a] groups_bytes_all [OF assms, of 0 8] assms by (simp add: groups_rec)
  ultimately show ?thesis using end_full [OF st] by simp
qed

lemma parse_dotted:
  assumes "length a = 16" "zero_run a 8 (Some 0) mx" "mx = 5 \<and> a ! 10 = 0xff \<and> a ! 11 = 0xff \<or> mx = 6 \<or> mx = 7"
    "inaddr_of (drop 12 a) \<noteq> INADDR_NONE"
  shows "Option.bind (inet6_loop (i6_at [] (Some 0) (Some (gtexts a mx 6 @ dotted (drop 12 a))) 8) (gtexts a mx 6 @ dotted (drop 12 a))) i6_end = Some a"
proof -
  have z: "\<And>j. j < mx \<Longrightarrow> group_bytes a j = [0, 0]" using assms(2) unfolding zero_run_def by auto
  have q: "length (drop 12 a) = 4" using assms(1) by simp
  have all: "take 12 a = groups_bytes a 0 6" using groups_bytes_all [OF assms(1), of 0 6] by simp
  show ?thesis
  proof (cases "mx = 5")
    case True
    have g: "group_bytes a 5 = [0xff, 0xff]" using True assms(3) by (simp add: group_bytes_def)
    have "groups_bytes a 0 6 = replicate 10 0 @ [0xff, 0xff]"
      using groups_bytes_append [of 0 5 6 a] groups_bytes_zero [of 0 5 a] z True g by (simp add: groups_rec)
    moreover have "gtexts a mx 6 = hexgroup a 5 @ ch CHR '':'' # []" using True by (simp add: gtexts_rec gtext_def)
    moreover have "inet6_loop (i6_at [] (Some 0) d 8) (hexgroup a 5 @ ch CHR '':'' # dotted (drop 12 a)) =
        inet6_loop (i6_at [0xff, 0xff] (Some 0) (Some (dotted (drop 12 a))) 7) (dotted (drop 12 a))" for d
      using i6_group_colon [of 8 "[]" "Some 0" d a 5] g by simp
    ultimately show ?thesis
      using i6_dotted [OF q assms(4), of 7 "[0xff, 0xff]" 0] all append_take_drop_id [of 12 a] by simp
  next
    case False
    then have "groups_bytes a 0 6 = replicate 12 0" using groups_bytes_zero [of 0 6 a] z assms(3) by auto
    moreover have "gtexts a mx 6 = []" using False assms(3) by (auto simp: gtexts_rec)
    ultimately show ?thesis
      using i6_dotted [OF q assms(4), of 8 "[]" 0] all append_take_drop_id [of 12 a] by simp
  qed
qed


definition inet_char :: "byte \<Rightarrow> bool" where
  "inet_char c \<longleftrightarrow> hex_digit c \<noteq> None \<or> c = ch CHR '':'' \<or> c = ch CHR ''.''"

lemma gtext_chars: "list_all inet_char (gtext a j)" "length (gtext a j) \<le> 5"
  using group_text(1,4) [of a j] unfolding gtext_def by (auto simp: list_all_iff inet_char_def)

lemma gtexts_chars: "list_all inet_char (gtexts a j k)" "length (gtexts a j k) \<le> 5 * (k - j)"
proof -
  show "list_all inet_char (gtexts a j k)" using gtext_chars(1) by (auto simp: gtexts_def list_all_iff)
  have "length (gtexts a j k) \<le> (\<Sum>i\<leftarrow>[j..<k]. 5)"
    unfolding gtexts_def length_concat map_map comp_def by (rule sum_list_mono) (rule gtext_chars(2))
  then show "length (gtexts a j k) \<le> 5 * (k - j)" by (simp add: sum_list_triv)
qed

lemma dotted_chars: "list_all inet_char (dotted q)"
  using dec_hex [of "q ! 0"] dec_hex [of "q ! 1"] dec_hex [of "q ! 2"] dec_hex [of "q ! 3"]
  unfolding dotted_def by (auto simp: list_all_iff inet_char_def)

lemma gtexts_head: "j < k \<Longrightarrow> gtexts a j k @ r \<noteq> [] \<and> hd (gtexts a j k @ r) \<noteq> ch CHR '':''"
proof -
  assume "j < k"
  obtain c ds where "hexgroup a j = c # ds" "hex_digit c \<noteq> None"
    using group_text(1,3) [of a j] by (cases "hexgroup a j") auto
  moreover from this have "c \<noteq> ch CHR '':''" by (auto simp: hex_digit_def)
  ultimately show ?thesis using \<open>j < k\<close> by (simp add: gtexts_rec gtext_def)
qed

lemma inet6_ntop_16:
  assumes "length a = 16" "zero_run a 8 zero mx" "w = (case zero of None \<Rightarrow> gtexts a 0 8 | Some z \<Rightarrow> gtexts a 0 (z div 2) @ ch CHR '':'' # gtexts a (z div 2 + mx) 8)"
    "s = (if zero = Some 0 then [ch CHR '':''] else []) @ w" "dst < 2 ^ 63 + 1"
  shows "ntop_loop a 16 zero mx dst 0 = Some w" "length s \<le> 45" "list_all inet_char s" "ngx_inet6_addr s = Some a"
proof -
  have "ntop_loop a 16 zero mx dst 0 = Some w \<and> length s \<le> 45 \<and> list_all inet_char s \<and> ngx_inet6_addr s = Some a"
  proof (cases zero)
    case None
    have "ntop_loop a (2 * 8) zero mx dst (2 * 0) = Some (gtexts a 0 8)" using None assms(5) by (intro ntop_plain) simp_all
    then show ?thesis
      using None assms gtexts_chars [of a 0 8] parse_plain [OF assms(1)] gtexts_head [of 0 8 a "[]"] by (simp add: inet6_addr_end)
  next
    case (Some z)
    obtain k where k: "z = 2 * k" "k + mx \<le> 8" "2 \<le> mx" "\<And>i. k \<le> i \<Longrightarrow> i < k + mx \<Longrightarrow> group_bytes a i = [0, 0]"
      using assms(2) unfolding Some zero_run_def by auto
    have w: "w = gtexts a 0 k @ ch CHR '':'' # gtexts a (k + mx) 8" using assms(3) Some k(1) by simp
    have loop: "ntop_loop a (2 * 8) (Some (2 * k)) mx dst (2 * 0) = Some w"
      unfolding w using k assms(5) by (intro ntop_run) simp_all
    have len: "length s \<le> 45"
      using gtexts_chars(2) [of a 0 k] gtexts_chars(2) [of a "k + mx" 8] k(2,3) assms(4) unfolding w by (simp split: if_splits)
    have chars: "list_all inet_char s"
      using gtexts_chars(1) [of a 0 k] gtexts_chars(1) [of a "k + mx" 8] assms(4) unfolding w by (simp add: inet_char_def)
    note gap = parse_gap [OF assms(1) k(2-4)]
    have "ngx_inet6_addr s = Some a"
    proof (cases "k = 0")
      case True
      have "s = ch CHR '':'' # ch CHR '':'' # gtexts a mx 8" using True assms(4) Some k(1) w by (simp add: gtexts_rec)
      moreover have "inet6_loop (i6_at [] None None 8) (ch CHR '':'' # r) = inet6_loop (i6_at [] (Some 0) (Some r) 8) r" for r
        by (simp add: i6_step_def i6_colon_def i6_at_def)
      ultimately show ?thesis using gap True by (simp add: inet6_addr_end groups_rec)
    next
      case False
      have "s = groups_colon a 0 k @ ch CHR '':'' # gtexts a (k + mx) 8" using False assms(4) Some k w by (simp add: gtexts_colon)
      moreover have "inet6_loop (i6_at [] None None 8) (groups_colon a 0 k @ ch CHR '':'' # r) =
          inet6_loop (i6_at (groups_bytes a 0 k) (Some (2 * k)) (Some r) (8 - k)) r" for r
      proof -
        have "inet6_loop (i6_at [] None None 8) (groups_colon a 0 k @ ch CHR '':'' # r) =
            inet6_loop (i6_at (groups_bytes a 0 k) None (Some (ch CHR '':'' # r)) (8 - k)) (ch CHR '':'' # r)"
          using i6_groups [of k 0 8 "[]" None None a "ch CHR '':'' # r"] k(2,3) False by simp
        also have "\<dots> = inet6_loop (i6_at (groups_bytes a 0 k) (Some (2 * k)) (Some r) (8 - k)) r"
          using groups_bytes_length [of a 0 k] by (simp add: i6_step_def i6_colon_def i6_at_def)
        finally show ?thesis .
      qed
      ultimately show ?thesis
        using gap False gtexts_head [of 0 k a "ch CHR '':'' # gtexts a (k + mx) 8"] k(2,3)
        by (simp add: inet6_addr_end gtexts_colon)
    qed
    then show ?thesis using loop len chars Some k(1) by simp
  qed
  then show "ntop_loop a 16 zero mx dst 0 = Some w" "length s \<le> 45" "list_all inet_char s" "ngx_inet6_addr s = Some a" by blast+
qed


lemma inet6_ntop_12:
  assumes "length a = 16" "zero_run a 8 (Some 0) mx" "mx = 5 \<and> a ! 10 = 0xff \<and> a ! 11 = 0xff \<or> mx = 6 \<or> mx = 7"
    "s = ch CHR '':'' # ch CHR '':'' # gtexts a mx 6 @ dotted (drop 12 a)" "dst < 2 ^ 63 + 1"
  shows "ntop_loop a 12 (Some 0) mx dst 0 = Some (ch CHR '':'' # gtexts a mx 6)" "length s \<le> 45" "list_all inet_char s"
    "inaddr_of (drop 12 a) \<noteq> INADDR_NONE \<Longrightarrow> ngx_inet6_addr s = Some a"
proof -
  have mx: "2 \<le> mx" "5 \<le> mx" using assms(3) by auto
  have "ntop_loop a (2 * 6) (Some (2 * 0)) mx dst (2 * 0) = Some (gtexts a 0 0 @ ch CHR '':'' # gtexts a (0 + mx) 6)"
    by (rule ntop_run) (use mx assms(5) in simp_all)
  then show "ntop_loop a 12 (Some 0) mx dst 0 = Some (ch CHR '':'' # gtexts a mx 6)" by (simp add: gtexts_rec)
  show "length s \<le> 45"
    using gtexts_chars(2) [of a mx 6] dotted_length [of "drop 12 a"] mx(2) unfolding assms(4) by simp
  show "list_all inet_char s"
    using gtexts_chars(1) [of a mx 6] dotted_chars [of "drop 12 a"] unfolding assms(4) by (simp add: inet_char_def)
  have "inet6_loop (i6_at [] None None 8) (ch CHR '':'' # r) = inet6_loop (i6_at [] (Some 0) (Some r) 8) r" for r
    by (simp add: i6_step_def i6_colon_def i6_at_def)
  then show "inaddr_of (drop 12 a) \<noteq> INADDR_NONE \<Longrightarrow> ngx_inet6_addr s = Some a"
    using parse_dotted [OF assms(1-3)] unfolding assms(4) by (simp add: inet6_addr_end)
qed

lemma byte_args_prints: "length q = 4 \<Longrightarrow> buf < 2 ^ 63 + 100 \<Longrightarrow> ngx_sprintf buf dotted_fmt (byte_args [q ! 0, q ! 1, q ! 2, q ! 3]) = Some (dotted q)"
proof -
  assume q: "length q = 4" "buf < 2 ^ 63 + 100"
  have "prints (dotted_fmt @ []) (byte_args [q ! 0, q ! 1, q ! 2, q ! 3] @ []) (dotted [q ! 0, q ! 1, q ! 2, q ! 3] @ [])"
    by (rule prints_dotted [OF prints_empty])
  moreover have "dotted [q ! 0, q ! 1, q ! 2, q ! 3] = dotted q" by (simp add: dotted_def)
  ultimately have "prints dotted_fmt (byte_args [q ! 0, q ! 1, q ! 2, q ! 3]) (dotted q)" by (simp only: append_Nil2)
  then show ?thesis by (rule prints_sprintf) (use dotted_length [of q] q(2) in simp)
qed

lemma inaddr_none: "length q = 4 \<Longrightarrow> inaddr_of q = INADDR_NONE \<longleftrightarrow> q = replicate 4 0xff"
proof
  assume q: "length q = 4" "inaddr_of q = INADDR_NONE"
  then have "q = addr_bytes INADDR_NONE" using inaddr_bytes [OF q(1)] by simp
  also have "\<dots> = replicate 4 0xff" by code_simp
  finally show "q = replicate 4 0xff" .
next
  assume "q = replicate 4 0xff"
  moreover have "inaddr_of (replicate 4 0xff) = INADDR_NONE" by code_simp
  ultimately show "inaddr_of q = INADDR_NONE" by simp
qed

text \<open>The two addresses that are printed as \<open>::255.255.255.255\<close> and \<open>::ffff:255.255.255.255\<close>.\<close>

definition dotted_none :: "bytes \<Rightarrow> bool" where
  "dotted_none a \<longleftrightarrow> a = replicate 12 0 @ replicate 4 0xff \<or> a = replicate 10 0 @ replicate 6 0xff"

lemma dotted_noneI:
  assumes a: "length a = 16" "zero_run a 8 (Some 0) mx" and mx: "mx = 5 \<and> a ! 10 = 0xff \<and> a ! 11 = 0xff \<or> mx = 6 \<or> mx = 7"
    and q: "inaddr_of (drop 12 a) = INADDR_NONE"
  shows "dotted_none a"
proof -
  have d: "drop 12 a = replicate 4 0xff" using inaddr_none [of "drop 12 a"] a(1) q by simp
  have z: "a ! (2 * j) = 0 \<and> a ! (2 * j + 1) = 0" if "j < mx" for j
    using a(2) that by (auto simp: zero_run_def group_bytes_def)
  have five: "a ! i = 0" if "i < 10" for i
    using z [of "i div 2"] that mx by (cases "even i") (auto elim!: evenE oddE)
  have "drop 10 a = a ! 10 # a ! 11 # drop 12 a" using a(1) by (simp add: Cons_nth_drop_Suc [symmetric])
  then have "a = take 10 a @ [a ! 10, a ! 11] @ drop 12 a" using append_take_drop_id [of 10 a] by simp
  moreover have "take 10 a = replicate 10 0" by (rule nth_equalityI) (use a(1) five in auto)
  moreover have "a ! 10 = 0 \<and> a ! 11 = 0 \<or> a ! 10 = 0xff \<and> a ! 11 = 0xff" using mx z [of 5] by auto
  moreover have "replicate 12 0 = replicate 10 0 @ [0, 0 :: byte]" "replicate 6 0xff = [0xff, 0xff :: byte] @ replicate 4 0xff"
    by (simp_all add: numeral_eq_Suc)
  ultimately show ?thesis unfolding dotted_none_def d by (metis append.assoc)
qed

lemma inet6_ntop_reads:
  assumes a: "length a = 16" and dst: "dst < 2 ^ 63" and len: "45 \<le> len"
  obtains s where "ngx_inet6_ntop a dst len = Some s" "length s \<le> 45" "list_all inet_char s"
    "\<not> dotted_none a \<Longrightarrow> ngx_inet6_addr s = Some a"
proof -
  obtain zero mx where r: "ntop_runs 0 None None 1 0 a = (zero, mx)" by force
  have zr: "zero_run a 8 zero mx" by (rule runs_start [OF a r])
  have l: "\<not> len < NGX_INET6_ADDRSTRLEN" using len by (simp add: NGX_INET6_ADDRSTRLEN_def)
  show ?thesis
  proof (cases "zero = Some 0 \<and> (mx = 5 \<and> a ! 10 = 0xff \<and> a ! 11 = 0xff \<or> mx = 6 \<or> mx = 7 \<and> a ! 14 \<noteq> 0 \<and> a ! 15 \<noteq> 1)")
    case True
    then have z: "zero = Some 0" "mx = 5 \<and> a ! 10 = 0xff \<and> a ! 11 = 0xff \<or> mx = 6 \<or> mx = 7" by auto
    define s where "s = ch CHR '':'' # ch CHR '':'' # gtexts a mx 6 @ dotted (drop 12 a)"
    note n12 = inet6_ntop_12 [OF a zr [unfolded z(1)] z(2) s_def, of "dst + 1"]
    have q: "[a ! 12, a ! 13, a ! 14, a ! 15] = [drop 12 a ! 0, drop 12 a ! 1, drop 12 a ! 2, drop 12 a ! 3]" using a by simp
    have "ngx_sprintf (dst + length (ch CHR '':'' # ch CHR '':'' # gtexts a mx 6)) dotted_fmt (byte_args [a ! 12, a ! 13, a ! 14, a ! 15]) = Some (dotted (drop 12 a))"
      unfolding q using dst gtexts_chars(2) [of a mx 6] z(2) a by (intro byte_args_prints) auto
    then have "ngx_inet6_ntop a dst len = Some s"
      using True l n12(1) dst unfolding ngx_inet6_ntop_def r Let_def prod.case s_def by simp
    moreover have n: "length s \<le> 45" "list_all inet_char s" "inaddr_of (drop 12 a) \<noteq> INADDR_NONE \<Longrightarrow> ngx_inet6_addr s = Some a"
      using n12(2-4) dst by simp_all
    moreover have "\<not> dotted_none a \<Longrightarrow> ngx_inet6_addr s = Some a"
      using n(3) dotted_noneI [OF a zr [unfolded z(1)] z(2)] by metis
    ultimately show ?thesis using that by metis
  next
    case False
    define w where "w = (case zero of None \<Rightarrow> gtexts a 0 8 | Some z \<Rightarrow> gtexts a 0 (z div 2) @ ch CHR '':'' # gtexts a (z div 2 + mx) 8)"
    define s where "s = (if zero = Some 0 then [ch CHR '':''] else []) @ w"
    note n16 = inet6_ntop_16 [OF a zr w_def s_def, of "dst + length (if zero = Some 0 then [ch CHR '':''] else [])"]
    have "ngx_inet6_ntop a dst len = Some s"
      using l n16(1) dst unfolding ngx_inet6_ntop_def r Let_def prod.case if_not_P [OF False] s_def by simp
    then show ?thesis using that n16(2-4) dst by simp
  qed
qed

text \<open>An IPv6 address that \<open>ngx_inet6_ntop\<close> prints fits the 45 bytes of \<open>NGX_INET6_ADDRSTRLEN\<close> and is read back by
  \<open>ngx_inet6_addr\<close> as the same 16 bytes, but for the two that are printed in dotted form with four numbers 255, which
  the reader takes for \<open>INADDR_NONE\<close>.\<close>

theorem inet6_roundtrip:
  assumes "length a = 16" "dst < 2 ^ 63" "NGX_INET6_ADDRSTRLEN \<le> len" "\<not> dotted_none a"
  shows "map_option (\<lambda>s. (length s \<le> NGX_INET6_ADDRSTRLEN, ngx_inet6_addr s)) (ngx_inet6_ntop a dst len) = Some (True, Some a)"
proof -
  obtain s where "ngx_inet6_ntop a dst len = Some s" "length s \<le> 45" "\<not> dotted_none a \<Longrightarrow> ngx_inet6_addr s = Some a"
    using inet6_ntop_reads [OF assms(1,2), of len] assms(3) unfolding NGX_INET6_ADDRSTRLEN_def by blast
  then show ?thesis using assms(4) by (simp add: NGX_INET6_ADDRSTRLEN_def)
qed

lemma inet6_roundtrip_witness:
  "map_option (\<lambda>s. (length s \<le> NGX_INET6_ADDRSTRLEN, ngx_inet6_addr s))
    (ngx_inet6_ntop [0x20, 1, 0x0d, 0xb8, 0, 0, 0, 0, 0, 0, 0, 0, 0, 0, 0, 1] 4096 45) =
   Some (True, Some [0x20, 1, 0x0d, 0xb8, 0, 0, 0, 0, 0, 0, 0, 0, 0, 0, 0, 1])"
proof -
  have l: "length [0x20, 1, 0x0d, 0xb8, 0, 0, 0, 0, 0, 0, 0, 0, 0, 0, 0, 1 :: byte] = 16" by simp
  have d: "\<not> dotted_none [0x20, 1, 0x0d, 0xb8, 0, 0, 0, 0, 0, 0, 0, 0, 0, 0, 0, 1 :: byte]"
    by (simp add: dotted_none_def numeral_eq_Suc)
  have n: "(4096 :: nat) < 2 ^ 63" "NGX_INET6_ADDRSTRLEN \<le> 45" by (simp_all add: NGX_INET6_ADDRSTRLEN_def)
  show ?thesis by (rule inet6_roundtrip [OF l n d])
qed

end
