(* ===== verification/Ngx_Cidr.thy ===== *)
theory Ngx_Cidr
  imports Ngx_Inet6
begin

section \<open>Socket addresses and networks\<close>

text \<open>
  The proofs about socket addresses with ports and about networks in CIDR notation, the functions of \<open>Ngx_Inet\<close>:
  printing and reading back, and what a prefix matches.
\<close>

subsection \<open>Socket addresses are read back\<close>

lemma htons_htons: "htons (htons p) = p"
  unfolding htons_def by (auto intro!: bit_word_eqI simp: bit_simps)

lemma bit_byte_split: "bit (ucast (w :: 32 word) :: byte) n \<longleftrightarrow> n < 8 \<and> bit w n"
  by (auto simp: bit_simps)

lemma addr_bytes_inj: "addr_bytes x = addr_bytes y \<Longrightarrow> x = y"
proof (rule bit_word_eqI)
  fix n
  assume h: "addr_bytes x = addr_bytes y" and n: "n < LENGTH(32)"
  have b: "bit (ucast (drop_bit k w) :: byte) (n - k) \<longleftrightarrow> bit w n" if "k \<le> n" "n < k + 8" for w :: "32 word" and k
    using that by (simp add: bit_simps) auto
  have e: "ucast x = (ucast y :: byte)" "ucast (drop_bit 8 x) = (ucast (drop_bit 8 y) :: byte)"
    "ucast (drop_bit 16 x) = (ucast (drop_bit 16 y) :: byte)" "ucast (drop_bit 24 x) = (ucast (drop_bit 24 y) :: byte)"
    using h by (simp_all add: addr_bytes_def)
  consider "n < 8" | "8 \<le> n" "n < 16" | "16 \<le> n" "n < 24" | "24 \<le> n" "n < 32" using n by fastforce
  then show "bit x n = bit y n"
  proof cases
    case 1
    then show ?thesis using b [of 0 x] b [of 0 y] e(1) by simp
  next
    case 2
    then show ?thesis using b [of 8 x] b [of 8 y] e(2) by simp
  next
    case 3
    then show ?thesis using b [of 16 x] b [of 16 y] e(3) by simp
  next
    case 4
    then show ?thesis using b [of 24 x] b [of 24 y] e(4) by simp
  qed
qed

lemma inaddr_of_bytes: "inaddr_of (addr_bytes w) = w"
  by (rule addr_bytes_inj [OF inaddr_bytes]) (simp add: addr_bytes_def)

lemma inet_loop_dotted: "inet_loop 0 0 0 (dotted q @ r) = inet_loop (push_bit 8 (push_bit 8 (push_bit 8 0 + of_nat (unat (q ! 0))) + of_nat (unat (q ! 1))) + of_nat (unat (q ! 2))) (unat (q ! 3)) 3 r"
  unfolding dotted_def by (simp add: inet_loop_dec numeral_3_eq_3)

lemma inet_loop_colon: "ch CHR '':'' \<in> set s \<Longrightarrow> inet_loop addr v n s = None"
  by (induction addr v n s rule: inet_loop.induct) (auto simp: Let_def)

lemma no_colon_step:
  assumes "c \<noteq> ch CHR '':''" "i6_zero st = None" "i6_digit st = None" "i6_step st c p = r"
  shows "r = I6_error \<or> (\<exists>st'. r = I6_go st' \<and> i6_zero st' = None \<and> i6_digit st' = None \<and> i6_n st' = i6_n st)"
  using assms unfolding i6_step_def i6_dot_def i6_nibble_def Let_def by (auto split: if_splits)

lemma no_colon:
  "ch CHR '':'' \<notin> set s \<Longrightarrow> i6_zero st = None \<Longrightarrow> i6_digit st = None \<Longrightarrow> inet6_loop st s = Some st' \<Longrightarrow>
   i6_zero st' = None \<and> i6_n st' = i6_n st"
proof (induction s arbitrary: st)
  case (Cons c s)
  then obtain st1 where "i6_step st c s = I6_go st1" "i6_zero st1 = None" "i6_digit st1 = None" "i6_n st1 = i6_n st"
    using no_colon_step [of c st s "i6_step st c s"] by (auto split: i6_next.splits)
  then show ?case using Cons by simp
qed simp

lemma inet6_has_colon: "ngx_inet6_addr s = Some a \<Longrightarrow> ch CHR '':'' \<in> set s"
proof (rule ccontr)
  assume s: "ngx_inet6_addr s = Some a" "ch CHR '':'' \<notin> set s"
  then have ne: "s \<noteq> []" by (auto simp: ngx_inet6_addr_def)
  then have "hd s \<noteq> ch CHR '':''" using s(2) by (cases s) auto
  then obtain st where st: "inet6_loop (i6_at [] None None 8) s = Some st" "i6_end st = Some a"
    using s(1) by (auto simp: inet6_addr_end [OF ne] bind_eq_Some_conv)
  then have "i6_zero st = None \<and> i6_n st = 8" using no_colon [OF s(2) _ _ st(1)] by (simp add: i6_at_def)
  then show False using st(2) by (auto simp: i6_end_def i6_write_def Let_def split: if_splits)
qed

lemma strlchr_first: "c \<notin> set s \<Longrightarrow> ngx_strlchr (s @ c # r) c = Some (length s)"
  by (induction s) auto

lemma port_digits:
  assumes "0 \<le> n" "n < 2 ^ 31"
  shows "ngx_atoi (decimal_digits (nat n)) = Some n"
proof -
  have "list_all is_dec (decimal_digits (nat n))" "dec_from 0 (decimal_digits (nat n)) = n" "decimal_digits (nat n) \<noteq> []"
    using decimal_value [of "nat n"] assms(1) by simp_all
  then show ?thesis
    using ngx_ato_loop_eq [of 0 NGX_MAX_INT_T_VALUE "decimal_digits (nat n)"] assms unfolding ngx_atoi_def by (simp add: NGX_MAX_INT_T_VALUE_def)
qed

lemma port_range: "p \<noteq> 0 \<Longrightarrow> 1 \<le> uint (htons p) \<and> uint (htons p) \<le> 65535 \<and> htons (word_of_int (uint (htons p))) = p"
proof -
  assume "p \<noteq> 0"
  moreover have "htons 0 = 0" by (simp add: htons_def)
  ultimately have "htons p \<noteq> 0" using htons_htons [of p] by metis
  then have "uint (htons p) \<noteq> 0" by (simp add: uint_0_iff)
  moreover have "0 \<le> uint (htons p)" "uint (htons p) < 2 ^ 16" using uint_lt2p [of "htons p"] by simp_all
  ultimately have "1 \<le> uint (htons p) \<and> uint (htons p) < 2 ^ 16" by linarith
  then show ?thesis using htons_htons [of p] by simp
qed

text \<open>The first bytes of a text with a port make it no address.\<close>

lemma dotted_port_no_address: "ngx_parse_addr mem (dotted q @ ch CHR '':'' # r) = (NGX_DECLINED, None)"
proof -
  have "ngx_inet_addr (dotted q @ ch CHR '':'' # r) = INADDR_NONE" by (simp add: ngx_inet_addr_def inet_loop_colon)
  moreover have "ngx_inet6_addr (dotted q @ ch CHR '':'' # r) = None"
  proof -
    obtain x where x: "dotted q @ ch CHR '':'' # r = dec (q ! 0) @ ch CHR ''.'' # x" unfolding dotted_def by auto
    have "dec (q ! 0) \<noteq> []" "list_all (\<lambda>c. hex_digit c \<noteq> None) (dec (q ! 0))" using dec_value [of "q ! 0"] dec_hex [of "q ! 0"] by blast+
    then have h: "hd (dec (q ! 0) @ ch CHR ''.'' # x) \<noteq> ch CHR '':''" by (cases "dec (q ! 0)") (auto simp: hex_digit_def)
    have "inet6_loop (i6_at [] None None 8) (dec (q ! 0) @ ch CHR ''.'' # x) = None"
      using i6_digits [OF dec_hex, of "i6_at [] None None 8" "q ! 0" 0 "ch CHR ''.'' # x"] dec_length [of "q ! 0"] dec_value [of "q ! 0"]
      by (simp add: i6_at_def i6_step_def i6_dot_def)
    then show ?thesis using h unfolding x by (simp add: inet6_addr_end)
  qed
  ultimately show ?thesis by (simp add: ngx_parse_addr_def)
qed

lemma bracket_no_address: "ngx_parse_addr mem (ch CHR ''['' # r) = (NGX_DECLINED, None)"
proof -
  have "ngx_inet_addr (ch CHR ''['' # r) = INADDR_NONE" by (simp add: ngx_inet_addr_def)
  moreover have "inet6_loop (i6_at [] None None 8) (ch CHR ''['' # r) = None"
    by (simp add: i6_step_def i6_nibble_def i6_at_def)
  ultimately show ?thesis by (simp add: ngx_parse_addr_def inet6_addr_end)
qed


lemma parse_addr_port_split:
  assumes "ngx_parse_addr True s = (NGX_DECLINED, None)" "addr_port_split s = Some (t, decimal_digits (nat (uint (htons p))))" "p \<noteq> 0"
    "ngx_parse_addr True t = (NGX_OK, Some sa)"
  shows "ngx_parse_addr_port True s = (NGX_OK, Some (ngx_inet_set_port sa (htons p)))"
proof -
  have "ngx_atoi (decimal_digits (nat (uint (htons p)))) = Some (uint (htons p))"
    by (rule port_digits) (use port_range [OF assms(3)] in simp_all)
  then show ?thesis
    using assms port_range [OF assms(3)] by (simp add: ngx_parse_addr_port_def not_less)
qed

lemma sin_reads:
  assumes "p \<noteq> 0" "w \<noteq> INADDR_NONE"
  shows "ngx_parse_addr_port True (dotted (addr_bytes w) @ ch CHR '':'' # decimal_digits (nat (uint (htons p)))) = (NGX_OK, Some (Sin p w))"
proof -
  define t where "t = dotted (addr_bytes w)"
  define d where "d = decimal_digits (nat (uint (htons p)))"
  have c: "ch CHR '':'' \<notin> set t" "t \<noteq> []" "hd t \<noteq> ch CHR ''[''"
  proof -
    have "list_all (\<lambda>c. is_dec c \<or> c = ch CHR ''.'') t"
      unfolding t_def dotted_def using dec_value [of "addr_bytes w ! 0"] dec_value [of "addr_bytes w ! 1"] dec_value [of "addr_bytes w ! 2"]
        dec_value [of "addr_bytes w ! 3"] by (auto simp: list_all_iff)
    moreover show "t \<noteq> []" unfolding t_def dotted_def by simp
    ultimately show "ch CHR '':'' \<notin> set t" "hd t \<noteq> ch CHR ''[''" by (auto simp: list_all_iff is_dec_def) (cases t; auto)
  qed
  have "addr_port_split (t @ ch CHR '':'' # d) = Some (t, d)"
    using c strlchr_first [OF c(1), of d] by (simp add: addr_port_split_def)
  moreover have "ngx_parse_addr True t = (NGX_OK, Some (Sin 0 w))"
    using assms(2) by (simp add: ngx_parse_addr_def t_def inet_addr_dotted inaddr_of_bytes)
  ultimately show ?thesis
    using parse_addr_port_split [OF dotted_port_no_address _ assms(1), of "addr_bytes w" d t "Sin 0 w"] htons_htons [of p]
    unfolding t_def d_def by simp
qed

lemma sin6_reads:
  assumes "p \<noteq> 0" "ngx_inet6_addr t = Some a" "list_all inet_char t"
  shows "ngx_parse_addr_port True (ch CHR ''['' # t @ ch CHR '']'' # ch CHR '':'' # decimal_digits (nat (uint (htons p)))) = (NGX_OK, Some (Sin6 p a))"
proof -
  define d where "d = decimal_digits (nat (uint (htons p)))"
  have "\<not> inet_char (ch CHR '']'')" by (simp add: inet_char_def hex_digit_def)
  then have b: "ch CHR '']'' \<notin> set (ch CHR ''['' # t)" using assms(3) by (auto simp: list_all_iff)
  have ne: "d \<noteq> []" using decimal_value by (simp add: d_def)
  have "ngx_strlchr (ch CHR ''['' # t @ ch CHR '']'' # ch CHR '':'' # d) (ch CHR '']'') = Some (length t + 1)"
    using strlchr_first [OF b, of "ch CHR '':'' # d"] by simp
  then have "addr_port_split (ch CHR ''['' # t @ ch CHR '']'' # ch CHR '':'' # d) = Some (t, d)"
    by (simp add: addr_port_split_def nth_append)
  moreover have "ngx_parse_addr True t = (NGX_OK, Some (Sin6 0 a))"
    using assms(2) inet_loop_colon [OF inet6_has_colon [OF assms(2)]] by (simp add: ngx_parse_addr_def ngx_inet_addr_def)
  ultimately show ?thesis
    using parse_addr_port_split [OF bracket_no_address _ assms(1), of _ t "Sin6 0 a"] htons_htons [of p] unfolding d_def by simp
qed

lemma port_length: "length (decimal_digits (nat (uint (p :: 16 word)))) \<le> 5"
proof (rule decimal_length)
  have r: "0 \<le> uint p" "uint p < 2 ^ 16" using uint_lt2p [of p] by simp_all
  have "uint p < int (10 ^ 5)" using r by simp
  then show "nat (uint p) < 10 ^ 5" using r(1) by (simp only: nat_less_iff)
qed simp

lemma sin_prints:
  assumes "21 \<le> len"
  shows "ngx_sock_ntop (Sin p w) dst len True = Some (dotted (addr_bytes w) @ ch CHR '':'' # decimal_digits (nat (uint (htons p))))"
proof -
  obtain b c d e where q: "addr_bytes w = [b, c, d, e]" by (simp add: addr_bytes_def)
  have r: "0 \<le> uint (htons p)" "uint (htons p) < 2 ^ 16" using uint_lt2p [of "htons p"] by simp_all
  have "prints (dotted_fmt @ ch CHR '':'' # ch CHR ''%'' # ch CHR ''d'' # []) (byte_args [b, c, d, e] @ [A_num (uint (htons p))])
      (dotted [b, c, d, e] @ ch CHR '':'' # decimal_digits (nat (uint (htons p))) @ [])"
    by (intro prints_dotted prints_char prints_port prints_empty) (use r in simp_all)
  moreover have "length (dotted [b, c, d, e] @ ch CHR '':'' # decimal_digits (nat (uint (htons p))) @ []) \<le> len"
    using dotted_length [of "[b, c, d, e]"] port_length [of "htons p"] assms by simp
  ultimately have v: "ngx_vslprintf len (dotted_fmt @ ch CHR '':'' # ch CHR ''%'' # ch CHR ''d'' # []) (byte_args [b, c, d, e] @ [A_num (uint (htons p))]) =
      Some (dotted [b, c, d, e] @ ch CHR '':'' # decimal_digits (nat (uint (htons p))) @ [])"
    unfolding prints_def by blast
  have f: "str ''%ud.%ud.%ud.%ud:%d'' = dotted_fmt @ ch CHR '':'' # ch CHR ''%'' # ch CHR ''d'' # []" by (simp add: dotted_fmt_def)
  have n: "ngx_sock_ntop (Sin p w) dst len True = ngx_vslprintf len (str ''%ud.%ud.%ud.%ud:%d'') (byte_args (addr_bytes w) @ [A_num (uint (htons p))])"
    by (simp only: ngx_sock_ntop_def ngx_snprintf_def sockaddr.case if_True)
  show ?thesis unfolding n f q v by (simp only: append_Nil2)
qed

text \<open>C16. A socket address with its port, IPv4 or IPv6, that \<open>ngx_sock_ntop\<close> prints is read back by
  \<open>ngx_parse_addr_port\<close> as the same address and port, except where the code's reader refuses: port 0, the address
  255.255.255.255, which it takes for \<open>INADDR_NONE\<close>, and the two IPv6 addresses that are printed with it,
  \<open>::255.255.255.255\<close> and \<open>::ffff:255.255.255.255\<close>.\<close>

theorem sockaddr_roundtrip:
  assumes "sa = Sin p w \<and> w \<noteq> INADDR_NONE \<or> sa = Sin6 p a \<and> length a = 16 \<and> \<not> dotted_none a"
    "p \<noteq> 0" "NGX_INET6_ADDRSTRLEN \<le> len" "dst < 2 ^ 62"
  shows "map_option (ngx_parse_addr_port True) (ngx_sock_ntop sa dst len True) = Some (NGX_OK, Some sa)"
  using assms(1)
proof
  assume sa: "sa = Sin p w \<and> w \<noteq> INADDR_NONE"
  have "21 \<le> len" using assms(3) by (simp add: NGX_INET6_ADDRSTRLEN_def)
  then show ?thesis using sa sin_prints [of len p w dst] sin_reads [OF assms(2), of w] by simp
next
  assume sa: "sa = Sin6 p a \<and> length a = 16 \<and> \<not> dotted_none a"
  have d: "dst + 1 < 2 ^ 63" and l: "45 \<le> len" using assms(3,4) by (simp_all add: NGX_INET6_ADDRSTRLEN_def)
  obtain s where s: "ngx_inet6_ntop a (dst + 1) len = Some s" "length s \<le> 45" "list_all inet_char s" "ngx_inet6_addr s = Some a"
    using inet6_ntop_reads [OF _ d l, of a] sa by auto
  have r: "0 \<le> uint (htons p)" "uint (htons p) < 2 ^ 16" using uint_lt2p [of "htons p"] by simp_all
  have "prints (ch CHR '']'' # ch CHR '':'' # ch CHR ''%'' # ch CHR ''d'' # []) [A_num (uint (htons p))]
      (ch CHR '']'' # ch CHR '':'' # decimal_digits (nat (uint (htons p))) @ [])"
    by (intro prints_char prints_port prints_empty) (use r in simp_all)
  moreover have "length (ch CHR '']'' # ch CHR '':'' # decimal_digits (nat (uint (htons p))) @ []) \<le> 2 ^ 64 - 1 - (dst + 1 + length s)"
    using port_length [of "htons p"] s(2) assms(4) by simp
  ultimately have "ngx_sprintf (dst + 1 + length s) (ch CHR '']'' # ch CHR '':'' # ch CHR ''%'' # ch CHR ''d'' # []) [A_num (uint (htons p))] =
      Some (ch CHR '']'' # ch CHR '':'' # decimal_digits (nat (uint (htons p))) @ [])"
    by (rule prints_sprintf)
  then have "ngx_sock_ntop sa dst len True = Some (ch CHR ''['' # s @ ch CHR '']'' # ch CHR '':'' # decimal_digits (nat (uint (htons p))))"
    using sa s(1) by (simp add: ngx_sock_ntop_def)
  then show ?thesis using sin6_reads [OF assms(2) s(4,3)] sa by simp
qed

lemma sockaddr_roundtrip_witness:
  "map_option (ngx_parse_addr_port True) (ngx_sock_ntop (Sin 0x5000 0x0100007f) 4096 64 True) = Some (NGX_OK, Some (Sin 0x5000 0x0100007f))"
  by (rule sockaddr_roundtrip [where p = "0x5000" and w = "0x0100007f" and a = "[]"]) (simp_all add: INADDR_NONE_def NGX_INET6_ADDRSTRLEN_def)


subsection \<open>Networks\<close>

text \<open>The bits of an address in network order, the most significant first.\<close>

definition byte_bits :: "byte \<Rightarrow> bool list" where
  "byte_bits b = map (bit b) [7, 6, 5, 4, 3, 2, 1, 0]"

lemma length_byte_bits [simp]: "length (byte_bits b) = 8"
  by (simp add: byte_bits_def)

definition net_bits :: "bytes \<Rightarrow> bool list" where
  "net_bits a = concat (map byte_bits a)"

lemma net_bits_Cons: "net_bits (b # a) = byte_bits b @ net_bits a"
  by (simp add: net_bits_def)

lemma byte_eight: "(\<forall>t < 8. P t) \<longleftrightarrow> P 7 \<and> P 6 \<and> P 5 \<and> P 4 \<and> P 3 \<and> P 2 \<and> P 1 \<and> P (0 :: nat)"
  by (simp add: eval_nat_numeral All_less_Suc)

text \<open>A byte under a mask of its \<open>s\<close> highest bits.\<close>

definition mask_byte :: "nat \<Rightarrow> byte" where
  "mask_byte s = ucast (push_bit (8 - min s 8) (0xff :: 32 word))"

lemma mask_byte_bit: "bit (mask_byte s) t \<longleftrightarrow> t < 8 \<and> 7 - t < s"
proof -
  have m: "(0xff :: 32 word) = mask 8" by code_simp
  show ?thesis unfolding mask_byte_def m by (auto simp: bit_simps min_def)
qed

lemma masked_byte: "a AND mask_byte s = b AND mask_byte s \<longleftrightarrow> take s (byte_bits a) = take s (byte_bits b)"
proof -
  have "a AND mask_byte s = b AND mask_byte s \<longleftrightarrow> (\<forall>t < 8. 7 - t < s \<longrightarrow> bit a t = bit b t)"
    by (auto simp: bit_eq_iff mask_byte_bit bit_simps byte_bit)
  then show ?thesis unfolding byte_eight byte_bits_def by (auto simp: take_Cons')
qed

definition mask_bytes :: "nat \<Rightarrow> nat \<Rightarrow> bytes" where
  "mask_bytes n k = map (\<lambda>i. mask_byte (k - 8 * i)) [0..<n]"

lemma mask_bytes_Suc: "mask_bytes (Suc n) k = mask_byte k # mask_bytes n (k - 8)"
proof -
  have "mask_bytes (Suc n) k = mask_byte (k - 8 * 0) # map (\<lambda>i. mask_byte (k - 8 * i)) (map Suc [0..<n])"
    unfolding mask_bytes_def by (subst upt_conv_Cons) (simp_all add: map_Suc_upt)
  also have "map (\<lambda>i. mask_byte (k - 8 * i)) (map Suc [0..<n]) = mask_bytes n (k - 8)"
    unfolding mask_bytes_def map_map by (rule map_cong) (simp_all add: algebra_simps)
  finally show ?thesis by simp
qed

lemma masked_bytes:
  "length a = n \<Longrightarrow> length b = n \<Longrightarrow>
   map2 (AND) a (mask_bytes n k) = map2 (AND) b (mask_bytes n k) \<longleftrightarrow> take k (net_bits a) = take k (net_bits b)"
proof (induction n arbitrary: a b k)
  case 0
  then show ?case by (simp add: net_bits_def)
next
  case (Suc n)
  obtain x a' y b' where ab: "a = x # a'" "b = y # b'" "length a' = n" "length b' = n"
    using Suc.prems by (metis length_Suc_conv)
  show ?case
    unfolding ab(1,2) mask_bytes_Suc net_bits_Cons
    using Suc.IH [OF ab(3,4), of "k - 8"] masked_byte [of x k y] by simp
qed

lemma cidr6_loop_eq:
  "cidr6_loop (int k) a = (map2 (AND) a (mask_bytes (length a) k), mask_bytes (length a) k,
    if map2 (AND) a (mask_bytes (length a) k) = a then NGX_OK else NGX_DONE)"
proof (induction a arbitrary: k)
  case Nil
  then show ?case by (simp add: mask_bytes_def)
next
  case (Cons x a)
  have m: "(if int k > 8 then 8 else int k) = int (min k 8)" by simp
  have "ucast (push_bit (nat (8 - int (min k 8))) (0xff :: 32 word)) = mask_byte k"
    unfolding mask_byte_def by (simp add: nat_diff_distrib')
  moreover have "int k - int (min k 8) = int (k - 8)" by simp
  ultimately show ?case
    using Cons.IH [of "k - 8"] unfolding cidr6_loop.simps Let_def m by (simp add: mask_bytes_Suc)
qed


lemma addr_bytes_and: "addr_bytes (x AND y) = map2 (AND) (addr_bytes x) (addr_bytes y)"
  unfolding addr_bytes_def by (auto intro!: bit_word_eqI simp: bit_simps)

lemma htonl_bytes: "addr_bytes (htonl w) = rev (addr_bytes w)"
  unfolding addr_bytes_def htonl_def byte_masks by (auto intro!: bit_word_eqI simp: bit_simps)

lemma mask_part:
  assumes "k \<le> 32" "j \<le> 3"
  shows "ucast (drop_bit (8 * j) (push_bit (32 - k) (mask 32) :: 32 word)) = mask_byte (k - 8 * (3 - j))"
proof (rule bit_word_eqI)
  fix t
  have "32 - k \<le> 8 * j + t \<longleftrightarrow> 7 - t < k - 8 * (3 - j)" if "t < 8" using assms that by linarith
  moreover have "8 * j + t < 32" if "t < 8" using assms that by linarith
  ultimately show "bit (ucast (drop_bit (8 * j) (push_bit (32 - k) (mask 32) :: 32 word)) :: byte) t = bit (mask_byte (k - 8 * (3 - j))) t"
    by (auto simp: mask_byte_bit bit_simps)
qed

lemma mask4: "k \<le> 32 \<Longrightarrow> addr_bytes (if k \<noteq> 0 then htonl (push_bit (32 - k) 0xffffffff) else 0) = mask_bytes 4 k"
proof (cases "k = 0")
  case True
  then show ?thesis by (simp add: addr_bytes_def mask_bytes_def mask_byte_def upt_rec)
next
  case False
  assume k: "k \<le> 32"
  have m: "(0xffffffff :: 32 word) = mask 32" by code_simp
  have "addr_bytes (push_bit (32 - k) (mask 32)) = [mask_byte (k - 24), mask_byte (k - 16), mask_byte (k - 8), mask_byte k]"
    unfolding addr_bytes_def using mask_part [OF k, of 0] mask_part [OF k, of 1] mask_part [OF k, of 2] mask_part [OF k, of 3] by simp
  then show ?thesis
    unfolding m if_P [OF False] htonl_bytes by (simp add: mask_bytes_def upt_rec)
qed

lemma masked_zero: "length a = n \<Longrightarrow> map2 (AND) a (mask_bytes n k) = a \<longleftrightarrow> list_all Not (drop k (net_bits a))"
proof (induction n arbitrary: a k)
  case 0
  then show ?case by (simp add: net_bits_def)
next
  case (Suc n)
  obtain x a' where a: "a = x # a'" "length a' = n" using Suc.prems by (metis length_Suc_conv)
  have "x AND mask_byte k = x \<longleftrightarrow> (\<forall>t < 8. \<not> 7 - t < k \<longrightarrow> \<not> bit x t)"
    by (auto simp: bit_eq_iff mask_byte_bit bit_simps byte_bit)
  also have "\<dots> \<longleftrightarrow> list_all Not (drop k (byte_bits x))"
    unfolding byte_eight byte_bits_def by (auto simp: drop_Cons')
  finally show ?case
    unfolding a(1) mask_bytes_Suc net_bits_Cons using Suc.IH [OF a(2), of "k - 8"] by simp
qed


text \<open>The loop of \<open>ngx_inet6_addr\<close> writes two bytes for each group that is counted.\<close>

definition i6_ok :: "nat \<Rightarrow> in6_state \<Rightarrow> bool" where
  "i6_ok m st \<longleftrightarrow> length (i6_addr st) + 2 * i6_n st = 16 \<and> m \<le> i6_n st \<and> (case i6_zero st of None \<Rightarrow> True | Some z \<Rightarrow> z \<le> length (i6_addr st))"

lemma i6_step_ok: "i6_ok 1 st \<Longrightarrow> (case i6_step st c p of I6_go st' \<Rightarrow> i6_ok 1 st' | I6_break st' \<Rightarrow> i6_ok 1 st' | I6_error \<Rightarrow> True)"
  unfolding i6_ok_def i6_step_def i6_colon_def i6_dot_def i6_nibble_def i6_write_def Let_def
  by (auto split: option.splits)

lemma inet6_loop_ok: "i6_ok 1 st \<Longrightarrow> inet6_loop st s = Some st' \<Longrightarrow> i6_ok 1 st'"
proof (induction s arbitrary: st)
  case (Cons c s)
  then show ?case using i6_step_ok [of st c s] by (auto split: i6_next.splits)
qed simp

lemma inet6_addr_16: "ngx_inet6_addr s = Some a \<Longrightarrow> length a = 16"
proof -
  assume s: "ngx_inet6_addr s = Some a"
  then have ne: "s \<noteq> []" by (auto simp: ngx_inet6_addr_def)
  obtain st where st: "inet6_loop (i6_at [] None None 8) (if hd s = ch CHR '':'' then tl s else s) = Some st" "i6_end st = Some a"
    using s unfolding inet6_addr_end [OF ne] bind_eq_Some_conv by blast
  have "i6_ok 1 st" by (rule inet6_loop_ok [OF _ st(1)]) (simp add: i6_ok_def i6_at_def)
  then show ?thesis
    using st(2) unfolding i6_ok_def i6_end_def i6_write_def Let_def by (auto split: if_splits option.splits)
qed

text \<open>The address of a socket address in network order.\<close>

fun sa_bytes :: "sockaddr \<Rightarrow> bytes" where
  "sa_bytes (Sin p w) = addr_bytes w"
| "sa_bytes (Sin6 p a) = a"
| "sa_bytes (Sun s) = []"

lemma parse_addr_cases:
  "ngx_parse_addr True t = (NGX_OK, Some net) \<Longrightarrow>
   (net = Sin 0 (ngx_inet_addr t) \<and> ngx_inet_addr t \<noteq> INADDR_NONE) \<or>
   (\<exists>a. net = Sin6 0 a \<and> ngx_inet_addr t = INADDR_NONE \<and> ngx_inet6_addr t = Some a \<and> length a = 16)"
  by (auto simp: ngx_parse_addr_def Let_def inet6_addr_16 split: if_splits option.splits)

lemma and_all:
  assumes "length b = length a" "length m = length a"
  shows "list_all (\<lambda>n. b ! n AND m ! n = a ! n) [0..<length a] \<longleftrightarrow> map2 (AND) b m = (a :: bytes)"
proof
  assume "list_all (\<lambda>n. b ! n AND m ! n = a ! n) [0..<length a]"
  then show "map2 (AND) b m = a" using assms by (intro nth_equalityI) (simp_all add: list_all_iff)
next
  assume e: "map2 (AND) b m = a"
  have "b ! n AND m ! n = map2 (AND) b m ! n" if "n < length a" for n using that assms by simp
  then show "list_all (\<lambda>n. b ! n AND m ! n = a ! n) [0..<length a]" unfolding e by (simp add: list_all_iff)
qed

lemma ptocidr_prefix:
  assumes slash: "ch CHR ''/'' \<notin> set t" and k: "ngx_atoi d = Some (int k)" and net: "ngx_parse_addr True t = (NGX_OK, Some net)"
    and le: "k \<le> 8 * length (sa_bytes net)"
  obtains rc c where "ngx_ptocidr (t @ ch CHR ''/'' # d) = (rc, Some c)"
    "rc = (if list_all Not (drop k (net_bits (sa_bytes net))) then NGX_OK else NGX_DONE)"
    "\<And>sa. (\<forall>p a. sa = Sin6 p a \<longrightarrow> length a = 16) \<Longrightarrow> cidr_matches sa c \<longleftrightarrow>
       sa_family sa = sa_family net \<and> take k (net_bits (sa_bytes sa)) = take k (net_bits (sa_bytes net))"
proof -
  note s = strlchr_first [OF slash, of d]
  show ?thesis
    using parse_addr_cases [OF net]
  proof (elim disjE exE conjE)
    assume n: "net = Sin 0 (ngx_inet_addr t)" "ngx_inet_addr t \<noteq> INADDR_NONE"
    define w where "w = ngx_inet_addr t"
    have k32: "k \<le> 32" using le n(1) by (simp add: addr_bytes_def)
    define m where "m = (if k \<noteq> 0 then htonl (push_bit (32 - k) 0xffffffff) else 0 :: 32 word)"
    have m: "addr_bytes m = mask_bytes 4 k" unfolding m_def by (rule mask4 [OF k32])
    have m': "(if int k \<noteq> 0 then htonl (push_bit (nat (32 - int k)) 0xffffffff) else 0) = m"
      unfolding m_def using k32 by (simp add: nat_diff_distrib')
    have l: "length (addr_bytes x) = 4" for x by (simp add: addr_bytes_def)
    have eq: "x AND m = y AND m \<longleftrightarrow> take k (net_bits (addr_bytes x)) = take k (net_bits (addr_bytes y))" for x y
    proof -
      have "x AND m = y AND m \<longleftrightarrow> addr_bytes (x AND m) = addr_bytes (y AND m)" using addr_bytes_inj [of "x AND m" "y AND m"] by auto
      then show ?thesis unfolding addr_bytes_and m using masked_bytes [OF l l] by simp
    qed
    have "w = w AND m \<longleftrightarrow> list_all Not (drop k (net_bits (addr_bytes w)))"
    proof -
      have "w = w AND m \<longleftrightarrow> addr_bytes (w AND m) = addr_bytes w" using addr_bytes_inj [of "w AND m" w] by auto
      then show ?thesis unfolding addr_bytes_and m using masked_zero [OF l] by simp
    qed
    then have "ngx_ptocidr (t @ ch CHR ''/'' # d) =
        (if list_all Not (drop k (net_bits (sa_bytes net))) then NGX_OK else NGX_DONE, Some (Cidr_in (w AND m) m))"
      using s n k k32 m' unfolding ngx_ptocidr_def by (simp add: w_def)
    moreover have "cidr_matches sa (Cidr_in (w AND m) m) \<longleftrightarrow> sa_family sa = sa_family net \<and> take k (net_bits (sa_bytes sa)) = take k (net_bits (sa_bytes net))" for sa
      using eq n(1) by (cases sa) (simp_all add: w_def)
    ultimately show ?thesis by (intro that) auto
  next
    fix a
    assume n: "net = Sin6 0 a" "ngx_inet_addr t = INADDR_NONE" "ngx_inet6_addr t = Some a" "length a = 16"
    have k128: "k \<le> 128" using le n by simp
    have lm: "length (mask_bytes 16 k) = 16" by (simp add: mask_bytes_def)
    have "ngx_ptocidr (t @ ch CHR ''/'' # d) =
        (if list_all Not (drop k (net_bits a)) then NGX_OK else NGX_DONE, Some (Cidr_in6 (map2 (AND) a (mask_bytes 16 k)) (mask_bytes 16 k)))"
      using s n k k128 masked_zero [OF n(4), of k] unfolding ngx_ptocidr_def by (simp add: cidr6_loop_eq)
    moreover have "cidr_matches sa (Cidr_in6 (map2 (AND) a (mask_bytes 16 k)) (mask_bytes 16 k)) \<longleftrightarrow>
        sa_family sa = sa_family net \<and> take k (net_bits (sa_bytes sa)) = take k (net_bits (sa_bytes net))"
      if "\<forall>p a. sa = Sin6 p a \<longrightarrow> length a = 16" for sa
      using that n masked_bytes [of _ 16 a k] and_all [of _ "map2 (AND) a (mask_bytes 16 k)" "mask_bytes 16 k"] lm by (cases sa) simp_all
    ultimately show ?thesis using n(1) by (intro that) auto
  qed
qed

text \<open>C15. A network in CIDR notation means its prefix: \<open>ngx_ptocidr\<close> accepts an address with a prefix length that is no
  longer than the address, says \<open>NGX_DONE\<close> when bits behind the prefix had to be cleared, and \<open>ngx_cidr_match\<close> then takes exactly the
  addresses of its family (a v4-mapped address counts as IPv4) that agree with it on the prefix.\<close>

theorem cidr_prefix:
  assumes "ch CHR ''/'' \<notin> set t" "ngx_atoi d = Some (int k)" "ngx_parse_addr True t = (NGX_OK, Some net)"
    "k \<le> 8 * length (sa_bytes net)" "sa = Sin6 p a \<and> length a = 16 \<or> sa = Sin p w"
  shows "(case ngx_ptocidr (t @ ch CHR ''/'' # d) of
    (rc, None) \<Rightarrow> False
  | (rc, Some c) \<Rightarrow>
      rc = (if list_all Not (drop k (net_bits (sa_bytes net))) then NGX_OK else NGX_DONE) \<and>
      (ngx_cidr_match sa [c] = NGX_OK) =
      (sa_family (match_addr sa) = sa_family net \<and> take k (net_bits (sa_bytes (match_addr sa))) = take k (net_bits (sa_bytes net))))"
proof -
  obtain rc c where rc: "ngx_ptocidr (t @ ch CHR ''/'' # d) = (rc, Some c)"
    "rc = (if list_all Not (drop k (net_bits (sa_bytes net))) then NGX_OK else NGX_DONE)"
    and m: "\<And>sa. (\<forall>p a. sa = Sin6 p a \<longrightarrow> length a = 16) \<Longrightarrow> cidr_matches sa c \<longleftrightarrow>
       sa_family sa = sa_family net \<and> take k (net_bits (sa_bytes sa)) = take k (net_bits (sa_bytes net))"
    using ptocidr_prefix [OF assms(1-4)] by blast
  have "\<forall>p a. match_addr sa = Sin6 p a \<longrightarrow> length a = 16"
    using assms(5) by (auto simp: match_addr_def split: if_splits)
  from m [OF this] show ?thesis unfolding rc by (simp add: ngx_cidr_match_def)
qed

lemma cidr_prefix_witness:
  "(case ngx_ptocidr (str ''10.1.0.0'' @ ch CHR ''/'' # str ''12'') of
    (rc, None) \<Rightarrow> False
  | (rc, Some c) \<Rightarrow>
      rc = (if list_all Not (drop 12 (net_bits (sa_bytes (Sin 0 0x0000010a)))) then NGX_OK else NGX_DONE) \<and>
      (ngx_cidr_match (Sin 0 0x04030f0a) [c] = NGX_OK) =
      (sa_family (match_addr (Sin 0 0x04030f0a)) = sa_family (Sin 0 0x0000010a) \<and>
       take 12 (net_bits (sa_bytes (match_addr (Sin 0 0x04030f0a)))) = take 12 (net_bits (sa_bytes (Sin 0 0x0000010a)))))"
proof (rule cidr_prefix [where a = "[]"])
  show "ch CHR ''/'' \<notin> set (str ''10.1.0.0'')" by simp
  show "ngx_atoi (str ''12'') = Some (int 12)" by code_simp
  show "ngx_parse_addr True (str ''10.1.0.0'') = (NGX_OK, Some (Sin 0 0x0000010a))" by code_simp
qed (simp_all add: addr_bytes_def)

end
