(* ===== verification/Ngx_Hash_Table.thy ===== *)
theory Ngx_Hash_Table
  imports Ngx_Hash
begin

section \<open>Hash tables\<close>

text \<open>
  \<open>ngx_hash_init\<close> and \<open>ngx_hash_find\<close> of \<open>src/core/ngx_hash.c\<close>: the tables of the configuration, built once and only
  read while the server runs. The elements of a bucket lie one behind the other in memory, which is modelled byte by
  byte: a cell is a character, or one of the bytes of a pointer or of a short. Reading what was not written as such is
  undefined, which is \<open>None\<close>; so is division by zero and a null pointer that is used.
\<close>

subsection \<open>Memory\<close>

datatype cell = Ptr "64 word" nat | Short "16 word" nat | Char byte

type_synonym memory = "nat \<Rightarrow> cell option"

definition mem_store :: "nat \<Rightarrow> cell list \<Rightarrow> memory \<Rightarrow> memory" where
  "mem_store a cs m = (\<lambda>x. if a \<le> x \<and> x < a + length cs then Some (cs ! (x - a)) else m x)"

definition ptr_cells :: "64 word \<Rightarrow> cell list" where
  "ptr_cells w = map (Ptr w) [0..<8]"

definition short_cells :: "16 word \<Rightarrow> cell list" where
  "short_cells w = map (Short w) [0..<2]"

definition mem_ptr :: "memory \<Rightarrow> nat \<Rightarrow> 64 word option" where
  "mem_ptr m a =
     (case m a of
        Some (Ptr w _) \<Rightarrow> if map m [a..<a + 8] = map Some (ptr_cells w) then Some w else None
      | _ \<Rightarrow> None)"

definition mem_short :: "memory \<Rightarrow> nat \<Rightarrow> 16 word option" where
  "mem_short m a =
     (case m a of
        Some (Short w _) \<Rightarrow> if map m [a..<a + 2] = map Some (short_cells w) then Some w else None
      | _ \<Rightarrow> None)"

text \<open>\<open>ngx_align\<close> and \<open>ngx_align_ptr\<close>, for the powers of two they are used with.\<close>

definition ngx_align :: "nat \<Rightarrow> nat \<Rightarrow> nat" where
  "ngx_align d a = (d + (a - 1)) div a * a"

subsection \<open>Finding\<close>

record ngx_hash_t =
  h_buckets :: "nat option list"
  h_size :: nat

text \<open>Whether the name in the element differs, compared up to the first difference.\<close>

fun name_differs :: "memory \<Rightarrow> nat \<Rightarrow> bytes \<Rightarrow> bool option" where
  "name_differs m a [] = Some False"
| "name_differs m a (c # name) =
     (case m a of Some (Char d) \<Rightarrow> if c \<noteq> d then Some True else name_differs m (Suc a) name | _ \<Rightarrow> None)"

text \<open>The outer option is for the undefined and for a loop without end, the inner one is \<open>NULL\<close>.\<close>

partial_function (option) hash_elts :: "memory \<Rightarrow> nat \<Rightarrow> bytes \<Rightarrow> 64 word option option" where
  "hash_elts m elt name =
     Option.bind (mem_ptr m elt) (\<lambda>v.
       if v = 0 then Some None
       else Option.bind (mem_short m (elt + 8)) (\<lambda>len.
         Option.bind (if length name \<noteq> unat len then Some True else name_differs m (elt + 10) name) (\<lambda>differs.
           if \<not> differs then Some (Some v)
           else hash_elts m (ngx_align (elt + 10 + unat len) 8) name)))"

definition ngx_hash_find :: "memory \<Rightarrow> ngx_hash_t \<Rightarrow> ngx_uint_t \<Rightarrow> bytes \<Rightarrow> 64 word option option" where
  "ngx_hash_find m hash key name =
     (if h_size hash = 0 then None
      else case h_buckets hash ! (unat key mod h_size hash) of
        None \<Rightarrow> Some None
      | Some elt \<Rightarrow> hash_elts m elt name)"

subsection \<open>Building\<close>

record ngx_hash_key_t =
  hk_key :: "bytes option"
  hk_hash :: ngx_uint_t
  hk_value :: "64 word"

definition NGX_HASH_ELT_SIZE :: "bytes \<Rightarrow> nat" where
  "NGX_HASH_ELT_SIZE key = 8 + ngx_align (length key + 2) 8"

text \<open>The pass over the names that adds their sizes up in \<open>test\<close>, an array of \<open>u_short\<close>; \<open>None\<close> is a sum above the limit.\<close>

fun hash_sizes :: "nat \<Rightarrow> nat \<Rightarrow> ngx_hash_key_t list \<Rightarrow> nat list \<Rightarrow> nat list option" where
  "hash_sizes sz limit [] test = Some test"
| "hash_sizes sz limit (n # names) test =
     (case hk_key n of
        None \<Rightarrow> hash_sizes sz limit names test
      | Some name \<Rightarrow>
          let key = unat (hk_hash n) mod sz;
              len = test ! key + NGX_HASH_ELT_SIZE name
          in if len > limit then None else hash_sizes sz limit names (test[key := len mod 65536]))"

function hash_size_search :: "nat \<Rightarrow> nat \<Rightarrow> nat \<Rightarrow> ngx_hash_key_t list \<Rightarrow> nat" where
  "hash_size_search sz max_size bucket_size names =
     (if sz \<le> max_size then
        (case hash_sizes sz bucket_size names (replicate sz 0) of
           Some _ \<Rightarrow> sz
         | None \<Rightarrow> hash_size_search (sz + 1) max_size bucket_size names)
      else max_size)"
  by pat_completeness auto
termination
  by (relation "measure (\<lambda>(sz, max_size, _, _). max_size + 1 - sz)") auto

declare hash_size_search.simps [simp del]

text \<open>The sizes rounded up to cache lines, their sum, and the address of each bucket; an empty one has none.\<close>

definition hash_align :: "nat \<Rightarrow> nat list \<Rightarrow> nat list" where
  "hash_align c test = map (\<lambda>t. if t = 8 then t else ngx_align t c mod 65536) test"

definition hash_len :: "nat list \<Rightarrow> nat" where
  "hash_len test = sum_list (map (\<lambda>t. if t = 8 then 0 else t) test)"

fun hash_place :: "nat \<Rightarrow> nat list \<Rightarrow> nat option list" where
  "hash_place elts [] = []"
| "hash_place elts (t # test) = (if t = 8 then None # hash_place elts test else Some elts # hash_place (elts + t) test)"

definition elt_cells :: "64 word \<Rightarrow> bytes \<Rightarrow> cell list" where
  "elt_cells v name = ptr_cells v @ short_cells (of_nat (length name)) @ map Char name"

fun hash_fill :: "nat \<Rightarrow> nat option list \<Rightarrow> ngx_hash_key_t list \<Rightarrow> nat list \<Rightarrow> memory \<Rightarrow> (nat list \<times> memory) option" where
  "hash_fill sz buckets [] test m = Some (test, m)"
| "hash_fill sz buckets (n # names) test m =
     (case hk_key n of
        None \<Rightarrow> hash_fill sz buckets names test m
      | Some name \<Rightarrow>
          let key = unat (hk_hash n) mod sz in
          case buckets ! key of
            None \<Rightarrow> None
          | Some b \<Rightarrow>
              hash_fill sz buckets names (test[key := (test ! key + NGX_HASH_ELT_SIZE name) mod 65536])
                (mem_store (b + test ! key) (elt_cells (hk_value n) (ngx_strlow name)) m))"

fun hash_end :: "nat option list \<Rightarrow> nat list \<Rightarrow> memory \<Rightarrow> memory" where
  "hash_end (Some b # buckets) (t # test) m = hash_end buckets test (mem_store (b + t) (ptr_cells 0) m)"
| "hash_end (None # buckets) (t # test) m = hash_end buckets test m"
| "hash_end _ _ m = m"

record ngx_hash_init_t =
  hi_max_size :: nat
  hi_bucket_size :: nat

text \<open>What the allocator gives: \<open>test\<close>, the buckets, and the address of the elements for the size asked.\<close>

record hash_memory =
  hm_test :: bool
  hm_buckets :: bool
  hm_elts :: "nat \<Rightarrow> nat option"

text \<open>\<open>hinit->bucket_size - sizeof(void *)\<close>, in \<open>ngx_uint_t\<close>.\<close>

definition hash_room :: "ngx_hash_init_t \<Rightarrow> nat" where
  "hash_room hinit = unat (of_nat (hi_bucket_size hinit) - 8 :: ngx_uint_t)"

definition hash_start :: "ngx_hash_init_t \<Rightarrow> nat \<Rightarrow> nat" where
  "hash_start hinit nelts =
     (let bucket_size = hash_room hinit;
          start = nelts div (bucket_size div 16);
          start = (if start \<noteq> 0 then start else 1)
      in if hi_max_size hinit > 10000 \<and> nelts \<noteq> 0 \<and> hi_max_size hinit div nelts < 100 then hi_max_size hinit - 1000 else start)"

definition ngx_hash_init :: "nat \<Rightarrow> hash_memory \<Rightarrow> ngx_hash_init_t \<Rightarrow> ngx_hash_key_t list \<Rightarrow> memory
    \<Rightarrow> (ngx_rc \<times> (ngx_hash_t \<times> memory) option) option" where
  "ngx_hash_init ngx_cacheline_size alloc hinit names m =
     (if hi_max_size hinit = 0 then Some (NGX_ERROR, None)
      else if hi_bucket_size hinit > 65536 - ngx_cacheline_size then Some (NGX_ERROR, None)
      else if list_ex (\<lambda>n. case hk_key n of None \<Rightarrow> False | Some name \<Rightarrow> hi_bucket_size hinit < NGX_HASH_ELT_SIZE name + 8) names
      then Some (NGX_ERROR, None)
      else if \<not> hm_test alloc then Some (NGX_ERROR, None)
      else if hash_room hinit div 16 = 0 then None
      else
        let sz = hash_size_search (hash_start hinit (length names)) (hi_max_size hinit) (hash_room hinit) names in
        case hash_sizes sz (65536 - ngx_cacheline_size) names (replicate sz 8) of
          None \<Rightarrow> Some (NGX_ERROR, None)
        | Some test \<Rightarrow>
            if \<not> hm_buckets alloc then Some (NGX_ERROR, None)
            else
              let test = hash_align ngx_cacheline_size test in
              case hm_elts alloc (hash_len test + ngx_cacheline_size) of
                None \<Rightarrow> Some (NGX_ERROR, None)
              | Some elts \<Rightarrow>
                  let buckets = hash_place (ngx_align elts ngx_cacheline_size) test
                  in map_option (\<lambda>(test, m). (NGX_OK, Some (\<lparr>h_buckets = buckets, h_size = sz\<rparr>, hash_end buckets test m)))
                       (hash_fill sz buckets names (replicate sz 0) m))"


subsection \<open>What is stored is read\<close>

definition holds :: "memory \<Rightarrow> nat \<Rightarrow> cell list \<Rightarrow> bool" where
  "holds m a cs \<longleftrightarrow> (\<forall>i < length cs. m (a + i) = Some (cs ! i))"

lemma cells_length [simp]: "length (ptr_cells w) = 8" "length (short_cells h) = 2"
  by (simp_all add: ptr_cells_def short_cells_def)

lemma holds_store: "holds (mem_store a cs m) a cs"
  by (simp add: holds_def mem_store_def)

lemma store_other: "x < a \<or> a + length cs \<le> x \<Longrightarrow> mem_store a cs m x = m x"
  by (auto simp: mem_store_def)

lemma holds_same: "(\<And>x. a \<le> x \<Longrightarrow> x < a + length cs \<Longrightarrow> m' x = m x) \<Longrightarrow> holds m a cs \<Longrightarrow> holds m' a cs"
  by (auto simp: holds_def)

lemma holds_append: "holds m a (xs @ ys) \<longleftrightarrow> holds m a xs \<and> holds m (a + length xs) ys"
proof
  assume h: "holds m a (xs @ ys)"
  have "m (a + length xs + i) = Some (ys ! i)" if "i < length ys" for i
    using h that unfolding holds_def by (metis add.assoc length_append nat_add_left_cancel_less nth_append_length_plus)
  then show "holds m a xs \<and> holds m (a + length xs) ys" using h by (auto simp: holds_def nth_append)
next
  assume h: "holds m a xs \<and> holds m (a + length xs) ys"
  show "holds m a (xs @ ys)"
    unfolding holds_def
  proof (intro allI impI)
    fix i
    assume "i < length (xs @ ys)"
    then show "m (a + i) = Some ((xs @ ys) ! i)"
      using h by (cases "i < length xs") (auto simp: holds_def nth_append dest: spec [of _ "i - length xs"])
  qed
qed

lemma holds_map: "holds m a cs \<Longrightarrow> map m [a..<a + length cs] = map Some cs"
  by (rule nth_equalityI) (simp_all add: holds_def)

lemma mem_ptr_holds: "holds m a (ptr_cells w) \<Longrightarrow> mem_ptr m a = Some w"
  using holds_map [of m a "ptr_cells w"] unfolding holds_def mem_ptr_def by (auto simp: ptr_cells_def dest: spec [of _ 0])

lemma mem_short_holds: "holds m a (short_cells w) \<Longrightarrow> mem_short m a = Some w"
  using holds_map [of m a "short_cells w"] unfolding holds_def mem_short_def by (auto simp: short_cells_def dest: spec [of _ 0])

lemma name_differs_holds: "holds m a (map Char t) \<Longrightarrow> length s = length t \<Longrightarrow> name_differs m a s = Some (s \<noteq> t)"
proof (induction s arbitrary: a t)
  case (Cons c s)
  obtain d t' where t: "t = d # t'" "length s = length t'" using Cons.prems(2) by (cases t) auto
  have "m a = Some (Char d)" using Cons.prems(1) unfolding t holds_def by (auto dest: spec [of _ 0])
  moreover have "holds m (Suc a) (map Char t')" using Cons.prems(1) holds_append [of m a "[Char d]" "map Char t'"] unfolding t by simp
  ultimately show ?case using Cons.IH [of "Suc a" t'] t by auto
qed simp

subsection \<open>Elements of a bucket\<close>

lemma elt_size: "10 + length s \<le> NGX_HASH_ELT_SIZE s" "8 dvd NGX_HASH_ELT_SIZE s"
  unfolding NGX_HASH_ELT_SIZE_def ngx_align_def by auto

lemma elt_cells_length [simp]: "length (elt_cells v s) = 10 + length s"
  by (simp add: elt_cells_def)

lemma next_elt:
  assumes "8 dvd a"
  shows "ngx_align (a + 10 + length s) 8 = a + NGX_HASH_ELT_SIZE s"
proof -
  obtain q where a: "a = 8 * q" using assms by (auto elim: dvdE)
  have "(8 * q + 10 + length s + (8 - 1)) div 8 = q + 1 + (length s + 2 + (8 - 1)) div 8" by presburger
  then show ?thesis unfolding a NGX_HASH_ELT_SIZE_def ngx_align_def by (simp add: algebra_simps)
qed

definition elts_size :: "(64 word \<times> bytes) list \<Rightarrow> nat" where
  "elts_size es = sum_list (map (\<lambda>e. NGX_HASH_ELT_SIZE (snd e)) es)"

lemma elts_size_simps [simp]:
  "elts_size [] = 0" "elts_size (e # es) = NGX_HASH_ELT_SIZE (snd e) + elts_size es"
  "elts_size (es @ fs) = elts_size es + elts_size fs"
  by (simp_all add: elts_size_def)

fun chunk :: "memory \<Rightarrow> nat \<Rightarrow> (64 word \<times> bytes) list \<Rightarrow> bool" where
  "chunk m a [] = True"
| "chunk m a (e # es) = (holds m a (elt_cells (fst e) (snd e)) \<and> chunk m (a + NGX_HASH_ELT_SIZE (snd e)) es)"

lemma chunk_append: "chunk m a (xs @ ys) \<longleftrightarrow> chunk m a xs \<and> chunk m (a + elts_size xs) ys"
  by (induction xs arbitrary: a) (auto simp: add.assoc)

lemma chunk_same: "(\<And>x. a \<le> x \<Longrightarrow> x < a + elts_size es \<Longrightarrow> m' x = m x) \<Longrightarrow> chunk m a es \<Longrightarrow> chunk m' a es"
proof (induction es arbitrary: a)
  case (Cons e es)
  have "holds m' a (elt_cells (fst e) (snd e))"
    using Cons.prems elt_size(1) [of "snd e"] by (intro holds_same [of _ _ m' m]) auto
  moreover have "chunk m' (a + NGX_HASH_ELT_SIZE (snd e)) es"
    using Cons.prems by (intro Cons.IH) auto
  ultimately show ?case by simp
qed simp

lemma hash_elts_chunk:
  "8 dvd a \<Longrightarrow> chunk m a es \<Longrightarrow> mem_ptr m (a + elts_size es) = Some 0 \<Longrightarrow>
   list_all (\<lambda>e. fst e \<noteq> 0 \<and> length (snd e) < 65536) es \<Longrightarrow>
   hash_elts m a name = Some (map_option fst (find (\<lambda>e. snd e = name) es))"
proof (induction es arbitrary: a)
  case Nil
  then show ?case by (subst hash_elts.simps) simp
next
  case (Cons e es)
  obtain v s where e: "e = (v, s)" by (cases e)
  have h: "holds m a (ptr_cells v)" "holds m (a + 8) (short_cells (of_nat (length s)))" "holds m (a + 10) (map Char s)"
    using Cons.prems(2) unfolding e by (simp_all add: elt_cells_def holds_append ac_simps)
  have l: "unat (of_nat (length s) :: 16 word) = length s"
    using Cons.prems(4) unfolding e by (simp add: unsigned_of_nat take_bit_nat_eq_self)
  have d: "(if length name \<noteq> length s then Some True else name_differs m (a + 10) name) = Some (name \<noteq> s)"
    using name_differs_holds [OF h(3), of name] by auto
  have r: "hash_elts m (a + NGX_HASH_ELT_SIZE s) name = Some (map_option fst (find (\<lambda>e. snd e = name) es))"
    using Cons.prems elt_size(2) [of s] unfolding e by (intro Cons.IH) (simp_all add: add.assoc)
  have v: "v \<noteq> 0" using Cons.prems(4) unfolding e by simp
  show ?case
    by (subst hash_elts.simps) (use r v in \<open>auto simp: mem_ptr_holds [OF h(1)] mem_short_holds [OF h(2)] l d next_elt [OF Cons.prems(1)] e\<close>)
qed


subsection \<open>The elements of each bucket\<close>

fun bucket_elts :: "nat \<Rightarrow> nat \<Rightarrow> ngx_hash_key_t list \<Rightarrow> (64 word \<times> bytes) list" where
  "bucket_elts sz i [] = []"
| "bucket_elts sz i (n # names) =
     (case hk_key n of
        None \<Rightarrow> bucket_elts sz i names
      | Some name \<Rightarrow>
          if unat (hk_hash n) mod sz = i then (hk_value n, ngx_strlow name) # bucket_elts sz i names
          else bucket_elts sz i names)"

lemma bucket_elts_append: "bucket_elts sz i (xs @ ys) = bucket_elts sz i xs @ bucket_elts sz i ys"
  by (induction xs) (simp_all split: option.split)

lemma strlow_size [simp]: "NGX_HASH_ELT_SIZE (ngx_strlow s) = NGX_HASH_ELT_SIZE s"
proof -
  have "length (ngx_strlow s) = length s" by (induction s) simp_all
  then show ?thesis by (simp add: NGX_HASH_ELT_SIZE_def)
qed

lemma hash_sizes_sum:
  assumes "hash_sizes sz limit names test = Some test'" "limit < 65536" "length test = sz" "0 < sz"
    and "\<forall>i < sz. test ! i \<le> limit"
  shows "length test' = sz \<and> (\<forall>i < sz. test' ! i = test ! i + elts_size (bucket_elts sz i names) \<and> test' ! i \<le> limit)"
  using assms
proof (induction names arbitrary: test)
  case (Cons n names)
  show ?case
  proof (cases "hk_key n")
    case None
    then show ?thesis using Cons.IH [of test] Cons.prems by auto
  next
    case (Some name)
    define key where "key = unat (hk_hash n) mod sz"
    define len where "len = test ! key + NGX_HASH_ELT_SIZE name"
    have key: "key < sz" using Cons.prems(4) unfolding key_def by simp
    have l: "len \<le> limit" and r: "hash_sizes sz limit names (test[key := len]) = Some test'"
      using Cons.prems(1,2) Some unfolding key_def [symmetric]
      by (auto simp: Let_def key_def [symmetric] len_def [symmetric] split: if_splits)
    have "length test' = sz \<and> (\<forall>i < sz. test' ! i = test[key := len] ! i + elts_size (bucket_elts sz i names) \<and> test' ! i \<le> limit)"
      using Cons.prems(2-5) l key by (intro Cons.IH [OF r]) (auto simp: nth_list_update)
    then show ?thesis
      using Some key Cons.prems(3) by (auto simp: nth_list_update len_def key_def [symmetric])
  qed
qed simp

lemma hash_size_search_range: "0 < sz \<Longrightarrow> 0 < max_size \<Longrightarrow> hash_size_search sz max_size bucket_size names \<in> {1..max_size}"
proof (induction sz max_size bucket_size names rule: hash_size_search.induct)
  case (1 sz max_size bucket_size names)
  then show ?case by (subst hash_size_search.simps) (auto split: option.split)
qed

lemma hash_start_pos: "0 < hash_start hinit nelts"
  by (simp add: hash_start_def Let_def)

subsection \<open>The place of each bucket\<close>

text \<open>A layout: the buckets lie in order, each in the space \<open>T\<close> gives it, between \<open>a\<close> and \<open>e\<close>.\<close>

fun layout :: "nat \<Rightarrow> nat \<Rightarrow> nat option list \<Rightarrow> nat list \<Rightarrow> bool" where
  "layout a e [] [] = (a \<le> e)"
| "layout a e (None # bs) (t # ts) = layout a e bs ts"
| "layout a e (Some b # bs) (t # ts) = (a \<le> b \<and> 8 dvd b \<and> layout (b + t) e bs ts)"
| "layout a e _ _ = False"

lemma layout_length: "layout a e bs ts \<Longrightarrow> length bs = length ts"
  by (induction a e bs ts rule: layout.induct) simp_all

lemma layout_bounds: "layout a e bs ts \<Longrightarrow> a \<le> e"
  by (induction a e bs ts rule: layout.induct) simp_all

lemma layout_nth: "layout a e bs ts \<Longrightarrow> i < length bs \<Longrightarrow> bs ! i = Some b \<Longrightarrow> a \<le> b \<and> b + ts ! i \<le> e \<and> 8 dvd b"
proof (induction a e bs ts arbitrary: i rule: layout.induct)
  case (2 a e bs t ts)
  then show ?case by (cases i) auto
next
  case (3 a e c bs t ts)
  then show ?case using layout_bounds [of "c + t" e bs ts] by (cases i) force+
qed simp_all

lemma layout_disjoint:
  "layout a e bs ts \<Longrightarrow> i < j \<Longrightarrow> j < length bs \<Longrightarrow> bs ! i = Some b \<Longrightarrow> bs ! j = Some c \<Longrightarrow> b + ts ! i \<le> c"
proof (induction a e bs ts arbitrary: i j rule: layout.induct)
  case (2 a e bs t ts)
  then show ?case by (cases i; cases j) auto
next
  case (3 a e d bs t ts)
  then show ?case using layout_nth [of "d + t" e bs ts "j - 1" c] by (cases i; cases j) auto
qed simp_all

lemma hash_place_layout:
  "8 dvd a \<Longrightarrow> list_all (\<lambda>t. 8 dvd t) ts \<Longrightarrow> layout a (a + hash_len ts) (hash_place a ts) ts"
proof (induction ts arbitrary: a)
  case Nil
  then show ?case by (simp add: hash_len_def)
next
  case (Cons t ts)
  then show ?case using Cons.IH [of a] Cons.IH [of "a + t"] by (auto simp: hash_len_def add.assoc)
qed

lemma hash_place_nth: "i < length ts \<Longrightarrow> (hash_place a ts ! i = None) \<longleftrightarrow> ts ! i = 8"
proof (induction ts arbitrary: a i)
  case (Cons t ts)
  then show ?case by (cases i) auto
qed simp

lemma align_bounds:
  assumes "0 < c"
  shows "t \<le> ngx_align t c" "ngx_align t c < t + c" "c dvd ngx_align t c"
proof -
  have "(t + (c - 1)) div c * c + (t + (c - 1)) mod c = t + (c - 1)" "(t + (c - 1)) mod c < c"
    using assms by simp_all
  then show "t \<le> ngx_align t c" "ngx_align t c < t + c" unfolding ngx_align_def using assms by linarith+
  show "c dvd ngx_align t c" by (simp add: ngx_align_def)
qed


subsection \<open>Filling the buckets\<close>

text \<open>The names \<open>done\<close> so far lie in their buckets, and \<open>test\<close> counts the bytes they take there.\<close>

definition filled :: "nat \<Rightarrow> nat option list \<Rightarrow> ngx_hash_key_t list \<Rightarrow> nat list \<Rightarrow> memory \<Rightarrow> bool" where
  "filled sz bs ns test m \<longleftrightarrow>
     length test = sz \<and>
     (\<forall>i < sz. test ! i = elts_size (bucket_elts sz i ns) \<and> (\<forall>b. bs ! i = Some b \<longrightarrow> chunk m b (bucket_elts sz i ns)))"

text \<open>There is room for all of them, and for the null pointer behind them.\<close>

definition roomy :: "nat \<Rightarrow> nat option list \<Rightarrow> nat list \<Rightarrow> ngx_hash_key_t list \<Rightarrow> bool" where
  "roomy sz bs ts ns \<longleftrightarrow>
     length ts = sz \<and>
     (\<forall>i < sz. (bucket_elts sz i ns = [] \<longleftrightarrow> bs ! i = None) \<and>
       (bs ! i \<noteq> None \<longrightarrow> elts_size (bucket_elts sz i ns) + 8 \<le> ts ! i \<and> ts ! i < 65536))"

lemma roomyD:
  assumes "roomy sz bs ts ns" "i < sz" "bs ! i = Some b"
  shows "elts_size (bucket_elts sz i ns) + 8 \<le> ts ! i" "ts ! i < 65536"
  using assms by (auto simp: roomy_def)

lemma fill_step:
  assumes l: "layout a e bs ts" and r: "roomy sz bs ts (ns @ n # names)" and f: "filled sz bs ns test m"
    and n: "hk_key n = Some name" and k: "k = unat (hk_hash n) mod sz" "0 < sz" and b: "bs ! k = Some b"
  shows "filled sz bs (ns @ [n]) (test[k := (test ! k + NGX_HASH_ELT_SIZE name) mod 65536])
      (mem_store (b + test ! k) (elt_cells (hk_value n) (ngx_strlow name)) m)"
    and "a \<le> b + test ! k \<and> b + test ! k + (10 + length (ngx_strlow name)) \<le> e"
proof -
  define cs where "cs = elt_cells (hk_value n) (ngx_strlow name)"
  have ks: "k < sz" using k by simp
  have lb: "length bs = sz" using layout_length [OF l] r by (simp add: roomy_def)
  have t: "test ! k = elts_size (bucket_elts sz k ns)" and lt: "length test = sz" using f ks by (auto simp: filled_def)
  have es: "bucket_elts sz k (ns @ n # names) = bucket_elts sz k ns @ (hk_value n, ngx_strlow name) # bucket_elts sz k names"
    using n k by (simp add: bucket_elts_append)
  have sz: "test ! k + NGX_HASH_ELT_SIZE name + 8 \<le> ts ! k" "ts ! k < 65536"
    using roomyD [OF r ks b] unfolding es t by simp_all
  have c: "length cs \<le> NGX_HASH_ELT_SIZE name" using elt_size(1) [of "ngx_strlow name"] by (simp add: cs_def)
  have nb: "a \<le> b" "b + ts ! k \<le> e" using layout_nth [OF l _ b] ks lb by auto
  show "a \<le> b + test ! k \<and> b + test ! k + (10 + length (ngx_strlow name)) \<le> e"
    using nb sz c by (simp add: cs_def)
  have "chunk (mem_store (b + test ! k) cs m) d (bucket_elts sz i (ns @ [n]))" if i: "i < sz" "bs ! i = Some d" for i d
  proof (cases "i = k")
    case True
    have d: "d = b" using True i b by simp
    have "chunk m b (bucket_elts sz k ns)" using f ks b by (auto simp: filled_def)
    then have "chunk (mem_store (b + test ! k) cs m) b (bucket_elts sz k ns)"
      by (rule chunk_same [rotated]) (simp add: store_other t)
    moreover have "holds (mem_store (b + test ! k) cs m) (b + test ! k) cs" by (rule holds_store)
    ultimately show ?thesis
      using n unfolding True d by (simp add: bucket_elts_append chunk_append t [symmetric] k(1) [symmetric] cs_def)
  next
    case False
    have "bucket_elts sz i (ns @ [n]) = bucket_elts sz i ns" using n False k by (simp add: bucket_elts_append)
    moreover have "d + ts ! i \<le> b \<or> b + ts ! k \<le> d"
      using layout_disjoint [OF l, of i k d b] layout_disjoint [OF l, of k i b d] i b ks lb False by (cases "i < k") auto
    moreover have "elts_size (bucket_elts sz i ns) \<le> ts ! i"
      using roomyD(1) [OF r i] by (simp add: bucket_elts_append)
    moreover have "chunk m d (bucket_elts sz i ns)" using f i by (auto simp: filled_def)
    ultimately show ?thesis
      using sz c by (auto intro!: chunk_same [of d _ "mem_store (b + test ! k) cs m" m] store_other)
  qed
  moreover have "test[k := (test ! k + NGX_HASH_ELT_SIZE name) mod 65536] ! i = elts_size (bucket_elts sz i (ns @ [n]))" if "i < sz" for i
    using f n k sz lt that by (auto simp: filled_def nth_list_update bucket_elts_append)
  ultimately show "filled sz bs (ns @ [n]) (test[k := (test ! k + NGX_HASH_ELT_SIZE name) mod 65536])
      (mem_store (b + test ! k) (elt_cells (hk_value n) (ngx_strlow name)) m)"
    using lt unfolding filled_def cs_def [symmetric] by auto
qed

lemma hash_fill_filled:
  assumes "layout a e bs ts" "roomy sz bs ts (ns @ names)" "filled sz bs ns test m" "0 < sz"
  shows "\<exists>test' m'. hash_fill sz bs names test m = Some (test', m') \<and> filled sz bs (ns @ names) test' m' \<and>
    (\<forall>x. x < a \<or> e \<le> x \<longrightarrow> m' x = m x)"
  using assms
proof (induction names arbitrary: ns test m)
  case (Cons n names)
  show ?case
  proof (cases "hk_key n")
    case None
    have "filled sz bs (ns @ [n]) test m" using Cons.prems(3) None by (simp add: filled_def bucket_elts_append)
    then show ?thesis using Cons.IH [of "ns @ [n]" test m] Cons.prems None by simp
  next
    case (Some name)
    define k where "k = unat (hk_hash n) mod sz"
    have ks: "k < sz" using Cons.prems(4) by (simp add: k_def)
    have "bucket_elts sz k (ns @ n # names) \<noteq> []" using Some by (simp add: bucket_elts_append k_def)
    then obtain b where b: "bs ! k = Some b" using Cons.prems(2) ks unfolding roomy_def by (meson not_None_eq)
    note st = fill_step [OF Cons.prems(1,2,3) Some k_def Cons.prems(4) b]
    define m1 where "m1 = mem_store (b + test ! k) (elt_cells (hk_value n) (ngx_strlow name)) m"
    define t1 where "t1 = test[k := (test ! k + NGX_HASH_ELT_SIZE name) mod 65536]"
    have o: "m1 x = m x" if "x < a \<or> e \<le> x" for x
      unfolding m1_def using st(2) that by (intro store_other) auto
    have "\<exists>test' m'. hash_fill sz bs names t1 m1 = Some (test', m') \<and> filled sz bs ((ns @ [n]) @ names) test' m' \<and>
        (\<forall>x. x < a \<or> e \<le> x \<longrightarrow> m' x = m1 x)"
      using st(1) Cons.prems(1,2,4) unfolding m1_def [symmetric] t1_def [symmetric] by (intro Cons.IH) simp_all
    then show ?thesis
      using Some b o by (auto simp: k_def [symmetric] m1_def [symmetric] t1_def [symmetric] Let_def)
  qed
qed simp


subsection \<open>The ends of the buckets\<close>

lemma hash_end_other:
  "length bs = length test \<Longrightarrow>
   (\<And>i b. i < length bs \<Longrightarrow> bs ! i = Some b \<Longrightarrow> x < b + test ! i \<or> b + test ! i + 8 \<le> x) \<Longrightarrow>
   hash_end bs test m x = m x"
proof (induction bs test m rule: hash_end.induct)
  case (1 b bs t test m)
  have "hash_end bs test (mem_store (b + t) (ptr_cells 0) m) x = mem_store (b + t) (ptr_cells 0) m x"
    using 1(2) 1(3) [of "Suc _"] by (intro 1(1)) auto
  moreover have "x < b + t \<or> b + t + 8 \<le> x" using 1(3) [of 0 b] by simp
  ultimately show ?case by (simp add: store_other)
next
  case (2 bs t test m)
  then show ?case using 2(3) [of "Suc _"] by auto
qed simp_all

lemma hash_end_holds:
  "layout a e bs ts \<Longrightarrow> length test = length bs \<Longrightarrow>
   (\<And>i b. i < length bs \<Longrightarrow> bs ! i = Some b \<Longrightarrow> test ! i + 8 \<le> ts ! i) \<Longrightarrow>
   i < length bs \<Longrightarrow> bs ! i = Some b \<Longrightarrow> holds (hash_end bs test m) (b + test ! i) (ptr_cells 0)"
proof (induction a e bs ts arbitrary: test m i rule: layout.induct)
  case (2 a e bs t ts)
  obtain t' test' where test: "test = t' # test'" using 2(3) by (cases test) auto
  obtain j where i: "i = Suc j" using 2(6) by (cases i) auto
  show ?case
    using 2(2,3,5,6) 2(4) [of "Suc _"] unfolding test i by (auto intro!: 2(1))
next
  case (3 a e c bs t ts)
  obtain t' test' where test: "test = t' # test'" using 3(3) by (cases test) auto
  have lay: "layout (c + t) e bs ts" "length bs = length test'" and room: "t' + 8 \<le> t"
    using 3(2,3) 3(4) [of 0] by (simp_all add: test)
  show ?case
  proof (cases i)
    case 0
    have "hash_end bs test' (mem_store (c + t') (ptr_cells 0) m) x = mem_store (c + t') (ptr_cells 0) m x"
      if "x < c + t' + 8" for x
      using that room layout_nth [OF lay(1)] by (intro hash_end_other [OF lay(2)]) fastforce
    then have "holds (hash_end bs test' (mem_store (c + t') (ptr_cells 0) m)) (c + t') (ptr_cells 0)"
      by (intro holds_same [OF _ holds_store]) simp
    then show ?thesis using 3(6) by (simp add: 0 test)
  next
    case (Suc j)
    have "test' ! k + 8 \<le> ts ! k" if "k < length bs" "bs ! k = Some d" for k d
      using 3(4) [of "Suc k" d] that by (simp add: test)
    then have "holds (hash_end bs test' (mem_store (c + t') (ptr_cells 0) m)) (b + test' ! j) (ptr_cells 0)"
      using 3(5,6) lay by (intro 3(1)) (simp_all add: Suc)
    then show ?thesis by (simp add: test Suc)
  qed
qed simp_all

lemma filled_ends:
  assumes l: "layout a e bs ts" and r: "roomy sz bs ts ns" and f: "filled sz bs ns test m"
    and i: "i < sz" "bs ! i = Some b"
  shows "chunk (hash_end bs test m) b (bucket_elts sz i ns)"
    and "holds (hash_end bs test m) (b + elts_size (bucket_elts sz i ns)) (ptr_cells 0)"
proof -
  have lb: "length bs = sz" "length test = sz" using layout_length [OF l] r f by (simp_all add: roomy_def filled_def)
  have t: "test ! j = elts_size (bucket_elts sz j ns)" if "j < sz" for j using f that by (simp add: filled_def)
  have r8: "test ! j + 8 \<le> ts ! j" if "j < sz" "bs ! j = Some d" for j d using roomyD(1) [OF r that] t [OF that(1)] by simp
  have "hash_end bs test m x = m x" if x: "b \<le> x" "x < b + elts_size (bucket_elts sz i ns)" for x
  proof (rule hash_end_other)
    fix j d
    assume j: "j < length bs" "bs ! j = Some d"
    consider "j = i" | "j < i" | "i < j" by linarith
    then show "x < d + test ! j \<or> d + test ! j + 8 \<le> x"
    proof cases
      case 1
      then show ?thesis using x i j t by auto
    next
      case 2
      then show ?thesis using layout_disjoint [OF l 2 _ j(2) i(2)] r8 [of j d] j i lb x by auto
    next
      case 3
      then show ?thesis using layout_disjoint [OF l 3 j(1) i(2) j(2)] r8 [OF i] t [OF i(1)] x by auto
    qed
  qed (use lb in simp)
  moreover have "chunk m b (bucket_elts sz i ns)" using f i by (auto simp: filled_def)
  ultimately show "chunk (hash_end bs test m) b (bucket_elts sz i ns)" by (rule chunk_same)
  show "holds (hash_end bs test m) (b + elts_size (bucket_elts sz i ns)) (ptr_cells 0)"
    using hash_end_holds [OF l, of test i b m] r8 lb i t by auto
qed

text \<open>The writes stay between the ends of the layout.\<close>

lemma hash_end_outside:
  assumes "layout a e bs ts" "roomy sz bs ts ns" "filled sz bs ns test m" "x < a \<or> e \<le> x"
  shows "hash_end bs test m x = m x"
proof (rule hash_end_other)
  have lb: "length bs = sz" "length test = sz" using layout_length [OF assms(1)] assms(2,3) by (simp_all add: roomy_def filled_def)
  show "length bs = length test" using lb by simp
  fix j d
  assume j: "j < length bs" "bs ! j = Some d"
  have "a \<le> d" "d + ts ! j \<le> e" using layout_nth [OF assms(1) j] by auto
  moreover have "test ! j + 8 \<le> ts ! j" using roomyD(1) [OF assms(2) _ j(2)] assms(3) j lb by (simp add: filled_def)
  ultimately show "x < d + test ! j \<or> d + test ! j + 8 \<le> x" using assms(4) by linarith
qed

lemma bucket_find:
  assumes "unat key mod sz = i"
    and "list_all (\<lambda>n. \<forall>s. hk_key n = Some s \<longrightarrow> hk_hash n = ngx_hash_key_lc s) names" "key = ngx_hash_key name"
  shows "map_option fst (find (\<lambda>e. snd e = name) (bucket_elts sz i names)) =
    map_option hk_value (find (\<lambda>n. map_option ngx_strlow (hk_key n) = Some name) names)"
  using assms(2)
proof (induction names)
  case (Cons n names)
  have *: "hk_key n = Some s \<Longrightarrow> ngx_strlow s = name \<Longrightarrow> unat (hk_hash n) mod sz = i" for s
    using Cons.prems assms(1,3) by (auto simp: hash_key_lc)
  show ?case using Cons * by (auto split: option.split)
qed simp


lemma bucket_all:
  "list_all (\<lambda>n. \<forall>s. hk_key n = Some s \<longrightarrow> P (hk_value n) (ngx_strlow s)) names \<Longrightarrow> list_all (\<lambda>e. P (fst e) (snd e)) (bucket_elts sz i names)"
  by (induction names) (auto split: option.split)

lemma elts_length: "elts_size es < 65536 \<Longrightarrow> list_all (\<lambda>e. length (snd e) < 65536) es"
proof (induction es)
  case (Cons e es)
  then show ?case using elt_size(1) [of "snd e"] by simp
qed simp

subsection \<open>Tables\<close>

text \<open>The size of a cache line is a power of two.\<close>

definition cacheline_ok :: "nat \<Rightarrow> bool" where
  "cacheline_ok c \<longleftrightarrow> (\<exists>k. 3 \<le> k \<and> k \<le> 15 \<and> c = 2 ^ k)"

lemma cacheline: "cacheline_ok c \<Longrightarrow> 8 dvd c \<and> 8 \<le> c \<and> c \<le> 32768"
proof -
  assume "cacheline_ok c"
  then obtain k where k: "3 \<le> k" "k \<le> 15" "c = 2 ^ k" by (auto simp: cacheline_ok_def)
  have "(2::nat) ^ 3 dvd 2 ^ k" using k by (intro le_imp_power_dvd) simp
  moreover have "(2::nat) ^ k \<le> 2 ^ 15" using k by (intro power_increasing) simp_all
  ultimately show ?thesis using k by (auto dest: dvd_imp_le)
qed

text \<open>The table that the sizes of the buckets give.\<close>

lemma hash_layout:
  assumes c: "cacheline_ok c" and sz: "0 < sz" and s: "hash_sizes sz (65536 - c) names (replicate sz 8) = Some test0"
    and test: "test = hash_align c test0"
    and a: "8 dvd a"
  shows "layout a (a + hash_len test) (hash_place a test) test \<and> roomy sz (hash_place a test) test names"
proof -
  note cl = cacheline [OF c]
  have "8 \<le> 65536 - c" "65536 - c < 65536" using cl by linarith+
  then have "length test0 = sz \<and> (\<forall>i < sz. test0 ! i = replicate sz 8 ! i + elts_size (bucket_elts sz i names) \<and> test0 ! i \<le> 65536 - c)"
    using sz by (intro hash_sizes_sum [OF s]) simp_all
  then have sum: "length test0 = sz" "\<And>i. i < sz \<Longrightarrow> test0 ! i = 8 + elts_size (bucket_elts sz i names) \<and> test0 ! i \<le> 65536 - c"
    by auto
  have t: "8 \<le> test ! i \<and> 8 dvd test ! i \<and> test0 ! i \<le> test ! i \<and> test ! i < 65536 \<and> (test ! i = 8 \<longleftrightarrow> test0 ! i = 8)" if i: "i < sz" for i
  proof (cases "test0 ! i = 8")
    case True
    then show ?thesis using i sum by (simp add: test hash_align_def)
  next
    case False
    have b: "test0 ! i \<le> ngx_align (test0 ! i) c" "ngx_align (test0 ! i) c < test0 ! i + c" "c dvd ngx_align (test0 ! i) c"
      using align_bounds [of c "test0 ! i"] cl by simp_all
    have "ngx_align (test0 ! i) c < 65536" using b(2) sum(2) [OF i] cl by linarith
    moreover have "8 dvd ngx_align (test0 ! i) c" using b(3) cl dvd_trans by blast
    ultimately show ?thesis using i False b sum by (auto simp: test hash_align_def)
  qed
  have len: "length test = sz" using sum(1) by (simp add: test hash_align_def)
  have "list_all (\<lambda>t. 8 dvd t) test" using t len by (simp add: list_all_length)
  then have lay: "layout a (a + hash_len test) (hash_place a test) test" using hash_place_layout [OF a] by simp
  have empty: "bucket_elts sz i names = [] \<longleftrightarrow> test0 ! i = 8" if "i < sz" for i
  proof (cases "bucket_elts sz i names")
    case (Cons e es)
    then show ?thesis using sum(2) [OF that] elt_size(1) [of "snd e"] by simp
  qed (use sum(2) [OF that] in simp)
  have "roomy sz (hash_place a test) test names"
    unfolding roomy_def using len t empty sum(2) hash_place_nth [of _ test a] by (auto simp: add.commute)
  then show ?thesis using lay by simp
qed

lemma filled_empty: "filled sz bs [] (replicate sz 0) m"
  by (simp add: filled_def)

definition hash_ok :: "ngx_hash_init_t \<Rightarrow> nat \<Rightarrow> ngx_hash_key_t list \<Rightarrow> bool" where
  "hash_ok hinit c names \<longleftrightarrow>
     hi_max_size hinit \<noteq> 0 \<and> hi_bucket_size hinit \<le> 65536 - c \<and>
     \<not> list_ex (\<lambda>n. case hk_key n of None \<Rightarrow> False | Some name \<Rightarrow> hi_bucket_size hinit < NGX_HASH_ELT_SIZE name + 8) names"

definition hash_size :: "ngx_hash_init_t \<Rightarrow> ngx_hash_key_t list \<Rightarrow> nat" where
  "hash_size hinit names =
     hash_size_search (hash_start hinit (length names)) (hi_max_size hinit) (hash_room hinit) names"

lemma hash_size_range: "hash_ok hinit c names \<Longrightarrow> 0 < hash_size hinit names \<and> hash_size hinit names \<le> hi_max_size hinit"
  using hash_size_search_range [of "hash_start hinit (length names)" "hi_max_size hinit" "hash_room hinit" names] hash_start_pos [of hinit "length names"]
  by (auto simp: hash_size_def hash_ok_def)

text \<open>A table built is laid out, filled and ended; nothing else of the memory has changed.\<close>

definition built :: "nat \<Rightarrow> nat \<Rightarrow> nat \<Rightarrow> ngx_hash_key_t list \<Rightarrow> memory \<Rightarrow> ngx_hash_t \<Rightarrow> memory \<Rightarrow> bool" where
  "built a e sz names m hash m' \<longleftrightarrow>
     h_size hash = sz \<and> length (h_buckets hash) = sz \<and>
     (\<forall>i < sz. case h_buckets hash ! i of
        None \<Rightarrow> bucket_elts sz i names = []
      | Some b \<Rightarrow> 8 dvd b \<and> elts_size (bucket_elts sz i names) < 65536 \<and> chunk m' b (bucket_elts sz i names) \<and>
          holds m' (b + elts_size (bucket_elts sz i names)) (ptr_cells 0)) \<and>
     (\<forall>x. x < a \<or> e \<le> x \<longrightarrow> m' x = m x)"

lemma hash_fill_built:
  assumes l: "layout a e bs ts" and r: "roomy sz bs ts names" and sz: "0 < sz"
  shows "\<exists>test' m'. hash_fill sz bs names (replicate sz 0) m = Some (test', m') \<and>
    built a e sz names m \<lparr>h_buckets = bs, h_size = sz\<rparr> (hash_end bs test' m')"
proof -
  obtain test' m' where f: "hash_fill sz bs names (replicate sz 0) m = Some (test', m')" "filled sz bs names test' m'"
      "\<And>x. x < a \<or> e \<le> x \<Longrightarrow> m' x = m x"
    using hash_fill_filled [OF l _ filled_empty sz, of names m] r by auto
  have lb: "length bs = sz" using layout_length [OF l] r by (simp add: roomy_def)
  have "case bs ! i of
        None \<Rightarrow> bucket_elts sz i names = []
      | Some b \<Rightarrow> 8 dvd b \<and> elts_size (bucket_elts sz i names) < 65536 \<and> chunk (hash_end bs test' m') b (bucket_elts sz i names) \<and>
          holds (hash_end bs test' m') (b + elts_size (bucket_elts sz i names)) (ptr_cells 0)" if i: "i < sz" for i
  proof (cases "bs ! i")
    case None
    then show ?thesis using r i by (simp add: roomy_def)
  next
    case (Some b)
    have "elts_size (bucket_elts sz i names) < 65536" using roomyD [OF r i Some] by simp
    then show ?thesis using filled_ends [OF l r f(2) i Some] layout_nth [OF l _ Some] i lb Some by simp
  qed
  moreover have "hash_end bs test' m' x = m x" if "x < a \<or> e \<le> x" for x
    using hash_end_outside [OF l r f(2) that] f(3) [OF that] by simp
  ultimately show ?thesis using f(1) lb unfolding built_def by auto
qed

lemma built_find:
  assumes b: "built a e sz names m hash m'" "0 < sz"
    and v: "list_all (\<lambda>n. \<forall>s. hk_key n = Some s \<longrightarrow> hk_value n \<noteq> 0) names"
    and h: "list_all (\<lambda>n. \<forall>s. hk_key n = Some s \<longrightarrow> hk_hash n = ngx_hash_key_lc s) names"
  shows "ngx_hash_find m' hash (ngx_hash_key name) name =
    Some (map_option hk_value (find (\<lambda>n. map_option ngx_strlow (hk_key n) = Some name) names))"
proof -
  define i where "i = unat (ngx_hash_key name) mod sz"
  have i: "i < sz" using b(2) by (simp add: i_def)
  have f: "map_option fst (find (\<lambda>e. snd e = name) (bucket_elts sz i names)) =
      map_option hk_value (find (\<lambda>n. map_option ngx_strlow (hk_key n) = Some name) names)"
    by (rule bucket_find [OF i_def [symmetric] h]) simp
  show ?thesis
  proof (cases "h_buckets hash ! i")
    case None
    then have "bucket_elts sz i names = []" using b(1) i by (auto simp: built_def split: option.splits)
    then show ?thesis using f b(1) None i by (simp add: ngx_hash_find_def built_def i_def [symmetric])
  next
    case (Some q)
    have q: "8 dvd q" "elts_size (bucket_elts sz i names) < 65536" "chunk m' q (bucket_elts sz i names)"
        "holds m' (q + elts_size (bucket_elts sz i names)) (ptr_cells 0)"
      using b(1) i Some unfolding built_def by (auto split: option.splits dest!: spec [of _ i])
    have "list_all (\<lambda>e. fst e \<noteq> 0 \<and> length (snd e) < 65536) (bucket_elts sz i names)"
      using bucket_all [of "\<lambda>v s. v \<noteq> 0" names sz i] v elts_length [OF q(2)] by (simp add: list_all_iff)
    from hash_elts_chunk [OF q(1,3) mem_ptr_holds [OF q(4)] this] show ?thesis
      using f b Some by (simp add: ngx_hash_find_def built_def i_def [symmetric])
  qed
qed


lemma hash_init_eq:
  "ngx_hash_init c alloc hinit names m =
     (if \<not> hash_ok hinit c names \<or> \<not> hm_test alloc then Some (NGX_ERROR, None)
      else if hash_room hinit div 16 = 0 then None
      else case hash_sizes (hash_size hinit names) (65536 - c) names (replicate (hash_size hinit names) 8) of
        None \<Rightarrow> Some (NGX_ERROR, None)
      | Some test \<Rightarrow>
          if \<not> hm_buckets alloc then Some (NGX_ERROR, None)
          else case hm_elts alloc (hash_len (hash_align c test) + c) of
            None \<Rightarrow> Some (NGX_ERROR, None)
          | Some elts \<Rightarrow>
              map_option (\<lambda>(test', m'). (NGX_OK, Some (\<lparr>h_buckets = hash_place (ngx_align elts c) (hash_align c test), h_size = hash_size hinit names\<rparr>,
                  hash_end (hash_place (ngx_align elts c) (hash_align c test)) test' m')))
                (hash_fill (hash_size hinit names) (hash_place (ngx_align elts c) (hash_align c test)) names
                  (replicate (hash_size hinit names) 0) m))"
proof (cases "hash_ok hinit c names")
  case True
  then show ?thesis unfolding ngx_hash_init_def hash_size_def Let_def by (simp add: hash_ok_def)
next
  case False
  then show ?thesis by (auto simp: ngx_hash_init_def hash_ok_def)
qed

lemma hash_init_cases:
  assumes "ngx_hash_init c alloc hinit names m = Some (NGX_OK, Some (hash, m'))"
  obtains test0 elts where "hash_ok hinit c names"
    "hash_sizes (hash_size hinit names) (65536 - c) names (replicate (hash_size hinit names) 8) = Some test0"
    "hm_elts alloc (hash_len (hash_align c test0) + c) = Some elts"
    "map_option (\<lambda>(test', m'). (NGX_OK, Some (\<lparr>h_buckets = hash_place (ngx_align elts c) (hash_align c test0), h_size = hash_size hinit names\<rparr>,
          hash_end (hash_place (ngx_align elts c) (hash_align c test0)) test' m')))
        (hash_fill (hash_size hinit names) (hash_place (ngx_align elts c) (hash_align c test0)) names
          (replicate (hash_size hinit names) 0) m) = Some (NGX_OK, Some (hash, m'))"
  using assms unfolding hash_init_eq by (simp split: if_splits option.splits)

text \<open>C37. What \<open>ngx_hash_init\<close> builds, \<open>ngx_hash_find\<close> searches: a table built gives, for every name with its key, the
  value of the first entry of the configuration whose lower-cased key is the name, and \<open>NULL\<close> if there is none; the search
  returns and reads only what was written. Building writes only into the block allocated for the elements.\<close>

theorem hash_table_lookup:
  assumes "cacheline_ok c" "ngx_hash_init c alloc hinit names m = Some (NGX_OK, Some (hash, m'))"
    and "list_all (\<lambda>n. \<forall>s. hk_key n = Some s \<longrightarrow> hk_value n \<noteq> 0) names"
    and "list_all (\<lambda>n. \<forall>s. hk_key n = Some s \<longrightarrow> hk_hash n = ngx_hash_key_lc s) names"
  shows "ngx_hash_find m' hash (ngx_hash_key name) name =
      Some (map_option hk_value (find (\<lambda>n. map_option ngx_strlow (hk_key n) = Some name) names)) \<and>
    (\<exists>block len. hm_elts alloc len = Some block \<and> (\<forall>x. x < block \<or> block + len \<le> x \<longrightarrow> m' x = m x))"
proof -
  define sz where "sz = hash_size hinit names"
  obtain test0 elts where t: "hash_ok hinit c names" "hash_sizes sz (65536 - c) names (replicate sz 8) = Some test0"
      "hm_elts alloc (hash_len (hash_align c test0) + c) = Some elts"
      "map_option (\<lambda>(test', m'). (NGX_OK, Some (\<lparr>h_buckets = hash_place (ngx_align elts c) (hash_align c test0), h_size = sz\<rparr>,
            hash_end (hash_place (ngx_align elts c) (hash_align c test0)) test' m')))
          (hash_fill sz (hash_place (ngx_align elts c) (hash_align c test0)) names (replicate sz 0) m) = Some (NGX_OK, Some (hash, m'))"
    unfolding sz_def using assms(2) by (rule hash_init_cases)
  define a where "a = ngx_align elts c"
  note cl = cacheline [OF assms(1)]
  have al: "elts \<le> a" "a < elts + c" "8 dvd a" using align_bounds [of c elts] cl unfolding a_def by (auto intro: dvd_trans)
  have sz: "0 < sz" using hash_size_range [OF t(1)] by (simp add: sz_def)
  define bs where "bs = hash_place a (hash_align c test0)"
  define len where "len = hash_len (hash_align c test0)"
  obtain test' m1 where f: "hash_fill sz bs names (replicate sz 0) m = Some (test', m1)"
      "built a (a + len) sz names m \<lparr>h_buckets = bs, h_size = sz\<rparr> (hash_end bs test' m1)"
    using hash_layout [OF assms(1) sz t(2) refl al(3)] hash_fill_built [of a "a + len" bs "hash_align c test0" sz names m] sz
    unfolding bs_def [symmetric] len_def [symmetric] by auto
  have b: "built a (a + len) sz names m hash m'"
    using t(4) f unfolding a_def [symmetric] bs_def [symmetric] by simp
  have "\<forall>x. x < elts \<or> elts + (len + c) \<le> x \<longrightarrow> m' x = m x"
    using b al(1,2) by (auto simp: built_def)
  then show ?thesis using built_find [OF b sz assms(3,4)] t(3) unfolding len_def by blast
qed

lemma hash_sizes_some:
  assumes "limit < 65536" "length test = sz" "0 < sz" "\<forall>i < sz. test ! i \<le> limit"
  shows "hash_sizes sz limit names test \<noteq> None \<longleftrightarrow> (\<forall>i < sz. test ! i + elts_size (bucket_elts sz i names) \<le> limit)"
  using assms
proof (induction names arbitrary: test)
  case (Cons n names)
  show ?case
  proof (cases "hk_key n")
    case None
    then show ?thesis using Cons.IH [of test] Cons.prems by simp
  next
    case (Some name)
    define key where "key = unat (hk_hash n) mod sz"
    define len where "len = test ! key + NGX_HASH_ELT_SIZE name"
    have key: "key < sz" using Cons.prems(3) unfolding key_def by simp
    show ?thesis
    proof (cases "len \<le> limit")
      case True
      have "hash_sizes sz limit names (test[key := len]) \<noteq> None \<longleftrightarrow>
          (\<forall>i < sz. test[key := len] ! i + elts_size (bucket_elts sz i names) \<le> limit)"
        using Cons.prems True key by (intro Cons.IH) (auto simp: nth_list_update)
      moreover have "test[key := len] ! i + elts_size (bucket_elts sz i names) = test ! i + elts_size (bucket_elts sz i (n # names))"
        if "i < sz" for i
        using Some key that Cons.prems(2) by (auto simp: nth_list_update len_def key_def [symmetric])
      ultimately show ?thesis
        using Some True Cons.prems(1) by (simp add: Let_def key_def [symmetric] len_def [symmetric])
    next
      case False
      have "elts_size (bucket_elts sz key (n # names)) \<ge> NGX_HASH_ELT_SIZE name"
        using Some by (simp add: key_def)
      then have "\<not> (\<forall>i < sz. test ! i + elts_size (bucket_elts sz i (n # names)) \<le> limit)"
        using False key unfolding len_def by (intro notI) (drule spec [of _ key], linarith)
      then show ?thesis using Some False by (simp add: Let_def key_def [symmetric] len_def [symmetric])
    qed
  qed
qed simp

text \<open>The table fits in buckets of \<open>limit\<close> bytes.\<close>

definition fits :: "nat \<Rightarrow> nat \<Rightarrow> ngx_hash_key_t list \<Rightarrow> bool" where
  "fits sz limit names \<longleftrightarrow> (\<forall>i < sz. elts_size (bucket_elts sz i names) \<le> limit)"

lemma hash_size_search_least:
  assumes "room < 65536" "0 < sz"
  shows "hash_size_search sz max_size room names =
    (case find (\<lambda>k. fits k room names) [sz..<max_size + 1] of Some k \<Rightarrow> k | None \<Rightarrow> max_size)"
  using assms
proof (induction sz max_size room names rule: hash_size_search.induct)
  case (1 sz max_size room names)
  have "hash_sizes sz room names (replicate sz 0) \<noteq> None \<longleftrightarrow> fits sz room names"
    using 1(2,3) hash_sizes_some [of room "replicate sz 0" sz names] by (simp add: fits_def)
  then show ?case
    using 1 by (subst hash_size_search.simps) (auto simp: upt_conv_Cons split: option.splits)
qed


lemma hash_size_least:
  assumes "hash_ok hinit c names" "24 \<le> hi_bucket_size hinit"
  shows "hash_room hinit = hi_bucket_size hinit - 8"
    and "hash_size hinit names =
      (case find (\<lambda>k. fits k (hi_bucket_size hinit - 8) names) [hash_start hinit (length names)..<hi_max_size hinit + 1] of
        Some k \<Rightarrow> k | None \<Rightarrow> hi_max_size hinit)"
proof -
  have b: "hi_bucket_size hinit < 2 ^ 64" "hi_bucket_size hinit - 8 < 65536" using assms(1) by (auto simp: hash_ok_def)
  have "(of_nat (hi_bucket_size hinit) - 8 :: ngx_uint_t) = of_nat (hi_bucket_size hinit - 8)" using assms(2) by simp
  then show room: "hash_room hinit = hi_bucket_size hinit - 8"
    using b(1) by (simp add: hash_room_def unsigned_of_nat take_bit_nat_eq_self)
  show "hash_size hinit names =
      (case find (\<lambda>k. fits k (hi_bucket_size hinit - 8) names) [hash_start hinit (length names)..<hi_max_size hinit + 1] of
        Some k \<Rightarrow> k | None \<Rightarrow> hi_max_size hinit)"
    unfolding hash_size_def using hash_size_search_least [OF _ hash_start_pos] b(2) by (simp add: room)
qed

text \<open>With memory and buckets of at least 24 bytes, a table is refused exactly when an argument or a name is out of
  range or some bucket outgrows 64 KB less a cache line; otherwise it has the first size, from the start the code computes, at which
  every bucket fits the configured size, or the maximal size if there is none.\<close>

theorem hash_init_outcome:
  assumes "cacheline_ok c" "24 \<le> hi_bucket_size hinit" "hm_test alloc" "hm_buckets alloc" "\<And>n. hm_elts alloc n \<noteq> None"
    and sz: "sz = (case find (\<lambda>k. fits k (hi_bucket_size hinit - 8) names) [hash_start hinit (length names)..<hi_max_size hinit + 1] of
        Some k \<Rightarrow> k | None \<Rightarrow> hi_max_size hinit)"
  shows "if hash_ok hinit c names \<and> fits sz (65536 - c - 8) names
    then \<exists>hash m'. ngx_hash_init c alloc hinit names m = Some (NGX_OK, Some (hash, m')) \<and> h_size hash = sz
    else ngx_hash_init c alloc hinit names m = Some (NGX_ERROR, None)"
proof (cases "hash_ok hinit c names")
  case True
  note ls = hash_size_least [OF True assms(2)]
  have s: "hash_size hinit names = sz" using ls(2) sz by simp
  have pos: "0 < sz" using hash_size_range [OF True] s by simp
  have room: "\<not> hash_room hinit div 16 = 0" using assms(2) by (simp add: ls(1))
  have cl: "8 \<le> 65536 - c" "65536 - c < 65536" using cacheline [OF assms(1)] by linarith+
  have f: "hash_sizes sz (65536 - c) names (replicate sz 8) \<noteq> None \<longleftrightarrow> fits sz (65536 - c - 8) names"
    using hash_sizes_some [OF cl(2), of "replicate sz 8" sz names] pos cl(1) by (auto simp: fits_def le_diff_conv2 add.commute)
  show ?thesis
  proof (cases "hash_sizes sz (65536 - c) names (replicate sz 8)")
    case None
    then show ?thesis using f True room assms(3) unfolding hash_init_eq s by simp
  next
    case (Some test0)
    define bs where "bs elts = hash_place (ngx_align elts c) (hash_align c test0)" for elts
    obtain elts where e: "hm_elts alloc (hash_len (hash_align c test0) + c) = Some elts" using assms(5) by blast
    have "8 dvd ngx_align elts c" using align_bounds(3) [of c elts] cacheline [OF assms(1)] by (auto intro: dvd_trans)
    from hash_layout [OF assms(1) pos Some refl this] obtain test' m' where
      "hash_fill sz (bs elts) names (replicate sz 0) m = Some (test', m')"
      using hash_fill_built [of _ _ "bs elts" _ sz names m] pos unfolding bs_def by blast
    then show ?thesis
      using f True room assms(3,4) Some e unfolding hash_init_eq s by (simp add: bs_def)
  qed
next
  case False
  then show ?thesis unfolding hash_init_eq by simp
qed

definition sample_names :: "ngx_hash_key_t list" where
  "sample_names = [\<lparr>hk_key = Some [0x41, 0x62], hk_hash = ngx_hash_key_lc [0x41, 0x62], hk_value = 5\<rparr>,
     \<lparr>hk_key = None, hk_hash = 0, hk_value = 0\<rparr>,
     \<lparr>hk_key = Some [0x61, 0x42], hk_hash = ngx_hash_key_lc [0x61, 0x42], hk_value = 6\<rparr>]"

definition sample_memory :: hash_memory where
  "sample_memory = \<lparr>hm_test = True, hm_buckets = True, hm_elts = (\<lambda>n. Some 1000)\<rparr>"

definition sample_init :: ngx_hash_init_t where
  "sample_init = \<lparr>hi_max_size = 4, hi_bucket_size = 64\<rparr>"

lemma cacheline_64: "cacheline_ok 64"
  unfolding cacheline_ok_def by (rule exI [of _ 6]) simp

lemma sample_size: "n < 65536 \<Longrightarrow> hash_sizes (Suc 0) n sample_names [t] = (if t + 32 > n then None else Some [(t + 32) mod 65536])"
  by (simp add: sample_names_def NGX_HASH_ELT_SIZE_def ngx_align_def Let_def)

lemma sample_room: "hash_room sample_init = 56"
  by (simp add: hash_room_def sample_init_def)

lemma sample_start: "hash_start sample_init (length sample_names) = Suc 0" "hi_max_size sample_init = 4"
  by (simp_all add: hash_start_def Let_def sample_room) (simp_all add: sample_init_def sample_names_def)

lemma sample_search: "hash_size sample_init sample_names = Suc 0"
  by (simp add: hash_size_def hash_size_search.simps [of "Suc 0"] sample_start sample_room sample_size)

lemma sample_ok: "hash_ok sample_init 64 sample_names"
  by (simp add: hash_ok_def sample_init_def sample_names_def NGX_HASH_ELT_SIZE_def ngx_align_def)

lemma sample_built:
  "\<exists>hash m'. ngx_hash_init 64 sample_memory sample_init sample_names (\<lambda>_. None) = Some (NGX_OK, Some (hash, m'))"
  unfolding hash_init_eq sample_search
  by (simp add: sample_size sample_ok sample_room sample_memory_def hash_align_def ngx_align_def hash_len_def)
    (simp add: sample_names_def Let_def)

lemma hash_table_lookup_witness:
  "case ngx_hash_init 64 sample_memory sample_init sample_names (\<lambda>_. None) of
    Some (NGX_OK, Some (hash, m')) \<Rightarrow> ngx_hash_find m' hash (ngx_hash_key [0x61, 0x62]) [0x61, 0x62] = Some (Some 5)
  | _ \<Rightarrow> False"
proof -
  obtain hash m' where i: "ngx_hash_init 64 sample_memory sample_init sample_names (\<lambda>_. None) = Some (NGX_OK, Some (hash, m'))"
    using sample_built by blast
  have "ngx_hash_find m' hash (ngx_hash_key [0x61, 0x62]) [0x61, 0x62] =
      Some (map_option hk_value (find (\<lambda>n. map_option ngx_strlow (hk_key n) = Some [0x61, 0x62]) sample_names))"
    using hash_table_lookup [OF cacheline_64 i, of "[0x61, 0x62]"] by (simp add: sample_names_def)
  also have "\<dots> = Some (Some 5)" by (simp add: sample_names_def ngx_tolower_def)
  finally show ?thesis unfolding i by simp
qed

lemma hash_init_outcome_witness:
  "\<exists>hash m'. ngx_hash_init 64 sample_memory sample_init sample_names (\<lambda>_. None) = Some (NGX_OK, Some (hash, m')) \<and> h_size hash = 1"
proof -
  have fit: "fits (Suc 0) n sample_names \<longleftrightarrow> 32 \<le> n" for n
    by (simp add: fits_def sample_names_def NGX_HASH_ELT_SIZE_def ngx_align_def)
  have "hash_ok sample_init 64 sample_names" by (rule sample_ok)
  moreover have s: "(1::nat) = (case find (\<lambda>k. fits k (hi_bucket_size sample_init - 8) sample_names)
      [hash_start sample_init (length sample_names)..<hi_max_size sample_init + 1] of Some k \<Rightarrow> k | None \<Rightarrow> hi_max_size sample_init)"
    unfolding sample_start by (simp add: fit upt_conv_Cons sample_init_def)
  moreover have "fits 1 (65536 - 64 - 8) sample_names" by (simp add: fit)
  moreover have "24 \<le> hi_bucket_size sample_init" "hm_test sample_memory" "hm_buckets sample_memory" "\<And>n. hm_elts sample_memory n \<noteq> None"
    by (simp_all add: sample_init_def sample_memory_def)
  ultimately show ?thesis
    using hash_init_outcome [OF cacheline_64, of sample_init sample_memory 1 sample_names "\<lambda>_. None"] by (simp only: if_True simp_thms)
qed

end
