(* ===== verification/Spec2Isabelle.thy ===== *)
theory Spec2Isabelle
  imports Ngx_Number Ngx_Base64 Ngx_Escape Ngx_Strcmp Ngx_Hash Ngx_Request_Line Ngx_Header_Line Ngx_Status_Line
    Ngx_Chunked Ngx_Complex_Uri Ngx_Uri Ngx_Queue Ngx_Posted Ngx_Lock Ngx_Round_Robin
    Ngx_Location Ngx_Location_Tree Ngx_Find_Location Ngx_Radix Ngx_Printf Ngx_Time
    Ngx_Inet Ngx_Inet6 Ngx_Cidr Ngx_Hash_Table
begin

text \<open>
  A verification development for the C core of nginx 1.24.0 as this repository keeps it. Paths below are relative to
  \<open>src/chapter_1/Nginx/nginx-1.24.0/src\<close>.

  \<^bold>\<open>The program.\<close> nginx is a set of worker processes, each an event loop over non-blocking sockets, that share memory with one
  another. A request goes through the parts that are modelled here in this order: the request line and the header lines are
  parsed as their bytes arrive (\<open>http/ngx_http_parse.c\<close>), the URI is normalised, the location whose configuration applies is
  found in a tree built from the configuration (\<open>http/ngx_http.c\<close>, \<open>http/ngx_http_core_module.c\<close>), a chunked body is
  decoded (\<open>http/ngx_http_request_body.c\<close>), a peer of an upstream is chosen
  (\<open>http/ngx_http_upstream_round_robin.c\<close>) and the status line of its answer is parsed. Below that lie strings and
  numbers (\<open>core/ngx_string.c\<close>, \<open>core/ngx_times.c\<close>, \<open>core/ngx_parse_time.c\<close>), addresses and networks (\<open>core/ngx_inet.c\<close>),
  containers (\<open>core/ngx_queue.c\<close>, \<open>core/ngx_radix_tree.c\<close>, \<open>core/ngx_hash.c\<close>), the queues of posted events (\<open>event/ngx_event_posted.c\<close>) and the locks
  between processes (\<open>core/ngx_rwlock.c\<close>, \<open>core/ngx_shmtx.c\<close>).

  \<^bold>\<open>Conventions\<close> (\<open>Ngx_Prelude\<close>). A \<open>u_char\<close> is an \<open>8 word\<close>; a pointer with a length, an \<open>ngx_str_t\<close> and the part of a
  buffer between \<open>pos\<close> and \<open>last\<close> are lists of bytes, and a pointer into them an offset or the list still ahead. \<open>ngx_uint_t\<close> and
  \<open>uint64_t\<close> values on which wrap-around matters are \<open>64 word\<close>s, signed ones are integers wrapped by \<open>s64\<close> at each operation
  that could leave their range. Return codes are the datatype \<open>ngx_rc\<close>; a null pointer, an error without a code and a read that C
  leaves undefined are \<open>None\<close>. Structures are records with the fields of the source, in its order, and a function is one
  definition, composed of one definition for each case of a switch or loop body where it has one. The statements
  \<open>dprintf(trace_file_fd, ...)\<close> that this repository adds write a trace and have no counterpart. The platform is a 64-bit Unix,
  without the branches for Windows.

  \<^bold>\<open>Theories, code and lemmas.\<close>

  \<^item> \<open>Ngx_Parser\<close>: the loop and switch that the parsers of \<open>http/ngx_http_parse.c\<close> share. A parser is a step function on its state,
    the request and the byte at \<open>p\<close>; the locale \<open>resumable\<close> says that a step looks at nothing else and proves that a parser
    gives the same result for every way of cutting its input; \<open>resumable_call\<close> adds the code before and after the loop.
  \<^item> \<open>Ngx_Request_Line\<close>, \<open>Ngx_Header_Line\<close>, \<open>Ngx_Status_Line\<close>: \<open>ngx_http_parse_request_line\<close>, \<open>ngx_http_parse_header_line\<close> and
    \<open>ngx_http_parse_status_line\<close>, one definition for each case of their switches, with the fields of the request they set and the
    locals they save. For each: independence of the cuts; an invariant along the parse from which every accepted line has
    ordered offsets and the restrictions the code means to enforce; acceptance of the well-formed lines (for request lines: those with
    an absolute path, alone or after scheme and host).
  \<^item> \<open>Ngx_Complex_Uri\<close>: \<open>ngx_http_parse_complex_uri\<close>; the output never holds dot segments, a NUL or, when slashes are merged, a
    double slash, and never outgrows the input. \<open>Ngx_Uri\<close>: the other URI and argument functions of the file.
  \<^item> \<open>Ngx_Chunked\<close>: \<open>ngx_http_parse_chunked\<close> and \<open>ngx_http_request_body_chunked_filter\<close>; a byte-at-a-time decoder is the
    specification the filter refines, and every chunk encoding of a body, in every sequence of buffers, is decoded to it.
  \<^item> \<open>Ngx_Number\<close>, \<open>Ngx_Printf\<close>, \<open>Ngx_Time\<close>: the number readers, \<open>ngx_vslprintf\<close> with every flag and conversion, calendar time, the
    dates printed in headers and cookies and their reader. Bounds of every write and read, the exact effect of a short buffer,
    round trips from printing to reading, and Gauss' formula against counting days.
  \<^item> \<open>Ngx_Inet\<close>, \<open>Ngx_Inet6\<close>, \<open>Ngx_Cidr\<close>: the functions of \<open>core/ngx_inet.c\<close> that read, print, compare and match IPv4 and IPv6
    addresses, addresses with ports and networks. What is printed is read back, but for the addresses the reader confuses with its
    error value; a network keeps exactly the bits of its prefix and matches exactly the addresses that share them.
  \<^item> \<open>Ngx_Base64\<close>, \<open>Ngx_Escape\<close>, \<open>Ngx_Strcmp\<close>, \<open>Ngx_Hash\<close>: the rest of \<open>core/ngx_string.c\<close> and the key functions of
    \<open>core/ngx_hash.c\<close>. The locales \<open>base64_alphabet\<close>, \<open>two_pass_escape\<close>, \<open>escape_codec\<close> and \<open>three_way\<close> state what callers rely
    on, each interpreted on all of its instances in the code.
  \<^item> \<open>Ngx_Hash_Table\<close>: \<open>ngx_hash_init\<close> and \<open>ngx_hash_find\<close> over a memory of bytes, in which reading what was not written is an
    error; a table built is searched as the list of its entries, and is refused exactly when the code's limits say so. A bucket size below
    24 makes the code divide by zero, which is the undefined outcome.
  \<^item> \<open>Ngx_Queue\<close>: \<open>core/ngx_queue.h\<close> and \<open>.c\<close> on a store of links; the predicate \<open>queue\<close> relates a header to the list it holds, and
    every macro acts as an operation on that list (locale \<open>linked_queue\<close>); sorting returns, sorts and is stable.
    \<open>Ngx_Posted\<close>: posted events over that store.
  \<^item> \<open>Ngx_Lock\<close>: both locks as transition systems whose steps are single accesses to shared memory by any process; exclusion by
    an inductive invariant (locale \<open>inductive_invariant\<close>) and the absence of lost wake-ups.
  \<^item> \<open>Ngx_Round_Robin\<close>: peers, groups, choosing and giving back; fairness over a cycle, the choice rule, backup groups and the
    bounds of the weights.
  \<^item> \<open>Ngx_Location\<close>, \<open>Ngx_Location_Tree\<close>, \<open>Ngx_Find_Location\<close>: from the queue of locations of the configuration to the tree,
    the search in it, and the search across nested locations and regular expressions. The specification of the search is a
    direct reading of the configuration: exact match, then the longest prefix.
  \<^item> \<open>Ngx_Radix\<close>: the trees for 32-bit and 128-bit addresses as maps from networks; the locale \<open>radix_width\<close> carries the laws that
    both widths share.

  \<^bold>\<open>Loops and fuel.\<close> Loops are structural recursions or functions with a termination proof. Where the code may run forever
  the model is a \<open>partial_function (option)\<close>: the loop over the buffer of the chunked filter (\<open>ck_buf_loop\<close>), the middle element and
  the sort of a queue (\<open>middle_loop\<close>, \<open>sort_back\<close>, \<open>sort_loop\<close>), the processing of posted events, the recursion of
  \<open>ngx_http_core_find_location\<close> and the preallocation of a radix tree (\<open>radix_prefill\<close>). That they return, under the condition
  they need, is part of the properties. There is no fuel; the arguments \<open>avail\<close> of allocating functions count the nodes that
  memory can still give, so that running out of memory is a branch like any other.

  \<^bold>\<open>Assumptions.\<close> Semaphore calls succeed. Fewer than \<open>2 ^ 64 - 1\<close> processes share a reader-writer lock and fewer than
  \<open>2 ^ 62\<close> a mutex. Event handlers, the PCRE library (\<open>ngx_http_regex_exec\<close>) and the arithmetic of a \<open>double\<close> are arguments. Names of
  locations are shorter than 65536 bytes and have no NUL, and a location that redirects to its name with a slash ends with one, as
  the configuration parser ensures. Memory that \<open>ngx_sprintf\<close> and \<open>ngx_sock_ntop\<close>
  write to lies below \<open>2 ^ 62\<close>, as user memory does. The size of
  a cache line is a power of two.

  \<^bold>\<open>Not modelled.\<close> The event loop, connections, processes and signals are calls into the kernel; TLS is calls into OpenSSL. The life
  cycle of a request (\<open>http/ngx_http_request.c\<close>, \<open>http/ngx_http_upstream.c\<close>) is event handlers over these, with the parsers
  and containers above as the parts that compute. HTTP/2, the filters and content modules, mail and stream are further
  protocols on the same core. The red-black tree of the timers, the
  wildcard tables of \<open>core/ngx_hash.c\<close>, \<open>ngx_parse_url\<close> and the resolving of host names are left out. Memory pools and slabs are address arithmetic that the other parts see as success or failure of an
  allocation. The configuration parser and its directives are glue. The re-implementation under \<open>src/chapter_1/night\<close> is a study copy
  beside the server.
\<close>

end
